(* ===== verification/Prelude.thy ===== *)
theory Prelude
  imports Main "HOL-Library.Word" "HOL-Library.Signed_Division"
begin

text \<open>
  The vocabulary every component of the development shares.

  \<^item> Faults.  A failing \<^verbatim>\<open>ASSERT\<close> aborts the process, and so does every operation that C++
    leaves undefined and the kernel can reach (an index outside an array, a null pointer, a
    signed overflow, a division that traps).  Such an operation has the type
    \<open>'a res = fault + 'a\<close>: \<open>Inl\<close> names what went wrong, \<open>Inr\<close> is the normal result.
  \<^item> Arrays are lists indexed by C++ integers (\<open>aget\<close>, \<open>aput\<close>), with the bounds written out.
  \<^item> Counted loops: \<open>for_range\<close> is \<^verbatim>\<open>for (i = lo; i < hi; i++) body\<close> and \<open>search\<close> is a
    counted loop that leaves at the first index passing a test.  Both come with the rules
    the components use (an invariant rule, and what the two outcomes of a search mean).
\<close>

unbundle bit_operations_syntax

named_theorems res_simps \<open>evaluation rules of the fault monad\<close>

section \<open>Faults\<close>

datatype fault =
    AssertFail      \<comment> \<open>\<^verbatim>\<open>ASSERT\<close> / \<^verbatim>\<open>ASSERTNOTREACHED\<close> (\<^verbatim>\<open>lib/debug.h\<close>)\<close>
  | BadIndex        \<comment> \<open>an array element outside the array\<close>
  | NullDeref       \<comment> \<open>a field of a null or dangling pointer\<close>
  | SignedOverflow  \<comment> \<open>a signed operation whose result the type cannot hold\<close>
  | OutOfFuel       \<comment> \<open>a pointer walk that does not end\<close>
  | BadAlloc        \<comment> \<open>\<^verbatim>\<open>new\<close> of a negative number of elements\<close>
  | Blocked         \<comment> \<open>a wait that nothing will end\<close>

type_synonym 'a res = "fault + 'a"

definition rbind :: "'a res \<Rightarrow> ('a \<Rightarrow> 'b res) \<Rightarrow> 'b res" where
  "rbind m f = (case m of Inl e \<Rightarrow> Inl e | Inr x \<Rightarrow> f x)"

definition assert :: "bool \<Rightarrow> unit res" where
  "assert c = (if c then Inr () else Inl AssertFail)"

lemma rbind_Inr [simp, res_simps]: "rbind (Inr x) f = f x"
  by (simp add: rbind_def)

lemma rbind_Inl [simp, res_simps]: "rbind (Inl e) f = Inl e"
  by (simp add: rbind_def)

lemma rbind_right_unit [simp]: "rbind m Inr = m"
  by (cases m) simp_all

lemma rbind_assoc: "rbind (rbind m f) g = rbind m (\<lambda>x. rbind (f x) g)"
  by (cases m) simp_all

lemma rbind_eq_Inr: "rbind m f = Inr y \<longleftrightarrow> (\<exists>x. m = Inr x \<and> f x = Inr y)"
  by (cases m) simp_all

lemma rbindE: "rbind r f = Inr y \<Longrightarrow> (\<And>x. r = Inr x \<Longrightarrow> f x = Inr y \<Longrightarrow> P) \<Longrightarrow> P"
  by (auto simp: rbind_eq_Inr)

lemma rbind_cong [fundef_cong]:
  "m = m' \<Longrightarrow> (\<And>x. m' = Inr x \<Longrightarrow> f x = f' x) \<Longrightarrow> rbind m f = rbind m' f'"
  by (cases m') simp_all

lemma assert_True [simp, res_simps]: "assert True = Inr ()"
  by (simp add: assert_def)

lemma assert_False [simp, res_simps]: "assert False = Inl AssertFail"
  by (simp add: assert_def)

lemma assert_eq_Inr [simp]: "assert c = Inr u \<longleftrightarrow> c"
  by (simp add: assert_def)

lemma rbind_assert [simp]: "rbind (assert c) f = (if c then f () else Inl AssertFail)"
  by simp

section \<open>Arrays\<close>

definition aget :: "'a list \<Rightarrow> int \<Rightarrow> 'a res" where
  "aget xs i = (if 0 \<le> i \<and> i < int (length xs) then Inr (xs ! nat i) else Inl BadIndex)"

definition aput :: "'a list \<Rightarrow> int \<Rightarrow> 'a \<Rightarrow> 'a list res" where
  "aput xs i v = (if 0 \<le> i \<and> i < int (length xs) then Inr (xs[nat i := v]) else Inl BadIndex)"

lemma aget_in [simp]: "0 \<le> i \<Longrightarrow> i < int (length xs) \<Longrightarrow> aget xs i = Inr (xs ! nat i)"
  by (simp add: aget_def)

lemma aput_in [simp]: "0 \<le> i \<Longrightarrow> i < int (length xs) \<Longrightarrow> aput xs i v = Inr (xs[nat i := v])"
  by (simp add: aput_def)

lemma aget_eq_Inr: "aget xs i = Inr x \<longleftrightarrow> 0 \<le> i \<and> i < int (length xs) \<and> x = xs ! nat i"
  by (auto simp: aget_def)

lemma aput_eq_Inr:
  "aput xs i v = Inr ys \<longleftrightarrow> 0 \<le> i \<and> i < int (length xs) \<and> ys = xs[nat i := v]"
  by (auto simp: aput_def)

section \<open>Counted loops\<close>

function for_range :: "int \<Rightarrow> int \<Rightarrow> (int \<Rightarrow> 's \<Rightarrow> 's res) \<Rightarrow> 's \<Rightarrow> 's res" where
  "for_range i hi body s =
     (if i < hi then rbind (body i s) (for_range (i + 1) hi body) else Inr s)"
  by pat_completeness auto
termination
  by (relation "measure (\<lambda>(i, hi, body, s). nat (hi - i))") auto

declare for_range.simps [simp del]

lemma for_range_end [simp]: "hi \<le> i \<Longrightarrow> for_range i hi body s = Inr s"
  by (simp add: for_range.simps)

lemma for_range_step:
  "i < hi \<Longrightarrow> for_range i hi body s = rbind (body i s) (for_range (i + 1) hi body)"
  by (simp add: for_range.simps [of i])

lemma for_range_cong:
  assumes "\<And>i s. lo \<le> i \<Longrightarrow> i < hi \<Longrightarrow> body i s = body' i s"
  shows "for_range lo hi body s = for_range lo hi body' s"
  using assms
proof (induction lo hi body s rule: for_range.induct)
  case (1 i hi body s)
  show ?case
  proof (cases "i < hi")
    case True
    then have "body i s = body' i s" using 1(2) by simp
    moreover have "for_range (i + 1) hi body t = for_range (i + 1) hi body' t" if "body i s = Inr t" for t
      using 1(2) by (intro 1(1) [OF True that]) auto
    ultimately show ?thesis
      using True by (cases "body' i s") (simp_all add: for_range_step)
  qed simp
qed

lemma for_range_split:
  "lo \<le> mid \<Longrightarrow> mid \<le> hi \<Longrightarrow>
   for_range lo hi body s = rbind (for_range lo mid body s) (for_range mid hi body)"
proof (induction lo hi body s rule: for_range.induct)
  case (1 i hi body s)
  show ?case
  proof (cases "i < mid")
    case True
    then have "i < hi" using 1(3) by simp
    then show ?thesis
      using True 1 by (cases "body i s") (simp_all add: for_range_step)
  next
    case False
    with 1(2) have "i = mid" by simp
    then show ?thesis by simp
  qed
qed

text \<open>Total correctness: an invariant the body keeps without a fault holds at the end.\<close>

lemma for_range_rule:
  assumes "lo \<le> hi" and "I lo s"
    and "\<And>i s. lo \<le> i \<Longrightarrow> i < hi \<Longrightarrow> I i s \<Longrightarrow> \<exists>s'. body i s = Inr s' \<and> I (i + 1) s'"
  shows "\<exists>s'. for_range lo hi body s = Inr s' \<and> I hi s'"
  using assms
proof (induction lo hi body s rule: for_range.induct)
  case (1 i hi body s)
  show ?case
  proof (cases "i < hi")
    case True
    with 1(3,4) obtain s' where s': "body i s = Inr s'" "I (i + 1) s'"
      by blast
    have "\<exists>t. for_range (i + 1) hi body s' = Inr t \<and> I hi t"
      using True s' "1.prems"(3) by (intro "1.IH") auto
    with True s'(1) show ?thesis by (simp add: for_range_step)
  next
    case False
    with "1.prems" have "i = hi" by simp
    with "1.prems" show ?thesis by simp
  qed
qed

text \<open>Partial correctness, for loops that may fault.\<close>

lemma for_range_inv:
  assumes "for_range lo hi body s = Inr t" and "lo \<le> hi" and "I lo s"
    and "\<And>i s s'. lo \<le> i \<Longrightarrow> i < hi \<Longrightarrow> I i s \<Longrightarrow> body i s = Inr s' \<Longrightarrow> I (i + 1) s'"
  shows "I hi t"
  using assms
proof (induction lo hi body s rule: for_range.induct)
  case (1 i hi body s)
  show ?case
  proof (cases "i < hi")
    case True
    with "1.prems"(1) obtain s' where s': "body i s = Inr s'"
      "for_range (i + 1) hi body s' = Inr t"
      by (auto simp: for_range_step rbind_eq_Inr)
    have "I (i + 1) s'"
      using "1.prems"(3,4) True s'(1) by auto
    with True s' show ?thesis
      using "1.prems"(4) by (intro "1.IH" [OF True s'(1,2)]) auto
  next
    case False
    with "1.prems" show ?thesis by (simp add: for_range.simps)
  qed
qed

text \<open>The first index in \<open>[i, hi)\<close> at which a test succeeds.\<close>

function search :: "int \<Rightarrow> int \<Rightarrow> (int \<Rightarrow> bool res) \<Rightarrow> int option res" where
  "search i hi p =
     (if i < hi then rbind (p i) (\<lambda>b. if b then Inr (Some i) else search (i + 1) hi p)
      else Inr None)"
  by pat_completeness auto
termination
  by (relation "measure (\<lambda>(i, hi, p). nat (hi - i))") auto

declare search.simps [simp del]


lemma search_cases:
  assumes "\<And>i. lo \<le> i \<Longrightarrow> i < hi \<Longrightarrow> p i = Inr (q i)"
  obtains (found) i where "search lo hi p = Inr (Some i)" "lo \<le> i" "i < hi" "q i"
      "\<And>j. lo \<le> j \<Longrightarrow> j < i \<Longrightarrow> \<not> q j"
  | (missing) "search lo hi p = Inr None" "\<And>j. lo \<le> j \<Longrightarrow> j < hi \<Longrightarrow> \<not> q j"
proof -
  have "(\<exists>i. search lo hi p = Inr (Some i) \<and> lo \<le> i \<and> i < hi \<and> q i \<and>
            (\<forall>j. lo \<le> j \<longrightarrow> j < i \<longrightarrow> \<not> q j)) \<or>
        (search lo hi p = Inr None \<and> (\<forall>j. lo \<le> j \<longrightarrow> j < hi \<longrightarrow> \<not> q j))"
    using assms
  proof (induction lo hi p rule: search.induct)
    case (1 i hi p)
    show ?case
    proof (cases "i < hi")
      case False
      then show ?thesis by (auto simp: search.simps [of i])
    next
      case True
      with "1.prems" have pi: "p i = Inr (q i)" by simp
      show ?thesis
      proof (cases "q i")
        case True
        with pi \<open>i < hi\<close> show ?thesis by (auto simp: search.simps [of i])
      next
        case False
        have step: "search i hi p = search (i + 1) hi p"
          using pi False \<open>i < hi\<close> by (simp add: search.simps [of i])
        have split: "\<And>j. i \<le> j \<longleftrightarrow> j = i \<or> i + 1 \<le> j" by auto
        have "(\<exists>k. search (i + 1) hi p = Inr (Some k) \<and> i + 1 \<le> k \<and> k < hi \<and> q k \<and>
            (\<forall>j. i + 1 \<le> j \<longrightarrow> j < k \<longrightarrow> \<not> q j)) \<or>
          (search (i + 1) hi p = Inr None \<and> (\<forall>j. i + 1 \<le> j \<longrightarrow> j < hi \<longrightarrow> \<not> q j))"
          using True False pi "1.prems" by (intro "1.IH" [of False]) auto
        with False step show ?thesis unfolding split by auto
      qed
    qed
  qed
  with that show ?thesis by blast
qed

section \<open>Integer division of \<^verbatim>\<open>lib/utility.h\<close>\<close>

text \<open>C++ division truncates towards zero, which is \<open>sdiv\<close> and \<open>smod\<close> on \<open>int\<close>.\<close>

definition divRoundDown :: "int \<Rightarrow> int \<Rightarrow> int" where
  "divRoundDown n s = n sdiv s"

definition divRoundUp :: "int \<Rightarrow> int \<Rightarrow> int" where
  "divRoundUp n s = n sdiv s + (if n smod s > 0 then 1 else 0)"

lemma sdiv_nonneg [simp]: "0 \<le> n \<Longrightarrow> 0 < s \<Longrightarrow> n sdiv s = n div (s :: int)"
  by (cases "n = 0") (simp_all add: signed_divide_int_def)

lemma smod_nonneg [simp]: "0 \<le> n \<Longrightarrow> 0 < s \<Longrightarrow> n smod s = n mod (s :: int)"
  by (cases "n = 0") (simp_all add: signed_modulo_int_def)

lemma divRoundUp_bounds:
  assumes "0 \<le> n" "0 < s"
  shows "n \<le> divRoundUp n s * s" "divRoundUp n s * s < n + s" "0 \<le> divRoundUp n s"
proof -
  have eq: "n div s * s + n mod s = n" and m: "0 \<le> n mod s" "n mod s < s"
    using assms by auto
  have q: "divRoundUp n s * s = n div s * s + (if n mod s > 0 then s else 0)"
    using assms by (simp add: divRoundUp_def algebra_simps)
  have "0 \<le> n div s" using assms by (simp add: pos_imp_zdiv_nonneg_iff)
  then show "0 \<le> divRoundUp n s" using assms by (simp add: divRoundUp_def)
  have "n \<le> divRoundUp n s * s \<and> divRoundUp n s * s < n + s"
  proof (cases "0 < n mod s")
    case True
    then have "divRoundUp n s * s = n div s * s + s" by (simp add: q)
    with eq m True show ?thesis by linarith
  next
    case False
    then have "divRoundUp n s * s = n div s * s" by (simp add: q)
    with eq m False assms(2) show ?thesis by linarith
  qed
  then show "n \<le> divRoundUp n s * s" "divRoundUp n s * s < n + s" by simp_all
qed

lemma less_divRoundUp:
  assumes "0 \<le> i" "i < n" "0 < s"
  shows "i div s < divRoundUp n s"
proof -
  have "i div s * s \<le> i" using assms by (simp add: minus_mod_eq_div_mult [symmetric])
  also have "i < divRoundUp n s * s" using divRoundUp_bounds(1) [of n s] assms by simp
  finally show ?thesis using assms by simp
qed

section \<open>Lists\<close>

lemma distinct_concat_nth:
  assumes "\<And>i. i < length xss \<Longrightarrow> distinct (xss ! i)"
    and "\<And>i j. i < j \<Longrightarrow> j < length xss \<Longrightarrow> set (xss ! i) \<inter> set (xss ! j) = {}"
  shows "distinct (concat xss)"
  using assms
proof (induction xss)
  case (Cons xs xss)
  have "distinct (concat xss)"
    using Cons.prems(1) [of "Suc i" for i] Cons.prems(2) [of "Suc i" "Suc j" for i j]
    by (intro Cons.IH) auto
  moreover have "set xs \<inter> set (concat xss) = {}"
    using Cons.prems(2) [of 0 "Suc j" for j] by (fastforce simp: in_set_conv_nth [of _ xss])
  ultimately show ?case using Cons.prems(1) [of 0] by simp
qed simp

lemma nth_take_drop: "k < length (take n (drop m xs)) \<Longrightarrow> take n (drop m xs) ! k = xs ! (m + k)"
  by (cases "m \<le> length xs") auto

text \<open>A list cut into blocks of equal length.\<close>

lemma concat_take_blocks: "\<forall>b \<in> set bs. length b = m \<Longrightarrow> concat (take k bs) = take (k * m) (concat bs)"
proof (induction bs arbitrary: k)
  case (Cons b bs)
  then show ?case by (cases k) auto
qed simp

lemma concat_drop_blocks: "\<forall>b \<in> set bs. length b = m \<Longrightarrow> concat (drop k bs) = drop (k * m) (concat bs)"
proof (induction bs arbitrary: k)
  case (Cons b bs)
  then show ?case by (cases k) auto
qed simp

lemma length_concat_blocks: "\<forall>b \<in> set bs. length b = m \<Longrightarrow> length (concat bs) = m * length bs"
  by (induction bs) auto

lemma nth_concat_blocks:
  assumes "\<forall>b \<in> set bs. length b = m" "k < m * length bs"
  shows "concat bs ! k = bs ! (k div m) ! (k mod m)"
  using assms
proof (induction bs arbitrary: k)
  case (Cons b bs)
  then have m: "0 < m" and b: "length b = m" by (auto intro: gr0I)
  show ?case
  proof (cases "k < m")
    case True
    then show ?thesis using b by (simp add: nth_append)
  next
    case False
    then have "k div m = Suc ((k - m) div m)" "k mod m = (k - m) mod m"
      using m by (simp_all add: le_div_geq le_mod_geq not_less)
    moreover have "concat bs ! (k - m) = bs ! ((k - m) div m) ! ((k - m) mod m)"
      using False Cons.prems by (intro Cons.IH) auto
    ultimately show ?thesis using False b by (simp add: nth_append)
  qed
qed simp

text \<open>\<^verbatim>\<open>bcopy(ys, &xs[off], length ys)\<close>: overwrite a part of a buffer.\<close>

definition splice_at :: "nat \<Rightarrow> 'a list \<Rightarrow> 'a list \<Rightarrow> 'a list" where
  "splice_at off ys xs = take off xs @ ys @ drop (off + length ys) xs"

lemma length_splice_at [simp]: "off + length ys \<le> length xs \<Longrightarrow> length (splice_at off ys xs) = length xs"
  by (simp add: splice_at_def)

lemma nth_splice_at:
  assumes "off + length ys \<le> length xs" "k < length xs"
  shows "splice_at off ys xs ! k = (if off \<le> k \<and> k < off + length ys then ys ! (k - off) else xs ! k)"
proof -
  consider "k < off" | "off \<le> k" "k < off + length ys" | "off + length ys \<le> k" by linarith
  then show ?thesis
  proof cases
    case 2
    then have "k - off < length ys" by linarith
    with 2 assms show ?thesis by (simp add: splice_at_def nth_append)
  next
    case 3
    then have "off + length ys + (k - off - length ys) = k" "\<not> k - off < length ys" by simp_all
    with 3 assms show ?thesis by (simp add: splice_at_def nth_append)
  qed (use assms in \<open>simp_all add: splice_at_def nth_append\<close>)
qed

lemma splice_at_same: "off + length ys \<le> length xs \<Longrightarrow> take (length ys) (drop off (splice_at off ys xs)) = ys"
  by (simp add: splice_at_def)

lemma splice_at_apart:
  assumes "off + length ys \<le> length xs" "b + n \<le> off \<or> off + length ys \<le> b"
  shows "take n (drop b (splice_at off ys xs)) = take n (drop b xs)"
proof (rule nth_equalityI)
  fix k assume "k < length (take n (drop b (splice_at off ys xs)))"
  then have "k < n" "b + k < length xs" using assms by auto
  with assms show "take n (drop b (splice_at off ys xs)) ! k = take n (drop b xs) ! k"
    by (auto simp: nth_splice_at)
qed (use assms in simp)

section \<open>Simulation\<close>

text \<open>
  A component that implements a contract: \<open>step\<close> executes one operation on the concrete state,
  \<open>spec\<close> on the abstract one; both return an observation.  \<open>run\<close> executes a sequence of
  operations and collects the observations.
\<close>

primrec run :: "('op \<Rightarrow> 's \<Rightarrow> ('out \<times> 's) res) \<Rightarrow> 'op list \<Rightarrow> 's \<Rightarrow> ('out list \<times> 's) res" where
  "run step [] s = Inr ([], s)"
| "run step (op # ops) s =
     rbind (step op s) (\<lambda>(out, s). rbind (run step ops s) (\<lambda>(outs, s). Inr (out # outs, s)))"

lemma rel_sum_rbind:
  assumes "rel_sum (=) R m n" "\<And>x y. R x y \<Longrightarrow> rel_sum (=) S (f x) (g y)"
  shows "rel_sum (=) S (rbind m f) (rbind n g)"
  using assms by (auto elim!: rel_sum.cases)

locale simulation =
  fixes rel :: "'s \<Rightarrow> 't \<Rightarrow> bool"
    and step :: "'op \<Rightarrow> 's \<Rightarrow> ('out \<times> 's) res"
    and spec :: "'op \<Rightarrow> 't \<Rightarrow> ('out \<times> 't) res"
  assumes step_refines: "rel s t \<Longrightarrow> rel_sum (=) (rel_prod (=) rel) (step op s) (spec op t)"
begin

lemma run_refines: "rel s t \<Longrightarrow> rel_sum (=) (rel_prod (=) rel) (run step ops s) (run spec ops t)"
proof (induction ops arbitrary: s t)
  case (Cons op ops)
  from step_refines [OF Cons.prems] show ?case
    by (auto intro!: rel_sum_rbind Cons.IH)
qed simp

text \<open>So no client can tell the two apart: same observations, same faults.\<close>

lemma run_observations:
  assumes "rel s t"
  shows "map_sum id fst (run step ops s) = map_sum id fst (run spec ops t)"
  using run_refines [OF assms, of ops] by (auto elim!: rel_sum.cases)

end

end
