(* ===== verification/NList.thy ===== *)
theory NList
  imports Prelude "HOL-Library.Multiset"
begin

text \<open>
  The linked lists of \<^verbatim>\<open>lib/list.cc\<close>, twice.  The first half is the code: list elements in a
  heap of cells, \<^verbatim>\<open>first\<close>/\<^verbatim>\<open>last\<close> pointers, a count, and pointer walks.  A walk carries fuel
  (the number of cells ever allocated, \<open>brk\<close>), so that running round a cycle is the fault
  \<open>OutOfFuel\<close> and never an assumption.  The second half is the contract the rest of the kernel
  uses, \<open>List_*\<close> on plain HOL lists with the same assertions, and the proof that every pointer
  operation refines it (\<open>repr\<close> relates a heap list to the sequence it holds).
\<close>

section \<open>Cells and pointers\<close>

record 'a elem =
  item :: 'a
  nxt :: "nat option"       \<comment> \<open>the field \<^verbatim>\<open>next\<close>; \<open>None\<close> is \<^verbatim>\<open>NULL\<close>\<close>

type_synonym 'a heap = "nat \<rightharpoonup> 'a elem"

record 'a plist =
  heap :: "'a heap"
  brk :: nat                \<comment> \<open>the next address the allocator hands out\<close>
  first :: "nat option"
  last_ptr :: "nat option"  \<comment> \<open>the field \<^verbatim>\<open>last\<close>\<close>
  numInList :: int

definition deref :: "'a heap \<Rightarrow> nat option \<Rightarrow> 'a elem res" where
  "deref h p = (case p of None \<Rightarrow> Inl NullDeref
     | Some a \<Rightarrow> (case h a of None \<Rightarrow> Inl NullDeref | Some e \<Rightarrow> Inr e))"

definition ListElement_new :: "'a plist \<Rightarrow> 'a \<Rightarrow> nat \<times> 'a plist" where
  "ListElement_new l itm =
     (brk l, l\<lparr>heap := (heap l)(brk l \<mapsto> \<lparr>item = itm, nxt = None\<rparr>), brk := Suc (brk l)\<rparr>)"

text \<open>The assignment \<^verbatim>\<open>p->next = q\<close>.\<close>

definition set_next :: "nat option \<Rightarrow> nat option \<Rightarrow> 'a plist \<Rightarrow> 'a plist res" where
  "set_next p q l =
     rbind (deref (heap l) p) (\<lambda>e. Inr (l\<lparr>heap := (heap l)(the p \<mapsto> e\<lparr>nxt := q\<rparr>)\<rparr>))"

definition delete_elem :: "nat option \<Rightarrow> 'a plist \<Rightarrow> 'a plist" where
  "delete_elem p l = (case p of None \<Rightarrow> l | Some a \<Rightarrow> l\<lparr>heap := (heap l)(a := None)\<rparr>)"

definition PList_new :: "'a plist" where
  "PList_new = \<lparr>heap = Map.empty, brk = 0, first = None, last_ptr = None, numInList = 0\<rparr>"

definition PList_IsEmpty :: "'a plist \<Rightarrow> bool" where
  "PList_IsEmpty l = (numInList l = 0)"

section \<open>The operations of \<^verbatim>\<open>List<T>\<close>\<close>

fun walk_in :: "nat \<Rightarrow> 'a heap \<Rightarrow> nat option \<Rightarrow> 'a \<Rightarrow> bool res" where
  "walk_in _ h None x = Inr False"
| "walk_in 0 h (Some a) x = Inl OutOfFuel"
| "walk_in (Suc n) h (Some a) x =
     rbind (deref h (Some a)) (\<lambda>e. if x = item e then Inr True else walk_in n h (nxt e) x)"

definition PList_IsInList :: "'a plist \<Rightarrow> 'a \<Rightarrow> bool res" where
  "PList_IsInList l x = walk_in (brk l) (heap l) (first l) x"

text \<open>
  \<^verbatim>\<open>Append\<close> and \<^verbatim>\<open>Prepend\<close> differ only in how the new element is linked to a non-empty list:
  \<open>link element\<close> is that step.
\<close>

definition add_elem :: "(nat \<Rightarrow> 'a plist \<Rightarrow> 'a plist res) \<Rightarrow> 'a plist \<Rightarrow> 'a \<Rightarrow> 'a plist res" where
  "add_elem link l x =
     (let (element, l) = ListElement_new l x in
      rbind (PList_IsInList l x) (\<lambda>b. rbind (assert (\<not> b)) (\<lambda>_.
      rbind (if PList_IsEmpty l
             then Inr (l\<lparr>first := Some element, last_ptr := Some element\<rparr>)
             else link element l) (\<lambda>l.
      let l = l\<lparr>numInList := numInList l + 1\<rparr> in
      rbind (PList_IsInList l x) (\<lambda>b. rbind (assert b) (\<lambda>_. Inr l))))))"

definition PList_Append :: "'a plist \<Rightarrow> 'a \<Rightarrow> 'a plist res" where
  "PList_Append = add_elem (\<lambda>element l.
     rbind (set_next (last_ptr l) (Some element) l) (\<lambda>l. Inr (l\<lparr>last_ptr := Some element\<rparr>)))"

definition PList_Prepend :: "'a plist \<Rightarrow> 'a \<Rightarrow> 'a plist res" where
  "PList_Prepend = add_elem (\<lambda>element l.
     rbind (set_next (Some element) (first l) l) (\<lambda>l. Inr (l\<lparr>first := Some element\<rparr>)))"

definition PList_Front :: "'a plist \<Rightarrow> 'a res" where
  "PList_Front l = rbind (deref (heap l) (first l)) (\<lambda>e. Inr (item e))"

definition PList_RemoveFront :: "'a plist \<Rightarrow> ('a \<times> 'a plist) res" where
  "PList_RemoveFront l =
     (let element = first l in
      rbind (assert (\<not> PList_IsEmpty l)) (\<lambda>_.
      rbind (deref (heap l) (first l)) (\<lambda>e.
      let thing = item e in
      rbind (if first l = last_ptr l then Inr (l\<lparr>first := None, last_ptr := None\<rparr>)
             else rbind (deref (heap l) element) (\<lambda>e. Inr (l\<lparr>first := nxt e\<rparr>))) (\<lambda>l.
      Inr (thing, delete_elem element (l\<lparr>numInList := numInList l - 1\<rparr>))))))"

text \<open>
  The search of \<^verbatim>\<open>Remove\<close>: it returns the pair \<^verbatim>\<open>(prev, ptr)\<close> at which the loop breaks, or
  \<open>None\<close> when \<^verbatim>\<open>ptr\<close> runs off the list.
\<close>

fun walk_remove :: "nat \<Rightarrow> 'a heap \<Rightarrow> nat option \<Rightarrow> nat option \<Rightarrow> 'a \<Rightarrow>
    (nat option \<times> nat option) option res" where
  "walk_remove _ h prev None x = Inr None"
| "walk_remove 0 h prev (Some a) x = Inl OutOfFuel"
| "walk_remove (Suc n) h prev (Some a) x =
     rbind (deref h (Some a)) (\<lambda>e. if x = item e then Inr (Some (prev, Some a))
       else walk_remove n h (Some a) (nxt e) x)"

definition PList_Remove :: "'a plist \<Rightarrow> 'a \<Rightarrow> 'a plist res" where
  "PList_Remove l x =
     rbind (PList_IsInList l x) (\<lambda>b. rbind (assert b) (\<lambda>_.
     rbind (deref (heap l) (first l)) (\<lambda>f.
     rbind (if x = item f
            then rbind (PList_RemoveFront l) (\<lambda>(removed, l).
                 rbind (assert (x = removed)) (\<lambda>_. Inr l))
            else rbind (walk_remove (brk l) (heap l) (first l) (nxt f) x) (\<lambda>r.
                 case r of
                   None \<Rightarrow> Inl AssertFail
                 | Some (prev, ptr) \<Rightarrow>
                     rbind (deref (heap l) ptr) (\<lambda>e.
                     rbind (set_next prev (nxt e) l) (\<lambda>l.
                     let l = (if nxt e = None then l\<lparr>last_ptr := prev\<rparr> else l) in
                     let l = delete_elem ptr l in
                     Inr (l\<lparr>numInList := numInList l - 1\<rparr>))))) (\<lambda>l.
     rbind (PList_IsInList l x) (\<lambda>b. rbind (assert (\<not> b)) (\<lambda>_. Inr l))))))"

text \<open>\<^verbatim>\<open>Apply\<close> visits the items in order; the model returns the sequence visited.\<close>

fun walk_items :: "nat \<Rightarrow> 'a heap \<Rightarrow> nat option \<Rightarrow> 'a list res" where
  "walk_items _ h None = Inr []"
| "walk_items 0 h (Some a) = Inl OutOfFuel"
| "walk_items (Suc n) h (Some a) =
     rbind (deref h (Some a)) (\<lambda>e. rbind (walk_items n h (nxt e)) (\<lambda>xs. Inr (item e # xs)))"

definition PList_Apply :: "'a plist \<Rightarrow> 'a list res" where
  "PList_Apply l = walk_items (brk l) (heap l) (first l)"

text \<open>\<^verbatim>\<open>SanityCheck\<close>: the walk from \<^verbatim>\<open>first\<close> to \<^verbatim>\<open>last\<close> counting the elements.\<close>

fun walk_count :: "nat \<Rightarrow> 'a plist \<Rightarrow> nat option \<Rightarrow> int \<Rightarrow> int res" where
  "walk_count n l ptr numFound =
     (if ptr = last_ptr l then Inr numFound
      else case n of
        0 \<Rightarrow> Inl OutOfFuel
      | Suc n \<Rightarrow>
          rbind (assert (numFound + 1 \<le> numInList l)) (\<lambda>_.
          rbind (deref (heap l) ptr) (\<lambda>e. walk_count n l (nxt e) (numFound + 1))))"

declare walk_count.simps [simp del]

definition PList_SanityCheck :: "'a plist \<Rightarrow> unit res" where
  "PList_SanityCheck l =
     (if first l = None then assert (numInList l = 0 \<and> last_ptr l = None)
      else if first l = last_ptr l
      then rbind (deref (heap l) (last_ptr l)) (\<lambda>e. assert (numInList l = 1 \<and> nxt e = None))
      else rbind (walk_count (brk l) l (first l) 1) (\<lambda>numFound.
           rbind (assert (numFound = numInList l)) (\<lambda>_.
           rbind (deref (heap l) (last_ptr l)) (\<lambda>e. assert (nxt e = None)))))"

section \<open>\<^verbatim>\<open>SortedList<T>\<close>\<close>

text \<open>The loop of \<^verbatim>\<open>Insert\<close>: the element after which the item goes, or \<open>None\<close> for the end.\<close>

fun walk_insert :: "nat \<Rightarrow> ('a \<Rightarrow> 'a \<Rightarrow> int) \<Rightarrow> 'a heap \<Rightarrow> nat option \<Rightarrow> 'a \<Rightarrow> nat option res" where
  "walk_insert 0 compare h ptr x = Inl OutOfFuel"
| "walk_insert (Suc n) compare h ptr x =
     rbind (deref h ptr) (\<lambda>e.
       if nxt e = None then Inr None
       else rbind (deref h (nxt e)) (\<lambda>e'.
            if compare x (item e') < 0 then Inr ptr else walk_insert n compare h (nxt e) x))"

definition PSorted_Insert :: "('a \<Rightarrow> 'a \<Rightarrow> int) \<Rightarrow> 'a plist \<Rightarrow> 'a \<Rightarrow> 'a plist res" where
  "PSorted_Insert compare l x =
     (let (element, l) = ListElement_new l x in
      rbind (PList_IsInList l x) (\<lambda>b. rbind (assert (\<not> b)) (\<lambda>_.
      let finish = (\<lambda>l. let l = l\<lparr>numInList := numInList l + 1\<rparr> in
            rbind (PList_IsInList l x) (\<lambda>b. rbind (assert b) (\<lambda>_. Inr l))) in
      if PList_IsEmpty l then finish (l\<lparr>first := Some element, last_ptr := Some element\<rparr>)
      else rbind (deref (heap l) (first l)) (\<lambda>f.
        if compare x (item f) < 0
        then rbind (set_next (Some element) (first l) l) (\<lambda>l.
             finish (l\<lparr>first := Some element\<rparr>))
        else rbind (walk_insert (brk l) compare (heap l) (first l) x) (\<lambda>r.
          case r of
            Some p \<Rightarrow>
              rbind (deref (heap l) (Some p)) (\<lambda>e.
              rbind (set_next (Some element) (nxt e) l) (\<lambda>l.
              rbind (set_next (Some p) (Some element) l) (\<lambda>l.
              Inr (l\<lparr>numInList := numInList l + 1\<rparr>))))
          | None \<Rightarrow>
              rbind (set_next (last_ptr l) (Some element) l) (\<lambda>l.
              finish (l\<lparr>last_ptr := Some element\<rparr>)))))))"

text \<open>The loop of \<^verbatim>\<open>SortedList::SanityCheck\<close> over adjacent elements.\<close>

fun walk_sorted :: "nat \<Rightarrow> ('a \<Rightarrow> 'a \<Rightarrow> int) \<Rightarrow> 'a heap \<Rightarrow> nat option \<Rightarrow> nat option \<Rightarrow> unit res" where
  "walk_sorted _ compare h prev None = Inr ()"
| "walk_sorted 0 compare h prev (Some a) = Inl OutOfFuel"
| "walk_sorted (Suc n) compare h prev (Some a) =
     rbind (deref h prev) (\<lambda>e. rbind (deref h (Some a)) (\<lambda>e'.
     rbind (assert (compare (item e) (item e') \<le> 0)) (\<lambda>_.
     walk_sorted n compare h (Some a) (nxt e'))))"

definition PSorted_SanityCheck :: "('a \<Rightarrow> 'a \<Rightarrow> int) \<Rightarrow> 'a plist \<Rightarrow> unit res" where
  "PSorted_SanityCheck compare l =
     rbind (PList_SanityCheck l) (\<lambda>_.
     if first l \<noteq> last_ptr l
     then rbind (deref (heap l) (first l)) (\<lambda>e.
          walk_sorted (brk l) compare (heap l) (first l) (nxt e))
     else Inr ())"

section \<open>\<^verbatim>\<open>ListIterator<T>\<close>\<close>

type_synonym iter = "nat option"    \<comment> \<open>the field \<^verbatim>\<open>current\<close>\<close>

definition ListIterator_new :: "'a plist \<Rightarrow> iter" where
  "ListIterator_new l = first l"

definition ListIterator_IsDone :: "iter \<Rightarrow> bool" where
  "ListIterator_IsDone current = (current = None)"

definition ListIterator_Item :: "'a plist \<Rightarrow> iter \<Rightarrow> 'a res" where
  "ListIterator_Item l current =
     rbind (assert (\<not> ListIterator_IsDone current)) (\<lambda>_.
     rbind (deref (heap l) current) (\<lambda>e. Inr (item e)))"

definition ListIterator_Next :: "'a plist \<Rightarrow> iter \<Rightarrow> iter res" where
  "ListIterator_Next l current = rbind (deref (heap l) current) (\<lambda>e. Inr (nxt e))"

section \<open>The self tests\<close>

text \<open>
  \<^verbatim>\<open>Append\<close> and \<^verbatim>\<open>SanityCheck\<close> are virtual, so \<^verbatim>\<open>List::SelfTest\<close> run on a sorted list calls
  \<^verbatim>\<open>SortedList\<close>'s versions: \<open>Append\<close> and \<open>SanityCheck\<close> are the two entries of the dispatch table.
\<close>

definition PList_SelfTest :: "('a plist \<Rightarrow> 'a \<Rightarrow> 'a plist res) \<Rightarrow> ('a plist \<Rightarrow> unit res) \<Rightarrow>
    'a list \<Rightarrow> int \<Rightarrow> 'a plist \<Rightarrow> 'a plist res" where
  "PList_SelfTest Append SanityCheck p numEntries l =
     (let iterator = ListIterator_new l in
      rbind (SanityCheck l) (\<lambda>_.
      rbind (assert (PList_IsEmpty l \<and> first l = None)) (\<lambda>_.
      rbind (assert (ListIterator_IsDone iterator)) (\<lambda>_.
      rbind (for_range 0 numEntries (\<lambda>i l.
        rbind (aget p i) (\<lambda>x.
        rbind (Append l x) (\<lambda>l.
        rbind (PList_IsInList l x) (\<lambda>b. rbind (assert b) (\<lambda>_.
        rbind (assert (\<not> PList_IsEmpty l)) (\<lambda>_. Inr l)))))) l) (\<lambda>l.
      rbind (SanityCheck l) (\<lambda>_.
      rbind (for_range 0 numEntries (\<lambda>i l.
        rbind (aget p i) (\<lambda>x.
        rbind (PList_Remove l x) (\<lambda>l.
        rbind (PList_IsInList l x) (\<lambda>b. rbind (assert (\<not> b)) (\<lambda>_. Inr l))))) l) (\<lambda>l.
      rbind (assert (PList_IsEmpty l)) (\<lambda>_.
      rbind (SanityCheck l) (\<lambda>_. Inr l)))))))))"

definition PSorted_SelfTest :: "('a \<Rightarrow> 'a \<Rightarrow> int) \<Rightarrow> 'a list \<Rightarrow> int \<Rightarrow> 'a plist \<Rightarrow> 'a plist res" where
  "PSorted_SelfTest compare p numEntries l =
     rbind (PList_SelfTest (PSorted_Insert compare) (PSorted_SanityCheck compare) p numEntries l) (\<lambda>l.
     rbind (for_range 0 numEntries (\<lambda>i l.
       rbind (aget p i) (\<lambda>x.
       rbind (PSorted_Insert compare l x) (\<lambda>l.
       rbind (PList_IsInList l x) (\<lambda>b. rbind (assert b) (\<lambda>_. Inr l))))) l) (\<lambda>l.
     rbind (PSorted_SanityCheck compare l) (\<lambda>_.
     rbind (for_range 0 numEntries (\<lambda>i (q, l).
       rbind (PList_RemoveFront l) (\<lambda>(x, l).
       rbind (PList_IsInList l x) (\<lambda>b. rbind (assert (\<not> b)) (\<lambda>_. Inr (q @ [x], l))))) ([], l)) (\<lambda>(q, l).
     rbind (assert (PList_IsEmpty l)) (\<lambda>_.
     rbind (for_range 0 (numEntries - 1) (\<lambda>i _.
       rbind (aget q i) (\<lambda>x. rbind (aget q (i + 1)) (\<lambda>y. assert (compare x y \<le> 0)))) ()) (\<lambda>_.
     rbind (PSorted_SanityCheck compare l) (\<lambda>_. Inr l)))))))"

section \<open>The contract\<close>

definition List_Append :: "'a list \<Rightarrow> 'a \<Rightarrow> 'a list res" where
  "List_Append xs x = rbind (assert (x \<notin> set xs)) (\<lambda>_. Inr (xs @ [x]))"

definition List_Prepend :: "'a list \<Rightarrow> 'a \<Rightarrow> 'a list res" where
  "List_Prepend xs x = rbind (assert (x \<notin> set xs)) (\<lambda>_. Inr (x # xs))"

definition List_RemoveFront :: "'a list \<Rightarrow> ('a \<times> 'a list) res" where
  "List_RemoveFront xs = (case xs of [] \<Rightarrow> Inl AssertFail | x # ys \<Rightarrow> Inr (x, ys))"

definition List_Remove :: "'a list \<Rightarrow> 'a \<Rightarrow> 'a list res" where
  "List_Remove xs x =
     rbind (assert (x \<in> set xs)) (\<lambda>_.
     let ys = remove1 x xs in rbind (assert (x \<notin> set ys)) (\<lambda>_. Inr ys))"

definition Sorted_Insert :: "('a \<Rightarrow> 'a \<Rightarrow> int) \<Rightarrow> 'a list \<Rightarrow> 'a \<Rightarrow> 'a list res" where
  "Sorted_Insert compare xs x =
     rbind (assert (x \<notin> set xs)) (\<lambda>_.
     Inr (takeWhile (\<lambda>y. 0 \<le> compare x y) xs @ x # dropWhile (\<lambda>y. 0 \<le> compare x y) xs))"

section \<open>Paths through the heap\<close>

primrec path :: "'a heap \<Rightarrow> nat option \<Rightarrow> nat list \<Rightarrow> nat option \<Rightarrow> bool" where
  "path h p [] q \<longleftrightarrow> p = q"
| "path h p (a # as) q \<longleftrightarrow> p = Some a \<and> (\<exists>e. h a = Some e \<and> path h (nxt e) as q)"

definition items :: "'a heap \<Rightarrow> nat list \<Rightarrow> 'a list" where
  "items h as = map (\<lambda>a. item (the (h a))) as"

named_theorems heap_simps \<open>how paths and contents react to heap updates\<close>

lemma items_simps [heap_simps, simp]:
  "items h [] = []" "items h (a # as) = item (the (h a)) # items h as"
  "items h (as @ bs) = items h as @ items h bs"
  by (simp_all add: items_def)

lemma length_items [simp]: "length (items h as) = length as"
  by (simp add: items_def)

lemma items_eq_Nil [simp]: "items h as = [] \<longleftrightarrow> as = []" "[] = items h as \<longleftrightarrow> as = []"
  by (auto simp: items_def)

lemma path_append [heap_simps]: "path h p (as @ bs) q \<longleftrightarrow> (\<exists>r. path h p as r \<and> path h r bs q)"
  by (induction as arbitrary: p) auto

lemma path_upd [heap_simps]: "a \<notin> set as \<Longrightarrow> path (h(a := v)) p as q = path h p as q"
  by (induction as arbitrary: p) auto

lemma items_upd [heap_simps]: "a \<notin> set as \<Longrightarrow> items (h(a := v)) as = items h as"
  by (auto simp: items_def)

lemma items_upd_nxt [heap_simps]:
  "h b = Some e \<Longrightarrow> items (h(b \<mapsto> e\<lparr>nxt := q\<rparr>)) as = items h as"
  by (auto simp: items_def)

lemma path_dom: "path h p as q \<Longrightarrow> set as \<subseteq> dom h"
  by (induction as arbitrary: p) auto

lemma path_None: "path h None as q \<Longrightarrow> as = [] \<and> q = None"
  by (cases as) auto

lemma path_relink:
  assumes "path h p (bs @ [b]) r" "distinct (bs @ [b])" "h b = Some e"
  shows "path (h(b \<mapsto> e\<lparr>nxt := q\<rparr>)) p (bs @ [b]) q"
  using assms by (auto simp: path_append path_upd)

lemma deref_Some [simp]: "deref h (Some a) = (case h a of None \<Rightarrow> Inl NullDeref | Some e \<Rightarrow> Inr e)"
  by (simp add: deref_def)

lemma walk_in_path:
  "path h p as None \<Longrightarrow> length as \<le> n \<Longrightarrow> walk_in n h p x = Inr (x \<in> set (items h as))"
proof (induction as arbitrary: n p)
  case (Cons a as)
  then obtain m e where "n = Suc m" "h a = Some e" "p = Some a" "path h (nxt e) as None"
    by (cases n) auto
  with Cons show ?case by auto
qed simp

lemma walk_items_path:
  "path h p as None \<Longrightarrow> length as \<le> n \<Longrightarrow> walk_items n h p = Inr (items h as)"
proof (induction as arbitrary: n p)
  case (Cons a as)
  then obtain m e where "n = Suc m" "h a = Some e" "p = Some a" "path h (nxt e) as None"
    by (cases n) auto
  with Cons show ?case by auto
qed simp

section \<open>Which sequence a heap list holds\<close>

text \<open>
  \<open>repr_at l as xs\<close>: the cells \<open>as\<close>, in this order, are the list; they are all the cells there
  are, and \<open>xs\<close> is what they hold.
\<close>

definition repr_at :: "'a plist \<Rightarrow> nat list \<Rightarrow> 'a list \<Rightarrow> bool" where
  "repr_at l as xs \<longleftrightarrow> path (heap l) (first l) as None \<and> distinct as \<and>
     dom (heap l) = set as \<and> (\<forall>a \<in> set as. a < brk l) \<and> xs = items (heap l) as \<and>
     numInList l = int (length as) \<and> last_ptr l = (if as = [] then None else Some (last as))"

definition repr :: "'a plist \<Rightarrow> 'a list \<Rightarrow> bool" where
  "repr l xs \<longleftrightarrow> (\<exists>as. repr_at l as xs)"

lemma repr_atD:
  assumes "repr_at l as xs"
  shows "path (heap l) (first l) as None" "distinct as" "dom (heap l) = set as"
    "\<And>a. a \<in> set as \<Longrightarrow> a < brk l" "xs = items (heap l) as" "numInList l = int (length as)"
    "last_ptr l = (if as = [] then None else Some (last as))"
  using assms by (auto simp: repr_at_def)

lemma distinct_length_le: "distinct as \<Longrightarrow> \<forall>a \<in> set as. a < (n :: nat) \<Longrightarrow> length as \<le> n"
  by (metis card_lessThan card_mono distinct_card finite_lessThan lessThan_iff subsetI)

lemma repr_at_length: "repr_at l as xs \<Longrightarrow> length as \<le> brk l"
  by (auto simp: repr_at_def intro: distinct_length_le)

lemma repr_at_fresh: "repr_at l as xs \<Longrightarrow> brk l \<notin> set as"
  by (auto simp: repr_at_def)

lemma repr_at_IsInList: "repr_at l as xs \<Longrightarrow> PList_IsInList l x = Inr (x \<in> set xs)"
  using repr_at_length [of l as xs]
  by (auto simp: repr_at_def PList_IsInList_def walk_in_path)

lemma repr_at_IsEmpty: "repr_at l as xs \<Longrightarrow> PList_IsEmpty l = (xs = [])"
  by (auto simp: repr_at_def PList_IsEmpty_def)

text \<open>
  Three operations start by allocating a cell and asserting that the item is new; the cell is
  outside the list, so the walk does not see it.
\<close>

lemma alloc_IsInList:
  assumes "repr_at l as xs"
  shows "PList_IsInList (snd (ListElement_new l y)) x = Inr (x \<in> set xs)"
proof -
  let ?h = "(heap l)(brk l \<mapsto> \<lparr>item = y, nxt = None\<rparr>)"
  have "path ?h (first l) as None" "items ?h as = xs"
    using assms repr_at_fresh [OF assms] by (auto simp: repr_at_def path_upd items_upd)
  then have "walk_in (Suc (brk l)) ?h (first l) x = Inr (x \<in> set xs)"
    using repr_at_length [OF assms] walk_in_path [of ?h "first l" as "Suc (brk l)" x] by simp
  then show ?thesis by (simp add: PList_IsInList_def ListElement_new_def)
qed

lemma repr_at_new: "repr_at PList_new [] []"
  by (simp add: repr_at_def PList_new_def)

section \<open>The pointer operations refine the contract\<close>

lemma last_cell:
  assumes "repr_at l as xs" "xs \<noteq> []"
  obtains bs b e where "as = bs @ [b]" "heap l b = Some e" "nxt e = None" "last_ptr l = Some b"
    "path (heap l) (first l) (bs @ [b]) None" "b \<noteq> brk l"
proof -
  from assms have "as \<noteq> []" by (auto simp: repr_at_def)
  then obtain bs b where as: "as = bs @ [b]" by (metis rev_exhaust)
  with repr_atD(1) [OF assms(1)] obtain e where "heap l b = Some e" "nxt e = None"
    by (auto simp: path_append)
  with as repr_atD [OF assms(1)] repr_at_fresh [OF assms(1)] show ?thesis
    by (intro that [of bs b e]) auto
qed

lemma first_cell:
  assumes "repr_at l as xs" "xs \<noteq> []"
  obtains a bs e where "as = a # bs" "heap l a = Some e" "first l = Some a"
    "xs = item e # items (heap l) bs" "path (heap l) (nxt e) bs None" "a \<noteq> brk l"
proof -
  from assms obtain a bs where as: "as = a # bs" by (cases as) (auto simp: repr_at_def)
  with repr_atD(1) [OF assms(1)] obtain e where "heap l a = Some e" "path (heap l) (nxt e) bs None"
    by auto
  with as repr_atD [OF assms(1)] repr_at_fresh [OF assms(1)] show ?thesis
    by (intro that [of a bs e]) auto
qed

text \<open>Linking a fresh cell behind the last one, and in front of the first one.\<close>

lemma link_last:
  assumes r: "repr_at l as xs" and ne: "xs \<noteq> []" and l1: "l1 = snd (ListElement_new l x)"
  shows "\<exists>l2. set_next (last_ptr l1) (Some (brk l)) l1 = Inr l2 \<and>
    repr_at (l2\<lparr>last_ptr := Some (brk l), numInList := numInList l2 + 1\<rparr>) (as @ [brk l]) (xs @ [x])"
proof -
  from r ne obtain bs b e where c: "as = bs @ [b]" "heap l b = Some e" "nxt e = None"
      "last_ptr l = Some b" "path (heap l) (first l) (bs @ [b]) None" "b \<noteq> brk l"
    by (rule last_cell)
  note D = repr_atD [OF r] and fresh = repr_at_fresh [OF r]
  let ?h = "(heap l)(brk l \<mapsto> \<lparr>item = x, nxt = None\<rparr>)"
  let ?h' = "?h(b \<mapsto> e\<lparr>nxt := Some (brk l)\<rparr>)"
  have hb: "?h b = Some e" using c by simp
  have "path ?h (first l) (bs @ [b]) None" using c(1,5) fresh by (simp add: path_upd)
  then have "path ?h' (first l) (bs @ [b]) (Some (brk l))"
    using D(2) c(1) hb by (intro path_relink) auto
  moreover have "path ?h' (Some (brk l)) [brk l] None" using c(6) by simp
  ultimately have "path ?h' (first l) (as @ [brk l]) None" using c(1) path_append by blast
  moreover have "items ?h' (as @ [brk l]) = xs @ [x]"
    using D(5) fresh c(6) items_upd_nxt [of ?h b e "Some (brk l)", OF hb] by (simp add: items_upd)
  ultimately show ?thesis
    using c D fresh unfolding l1
    by (auto simp: set_next_def repr_at_def ListElement_new_def intro: less_SucI)
qed

lemma link_first:
  assumes r: "repr_at l as xs" and ne: "xs \<noteq> []" and l1: "l1 = snd (ListElement_new l x)"
  shows "\<exists>l2. set_next (Some (brk l)) (first l1) l1 = Inr l2 \<and>
    repr_at (l2\<lparr>first := Some (brk l), numInList := numInList l2 + 1\<rparr>) (brk l # as) (x # xs)"
proof -
  note D = repr_atD [OF r] and fresh = repr_at_fresh [OF r]
  have "as \<noteq> []" using ne D(5) by simp
  then show ?thesis
    using D fresh unfolding l1
    by (auto simp: set_next_def repr_at_def ListElement_new_def path_upd items_upd intro: less_SucI)
qed

lemma link_empty:
  assumes "repr_at l as []" "l1 = snd (ListElement_new l x)"
  shows "repr_at (l1\<lparr>first := Some (brk l), last_ptr := Some (brk l), numInList := numInList l1 + 1\<rparr>)
    [brk l] [x]"
  using assms by (auto simp: repr_at_def ListElement_new_def)

lemma add_elem_refines:
  assumes "repr l xs"
    and link: "\<And>as l1. repr_at l as xs \<Longrightarrow> xs \<noteq> [] \<Longrightarrow> l1 = snd (ListElement_new l x) \<Longrightarrow>
      \<exists>l2 as'. link (brk l) l1 = Inr l2 \<and> repr_at (l2\<lparr>numInList := numInList l2 + 1\<rparr>) as' ys"
    and ys: "x \<in> set ys" "xs = [] \<Longrightarrow> ys = [x]"
  shows "rel_sum (=) repr (add_elem link l x) (rbind (assert (x \<notin> set xs)) (\<lambda>_. Inr ys))"
proof -
  from assms(1) obtain as where r: "repr_at l as xs" by (auto simp: repr_def)
  define l1 where l1: "l1 = snd (ListElement_new l x)"
  have new: "ListElement_new l x = (brk l, l1)" by (simp add: l1 ListElement_new_def)
  have isin: "PList_IsInList l1 x = Inr (x \<in> set xs)"
    unfolding l1 by (rule alloc_IsInList [OF r])
  have empty: "PList_IsEmpty l1 = (xs = [])"
    using repr_at_IsEmpty [OF r] by (simp add: PList_IsEmpty_def l1 ListElement_new_def)
  obtain l2 as' where l2: "(if PList_IsEmpty l1
      then Inr (l1\<lparr>first := Some (brk l), last_ptr := Some (brk l)\<rparr>) else link (brk l) l1) = Inr l2"
    and r': "repr_at (l2\<lparr>numInList := numInList l2 + 1\<rparr>) as' ys"
  proof (cases "xs = []")
    case True
    with link_empty [OF _ l1] r ys(2) show ?thesis
      by (intro that [of "l1\<lparr>first := Some (brk l), last_ptr := Some (brk l)\<rparr>" "[brk l]"])
        (auto simp: empty)
  next
    case False
    with link [OF r _ l1] show ?thesis using that by (auto simp: empty)
  qed
  show ?thesis
    using isin l2 r' ys(1) repr_at_IsInList [OF r', of x]
    by (cases "x \<in> set xs") (auto simp: add_elem_def new repr_def)
qed

lemma Append_refines:
  assumes "repr l xs"
  shows "rel_sum (=) repr (PList_Append l x) (List_Append xs x)"
  unfolding PList_Append_def List_Append_def
proof (rule add_elem_refines [OF assms], goal_cases)
  case (1 as l1)
  from link_last [OF this] show ?case by auto
qed auto

lemma Prepend_refines:
  assumes "repr l xs"
  shows "rel_sum (=) repr (PList_Prepend l x) (List_Prepend xs x)"
  unfolding PList_Prepend_def List_Prepend_def
proof (rule add_elem_refines [OF assms], goal_cases)
  case (1 as l1)
  from link_first [OF this] show ?case by auto
qed auto

text \<open>Taking the first cell off.\<close>

lemma unlink_first:
  assumes r: "repr_at l as xs" and as: "as = a # bs" and e: "heap l a = Some e"
  shows "rel_sum (=) (rel_prod (=) repr) (PList_RemoveFront l) (List_RemoveFront xs)"
proof -
  note D = repr_atD [OF r]
  have xs: "xs = item e # items (heap l) bs" using D(5) as e by simp
  have path: "path (heap l) (nxt e) bs None" and fr: "first l = Some a" using D(1) as e by auto
  have ne: "\<not> PList_IsEmpty l" using repr_at_IsEmpty [OF r] xs by simp
  have a: "a \<notin> set bs" "distinct bs" using D(2) as by auto
  have dom: "dom ((heap l)(a := None)) = set bs" using D(3) as a by auto
  show ?thesis
  proof (cases "bs = []")
    case True
    then have "last_ptr l = Some a" using D(7) as by simp
    moreover have "nxt e = None" using path True by simp
    moreover have "repr_at (delete_elem (Some a) (l\<lparr>first := None, last_ptr := None,
        numInList := numInList l - 1\<rparr>)) [] []"
      using D dom True as by (simp add: repr_at_def delete_elem_def)
    ultimately show ?thesis
      using ne fr e xs True by (auto simp: PList_RemoveFront_def List_RemoveFront_def Let_def repr_def)
  next
    case False
    then have "last_ptr l = Some (last bs)" "last bs \<in> set bs" using D(7) as by simp_all
    with a fr have "first l \<noteq> last_ptr l" by auto
    moreover have "repr_at (delete_elem (Some a) (l\<lparr>first := nxt e,
        numInList := numInList l - 1\<rparr>)) bs (items (heap l) bs)"
      using D dom False as a path by (simp add: repr_at_def delete_elem_def path_upd items_upd)
    ultimately show ?thesis
      using ne fr e xs by (auto simp: PList_RemoveFront_def List_RemoveFront_def Let_def repr_def)
  qed
qed

lemma RemoveFront_refines:
  assumes "repr l xs"
  shows "rel_sum (=) (rel_prod (=) repr) (PList_RemoveFront l) (List_RemoveFront xs)"
proof -
  from assms obtain as where r: "repr_at l as xs" by (auto simp: repr_def)
  show ?thesis
  proof (cases "xs = []")
    case True
    with repr_at_IsEmpty [OF r] show ?thesis
      by (simp add: PList_RemoveFront_def List_RemoveFront_def Let_def)
  next
    case False
    with r show ?thesis by (metis first_cell unlink_first)
  qed
qed

text \<open>The search of \<^verbatim>\<open>Remove\<close> stops at the first cell holding the item.\<close>

lemma walk_remove_path:
  assumes "path h (Some p) (p # as) None" "length as \<le> n" "x \<in> set (items h as)"
    "h p = Some e0"
  shows "\<exists>bs b a cs. p # as = bs @ b # a # cs \<and> x \<notin> set (items h (tl (bs @ [b]))) \<and>
    item (the (h a)) = x \<and> walk_remove n h (Some p) (nxt e0) x = Inr (Some (Some b, Some a))"
  using assms
proof (induction as arbitrary: p n e0)
  case (Cons a as)
  then obtain m e where n: "n = Suc m" and a: "nxt e0 = Some a" "h a = Some e"
    and path: "path h (nxt e) as None" by (cases n) auto
  show ?case
  proof (cases "x = item e")
    case True
    with n a show ?thesis by (intro exI [of _ "[]"] exI [of _ p] exI [of _ a] exI [of _ as]) simp
  next
    case False
    obtain bs b a' cs where IH: "a # as = bs @ b # a' # cs" "x \<notin> set (items h (tl (bs @ [b])))"
        "item (the (h a')) = x" "walk_remove m h (Some a) (nxt e) x = Inr (Some (Some b, Some a'))"
      using Cons.IH [of a m e] Cons.prems n a path False by auto
    have "x \<notin> set (items h (bs @ [b]))"
      using IH(1,2) a False by (cases bs) auto
    with IH n a False show ?thesis
      by (intro exI [of _ "p # bs"] exI [of _ b] exI [of _ a'] exI [of _ cs]) simp
  qed
qed simp

text \<open>Unlinking the cell \<open>a\<close> that follows \<open>b\<close>.\<close>

lemma unlink_after:
  assumes r: "repr_at l as xs" and as: "as = bs @ b # a # cs" and a: "heap l a = Some e"
    and l2: "l2 = (let l2 = (if nxt e = None then l1\<lparr>last_ptr := Some b\<rparr> else l1) in
      let l2 = delete_elem (Some a) l2 in l2\<lparr>numInList := numInList l2 - 1\<rparr>)"
    and l1: "set_next (Some b) (nxt e) l = Inr l1"
  shows "repr_at l2 (bs @ b # cs) (items (heap l) (bs @ b # cs))"
proof -
  note D = repr_atD [OF r]
  obtain eb where b: "heap l b = Some eb" using path_dom [OF D(1)] as by force
  have dist: "distinct (bs @ [b])" "a \<notin> set (bs @ [b])" "a \<notin> set cs" "b \<notin> set cs" "distinct (bs @ b # cs)"
    using D(2) as by auto
  have p: "path (heap l) (first l) (bs @ [b]) (Some a)" "path (heap l) (nxt e) cs None"
    using D(1) as a by (auto simp: path_append)
  let ?h = "(heap l)(b \<mapsto> eb\<lparr>nxt := nxt e\<rparr>)"
  have "path ?h (first l) (bs @ [b]) (nxt e)" by (rule path_relink [OF p(1) dist(1) b])
  moreover have "path ?h (nxt e) cs None" using p(2) dist(4) by (simp add: path_upd)
  ultimately have "path ?h (first l) ((bs @ [b]) @ cs) None" using path_append by blast
  then have P: "path (?h(a := None)) (first l) (bs @ b # cs) None"
    using dist by (simp add: path_upd)
  have I: "items (?h(a := None)) (bs @ b # cs) = items (heap l) (bs @ b # cs)"
    using dist items_upd_nxt [where h = "heap l" and b = b and q = "nxt e" and as = "bs @ b # cs", OF b] items_upd [of a "bs @ b # cs" ?h None]
    by simp
  have dom: "dom (?h(a := None)) = set (bs @ b # cs)" using D(3) as dist by auto
  have fin: "nxt e = None \<longleftrightarrow> cs = []" using p(2) by (cases cs) auto
  have "l1 = l\<lparr>heap := ?h\<rparr>" using l1 b by (simp add: set_next_def)
  then have eq: "l2 = l\<lparr>heap := ?h(a := None), numInList := numInList l - 1,
      last_ptr := (if cs = [] then Some b else last_ptr l)\<rparr>"
    unfolding l2 using fin by (simp add: delete_elem_def)
  have "\<forall>x \<in> set (bs @ b # cs). x < brk l" using D(4) as by auto
  then show ?thesis
    unfolding repr_at_def eq using P I dom dist(5) D(6,7) as by simp
qed

lemma Remove_refines:
  assumes "repr l xs"
  shows "rel_sum (=) repr (PList_Remove l x) (List_Remove xs x)"
proof -
  from assms obtain as where r: "repr_at l as xs" by (auto simp: repr_def)
  note D = repr_atD [OF r]
  show ?thesis
  proof (cases "x \<in> set xs")
    case False
    then show ?thesis using repr_at_IsInList [OF r] by (simp add: PList_Remove_def List_Remove_def)
  next
    case True
    then have ne: "xs \<noteq> []" by auto
    from r ne obtain a as' e where f: "as = a # as'" "heap l a = Some e" "first l = Some a"
        "xs = item e # items (heap l) as'"
      by (rule first_cell)
    have "\<exists>l2. repr l2 (remove1 x xs) \<and> PList_Remove l x = rbind (PList_IsInList l2 x)
      (\<lambda>b. rbind (assert (\<not> b)) (\<lambda>_. Inr l2))"
    proof (cases "x = item e")
      case True
      from unlink_first [OF r f(1,2)] f(4) obtain l2 where
        "PList_RemoveFront l = Inr (item e, l2)" "repr l2 (items (heap l) as')"
        by (auto simp: List_RemoveFront_def elim!: rel_sum.cases)
      then show ?thesis
        using f True \<open>x \<in> set xs\<close> repr_at_IsInList [OF r] by (intro exI [of _ l2]) (simp add: PList_Remove_def)
    next
      case False
      obtain bs b a' cs where w: "a # as' = bs @ b # a' # cs"
          "x \<notin> set (items (heap l) (tl (bs @ [b])))" "item (the (heap l a')) = x"
          "walk_remove (brk l) (heap l) (Some a) (nxt e) x = Inr (Some (Some b, Some a'))"
        using walk_remove_path [of "heap l" a as' "brk l" x e] D(1) f repr_at_length [OF r] True False
        by auto
      have cells: "a' \<in> dom (heap l)" "b \<in> dom (heap l)" using path_dom [OF D(1)] f(1) w(1) by auto
      then obtain e' eb where e': "heap l a' = Some e'" and eb: "heap l b = Some eb" by auto
      define l1 where "l1 = l\<lparr>heap := (heap l)(b \<mapsto> eb\<lparr>nxt := nxt e'\<rparr>)\<rparr>"
      have l1: "set_next (Some b) (nxt e') l = Inr l1" using eb by (simp add: set_next_def l1_def)
      define l2 where "l2 = (let l2 = (if nxt e' = None then l1\<lparr>last_ptr := Some b\<rparr> else l1) in
        let l2 = delete_elem (Some a') l2 in l2\<lparr>numInList := numInList l2 - 1\<rparr>)"
      have "repr_at l2 (bs @ b # cs) (items (heap l) (bs @ b # cs))"
        using f(1) w(1) by (intro unlink_after [OF r _ e' l2_def l1]) simp
      moreover have "items (heap l) (bs @ b # cs) = remove1 x xs"
      proof -
        have "x \<notin> set (items (heap l) (bs @ [b]))"
          using w(1,2) f(2) False by (cases bs) auto
        then show ?thesis using f(1) w(1,3) D(5) e' by (simp add: remove1_append)
      qed
      ultimately show ?thesis
        using f False True w(4) e' l1 repr_at_IsInList [OF r]
        by (intro exI [of _ l2]) (auto simp: PList_Remove_def l2_def Let_def repr_def)
    qed
    then show ?thesis
      using True by (auto simp: List_Remove_def Let_def repr_at_IsInList repr_def)
  qed
qed

section \<open>Sorted insertion\<close>

lemma walk_insert_path:
  assumes "path h (Some p) (p # as) None" "length as < n"
  shows "walk_insert n compare h (Some p) x =
    (let low = takeWhile (\<lambda>a. 0 \<le> compare x (item (the (h a)))) as in
     Inr (if low = as then None else Some (last (p # low))))"
  using assms
proof (induction as arbitrary: p n)
  case Nil
  then show ?case by (cases n) auto
next
  case (Cons a as)
  then obtain m e0 e where n: "n = Suc m" and a: "h p = Some e0" "nxt e0 = Some a" "h a = Some e"
    and path: "path h (nxt e) as None" by (cases n) auto
  have IH: "walk_insert m compare h (Some a) x =
    (let low = takeWhile (\<lambda>a. 0 \<le> compare x (item (the (h a)))) as in
     Inr (if low = as then None else Some (last (a # low))))"
    using Cons n a path by (intro Cons.IH) auto
  show ?case using n a IH by (auto simp: Let_def not_less)
qed

text \<open>Linking a fresh cell between \<open>b\<close> and its successors.\<close>

lemma link_after:
  assumes r: "repr_at l as xs" and as: "as = bs @ b # cs" "cs \<noteq> []" and e: "heap l b = Some e"
    and l1: "l1 = snd (ListElement_new l x)"
  shows "\<exists>l2 l3. set_next (Some (brk l)) (nxt e) l1 = Inr l2 \<and>
    set_next (Some b) (Some (brk l)) l2 = Inr l3 \<and>
    repr_at (l3\<lparr>numInList := numInList l3 + 1\<rparr>) (bs @ b # brk l # cs)
      (items (heap l) (bs @ [b]) @ x # items (heap l) cs)"
proof -
  note D = repr_atD [OF r] and fresh = repr_at_fresh [OF r]
  let ?n = "brk l"
  let ?h1 = "(heap l)(?n \<mapsto> \<lparr>item = x, nxt = nxt e\<rparr>)"
  let ?h2 = "?h1(b \<mapsto> e\<lparr>nxt := Some ?n\<rparr>)"
  have nb: "b \<noteq> ?n" "?n \<notin> set (bs @ [b])" "?n \<notin> set cs" using fresh as by auto
  have dist: "distinct (bs @ [b])" "b \<notin> set cs" using D(2) as by auto
  have hb: "?h1 b = Some e" using e nb by simp
  have p: "path (heap l) (first l) (bs @ [b]) (nxt e)" "path (heap l) (nxt e) cs None"
    using D(1) as e by (auto simp: path_append)
  have "path ?h1 (first l) (bs @ [b]) (nxt e)" using p(1) nb(2) by (simp add: path_upd)
  then have "path ?h2 (first l) (bs @ [b]) (Some ?n)"
    using dist(1) hb by (intro path_relink)
  moreover have "path ?h2 (Some ?n) (?n # cs) None"
    using p(2) nb dist(2) by (simp add: path_upd)
  ultimately have "path ?h2 (first l) ((bs @ [b]) @ ?n # cs) None" using path_append by blast
  then have P: "path ?h2 (first l) (bs @ b # ?n # cs) None" by simp
  have "items ?h2 (bs @ b # ?n # cs) = items ?h1 (bs @ b # ?n # cs)"
    by (rule items_upd_nxt [where h = ?h1, OF hb])
  then have I: "items ?h2 (bs @ b # ?n # cs) = items (heap l) (bs @ [b]) @ x # items (heap l) cs"
    using nb by (simp add: items_upd)
  have dom: "dom ?h2 = set (bs @ b # ?n # cs)" "distinct (bs @ b # ?n # cs)"
    using D(2,3) as nb by auto
  have lt: "\<forall>a \<in> set (bs @ b # ?n # cs). a < Suc (brk l)" using D(4) as by (auto intro: less_SucI)
  have "set_next (Some ?n) (nxt e) l1 = Inr (l1\<lparr>heap := ?h1\<rparr>)"
    by (simp add: l1 ListElement_new_def set_next_def)
  moreover have "set_next (Some b) (Some ?n) (l1\<lparr>heap := ?h1\<rparr>) = Inr (l1\<lparr>heap := ?h2\<rparr>)"
    using hb by (simp add: set_next_def)
  moreover have "repr_at (l1\<lparr>heap := ?h2, numInList := numInList l1 + 1\<rparr>) (bs @ b # ?n # cs)
      (items (heap l) (bs @ [b]) @ x # items (heap l) cs)"
    using P I dom lt D(6,7) as unfolding l1 by (simp add: repr_at_def ListElement_new_def)
  ultimately show ?thesis by auto
qed

lemma items_takeWhile:
  "takeWhile P (items h as) = items h (takeWhile (\<lambda>a. P (item (the (h a)))) as)"
  "dropWhile P (items h as) = items h (dropWhile (\<lambda>a. P (item (the (h a)))) as)"
  by (simp_all add: items_def takeWhile_map dropWhile_map comp_def)

lemma walk_insert_alloc:
  assumes r: "repr_at l (a # as) xs" and l1: "l1 = snd (ListElement_new l x)"
  shows "walk_insert (brk l1) compare (heap l1) (Some a) x =
    (let low = takeWhile (\<lambda>a. 0 \<le> compare x (item (the (heap l a)))) as in
     Inr (if low = as then None else Some (last (a # low))))"
proof -
  have same: "heap l1 c = heap l c" if "c \<in> set as" for c
    using that repr_at_fresh [OF r] by (auto simp: l1 ListElement_new_def)
  have "first l = Some a" using repr_atD(1) [OF r] by simp
  then have "path (heap l1) (Some a) (a # as) None"
    using repr_at_fresh [OF r] repr_atD(1) [OF r] by (simp add: l1 ListElement_new_def path_upd)
  moreover have "length as < brk l1"
    using repr_at_length [OF r] by (simp add: l1 ListElement_new_def)
  moreover have "takeWhile (\<lambda>a. 0 \<le> compare x (item (the (heap l1 a)))) as =
      takeWhile (\<lambda>a. 0 \<le> compare x (item (the (heap l a)))) as"
    by (rule takeWhile_cong) (simp_all add: same)
  ultimately show ?thesis by (simp add: walk_insert_path Let_def del: path.simps)
qed

lemma link_inside:
  assumes r: "repr_at l (a # as) xs" and mid: "takeWhile P as \<noteq> as"
    and l1: "l1 = snd (ListElement_new l x)"
  shows "\<exists>e l2 l3 as'. heap l1 (last (a # takeWhile P as)) = Some e \<and>
    set_next (Some (brk l)) (nxt e) l1 = Inr l2 \<and>
    set_next (Some (last (a # takeWhile P as))) (Some (brk l)) l2 = Inr l3 \<and>
    repr_at (l3\<lparr>numInList := numInList l3 + 1\<rparr>) as'
      (items (heap l) (a # takeWhile P as) @ x # items (heap l) (dropWhile P as))"
proof -
  let ?b = "last (a # takeWhile P as)" and ?bs = "butlast (a # takeWhile P as)"
  have bs: "?bs @ [?b] = a # takeWhile P as" by (rule append_butlast_last_id) simp
  have split: "a # as = ?bs @ ?b # dropWhile P as"
    using bs by (metis append.assoc append_Cons append_Nil takeWhile_dropWhile_id)
  have ne: "dropWhile P as \<noteq> []" using mid by (metis dropWhile_eq_Nil_conv takeWhile_eq_all_conv)
  have b: "?b \<in> set (a # as)" using split by (metis in_set_conv_decomp)
  then obtain e where e: "heap l ?b = Some e" using repr_atD(3) [OF r] by blast
  moreover have "heap l1 ?b = Some e"
    using e b repr_at_fresh [OF r] by (auto simp: l1 ListElement_new_def)
  moreover note link_after [OF r split ne e l1]
  ultimately show ?thesis unfolding bs by blast
qed

lemma Sorted_Insert_refines:
  assumes "repr l xs"
  shows "rel_sum (=) repr (PSorted_Insert compare l x) (Sorted_Insert compare xs x)"
proof -
  from assms obtain as where r: "repr_at l as xs" by (auto simp: repr_def)
  note D = repr_atD [OF r]
  define l1 where l1: "l1 = snd (ListElement_new l x)"
  have new: "ListElement_new l x = (brk l, l1)" by (simp add: l1 ListElement_new_def)
  have isin: "PList_IsInList l1 x = Inr (x \<in> set xs)"
    unfolding l1 by (rule alloc_IsInList [OF r])
  have empty: "PList_IsEmpty l1 = (xs = [])"
    using repr_at_IsEmpty [OF r] by (simp add: PList_IsEmpty_def l1 ListElement_new_def)
  define ys where "ys = takeWhile (\<lambda>y. 0 \<le> compare x y) xs @ x # dropWhile (\<lambda>y. 0 \<le> compare x y) xs"
  have fin: "repr_at l' as' ys \<Longrightarrow> PList_IsInList l' x = Inr True" for l' as'
    by (simp add: repr_at_IsInList ys_def)
  have "x \<notin> set xs \<Longrightarrow> \<exists>l' as'. PSorted_Insert compare l x = Inr l' \<and> repr_at l' as' ys"
  proof (cases "xs = []")
    case True
    assume "x \<notin> set xs"
    with True link_empty [OF _ l1] r fin show ?thesis
      by (fastforce simp: PSorted_Insert_def new isin empty ys_def)
  next
    case False
    assume x: "x \<notin> set xs"
    from r False obtain a as' e where f: "as = a # as'" "heap l a = Some e" "first l = Some a"
        "xs = item e # items (heap l) as'" "path (heap l) (nxt e) as' None" "a \<noteq> brk l"
      by (rule first_cell)
    have f1: "first l1 = Some a" "heap l1 a = Some e" "brk l1 = Suc (brk l)"
      using f by (simp_all add: l1 ListElement_new_def)
    show ?thesis
    proof (cases "compare x (item e) < 0")
      case True
      then have "ys = x # xs" using f(4) by (simp add: ys_def)
      with link_first [OF r False l1] True x fin f1 show ?thesis
        by (fastforce simp: PSorted_Insert_def new isin empty False)
    next
      case low: False
      define P where "P = (\<lambda>a. 0 \<le> compare x (item (the (heap l a))))"
      have walk: "walk_insert (brk l1) compare (heap l1) (Some a) x =
          Inr (if takeWhile P as' = as' then None else Some (last (a # takeWhile P as')))"
        using walk_insert_alloc [OF r [unfolded f(1)] l1] by (simp add: P_def Let_def)
      have ys: "ys = items (heap l) (a # takeWhile P as') @ x # items (heap l) (dropWhile P as')"
        using low f(2,4) by (simp add: ys_def items_takeWhile P_def)
      show ?thesis
      proof (cases "takeWhile P as' = as'")
        case True
        then have "dropWhile P as' = []" by (metis dropWhile_eq_Nil_conv takeWhile_eq_all_conv)
        then have "ys = xs @ [x]" using ys True f(2,4) by simp
        with link_last [OF r False l1] fin x f1 low walk True show ?thesis
          by (fastforce simp: PSorted_Insert_def new isin empty False)
      next
        case mid: False
        with link_inside [OF r [unfolded f(1)] mid l1] ys x f1 low walk show ?thesis
          by (fastforce simp: PSorted_Insert_def new isin empty False)
      qed
    qed
  qed
  then show ?thesis
    using isin by (cases "x \<in> set xs")
      (auto simp: Sorted_Insert_def ys_def repr_def PSorted_Insert_def new)
qed

section \<open>Sanity checks never fail on a represented list\<close>

lemma walk_count_path:
  assumes "path (heap l) p as None" "as \<noteq> []" "distinct as" "last_ptr l = Some (last as)"
    "length as \<le> n" "k + int (length as) \<le> numInList l + 1"
  shows "walk_count n l p k = Inr (k + int (length as) - 1)"
  using assms
proof (induction as arbitrary: p n k)
  case (Cons a as)
  then obtain e where e: "p = Some a" "heap l a = Some e" "path (heap l) (nxt e) as None" by auto
  show ?case
  proof (cases "as = []")
    case True
    with Cons.prems e show ?thesis by (subst walk_count.simps) simp
  next
    case False
    then have "p \<noteq> last_ptr l" using Cons.prems e by auto
    moreover obtain m where "n = Suc m" using Cons.prems(5) by (cases n) auto
    moreover have "1 \<le> length as" using False by (cases as) auto
    ultimately show ?thesis
      using Cons e False by (subst walk_count.simps) simp
  qed
qed simp

lemma repr_SanityCheck:
  assumes "repr l xs"
  shows "PList_SanityCheck l = Inr ()"
proof -
  from assms obtain as where r: "repr_at l as xs" by (auto simp: repr_def)
  note D = repr_atD [OF r]
  show ?thesis
  proof (cases "xs = []")
    case True
    with D show ?thesis by (simp add: PList_SanityCheck_def)
  next
    case False
    from r False obtain bs b e where c: "as = bs @ [b]" "heap l b = Some e" "nxt e = None"
        "last_ptr l = Some b" by (rule last_cell) auto
    show ?thesis
    proof (cases bs)
      case Nil
      with c D show ?thesis by (simp add: PList_SanityCheck_def)
    next
      case (Cons a bs')
      with c D have "first l = Some a" "a \<noteq> b" by auto
      moreover have "walk_count (brk l) l (first l) 1 = Inr (numInList l)"
        using walk_count_path [of l "first l" as "brk l" 1] D c repr_at_length [OF r] by simp
      ultimately show ?thesis using c by (simp add: PList_SanityCheck_def)
    qed
  qed
qed

lemma walk_sorted_path:
  assumes "path h (Some p) (p # as) None" "length as \<le> n" "h p = Some e"
    "sorted_wrt (\<lambda>x y. compare x y \<le> 0) (items h (p # as))"
  shows "walk_sorted n compare h (Some p) (nxt e) = Inr ()"
  using assms
proof (induction as arbitrary: p n e)
  case (Cons a as)
  then obtain m e' where "n = Suc m" "nxt e = Some a" "h a = Some e'" "path h (nxt e') as None"
    by (cases n) auto
  with Cons show ?case by auto
qed simp

lemma repr_Sorted_SanityCheck:
  assumes "repr l xs" "sorted_wrt (\<lambda>x y. compare x y \<le> 0) xs"
  shows "PSorted_SanityCheck compare l = Inr ()"
proof -
  from assms obtain as where r: "repr_at l as xs" by (auto simp: repr_def)
  note D = repr_atD [OF r] and sane = repr_SanityCheck [OF assms(1)]
  show ?thesis
  proof (cases "xs = []")
    case True
    with D sane show ?thesis by (simp add: PSorted_SanityCheck_def)
  next
    case False
    with r obtain a bs e where f: "as = a # bs" "heap l a = Some e" "first l = Some a"
      by (rule first_cell)
    have "walk_sorted (brk l) compare (heap l) (Some a) (nxt e) = Inr ()"
      using walk_sorted_path [of "heap l" a bs "brk l" e compare] D f assms(2) repr_at_length [OF r]
      by simp
    with f sane show ?thesis by (simp add: PSorted_SanityCheck_def)
  qed
qed

section \<open>Sequences of operations\<close>

datatype 'a list_op = AppendOp 'a | PrependOp 'a | RemoveFrontOp | RemoveOp 'a | InsertOp 'a | IsInListOp 'a

datatype 'a list_out = NoOut | ItemOut 'a | BoolOut bool

primrec PList_step :: "('a \<Rightarrow> 'a \<Rightarrow> int) \<Rightarrow> 'a list_op \<Rightarrow> 'a plist \<Rightarrow> ('a list_out \<times> 'a plist) res" where
  "PList_step compare (AppendOp x) l = rbind (PList_Append l x) (\<lambda>l. Inr (NoOut, l))"
| "PList_step compare (PrependOp x) l = rbind (PList_Prepend l x) (\<lambda>l. Inr (NoOut, l))"
| "PList_step compare RemoveFrontOp l = rbind (PList_RemoveFront l) (\<lambda>(x, l). Inr (ItemOut x, l))"
| "PList_step compare (RemoveOp x) l = rbind (PList_Remove l x) (\<lambda>l. Inr (NoOut, l))"
| "PList_step compare (InsertOp x) l = rbind (PSorted_Insert compare l x) (\<lambda>l. Inr (NoOut, l))"
| "PList_step compare (IsInListOp x) l = rbind (PList_IsInList l x) (\<lambda>b. Inr (BoolOut b, l))"

primrec List_step :: "('a \<Rightarrow> 'a \<Rightarrow> int) \<Rightarrow> 'a list_op \<Rightarrow> 'a list \<Rightarrow> ('a list_out \<times> 'a list) res" where
  "List_step compare (AppendOp x) xs = rbind (List_Append xs x) (\<lambda>xs. Inr (NoOut, xs))"
| "List_step compare (PrependOp x) xs = rbind (List_Prepend xs x) (\<lambda>xs. Inr (NoOut, xs))"
| "List_step compare RemoveFrontOp xs = rbind (List_RemoveFront xs) (\<lambda>(x, xs). Inr (ItemOut x, xs))"
| "List_step compare (RemoveOp x) xs = rbind (List_Remove xs x) (\<lambda>xs. Inr (NoOut, xs))"
| "List_step compare (InsertOp x) xs = rbind (Sorted_Insert compare xs x) (\<lambda>xs. Inr (NoOut, xs))"
| "List_step compare (IsInListOp x) xs = Inr (BoolOut (x \<in> set xs), xs)"

interpretation pl: simulation repr "PList_step compare" "List_step compare" for compare
proof unfold_locales
  fix l :: "'a plist" and xs op assume r: "repr l xs"
  show "rel_sum (=) (rel_prod (=) repr) (PList_step compare op l) (List_step compare op xs)"
  proof (cases op)
    case (IsInListOp x)
    with r show ?thesis by (auto simp: repr_at_IsInList repr_def)
  qed (auto intro!: rel_sum_rbind Append_refines Prepend_refines RemoveFront_refines
      Remove_refines Sorted_Insert_refines r)
qed

section \<open>Comparison functions and the self tests\<close>

text \<open>
  What \<^verbatim>\<open>List::SelfTest\<close> needs of the two virtual operations; \<open>I\<close> is what the class keeps of the
  sequence (nothing for \<^verbatim>\<open>List\<close>, sortedness for \<^verbatim>\<open>SortedList\<close>).
\<close>

locale self_tested =
  fixes Append :: "'a plist \<Rightarrow> 'a \<Rightarrow> 'a plist res"
    and SanityCheck :: "'a plist \<Rightarrow> unit res"
    and I :: "'a list \<Rightarrow> bool"
  assumes Append_ok: "repr l xs \<Longrightarrow> I xs \<Longrightarrow> x \<notin> set xs \<Longrightarrow>
      \<exists>l' ys. Append l x = Inr l' \<and> repr l' ys \<and> I ys \<and> mset ys = add_mset x (mset xs)"
    and remove_I: "I xs \<Longrightarrow> I (remove1 x xs)"
    and Nil_I: "I []"
    and SanityCheck_ok: "repr l xs \<Longrightarrow> I xs \<Longrightarrow> SanityCheck l = Inr ()"
begin

definition holds :: "'a plist \<Rightarrow> 'a multiset \<Rightarrow> bool" where
  "holds l M \<longleftrightarrow> (\<exists>xs. repr l xs \<and> I xs \<and> mset xs = M)"

lemma append_step:
  assumes i: "0 \<le> i" "i < int (length p)" and p: "distinct p"
    and l: "holds l (mset (take (nat i) p))"
  shows "\<exists>l'. Append l (p ! nat i) = Inr l' \<and> PList_IsInList l' (p ! nat i) = Inr True \<and>
    \<not> PList_IsEmpty l' \<and> holds l' (mset (take (nat (i + 1)) p))"
proof -
  from l obtain xs where xs: "repr l xs" "I xs" "mset xs = mset (take (nat i) p)"
    by (auto simp: holds_def)
  have snoc: "take (nat (i + 1)) p = take (nat i) p @ [p ! nat i]"
    using i by (simp add: nat_add_distrib take_Suc_conv_app_nth)
  have "p ! nat i \<notin> set (take (nat i) p)"
    using p snoc distinct_take [of p "nat (i + 1)"] by simp
  then have "p ! nat i \<notin> set xs" using xs(3) by (metis set_mset_mset)
  from Append_ok [OF xs(1,2) this] obtain l' ys where l': "Append l (p ! nat i) = Inr l'"
      "repr l' ys" "I ys" "mset ys = add_mset (p ! nat i) (mset xs)" by blast
  then have y: "p ! nat i \<in> set ys" by (metis set_mset_mset union_single_eq_member)
  then have "ys \<noteq> []" by auto
  moreover have "holds l' (mset (take (nat (i + 1)) p))" using l' xs(3) snoc by (auto simp: holds_def)
  ultimately show ?thesis using l' y by (auto simp: repr_def repr_at_IsInList repr_at_IsEmpty)
qed

lemma fill_loop:
  assumes "holds l {#}" "distinct p"
  shows "\<exists>l'. for_range 0 (int (length p)) (\<lambda>i l.
        rbind (aget p i) (\<lambda>x. rbind (Append l x) (\<lambda>l.
        rbind (PList_IsInList l x) (\<lambda>b. rbind (assert b) (\<lambda>_.
        rbind (assert (\<not> PList_IsEmpty l)) (\<lambda>_. Inr l)))))) l = Inr l' \<and> holds l' (mset p)"
proof -
  let ?body = "\<lambda>i l. rbind (aget p i) (\<lambda>x. rbind (Append l x) (\<lambda>l.
        rbind (PList_IsInList l x) (\<lambda>b. rbind (assert b) (\<lambda>_.
        rbind (assert (\<not> PList_IsEmpty l)) (\<lambda>_. Inr l)))))"
  have "\<exists>l'. for_range 0 (int (length p)) ?body l = Inr l' \<and>
      holds l' (mset (take (nat (int (length p))) p))"
  proof (rule for_range_rule)
    fix i :: int and l
    assume "0 \<le> i" "i < int (length p)" "holds l (mset (take (nat i) p))"
    with append_step [OF this(1,2) assms(2) this(3)]
    show "\<exists>l'. ?body i l = Inr l' \<and> holds l' (mset (take (nat (i + 1)) p))" by auto
  qed (use assms in auto)
  then show ?thesis by simp
qed

lemma drain_loop:
  assumes "holds l (mset p)" "distinct p"
  shows "\<exists>l'. for_range 0 (int (length p)) (\<lambda>i l.
        rbind (aget p i) (\<lambda>x. rbind (PList_Remove l x) (\<lambda>l.
        rbind (PList_IsInList l x) (\<lambda>b. rbind (assert (\<not> b)) (\<lambda>_. Inr l))))) l = Inr l' \<and>
      holds l' {#}"
proof -
  let ?J = "\<lambda>i l. holds l (mset (drop (nat i) p))"
  have "\<exists>l'. for_range 0 (int (length p)) (\<lambda>i l.
        rbind (aget p i) (\<lambda>x. rbind (PList_Remove l x) (\<lambda>l.
        rbind (PList_IsInList l x) (\<lambda>b. rbind (assert (\<not> b)) (\<lambda>_. Inr l))))) l = Inr l' \<and>
      ?J (int (length p)) l'"
  proof (rule for_range_rule)
    fix i :: int and l assume i: "0 \<le> i" "i < int (length p)" and "?J i l"
    then obtain xs where xs: "repr l xs" "I xs" "mset xs = mset (drop (nat i) p)"
      by (auto simp: holds_def)
    have cons: "drop (nat i) p = p ! nat i # drop (nat (i + 1)) p"
      using i by (simp add: nat_add_distrib Cons_nth_drop_Suc)
    have "distinct xs" using xs(3) assms(2) by (metis distinct_drop mset_eq_imp_distinct_iff)
    moreover have x: "p ! nat i \<in> set xs" using xs(3) cons by (metis list.set_intros(1) set_mset_mset)
    ultimately have "p ! nat i \<notin> set (remove1 (p ! nat i) xs)" by simp
    with Remove_refines [OF xs(1), of "p ! nat i"] x obtain l' where
      l': "PList_Remove l (p ! nat i) = Inr l'" "repr l' (remove1 (p ! nat i) xs)"
      by (auto simp: List_Remove_def Let_def elim!: rel_sum.cases)
    moreover have "holds l' (mset (drop (nat (i + 1)) p))"
      using l'(2) xs(2,3) cons remove_I by (auto simp: holds_def intro!: exI [of _ "remove1 (p ! nat i) xs"])
    ultimately show "\<exists>l'. rbind (aget p i) (\<lambda>x. rbind (PList_Remove l x) (\<lambda>l.
        rbind (PList_IsInList l x) (\<lambda>b. rbind (assert (\<not> b)) (\<lambda>_. Inr l)))) = Inr l' \<and> ?J (i + 1) l'"
      using i \<open>p ! nat i \<notin> set (remove1 (p ! nat i) xs)\<close> by (auto simp: repr_def repr_at_IsInList)
  qed (use assms in auto)
  then show ?thesis by simp
qed

lemma SelfTest_passes:
  assumes "repr l []" "distinct p"
  shows "\<exists>l'. PList_SelfTest Append SanityCheck p (int (length p)) l = Inr l' \<and> repr l' []"
proof -
  have h0: "holds l {#}" using assms(1) Nil_I by (auto simp: holds_def)
  obtain l1 where l1: "for_range 0 (int (length p)) (\<lambda>i l.
        rbind (aget p i) (\<lambda>x. rbind (Append l x) (\<lambda>l.
        rbind (PList_IsInList l x) (\<lambda>b. rbind (assert b) (\<lambda>_.
        rbind (assert (\<not> PList_IsEmpty l)) (\<lambda>_. Inr l)))))) l = Inr l1" "holds l1 (mset p)"
    using fill_loop [OF h0 assms(2)] by blast
  obtain l2 where l2: "for_range 0 (int (length p)) (\<lambda>i l.
        rbind (aget p i) (\<lambda>x. rbind (PList_Remove l x) (\<lambda>l.
        rbind (PList_IsInList l x) (\<lambda>b. rbind (assert (\<not> b)) (\<lambda>_. Inr l))))) l1 = Inr l2" "holds l2 {#}"
    using drain_loop [OF l1(2) assms(2)] by blast
  have sane: "SanityCheck l = Inr ()" "SanityCheck l1 = Inr ()" "SanityCheck l2 = Inr ()"
    using h0 l1(2) l2(2) by (auto simp: holds_def intro: SanityCheck_ok)
  have "first l = None" "PList_IsEmpty l" "PList_IsEmpty l2"
    using assms(1) l2(2) by (auto simp: holds_def repr_def repr_at_def PList_IsEmpty_def)
  with l1(1) l2 sane show ?thesis
    by (auto simp: PList_SelfTest_def ListIterator_new_def ListIterator_IsDone_def holds_def)
qed

end

interpretation plain: self_tested PList_Append PList_SanityCheck "\<lambda>_. True"
proof unfold_locales
  fix l :: "'a plist" and xs x assume "repr l xs" "x \<notin> set xs"
  with Append_refines [of l xs x] obtain l' where "PList_Append l x = Inr l'" "repr l' (xs @ [x])"
    by (auto simp: List_Append_def elim!: rel_sum.cases)
  then show "\<exists>l' ys. PList_Append l x = Inr l' \<and> repr l' ys \<and> True \<and>
      mset ys = add_mset x (mset xs)"
    by (intro exI [of _ l'] exI [of _ "xs @ [x]"]) simp
qed (auto intro: repr_SanityCheck)

text \<open>The law a comparison function of a \<^verbatim>\<open>SortedList\<close> obeys: it orders its items totally.\<close>

locale comparator =
  fixes compare :: "'a \<Rightarrow> 'a \<Rightarrow> int"
  assumes flip: "compare x y \<le> 0 \<longleftrightarrow> 0 \<le> compare y x"
    and trans: "compare x y \<le> 0 \<Longrightarrow> compare y z \<le> 0 \<Longrightarrow> compare x z \<le> 0"
begin

definition ordered :: "'a list \<Rightarrow> bool" where
  "ordered xs \<longleftrightarrow> sorted_wrt (\<lambda>x y. compare x y \<le> 0) xs"

lemma ordered_insert:
  "ordered (low @ high) \<Longrightarrow> (\<And>y. y \<in> set low \<Longrightarrow> compare y x \<le> 0) \<Longrightarrow>
   (\<And>y. y \<in> set high \<Longrightarrow> compare x y < 0) \<Longrightarrow> ordered (low @ x # high)"
  by (auto simp: ordered_def sorted_wrt_append dest: less_imp_le)

text \<open>Everything before the new item is at most it, everything after is above it.\<close>

lemma insert_split:
  assumes "ordered xs" "x \<notin> set xs"
  obtains low high where "Sorted_Insert compare xs x = Inr (low @ x # high)" "xs = low @ high"
    "\<And>y. y \<in> set low \<Longrightarrow> compare y x \<le> 0" "\<And>y. y \<in> set high \<Longrightarrow> compare x y < 0"
    "ordered (low @ x # high)"
proof -
  let ?P = "\<lambda>y. 0 \<le> compare x y"
  let ?low = "takeWhile ?P xs" and ?high = "dropWhile ?P xs"
  have xs: "xs = ?low @ ?high" by simp
  have sorted: "ordered (?low @ ?high)" using assms(1) by simp
  have low: "\<And>y. y \<in> set ?low \<Longrightarrow> compare y x \<le> 0"
    using flip by (meson set_takeWhileD)
  have high: "compare x y < 0" if y: "y \<in> set ?high" for y
  proof (rule ccontr)
    assume "\<not> compare x y < 0"
    then have yx: "compare y x \<le> 0" using flip by (simp add: not_less)
    obtain z zs where zs: "?high = z # zs" using y by (cases ?high) auto
    then have z: "compare x z < 0" using hd_dropWhile [of ?P xs] by (metis list.distinct(1) list.sel(1) not_less)
    have "compare z y \<le> 0"
    proof (cases "y = z")
      case True
      with z yx flip [of y x] show ?thesis by simp
    next
      case False
      with y zs sorted show ?thesis by (auto simp: ordered_def sorted_wrt_append)
    qed
    with yx have "compare z x \<le> 0" using trans by blast
    with z flip show False by fastforce
  qed
  have "ordered (?low @ x # ?high)"
    by (rule ordered_insert [OF sorted low high])
  with that [OF _ xs low high] show ?thesis using assms(2) by (simp add: Sorted_Insert_def)
qed

lemma ordered_remove1: "ordered xs \<Longrightarrow> ordered (remove1 x xs)"
  unfolding ordered_def by (induction xs) (auto dest: notin_set_remove1 [rotated])

end

text \<open>A sorted list under such a function is self-testable, with sortedness as its invariant.\<close>

sublocale comparator \<subseteq> srt: self_tested "PSorted_Insert compare" "PSorted_SanityCheck compare" ordered
proof unfold_locales
  fix l :: "'a plist" and xs x assume r: "repr l xs" and s: "ordered xs" "x \<notin> set xs"
  from s obtain low high where "Sorted_Insert compare xs x = Inr (low @ x # high)" "xs = low @ high"
    "ordered (low @ x # high)" by (rule insert_split)
  moreover from this Sorted_Insert_refines [OF r, of compare x] obtain l' where
    "PSorted_Insert compare l x = Inr l'" "repr l' (low @ x # high)"
    by (auto elim!: rel_sum.cases)
  ultimately show "\<exists>l' ys. PSorted_Insert compare l x = Inr l' \<and> repr l' ys \<and> ordered ys \<and>
      mset ys = add_mset x (mset xs)"
    by (intro exI [of _ l'] exI [of _ "low @ x # high"]) simp
qed (auto simp: ordered_remove1 repr_Sorted_SanityCheck ordered_def [symmetric], auto simp: ordered_def)

context comparator
begin

lemma insert_loop:
  assumes "repr l []" "distinct p"
  shows "\<exists>l' xs. for_range 0 (int (length p)) (\<lambda>i l.
       rbind (aget p i) (\<lambda>x. rbind (PSorted_Insert compare l x) (\<lambda>l.
       rbind (PList_IsInList l x) (\<lambda>b. rbind (assert b) (\<lambda>_. Inr l))))) l = Inr l' \<and>
     repr l' xs \<and> ordered xs \<and> mset xs = mset p"
proof -
  let ?body = "\<lambda>f i l. rbind (aget p i) (\<lambda>x. rbind (PSorted_Insert compare l x) (\<lambda>l.
       rbind (PList_IsInList l x) (\<lambda>b. rbind (assert b) (\<lambda>_. f l))))"
  have "\<exists>l'. for_range 0 (int (length p)) (?body Inr) l = Inr l' \<and>
      srt.holds l' (mset (take (nat (int (length p))) p))"
  proof (rule for_range_rule)
    fix i :: int and l
    assume "0 \<le> i" "i < int (length p)" "srt.holds l (mset (take (nat i) p))"
    with srt.append_step [OF this(1,2) assms(2) this(3)]
    show "\<exists>l'. ?body Inr i l = Inr l' \<and> srt.holds l' (mset (take (nat (i + 1)) p))" by auto
  qed (use assms in \<open>auto simp: srt.holds_def srt.Nil_I\<close>)
  then show ?thesis by (auto simp: srt.holds_def)
qed

lemma take_out_loop:
  assumes "repr l xs" "distinct xs"
  shows "\<exists>l'. for_range 0 (int (length xs)) (\<lambda>i (q, l).
       rbind (PList_RemoveFront l) (\<lambda>(x, l).
       rbind (PList_IsInList l x) (\<lambda>b. rbind (assert (\<not> b)) (\<lambda>_. Inr (q @ [x], l))))) ([], l)
     = Inr (xs, l') \<and> repr l' []"
proof -
  let ?body = "\<lambda>i (q, l). rbind (PList_RemoveFront l) (\<lambda>(x, l).
       rbind (PList_IsInList l x) (\<lambda>b. rbind (assert (\<not> b)) (\<lambda>_. Inr (q @ [x], l))))"
  let ?J = "\<lambda>i (q, l). q = take (nat i) xs \<and> repr l (drop (nat i) xs)"
  have "\<exists>t. for_range 0 (int (length xs)) ?body ([], l) = Inr t \<and> ?J (int (length xs)) t"
  proof (rule for_range_rule)
    fix i :: int and t assume i: "0 \<le> i" "i < int (length xs)" and J: "?J i t"
    obtain l where t: "t = (take (nat i) xs, l)" and r: "repr l (drop (nat i) xs)"
      using J by (cases t) auto
    have cons: "drop (nat i) xs = xs ! nat i # drop (nat (i + 1)) xs"
      using i by (simp add: nat_add_distrib Cons_nth_drop_Suc)
    have snoc: "take (nat (i + 1)) xs = take (nat i) xs @ [xs ! nat i]"
      using i by (simp add: nat_add_distrib take_Suc_conv_app_nth)
    have "xs ! nat i \<notin> set (drop (nat (i + 1)) xs)"
      using assms(2) cons distinct_drop [of xs "nat i"] by simp
    moreover from RemoveFront_refines [OF r] obtain l' where "PList_RemoveFront l = Inr (xs ! nat i, l')"
        "repr l' (drop (nat (i + 1)) xs)"
      by (auto simp: cons List_RemoveFront_def elim!: rel_sum.cases)
    ultimately show "\<exists>t'. ?body i t = Inr t' \<and> ?J (i + 1) t'"
      by (auto simp: t snoc repr_def repr_at_IsInList)
  qed (use assms in auto)
  then show ?thesis by auto
qed

lemma adjacent_loop:
  assumes "ordered q"
  shows "for_range 0 (int (length q) - 1) (\<lambda>i _.
       rbind (aget q i) (\<lambda>x. rbind (aget q (i + 1)) (\<lambda>y. assert (compare x y \<le> 0)))) () = Inr ()"
proof (cases "q = []")
  case False
  have "compare (q ! nat i) (q ! nat (i + 1)) \<le> 0" if "0 \<le> i" "i < int (length q) - 1" for i
    using that assms sorted_wrt_nth_less [of "\<lambda>x y. compare x y \<le> 0" q "nat i" "nat (i + 1)"] by (simp add: ordered_def)
  then have "\<exists>u. for_range 0 (int (length q) - 1) (\<lambda>i _.
       rbind (aget q i) (\<lambda>x. rbind (aget q (i + 1)) (\<lambda>y. assert (compare x y \<le> 0)))) () = Inr u \<and> True"
    using False by (intro for_range_rule) (auto simp: Suc_le_eq)
  then show ?thesis by simp
qed simp

lemma Sorted_SelfTest_passes:
  assumes "repr l []" "distinct p"
  shows "\<exists>l'. PSorted_SelfTest compare p (int (length p)) l = Inr l' \<and> repr l' []"
proof -
  from srt.SelfTest_passes [OF assms] obtain l1 where
    l1: "PList_SelfTest (PSorted_Insert compare) (PSorted_SanityCheck compare) p (int (length p)) l = Inr l1"
      "repr l1 []" by blast
  from insert_loop [OF l1(2) assms(2)] obtain l2 xs where
    l2: "for_range 0 (int (length p)) (\<lambda>i l.
       rbind (aget p i) (\<lambda>x. rbind (PSorted_Insert compare l x) (\<lambda>l.
       rbind (PList_IsInList l x) (\<lambda>b. rbind (assert b) (\<lambda>_. Inr l))))) l1 = Inr l2"
     "repr l2 xs" "ordered xs" "mset xs = mset p" by blast
  have len: "length xs = length p" "distinct xs"
    using l2(4) assms(2) by (metis size_mset, metis mset_eq_imp_distinct_iff)
  from take_out_loop [OF l2(2) len(2)] obtain l3 where
    l3: "for_range 0 (int (length p)) (\<lambda>i (q, l).
       rbind (PList_RemoveFront l) (\<lambda>(x, l).
       rbind (PList_IsInList l x) (\<lambda>b. rbind (assert (\<not> b)) (\<lambda>_. Inr (q @ [x], l))))) ([], l2)
     = Inr (xs, l3)" "repr l3 []" by (auto simp: len)
  have "PSorted_SanityCheck compare l2 = Inr ()" "PSorted_SanityCheck compare l3 = Inr ()"
    using l2(2,3) l3(2) srt.Nil_I by (blast intro: srt.SanityCheck_ok)+
  moreover have "PList_IsEmpty l3" using l3(2) by (auto simp: repr_def repr_at_IsEmpty)
  ultimately show ?thesis
    using l1(1) l2(1) l3 adjacent_loop [OF l2(3)] by (simp add: PSorted_SelfTest_def len)
qed

end

definition IntCompare :: "int \<Rightarrow> int \<Rightarrow> int" where
  "IntCompare x y = (if x < y then -1 else if x = y then 0 else 1)"

definition listTestVector :: "int list" where
  "listTestVector = [9, 5, 7]"

interpretation ints: comparator IntCompare
  by unfold_locales (auto simp: IntCompare_def split: if_splits)

lemma repr_new: "repr PList_new []"
  using repr_at_new by (auto simp: repr_def)

text \<open>
  C18. No client can tell the linked list from a mathematical sequence: any sequence of \<^verbatim>\<open>Append\<close>,
  \<^verbatim>\<open>Prepend\<close>, \<^verbatim>\<open>RemoveFront\<close>, \<^verbatim>\<open>Remove\<close>, sorted \<^verbatim>\<open>Insert\<close> and \<^verbatim>\<open>IsInList\<close> calls on a new list
  returns the same items and answers, and fails the same assertions, as the contract on
  sequences; in particular no call ever follows a null or dangling pointer or runs round a cycle.
\<close>

theorem PList_refines_sequence:
  "map_sum id fst (run (PList_step compare) ops PList_new) =
   map_sum id fst (run (List_step compare) ops [])"
  by (rule pl.run_observations [OF repr_new])

text \<open>
  Sorted insertion is correct and stable: under a comparison function that orders the items,
  inserting a new item into a sorted list splits the list at the item, everything before it being
  at most the item and everything behind it greater, so equal items stay in arrival order; the
  result is sorted and passes the list's own sanity check.
\<close>

lemma PSorted_Insert_stable:
  fixes compare :: "'a \<Rightarrow> 'a \<Rightarrow> int"
  assumes c: "comparator compare" and l: "repr l xs" and xs: "sorted_wrt (\<lambda>x y. compare x y \<le> 0) xs" "x \<notin> set xs"
  shows "\<exists>l' low high. PSorted_Insert compare l x = Inr l' \<and> repr l' (low @ x # high) \<and>
    xs = low @ high \<and> (\<forall>y \<in> set low. compare y x \<le> 0) \<and> (\<forall>y \<in> set high. compare x y < 0) \<and>
    sorted_wrt (\<lambda>x y. compare x y \<le> 0) (low @ x # high) \<and> PSorted_SanityCheck compare l' = Inr ()"
proof -
  have "comparator.ordered compare xs" using xs by (simp add: comparator.ordered_def [OF c])
  from comparator.insert_split [OF c this xs(2)] obtain low high where
    s: "Sorted_Insert compare xs x = Inr (low @ x # high)" "xs = low @ high"
      "\<And>y. y \<in> set low \<Longrightarrow> compare y x \<le> 0" "\<And>y. y \<in> set high \<Longrightarrow> compare x y < 0"
      "comparator.ordered compare (low @ x # high)" by blast
  from Sorted_Insert_refines [OF l, of compare x] s(1) obtain l' where
    "PSorted_Insert compare l x = Inr l'" "repr l' (low @ x # high)"
    by (auto elim!: rel_sum.cases)
  with s show ?thesis
    by (intro exI [of _ l'] exI [of _ low] exI [of _ high])
      (simp add: comparator.ordered_def [OF c] repr_Sorted_SanityCheck)
qed

text \<open>
  The self tests of \<^verbatim>\<open>lib/list.cc\<close> pass: run on a new list with any vector of distinct items
  (\<^verbatim>\<open>LibSelfTest\<close> uses 9, 5, 7), the plain and the sorted list go through without a failing
  assertion and end up empty.
\<close>

theorem List_SelfTests_pass:
  assumes "distinct (p :: int list)"
  shows "(\<exists>l. PList_SelfTest PList_Append PList_SanityCheck p (int (length p)) PList_new = Inr l \<and>
      repr l []) \<and>
    (\<exists>l. PSorted_SelfTest IntCompare p (int (length p)) PList_new = Inr l \<and> repr l [])"
  using plain.SelfTest_passes [OF repr_new assms] ints.Sorted_SelfTest_passes [OF repr_new assms]
  by simp

end
