(* ===== verification/HashTable.thy ===== *)
theory HashTable
  imports NList
begin

text \<open>
  The chained hash table of \<^verbatim>\<open>lib/hash.cc\<close>.  The buckets are lists used through the contract of
  theory \<^verbatim>\<open>NList\<close>.  The table is modelled with its resizing (\<^verbatim>\<open>ReHash\<close> when three items per bucket
  are reached) and its sanity checks, and is shown to implement a finite map from keys to items.
\<close>

section \<open>The class\<close>

definition InitialBuckets :: int where "InitialBuckets = 4"
definition ResizeRatio :: int where "ResizeRatio = 3"
definition IncreaseSizeBy :: int where "IncreaseSizeBy = 4"

record ('k, 't) hashtable =
  buckets :: "'t list list"
  numBuckets :: int
  numItems :: int
  getKey :: "'t \<Rightarrow> 'k"
  hash :: "'k \<Rightarrow> 32 word"

definition HashTable_InitBuckets :: "int \<Rightarrow> ('k, 't) hashtable \<Rightarrow> ('k, 't) hashtable" where
  "HashTable_InitBuckets sz h = h\<lparr>numBuckets := sz, buckets := replicate (nat sz) []\<rparr>"

definition HashTable_new :: "('t \<Rightarrow> 'k) \<Rightarrow> ('k \<Rightarrow> 32 word) \<Rightarrow> ('k, 't) hashtable" where
  "HashTable_new get hFunc = HashTable_InitBuckets InitialBuckets
     \<lparr>buckets = [], numBuckets = 0, numItems = 0, getKey = get, hash = hFunc\<rparr>"

definition HashTable_HashValue :: "('k, 't) hashtable \<Rightarrow> 'k \<Rightarrow> int res" where
  "HashTable_HashValue h key =
     (let result = uint (hash h key) mod numBuckets h in
      rbind (assert (result \<ge> 0 \<and> result < numBuckets h)) (\<lambda>_. Inr result))"

text \<open>\<^verbatim>\<open>FindInBucket\<close> answers with the item instead of writing it through \<^verbatim>\<open>itemPtr\<close>.\<close>

definition HashTable_FindInBucket :: "('k, 't) hashtable \<Rightarrow> int \<Rightarrow> 'k \<Rightarrow> 't option res" where
  "HashTable_FindInBucket h bucket key =
     rbind (aget (buckets h) bucket) (\<lambda>l. Inr (find (\<lambda>x. key = getKey h x) l))"

definition HashTable_Find :: "('k, 't) hashtable \<Rightarrow> 'k \<Rightarrow> 't option res" where
  "HashTable_Find h key =
     rbind (HashTable_HashValue h key) (\<lambda>bucket. HashTable_FindInBucket h bucket key)"

definition HashTable_IsInTable :: "('k, 't) hashtable \<Rightarrow> 'k \<Rightarrow> bool res" where
  "HashTable_IsInTable h key = rbind (HashTable_Find h key) (\<lambda>r. Inr (r \<noteq> None))"

definition HashTable_IsEmpty :: "('k, 't) hashtable \<Rightarrow> bool" where
  "HashTable_IsEmpty h = (numItems h = 0)"

text \<open>\<^verbatim>\<open>SanityCheck\<close>: every item is in the bucket it hashes to, and the count is right.\<close>

primrec check_bucket :: "('k, 't) hashtable \<Rightarrow> int \<Rightarrow> 't list \<Rightarrow> unit res" where
  "check_bucket h i [] = Inr ()"
| "check_bucket h i (x # xs) =
     rbind (HashTable_HashValue h (getKey h x)) (\<lambda>v.
     rbind (assert (i = v)) (\<lambda>_. check_bucket h i xs))"

definition HashTable_SanityCheck :: "('k, 't) hashtable \<Rightarrow> unit res" where
  "HashTable_SanityCheck h =
     rbind (for_range 0 (numBuckets h) (\<lambda>i numFound.
       rbind (aget (buckets h) i) (\<lambda>l.
       rbind (check_bucket h i l) (\<lambda>_. Inr (numFound + int (length l))))) 0) (\<lambda>numFound.
     assert (numItems h = numFound))"

text \<open>\<^verbatim>\<open>buckets[HashValue(getKey(item))]->Append(item)\<close>, in \<^verbatim>\<open>Insert\<close> and \<^verbatim>\<open>ReHash\<close>.\<close>

definition append_item :: "('k, 't) hashtable \<Rightarrow> 't \<Rightarrow> ('k, 't) hashtable res" where
  "append_item h x =
     rbind (HashTable_HashValue h (getKey h x)) (\<lambda>v.
     rbind (aget (buckets h) v) (\<lambda>l.
     rbind (List_Append l x) (\<lambda>l.
     rbind (aput (buckets h) v l) (\<lambda>bs. Inr (h\<lparr>buckets := bs\<rparr>)))))"

text \<open>The inner loop of \<^verbatim>\<open>ReHash\<close> takes the items of an old bucket from the front, one by one.\<close>

primrec move_bucket :: "'t list \<Rightarrow> ('k, 't) hashtable \<Rightarrow> ('k, 't) hashtable res" where
  "move_bucket [] h = Inr h"
| "move_bucket (x # xs) h = rbind (append_item h x) (move_bucket xs)"

definition HashTable_ReHash :: "('k, 't) hashtable \<Rightarrow> ('k, 't) hashtable res" where
  "HashTable_ReHash h =
     (let oldTable = buckets h; oldSize = numBuckets h in
      rbind (HashTable_SanityCheck h) (\<lambda>_.
      let h = HashTable_InitBuckets (numBuckets h * IncreaseSizeBy) h in
      rbind (for_range 0 oldSize (\<lambda>i h. rbind (aget oldTable i) (\<lambda>l. move_bucket l h)) h) (\<lambda>h.
      rbind (HashTable_SanityCheck h) (\<lambda>_. Inr h))))"

definition HashTable_Insert :: "('k, 't) hashtable \<Rightarrow> 't \<Rightarrow> ('k, 't) hashtable res" where
  "HashTable_Insert h x =
     (let key = getKey h x in
      rbind (HashTable_IsInTable h key) (\<lambda>b. rbind (assert (\<not> b)) (\<lambda>_.
      rbind (if numItems h sdiv numBuckets h \<ge> ResizeRatio then HashTable_ReHash h else Inr h) (\<lambda>h.
      rbind (append_item h x) (\<lambda>h.
      let h = h\<lparr>numItems := numItems h + 1\<rparr> in
      rbind (HashTable_IsInTable h key) (\<lambda>b. rbind (assert b) (\<lambda>_. Inr h)))))))"

definition HashTable_Remove :: "('k, 't) hashtable \<Rightarrow> 'k \<Rightarrow> ('t \<times> ('k, 't) hashtable) res" where
  "HashTable_Remove h key =
     rbind (HashTable_HashValue h key) (\<lambda>bucket.
     rbind (HashTable_FindInBucket h bucket key) (\<lambda>found.
     case found of
       None \<Rightarrow> Inl AssertFail
     | Some x \<Rightarrow>
         rbind (aget (buckets h) bucket) (\<lambda>l.
         rbind (List_Remove l x) (\<lambda>l.
         rbind (aput (buckets h) bucket l) (\<lambda>bs.
         let h = h\<lparr>buckets := bs, numItems := numItems h - 1\<rparr> in
         rbind (HashTable_IsInTable h key) (\<lambda>b. rbind (assert (\<not> b)) (\<lambda>_. Inr (x, h))))))))"

text \<open>\<^verbatim>\<open>Apply\<close> visits the items bucket by bucket; the model returns the sequence visited.\<close>

definition HashTable_Apply :: "('k, 't) hashtable \<Rightarrow> 't list res" where
  "HashTable_Apply h =
     for_range 0 (numBuckets h) (\<lambda>b out. rbind (aget (buckets h) b) (\<lambda>l. Inr (out @ l))) []"

definition HashTable_FindNextFullBucket :: "('k, 't) hashtable \<Rightarrow> int \<Rightarrow> int res" where
  "HashTable_FindNextFullBucket h bucket =
     rbind (search bucket (numBuckets h) (\<lambda>b. rbind (aget (buckets h) b) (\<lambda>l. Inr (l \<noteq> []))))
       (\<lambda>r. Inr (case r of Some b \<Rightarrow> b | None \<Rightarrow> max bucket (numBuckets h)))"

section \<open>\<^verbatim>\<open>HashIterator\<close>\<close>

text \<open>The list iterator inside the current bucket is the items still ahead of it.\<close>

record 't hash_iter =
  bucket :: int
  bucketIter :: "'t list option"

definition enter_bucket :: "('k, 't) hashtable \<Rightarrow> int \<Rightarrow> 't hash_iter res" where
  "enter_bucket h b =
     (if b < numBuckets h
      then rbind (aget (buckets h) b) (\<lambda>l. Inr \<lparr>bucket = b, bucketIter = Some l\<rparr>)
      else Inr \<lparr>bucket = b, bucketIter = None\<rparr>)"

definition HashIterator_new :: "('k, 't) hashtable \<Rightarrow> 't hash_iter res" where
  "HashIterator_new h = rbind (HashTable_FindNextFullBucket h 0) (enter_bucket h)"

definition HashIterator_IsDone :: "('k, 't) hashtable \<Rightarrow> 't hash_iter \<Rightarrow> bool" where
  "HashIterator_IsDone h it = (bucket it = numBuckets h)"

definition HashIterator_Item :: "('k, 't) hashtable \<Rightarrow> 't hash_iter \<Rightarrow> 't res" where
  "HashIterator_Item h it =
     rbind (assert (\<not> HashIterator_IsDone h it)) (\<lambda>_.
     case bucketIter it of
       None \<Rightarrow> Inl NullDeref
     | Some l \<Rightarrow> (case l of [] \<Rightarrow> Inl AssertFail | x # _ \<Rightarrow> Inr x))"

definition HashIterator_Next :: "('k, 't) hashtable \<Rightarrow> 't hash_iter \<Rightarrow> 't hash_iter res" where
  "HashIterator_Next h it =
     (case bucketIter it of
        None \<Rightarrow> Inl NullDeref
      | Some [] \<Rightarrow> Inl NullDeref
      | Some (x # l) \<Rightarrow>
          if l = [] then rbind (HashTable_FindNextFullBucket h (bucket it + 1)) (enter_bucket h)
          else Inr (it\<lparr>bucketIter := Some l\<rparr>))"

definition HashTable_SelfTest :: "'t list \<Rightarrow> int \<Rightarrow> ('k, 't) hashtable \<Rightarrow> ('k, 't) hashtable res" where
  "HashTable_SelfTest p numEntries h =
     rbind (HashIterator_new h) (\<lambda>iterator.
     rbind (HashTable_SanityCheck h) (\<lambda>_.
     rbind (assert (HashTable_IsEmpty h)) (\<lambda>_.
     rbind (assert (HashIterator_IsDone h iterator)) (\<lambda>_.
     rbind (for_range 0 numEntries (\<lambda>i h.
       rbind (aget p i) (\<lambda>x.
       rbind (HashTable_Insert h x) (\<lambda>h.
       rbind (HashTable_IsInTable h (getKey h x)) (\<lambda>b. rbind (assert b) (\<lambda>_.
       rbind (assert (\<not> HashTable_IsEmpty h)) (\<lambda>_. Inr h)))))) h) (\<lambda>h.
     rbind (for_range 0 numEntries (\<lambda>i h.
       rbind (aget p i) (\<lambda>x.
       rbind (HashTable_Remove h (getKey h x)) (\<lambda>(y, h).
       rbind (assert (y = x)) (\<lambda>_. Inr h)))) h) (\<lambda>h.
     rbind (assert (HashTable_IsEmpty h)) (\<lambda>_.
     rbind (HashTable_SanityCheck h) (\<lambda>_. Inr h))))))))"

section \<open>The map a table stands for\<close>

definition contents :: "('k, 't) hashtable \<Rightarrow> 't set" where
  "contents h = (\<Union>l \<in> set (buckets h). set l)"

definition placed :: "('k, 't) hashtable \<Rightarrow> bool" where
  "placed h \<longleftrightarrow> 0 < numBuckets h \<and> int (length (buckets h)) = numBuckets h \<and>
     (\<forall>i < length (buckets h). distinct (map (getKey h) (buckets h ! i)) \<and>
        (\<forall>x \<in> set (buckets h ! i). uint (hash h (getKey h x)) mod numBuckets h = int i))"

definition total :: "('k, 't) hashtable \<Rightarrow> int" where
  "total h = int (sum_list (map length (buckets h)))"

definition table_ok :: "('k, 't) hashtable \<Rightarrow> bool" where
  "table_ok h \<longleftrightarrow> placed h \<and> numItems h = total h"

definition key_slot :: "('k, 't) hashtable \<Rightarrow> 'k \<Rightarrow> nat" where
  "key_slot h key = nat (uint (hash h key) mod numBuckets h)"

lemma HashValue_ok:
  assumes "placed h"
  shows "HashTable_HashValue h key = Inr (int (key_slot h key))" "key_slot h key < length (buckets h)"
proof -
  have "0 \<le> uint (hash h key) mod numBuckets h" "uint (hash h key) mod numBuckets h < numBuckets h"
    using assms by (simp_all add: placed_def)
  with assms show "HashTable_HashValue h key = Inr (int (key_slot h key))"
    "key_slot h key < length (buckets h)"
    by (simp_all add: HashTable_HashValue_def key_slot_def placed_def Let_def nat_less_iff)
qed

lemma key_slot_int: "placed h \<Longrightarrow> int (key_slot h k) = uint (hash h k) mod numBuckets h"
  by (simp add: key_slot_def placed_def)

lemma bucket_slot:
  assumes "placed h" "i < length (buckets h)" "x \<in> set (buckets h ! i)"
  shows "i = key_slot h (getKey h x)"
  using assms by (simp add: placed_def key_slot_def)

lemma in_contents:
  assumes "placed h"
  shows "x \<in> contents h \<longleftrightarrow> x \<in> set (buckets h ! key_slot h (getKey h x))"
proof
  assume "x \<in> contents h"
  then obtain i where "i < length (buckets h)" "x \<in> set (buckets h ! i)"
    unfolding contents_def by (metis UN_E in_set_conv_nth)
  with bucket_slot [OF assms] show "x \<in> set (buckets h ! key_slot h (getKey h x))" by blast
next
  assume "x \<in> set (buckets h ! key_slot h (getKey h x))"
  then show "x \<in> contents h" using HashValue_ok(2) [OF assms] by (auto simp: contents_def)
qed

lemma distinct_map_find:
  assumes "distinct (map f xs)"
  shows "find (\<lambda>x. k = f x) xs = Some x \<longleftrightarrow> x \<in> set xs \<and> f x = k"
  using assms by (induction xs) (auto simp: image_iff)

lemma slot_distinct: "placed h \<Longrightarrow> distinct (map (getKey h) (buckets h ! key_slot h k))"
  using HashValue_ok(2) [of h k] unfolding placed_def by blast

lemma Find_ok:
  assumes "placed h"
  shows "\<exists>r. HashTable_Find h k = Inr r \<and> (\<forall>x. r = Some x \<longleftrightarrow> x \<in> contents h \<and> getKey h x = k)"
  using HashValue_ok [OF assms, of k] distinct_map_find [OF slot_distinct [OF assms, of k], of k]
  by (auto simp: HashTable_Find_def HashTable_FindInBucket_def in_contents [OF assms])

lemma IsInTable_ok:
  assumes "placed h"
  shows "HashTable_IsInTable h k = Inr (k \<in> getKey h ` contents h)"
proof -
  from Find_ok [OF assms, of k] obtain r where "HashTable_Find h k = Inr r"
    "\<forall>x. r = Some x \<longleftrightarrow> x \<in> contents h \<and> getKey h x = k" by blast
  then show ?thesis by (cases r) (auto simp: HashTable_IsInTable_def)
qed

lemma inj_keys:
  assumes "placed h"
  shows "inj_on (getKey h) (contents h)"
proof (rule inj_onI)
  fix x y assume xy: "x \<in> contents h" "y \<in> contents h" "getKey h x = getKey h y"
  then have "x \<in> set (buckets h ! key_slot h (getKey h x))" "y \<in> set (buckets h ! key_slot h (getKey h x))"
    using in_contents [OF assms] by auto
  with slot_distinct [OF assms] xy(3) show "x = y" by (metis distinct_map inj_on_eq_iff)
qed

section \<open>Moving items around\<close>

lemma sum_list_update_nat:
  "i < length xs \<Longrightarrow> sum_list (map length (xs[i := l])) + length (xs ! i) = sum_list (map length xs) + length l"
  by (induction xs arbitrary: i) (auto split: nat.split)

lemma replace_bucket:
  fixes l :: "'t list" and h :: "('k, 't) hashtable"
  assumes h: "placed h" and l: "distinct (map (getKey h) l)"
    "\<And>x. x \<in> set l \<Longrightarrow> key_slot h (getKey h x) = key_slot h k"
  defines "h' \<equiv> h\<lparr>buckets := (buckets h)[key_slot h k := l]\<rparr>"
  shows "placed h'" "total h' + int (length (buckets h ! key_slot h k)) = total h + int (length l)"
    "x \<in> contents h' \<longleftrightarrow> (if key_slot h (getKey h x) = key_slot h k then x \<in> set l else x \<in> contents h)"
proof -
  have i: "key_slot h k < length (buckets h)" by (rule HashValue_ok(2) [OF h])
  have slot: "key_slot h' = key_slot h" by (simp add: key_slot_def h'_def fun_eq_iff)
  have "uint (hash h (getKey h x)) mod numBuckets h = int (key_slot h k)" if "x \<in> set l" for x
    using l(2) [OF that] key_slot_int [OF h] by metis
  then show ok: "placed h'"
    using h l(1) i by (auto simp: placed_def h'_def nth_list_update)
  show "total h' + int (length (buckets h ! key_slot h k)) = total h + int (length l)"
    using sum_list_update_nat [OF i, of l] by (simp add: total_def h'_def)
  show "x \<in> contents h' \<longleftrightarrow>
      (if key_slot h (getKey h x) = key_slot h k then x \<in> set l else x \<in> contents h)"
    using in_contents [OF ok, of x] in_contents [OF h, of x] i
    by (simp add: slot) (auto simp: h'_def nth_list_update)
qed

lemma append_item_ok:
  assumes h: "placed h" and x: "getKey h x \<notin> getKey h ` contents h"
  shows "\<exists>bs. append_item h x = Inr (h\<lparr>buckets := bs\<rparr>) \<and> placed (h\<lparr>buckets := bs\<rparr>) \<and>
    contents (h\<lparr>buckets := bs\<rparr>) = insert x (contents h) \<and> total (h\<lparr>buckets := bs\<rparr>) = total h + 1"
proof -
  let ?i = "key_slot h (getKey h x)"
  let ?l = "buckets h ! ?i @ [x]"
  let ?h = "h\<lparr>buckets := (buckets h)[?i := ?l]\<rparr>"
  have i: "?i < length (buckets h)" by (rule HashValue_ok(2) [OF h])
  have sub: "set (buckets h ! ?i) \<subseteq> contents h" using i nth_mem by (fastforce simp: contents_def)
  have d: "distinct (map (getKey h) ?l)" using slot_distinct [OF h] x sub by auto
  have s: "key_slot h (getKey h y) = ?i" if "y \<in> set ?l" for y
    using that bucket_slot [OF h i] by auto
  note R = replace_bucket [OF h d s, simplified]
  have new: "x \<notin> set (buckets h ! ?i)" using x sub by auto
  have "append_item h x = Inr ?h"
    using HashValue_ok [OF h] new i by (simp add: append_item_def List_Append_def)
  moreover have "contents ?h = insert x (contents h)"
    using R(3) in_contents [OF h] by (auto split: if_splits)
  ultimately show ?thesis using R(1,2) by (intro exI [of _ "(buckets h)[?i := ?l]"]) auto
qed

lemma move_bucket_ok:
  assumes "placed h" "distinct (map (getKey h) xs)"
    "getKey h ` set xs \<inter> getKey h ` contents h = {}"
  shows "\<exists>bs. move_bucket xs h = Inr (h\<lparr>buckets := bs\<rparr>) \<and> placed (h\<lparr>buckets := bs\<rparr>) \<and>
    contents (h\<lparr>buckets := bs\<rparr>) = contents h \<union> set xs \<and>
    total (h\<lparr>buckets := bs\<rparr>) = total h + int (length xs)"
  using assms
proof (induction xs arbitrary: h)
  case Nil
  then show ?case by (intro exI [of _ "buckets h"]) simp
next
  case (Cons x xs)
  from Cons.prems obtain bs where bs: "append_item h x = Inr (h\<lparr>buckets := bs\<rparr>)"
      "placed (h\<lparr>buckets := bs\<rparr>)" "contents (h\<lparr>buckets := bs\<rparr>) = insert x (contents h)"
      "total (h\<lparr>buckets := bs\<rparr>) = total h + 1"
    using append_item_ok [of h x] by auto
  have "getKey h ` set xs \<inter> getKey h ` insert x (contents h) = {}" using Cons.prems(2,3) by auto
  with Cons.IH [of "h\<lparr>buckets := bs\<rparr>"] Cons.prems bs show ?case by auto
qed

lemma check_bucket_ok:
  assumes "placed h" "\<And>x. x \<in> set xs \<Longrightarrow> key_slot h (getKey h x) = i"
  shows "check_bucket h (int i) xs = Inr ()"
  using assms by (induction xs) (auto simp: HashValue_ok)

lemma SanityCheck_ok:
  assumes "table_ok h"
  shows "HashTable_SanityCheck h = Inr ()"
proof -
  have h: "placed h" "int (length (buckets h)) = numBuckets h"
    using assms by (auto simp: table_ok_def placed_def)
  let ?body = "\<lambda>i n. rbind (aget (buckets h) i) (\<lambda>l.
       rbind (check_bucket h i l) (\<lambda>_. Inr (n + int (length l))))"
  let ?I = "\<lambda>i n. n = int (sum_list (map length (take (nat i) (buckets h))))"
  have "\<exists>n. for_range 0 (numBuckets h) ?body 0 = Inr n \<and> ?I (numBuckets h) n"
  proof (rule for_range_rule)
    fix i n assume i: "0 \<le> i" "i < numBuckets h" and I: "?I i n"
    then have lt: "nat i < length (buckets h)" using h(2) by simp
    have "check_bucket h (int (nat i)) (buckets h ! nat i) = Inr ()"
      using bucket_slot [OF h(1) lt] by (intro check_bucket_ok [OF h(1)]) auto
    moreover have "take (nat (i + 1)) (buckets h) = take (nat i) (buckets h) @ [buckets h ! nat i]"
      using i lt by (simp add: nat_add_distrib take_Suc_conv_app_nth)
    ultimately show "\<exists>n'. ?body i n = Inr n' \<and> ?I (i + 1) n'" using i h(2) I by simp
  qed (use h in \<open>auto simp: placed_def\<close>)
  moreover have "nat (numBuckets h) = length (buckets h)" using h(2) by simp
  ultimately show ?thesis using assms by (auto simp: HashTable_SanityCheck_def table_ok_def total_def)
qed

section \<open>Growing the table\<close>

lemma InitBuckets_ok:
  assumes "0 < n"
  shows "placed (HashTable_InitBuckets n h)" "contents (HashTable_InitBuckets n h) = {}"
    "total (HashTable_InitBuckets n h) = 0"
  using assms by (auto simp: placed_def contents_def total_def HashTable_InitBuckets_def sum_list_triv)

lemma ReHash_ok:
  assumes ok: "table_ok h"
  shows "\<exists>h'. HashTable_ReHash h = Inr h' \<and> table_ok h' \<and> contents h' = contents h \<and>
    getKey h' = getKey h \<and> hash h' = hash h \<and> numItems h' = numItems h"
proof -
  have h: "placed h" "int (length (buckets h)) = numBuckets h" "0 < numBuckets h"
    using ok by (auto simp: table_ok_def placed_def)
  define h0 where "h0 = HashTable_InitBuckets (numBuckets h * IncreaseSizeBy) h"
  have h0: "placed h0" "contents h0 = {}" "total h0 = 0"
    unfolding h0_def using h(3) by (intro InitBuckets_ok; simp add: IncreaseSizeBy_def)+
  have same: "getKey h0 = getKey h" "hash h0 = hash h" "numItems h0 = numItems h"
    by (simp_all add: h0_def HashTable_InitBuckets_def)
  let ?body = "\<lambda>i t. rbind (aget (buckets h) i) (\<lambda>l. move_bucket l t)"
  let ?I = "\<lambda>i t. placed t \<and> getKey t = getKey h \<and> hash t = hash h \<and> numItems t = numItems h \<and>
    contents t = (\<Union>l \<in> set (take (nat i) (buckets h)). set l) \<and>
    total t = int (sum_list (map length (take (nat i) (buckets h))))"
  have "\<exists>t. for_range 0 (numBuckets h) ?body h0 = Inr t \<and> ?I (numBuckets h) t"
  proof (rule for_range_rule)
    fix i t assume i: "0 \<le> i" "i < numBuckets h" and I: "?I i t"
    then have lt: "nat i < length (buckets h)" using h(2) by simp
    let ?l = "buckets h ! nat i"
    have snoc: "take (nat (i + 1)) (buckets h) = take (nat i) (buckets h) @ [?l]"
      using i lt by (simp add: nat_add_distrib take_Suc_conv_app_nth)
    have "getKey h ` set ?l \<inter> getKey h ` (\<Union>l \<in> set (take (nat i) (buckets h)). set l) = {}"
    proof (rule ccontr)
      assume "\<not> ?thesis"
      then obtain x y j where "x \<in> set ?l" "j < nat i" "y \<in> set (buckets h ! j)" "getKey h x = getKey h y"
        using lt by (auto simp: in_set_conv_nth [of _ "take (nat i) (buckets h)"])
      then show False
        using bucket_slot [OF h(1) lt, of x] bucket_slot [OF h(1), of j y] lt by simp
    qed
    moreover have "distinct (map (getKey h) ?l)" using h(1) lt by (auto simp: placed_def)
    ultimately obtain bs where "move_bucket ?l t = Inr (t\<lparr>buckets := bs\<rparr>)" "placed (t\<lparr>buckets := bs\<rparr>)"
      "contents (t\<lparr>buckets := bs\<rparr>) = contents t \<union> set ?l"
      "total (t\<lparr>buckets := bs\<rparr>) = total t + int (length ?l)"
      using move_bucket_ok [of t ?l] I by auto
    then show "\<exists>t'. ?body i t = Inr t' \<and> ?I (i + 1) t'" using i h(2) I snoc by auto
  qed (use h h0 same in auto)
  then obtain t where t: "for_range 0 (numBuckets h) ?body h0 = Inr t" "?I (numBuckets h) t" by blast
  have "nat (numBuckets h) = length (buckets h)" using h(2) by simp
  with t(2) ok have "table_ok t" "contents t = contents h"
    by (auto simp: table_ok_def total_def contents_def)
  with t SanityCheck_ok [OF ok] SanityCheck_ok [of t] show ?thesis
    by (simp add: HashTable_ReHash_def h0_def [symmetric] Let_def)
qed

section \<open>The table implements a map\<close>

definition Map_Insert :: "('t \<Rightarrow> 'k) \<Rightarrow> ('k \<rightharpoonup> 't) \<Rightarrow> 't \<Rightarrow> ('k \<rightharpoonup> 't) res" where
  "Map_Insert get m x = rbind (assert (m (get x) = None)) (\<lambda>_. Inr (m(get x \<mapsto> x)))"

definition Map_Remove :: "('k \<rightharpoonup> 't) \<Rightarrow> 'k \<Rightarrow> ('t \<times> ('k \<rightharpoonup> 't)) res" where
  "Map_Remove m k = (case m k of None \<Rightarrow> Inl AssertFail | Some x \<Rightarrow> Inr (x, m(k := None)))"

definition map_rel :: "('t \<Rightarrow> 'k) \<Rightarrow> ('k, 't) hashtable \<Rightarrow> ('k \<rightharpoonup> 't) \<Rightarrow> bool" where
  "map_rel get h m \<longleftrightarrow> table_ok h \<and> getKey h = get \<and>
     (\<forall>k x. m k = Some x \<longleftrightarrow> x \<in> contents h \<and> get x = k)"

lemma map_rel_dom: "map_rel get h m \<Longrightarrow> m k \<noteq> None \<longleftrightarrow> k \<in> get ` contents h"
  by (auto simp: map_rel_def)

lemma map_rel_placed: "map_rel get h m \<Longrightarrow> placed h"
  by (simp add: map_rel_def table_ok_def)

lemma Insert_refines:
  assumes r: "map_rel get h m"
  shows "rel_sum (=) (map_rel get) (HashTable_Insert h x) (Map_Insert get m x)"
proof (cases "m (get x) = None")
  case False
  then have "HashTable_IsInTable h (get x) = Inr True"
    using IsInTable_ok [OF map_rel_placed [OF r]] map_rel_dom [OF r] r by (simp add: map_rel_def)
  with False r show ?thesis by (simp add: HashTable_Insert_def Map_Insert_def Let_def map_rel_def)
next
  case True
  have h: "table_ok h" "getKey h = get" using r by (auto simp: map_rel_def)
  have new: "get x \<notin> get ` contents h" using True map_rel_dom [OF r, of "get x"] by blast
  obtain h1 where h1: "(if numItems h sdiv numBuckets h \<ge> ResizeRatio then HashTable_ReHash h else Inr h) = Inr h1"
      "table_ok h1" "contents h1 = contents h" "getKey h1 = get"
    using ReHash_ok [OF h(1)] h by (cases "numItems h sdiv numBuckets h \<ge> ResizeRatio") auto
  obtain bs where bs: "append_item h1 x = Inr (h1\<lparr>buckets := bs\<rparr>)" "placed (h1\<lparr>buckets := bs\<rparr>)"
      "contents (h1\<lparr>buckets := bs\<rparr>) = insert x (contents h)" "total (h1\<lparr>buckets := bs\<rparr>) = total h1 + 1"
    using append_item_ok [of h1 x] h1 new by (auto simp: table_ok_def)
  let ?h = "h1\<lparr>buckets := bs, numItems := numItems h1 + 1\<rparr>"
  have c: "contents ?h = insert x (contents h)" "placed ?h" "total ?h = numItems h1 + 1"
    using bs h1(2) by (simp_all add: contents_def placed_def total_def table_ok_def)
  then have "map_rel get ?h (m(get x \<mapsto> x))"
    using r h1(4) new unfolding map_rel_def by (auto simp: table_ok_def) (metis image_eqI)
  moreover have "HashTable_Insert h x = Inr ?h"
    using new h h1 bs c IsInTable_ok [of h "get x"] IsInTable_ok [OF c(2), of "get x"]
    by (simp add: HashTable_Insert_def Let_def table_ok_def)
  ultimately show ?thesis using True by (simp add: Map_Insert_def)
qed

lemma Remove_refines_map:
  assumes r: "map_rel get h m"
  shows "rel_sum (=) (rel_prod (=) (map_rel get)) (HashTable_Remove h k) (Map_Remove m k)"
proof -
  note h = map_rel_placed [OF r]
  let ?i = "key_slot h k"
  have i: "?i < length (buckets h)" by (rule HashValue_ok(2) [OF h])
  have get: "getKey h = get" using r by (simp add: map_rel_def)
  have find: "HashTable_FindInBucket h (int ?i) k = Inr (m k)"
  proof -
    have "find (\<lambda>x. k = get x) (buckets h ! ?i) = Some x \<longleftrightarrow> m k = Some x" for x
      using distinct_map_find [OF slot_distinct [OF h, of k], of k x] r in_contents [OF h, of x] get
      by (auto simp: map_rel_def)
    then have "find (\<lambda>x. k = get x) (buckets h ! ?i) = m k" by (metis option.exhaust)
    then show ?thesis using i get by (simp add: HashTable_FindInBucket_def)
  qed
  show ?thesis
  proof (cases "m k")
    case None
    then show ?thesis
      using HashValue_ok [OF h] find by (simp add: HashTable_Remove_def Map_Remove_def)
  next
    case (Some x)
    then have x: "x \<in> contents h" "get x = k" "x \<in> set (buckets h ! ?i)"
      using r in_contents [OF h, of x] by (auto simp: map_rel_def)
    let ?l = "remove1 x (buckets h ! ?i)"
    let ?h = "h\<lparr>buckets := (buckets h)[?i := ?l], numItems := numItems h - 1\<rparr>"
    let ?h' = "h\<lparr>buckets := (buckets h)[?i := ?l]\<rparr>"
    have dk: "distinct (map get (buckets h ! ?i))" using slot_distinct [OF h, of k] get by simp
    then have d: "distinct (buckets h ! ?i)" by (simp add: distinct_map)
    then have sl: "set ?l = set (buckets h ! ?i) - {x}" by simp
    have "distinct (map (getKey h) ?l)"
      using dk d get sl by (auto simp: distinct_map distinct_remove1 intro: inj_on_subset)
    note R = replace_bucket [OF h this, of k]
    have sloteq: "\<And>y. y \<in> set ?l \<Longrightarrow> key_slot h (getKey h y) = ?i"
      using sl bucket_slot [OF h i] by auto
    note R = R [OF sloteq]
    have c: "contents ?h' = contents h - {x}"
      using R(3) in_contents [OF h] sl x get by (auto split: if_splits)
    have len: "length (buckets h ! ?i) \<ge> 1" using x(3) by (cases "buckets h ! ?i") auto
    have ok: "placed ?h" "contents ?h = contents h - {x}" "total ?h = total h - 1"
      using R(1,2) c x(3) len by (simp_all add: placed_def contents_def total_def length_remove1)
    then have "map_rel get ?h (m(k := None))"
      using r x inj_keys [OF h] get unfolding map_rel_def
      by (auto simp: table_ok_def inj_on_def)
    moreover have "HashTable_Remove h k = Inr (x, ?h)"
      using HashValue_ok [OF h] find Some x i sl d get IsInTable_ok [OF ok(1), of k] ok(2) inj_keys [OF h]
      by (auto simp: HashTable_Remove_def List_Remove_def Let_def inj_on_def image_iff)
    ultimately show ?thesis using Some by (simp add: Map_Remove_def)
  qed
qed

datatype ('k, 't) table_op = TInsert 't | TRemove 'k | TFind 'k

primrec HashTable_step :: "('k, 't) table_op \<Rightarrow> ('k, 't) hashtable \<Rightarrow> ('t option \<times> ('k, 't) hashtable) res" where
  "HashTable_step (TInsert x) h = rbind (HashTable_Insert h x) (\<lambda>h. Inr (None, h))"
| "HashTable_step (TRemove k) h = rbind (HashTable_Remove h k) (\<lambda>(x, h). Inr (Some x, h))"
| "HashTable_step (TFind k) h = rbind (HashTable_Find h k) (\<lambda>r. Inr (r, h))"

primrec Map_step :: "('t \<Rightarrow> 'k) \<Rightarrow> ('k, 't) table_op \<Rightarrow> ('k \<rightharpoonup> 't) \<Rightarrow> ('t option \<times> ('k \<rightharpoonup> 't)) res" where
  "Map_step get (TInsert x) m = rbind (Map_Insert get m x) (\<lambda>m. Inr (None, m))"
| "Map_step get (TRemove k) m = rbind (Map_Remove m k) (\<lambda>(x, m). Inr (Some x, m))"
| "Map_step get (TFind k) m = Inr (m k, m)"

lemma Find_refines:
  assumes r: "map_rel get h m"
  shows "HashTable_Find h k = Inr (m k)"
proof -
  from Find_ok [OF map_rel_placed [OF r], of k] obtain res where
    res: "HashTable_Find h k = Inr res" "\<And>x. res = Some x \<longleftrightarrow> x \<in> contents h \<and> getKey h x = k" by auto
  then have "res = Some x \<longleftrightarrow> m k = Some x" for x using r by (auto simp: map_rel_def)
  then have "res = m k" by (metis option.exhaust)
  with res(1) show ?thesis by simp
qed

interpretation ht: simulation "map_rel get" HashTable_step "Map_step get" for get
proof unfold_locales
  fix h m op assume r: "map_rel get h m"
  show "rel_sum (=) (rel_prod (=) (map_rel get)) (HashTable_step op h) (Map_step get op m)"
    by (cases op) (auto intro!: rel_sum_rbind [OF Insert_refines [OF r]]
        rel_sum_rbind [OF Remove_refines_map [OF r]] simp: r Find_refines [OF r])
qed

lemma map_rel_new: "map_rel get (HashTable_new get hFunc) Map.empty"
  using InitBuckets_ok [of 4 "\<lparr>buckets = [], numBuckets = 0, numItems = 0, getKey = get, hash = hFunc\<rparr>"]
  by (simp add: map_rel_def table_ok_def HashTable_new_def InitialBuckets_def)
    (simp add: HashTable_InitBuckets_def)

section \<open>Iteration\<close>

text \<open>The \<^verbatim>\<open>for\<close> loop over an iterator, with at most \<open>n\<close> steps.\<close>

fun collect :: "nat \<Rightarrow> ('k, 't) hashtable \<Rightarrow> 't hash_iter \<Rightarrow> 't list res" where
  "collect n h it =
     (if HashIterator_IsDone h it then Inr []
      else case n of
        0 \<Rightarrow> Inl OutOfFuel
      | Suc n \<Rightarrow>
          rbind (HashIterator_Item h it) (\<lambda>x.
          rbind (HashIterator_Next h it) (\<lambda>it.
          rbind (collect n h it) (\<lambda>xs. Inr (x # xs)))))"

declare collect.simps [simp del]

definition ahead :: "('k, 't) hashtable \<Rightarrow> 't hash_iter \<Rightarrow> 't list \<Rightarrow> bool" where
  "ahead h it xs \<longleftrightarrow>
     (bucket it = numBuckets h \<and> bucketIter it = None \<and> xs = []) \<or>
     (0 \<le> bucket it \<and> bucket it < numBuckets h \<and> (\<exists>l. bucketIter it = Some l \<and> l \<noteq> [] \<and>
        xs = l @ concat (drop (nat (bucket it) + 1) (buckets h))))"

lemma enter_next_full:
  assumes h: "placed h" and b: "0 \<le> b" "b \<le> numBuckets h"
  shows "\<exists>it. rbind (HashTable_FindNextFullBucket h b) (enter_bucket h) = Inr it \<and>
    ahead h it (concat (drop (nat b) (buckets h)))"
proof -
  have len: "int (length (buckets h)) = numBuckets h" using h by (simp add: placed_def)
  let ?p = "\<lambda>b. rbind (aget (buckets h) b) (\<lambda>l. Inr (l \<noteq> []))"
  have skip: "concat (drop (nat b) (buckets h)) = concat (drop (nat c) (buckets h))"
    if "b \<le> c" "c \<le> numBuckets h" "\<And>j. b \<le> j \<Longrightarrow> j < c \<Longrightarrow> buckets h ! nat j = []" for c
  proof -
    have "drop (nat b) (buckets h) = take (nat c - nat b) (drop (nat b) (buckets h)) @ drop (nat c) (buckets h)"
      using that(1) b(1) by (metis append_take_drop_id drop_drop le_add_diff_inverse2 nat_mono)
    moreover have "concat (take (nat c - nat b) (drop (nat b) (buckets h))) = []"
    proof (simp add: concat_eq_Nil_conv, intro ballI)
      fix l assume "l \<in> set (take (nat c - nat b) (drop (nat b) (buckets h)))"
      then obtain k where "k < nat c - nat b" "l = buckets h ! (nat b + k)"
        using b len by (auto simp: in_set_conv_nth)
      then show "l = []" using that(3) [of "b + int k"] b(1) by (simp add: nat_add_distrib)
    qed
    ultimately show ?thesis by (metis append_Nil concat_append)
  qed
  show ?thesis
  proof (rule search_cases [of b "numBuckets h" ?p "\<lambda>i. buckets h ! nat i \<noteq> []"])
    fix i assume "b \<le> i" "i < numBuckets h"
    then show "?p i = Inr (buckets h ! nat i \<noteq> [])" using b len by simp
  next
    fix i assume i: "search b (numBuckets h) ?p = Inr (Some i)" "b \<le> i" "i < numBuckets h"
      "buckets h ! nat i \<noteq> []" "\<And>j. b \<le> j \<Longrightarrow> j < i \<Longrightarrow> \<not> buckets h ! nat j \<noteq> []"
    then have "concat (drop (nat b) (buckets h)) = concat (drop (nat i) (buckets h))"
      by (intro skip) auto
    moreover have "drop (nat i) (buckets h) = buckets h ! nat i # drop (nat i + 1) (buckets h)"
      using i b len by (simp add: Cons_nth_drop_Suc)
    ultimately show ?thesis
      using i b len by (simp add: HashTable_FindNextFullBucket_def enter_bucket_def ahead_def)
  next
    assume m: "search b (numBuckets h) ?p = Inr None"
      "\<And>j. b \<le> j \<Longrightarrow> j < numBuckets h \<Longrightarrow> \<not> buckets h ! nat j \<noteq> []"
    then have "concat (drop (nat b) (buckets h)) = concat (drop (nat (numBuckets h)) (buckets h))"
      using b by (intro skip) auto
    with m b len [symmetric] show ?thesis
      by (simp add: HashTable_FindNextFullBucket_def enter_bucket_def ahead_def)
  qed
qed

lemma collect_ahead:
  assumes h: "placed h"
  shows "ahead h it xs \<Longrightarrow> length xs \<le> n \<Longrightarrow> collect n h it = Inr xs"
proof (induction n arbitrary: it xs)
  case 0
  then show ?case by (simp add: ahead_def collect.simps HashIterator_IsDone_def)
next
  case (Suc n)
  show ?case
  proof (cases "bucket it = numBuckets h")
    case True
    with Suc.prems show ?thesis by (simp add: ahead_def collect.simps HashIterator_IsDone_def)
  next
    case False
    then obtain x l where it: "bucketIter it = Some (x # l)" "0 \<le> bucket it" "bucket it < numBuckets h"
      and xs: "xs = (x # l) @ concat (drop (nat (bucket it) + 1) (buckets h))"
      using Suc.prems(1) by (auto simp: ahead_def neq_Nil_conv)
    have "\<exists>it'. HashIterator_Next h it = Inr it' \<and> ahead h it' (tl xs)"
    proof (cases "l = []")
      case True
      have b: "0 \<le> bucket it + 1" "bucket it + 1 \<le> numBuckets h" using it(2,3) by auto
      from enter_next_full [OF h b] it xs True show ?thesis
        by (simp add: HashIterator_Next_def nat_add_distrib)
    next
      case False
      with it xs show ?thesis by (auto simp: HashIterator_Next_def ahead_def)
    qed
    then obtain it' where "HashIterator_Next h it = Inr it'" "ahead h it' (tl xs)" by blast
    moreover from this Suc have "collect n h it' = Inr (tl xs)" by simp
    ultimately show ?thesis
      using False it xs
      by (subst collect.simps) (simp add: HashIterator_IsDone_def HashIterator_Item_def)
  qed
qed

section \<open>The self test\<close>

definition keyed :: "('t \<Rightarrow> 'k) \<Rightarrow> 't list \<Rightarrow> ('k \<rightharpoonup> 't)" where
  "keyed get xs = map_of (map (\<lambda>x. (get x, x)) xs)"

lemma keyed_None: "keyed get xs k = None \<longleftrightarrow> k \<notin> get ` set xs"
  by (auto simp: keyed_def map_of_eq_None_iff image_iff)

lemma keyed_snoc: "get x \<notin> get ` set xs \<Longrightarrow> keyed get (xs @ [x]) = (keyed get xs)(get x \<mapsto> x)"
  using keyed_None [of get xs "get x"] by (auto simp: keyed_def map_add_def fun_eq_iff split: option.splits)

lemma keyed_Cons: "keyed get (x # xs) = (keyed get xs)(get x \<mapsto> x)"
  by (simp add: keyed_def)

lemma IsEmpty_iff:
  assumes "map_rel get h m"
  shows "HashTable_IsEmpty h \<longleftrightarrow> m = Map.empty"
proof -
  have "total h = 0 \<longleftrightarrow> contents h = {}"
    by (auto simp: total_def contents_def sum_list_eq_0_iff)
  moreover have "m = Map.empty \<longleftrightarrow> contents h = {}"
    using map_rel_dom [OF assms] by (metis equals0I image_empty image_eqI empty_iff ext)
  ultimately show ?thesis
    using assms by (simp add: map_rel_def HashTable_IsEmpty_def table_ok_def)
qed

lemma SelfTest_ok:
  assumes r: "map_rel get h Map.empty" and p: "distinct (map get p)"
  shows "\<exists>h'. HashTable_SelfTest p (int (length p)) h = Inr h' \<and> map_rel get h' Map.empty"
proof -
  let ?ins = "\<lambda>i h. rbind (aget p i) (\<lambda>x.
       rbind (HashTable_Insert h x) (\<lambda>h.
       rbind (HashTable_IsInTable h (getKey h x)) (\<lambda>b. rbind (assert b) (\<lambda>_.
       rbind (assert (\<not> HashTable_IsEmpty h)) (\<lambda>_. Inr h)))))"
  let ?rem = "\<lambda>i h. rbind (aget p i) (\<lambda>x.
       rbind (HashTable_Remove h (getKey h x)) (\<lambda>(y, h).
       rbind (assert (y = x)) (\<lambda>_. Inr h)))"
  have "\<exists>h1. for_range 0 (int (length p)) ?ins h = Inr h1 \<and>
      map_rel get h1 (keyed get (take (nat (int (length p))) p))"
  proof (rule for_range_rule)
    fix i :: int and h assume i: "0 \<le> i" "i < int (length p)" and r: "map_rel get h (keyed get (take (nat i) p))"
    have snoc: "take (nat (i + 1)) p = take (nat i) p @ [p ! nat i]"
      using i by (simp add: nat_add_distrib take_Suc_conv_app_nth)
    have "distinct (map get (take (nat (i + 1)) p))" using p by (metis distinct_take take_map)
    then have new: "get (p ! nat i) \<notin> get ` set (take (nat i) p)" by (simp add: snoc)
    with Insert_refines [OF r, of "p ! nat i"] obtain h' where h': "HashTable_Insert h (p ! nat i) = Inr h'"
        "map_rel get h' (keyed get (take (nat (i + 1)) p))"
      by (auto simp: Map_Insert_def keyed_None snoc keyed_snoc elim!: rel_sum.cases)
    have get: "getKey h' = get" using h'(2) by (simp add: map_rel_def)
    have "HashTable_IsInTable h' (get (p ! nat i)) = Inr True"
      using Find_refines [OF h'(2), of "get (p ! nat i)"] new by (simp add: HashTable_IsInTable_def snoc keyed_snoc)
    moreover have "keyed get (take (nat (i + 1)) p) \<noteq> Map.empty" using new by (simp add: snoc keyed_snoc)
    ultimately show "\<exists>h'. ?ins i h = Inr h' \<and> map_rel get h' (keyed get (take (nat (i + 1)) p))"
      using i h' get IsEmpty_iff [OF h'(2)] by simp
  qed (use r in \<open>simp_all add: keyed_def\<close>)
  then obtain h1 where h1: "for_range 0 (int (length p)) ?ins h = Inr h1" "map_rel get h1 (keyed get p)" by auto
  have "\<exists>h2. for_range 0 (int (length p)) ?rem h1 = Inr h2 \<and>
      map_rel get h2 (keyed get (drop (nat (int (length p))) p))"
  proof (rule for_range_rule)
    fix i :: int and h assume i: "0 \<le> i" "i < int (length p)" and r: "map_rel get h (keyed get (drop (nat i) p))"
    have cons: "drop (nat i) p = p ! nat i # drop (nat (i + 1)) p"
      using i by (simp add: nat_add_distrib Cons_nth_drop_Suc)
    have "distinct (map get (drop (nat i) p))" using p by (metis distinct_drop drop_map)
    then have "keyed get (drop (nat (i + 1)) p) (get (p ! nat i)) = None" by (simp add: cons keyed_None)
    then have "(keyed get (drop (nat i) p))(get (p ! nat i) := None) = keyed get (drop (nat (i + 1)) p)"
      by (auto simp: cons keyed_Cons)
    with Remove_refines_map [OF r, of "get (p ! nat i)"] show
      "\<exists>h'. ?rem i h = Inr h' \<and> map_rel get h' (keyed get (drop (nat (i + 1)) p))"
      using i r by (auto simp: Map_Remove_def cons keyed_Cons map_rel_def elim!: rel_sum.cases)
  qed (use h1 in simp_all)
  then obtain h2 where h2: "for_range 0 (int (length p)) ?rem h1 = Inr h2" "map_rel get h2 Map.empty"
    by (auto simp: keyed_def)
  have "contents h = {}" "placed h" using r by (auto simp: map_rel_def table_ok_def)
  then have "concat (buckets h) = []" by (auto simp: contents_def concat_eq_Nil_conv)
  with enter_next_full [OF \<open>placed h\<close>, of 0] \<open>placed h\<close> obtain it where
    it: "HashIterator_new h = Inr it" "ahead h it []"
    by (auto simp: HashIterator_new_def placed_def)
  then have "HashIterator_IsDone h it" by (auto simp: ahead_def HashIterator_IsDone_def)
  moreover have "HashTable_SanityCheck h = Inr ()" "HashTable_SanityCheck h2 = Inr ()"
    using r h2(2) by (auto simp: map_rel_def intro: SanityCheck_ok)
  ultimately show ?thesis
    using h1 h2 it(1) IsEmpty_iff [OF r] IsEmpty_iff [OF h2(2)] by (simp add: HashTable_SelfTest_def)
qed

section \<open>The instance of \<^verbatim>\<open>LibSelfTest\<close>\<close>

definition HashInt :: "int \<Rightarrow> 32 word" where
  "HashInt key = word_of_int key"

text \<open>\<^verbatim>\<open>atoi\<close>: skip blanks, read a sign, then digits up to the first other character.\<close>

definition is_digit :: "char \<Rightarrow> bool" where
  "is_digit c \<longleftrightarrow> c \<in> set ''0123456789''"

definition digits :: "string \<Rightarrow> int" where
  "digits str = foldl (\<lambda>n c. 10 * n + (of_char c - 48)) 0 (takeWhile is_digit str)"

definition atoi :: "string \<Rightarrow> int" where
  "atoi str = (case dropWhile (\<lambda>c. c \<in> set [CHR '' '', CHR 0x09, CHR 0x0A, CHR 0x0B, CHR 0x0C, CHR 0x0D]) str of
      [] \<Rightarrow> 0
    | c # cs \<Rightarrow> if c = CHR ''-'' then - digits cs else if c = CHR ''+'' then digits cs else digits (c # cs))"

definition HashKey :: "string \<Rightarrow> int" where
  "HashKey str = atoi str"

definition hashTestVector :: "string list" where
  "hashTestVector = [''0'', ''1'', ''2'', ''3'', ''4'', ''5'', ''6'', ''7'', ''8'', ''9'',
     ''10'', ''11'', ''12'', ''13'', ''14'']"

text \<open>
  C19. The hash table implements a finite map from keys to items: any sequence of \<^verbatim>\<open>Insert\<close>,
  \<^verbatim>\<open>Remove\<close> and \<^verbatim>\<open>Find\<close> calls on a new table returns what the map returns and fails an assertion
  exactly when the map contract says so (a key inserted twice, a missing key removed), through
  every resizing and whatever the hash function is.
\<close>

theorem HashTable_refines_map:
  "map_sum id fst (run HashTable_step ops (HashTable_new get hFunc)) =
   map_sum id fst (run (Map_step get) ops Map.empty)"
  by (rule ht.run_observations [OF map_rel_new])

text \<open>
  The hash iterator visits every item of a well-formed table exactly once, bucket by bucket,
  and stops after as many steps as there are items.
\<close>

theorem HashIterator_visits_all:
  assumes "table_ok h" "numItems h \<le> int n"
  shows "\<exists>it. HashIterator_new h = Inr it \<and> collect n h it = Inr (concat (buckets h)) \<and>
    distinct (concat (buckets h)) \<and> set (concat (buckets h)) = contents h"
proof -
  have h: "placed h" and n: "length (concat (buckets h)) \<le> n"
    using assms by (simp_all add: table_ok_def total_def length_concat)
  from enter_next_full [OF h, of 0] h obtain it where
    it: "HashIterator_new h = Inr it" "ahead h it (concat (buckets h))"
    by (auto simp: HashIterator_new_def placed_def)
  have dist: "distinct (buckets h ! i)" if "i < length (buckets h)" for i
    using h that by (auto simp: placed_def distinct_map)
  have disj: "set (buckets h ! i) \<inter> set (buckets h ! j) = {}"
    if "i < j" "j < length (buckets h)" for i j
    using that bucket_slot [OF h] by (metis disjoint_iff less_irrefl_nat order.strict_trans)
  have "distinct (concat (buckets h))"
    using dist disj by (rule distinct_concat_nth)
  with it collect_ahead [OF h it(2) n] show ?thesis by (auto simp: contents_def)
qed

theorem HashIterator_visits_all_witness:
  "\<exists>it. HashIterator_new \<lparr>buckets = [[8], [5], [], [3, 7]], numBuckets = 4, numItems = 4,
       getKey = id, hash = HashInt\<rparr> = Inr it \<and>
     collect 4 \<lparr>buckets = [[8], [5], [], [3, 7]], numBuckets = 4, numItems = 4,
       getKey = id, hash = HashInt\<rparr> it = Inr [8, 5, 3, 7]"
proof -
  let ?h = "\<lparr>buckets = [[8], [5], [], [3, 7]], numBuckets = 4, numItems = 4, getKey = id, hash = HashInt\<rparr>"
  have "table_ok ?h"
    by (simp add: table_ok_def placed_def total_def HashInt_def All_less_Suc)
  with HashIterator_visits_all [of ?h 4] show ?thesis by auto
qed

text \<open>
  The hash table's self test passes for any vector of items with distinct keys and any hash
  function, resizings included; \<^verbatim>\<open>LibSelfTest\<close>'s fifteen strings force one.
\<close>

theorem HashTable_SelfTest_passes:
  assumes "distinct (map get p)"
  shows "\<exists>h. HashTable_SelfTest p (int (length p)) (HashTable_new get hFunc) = Inr h \<and>
    HashTable_IsEmpty h \<and> HashTable_SanityCheck h = Inr ()"
proof -
  from SelfTest_ok [OF map_rel_new assms] obtain h where
    "HashTable_SelfTest p (int (length p)) (HashTable_new get hFunc) = Inr h" "map_rel get h Map.empty"
    by blast
  then show ?thesis using IsEmpty_iff [of get h Map.empty] SanityCheck_ok [of h] by (auto simp: map_rel_def)
qed

lemma hashTestVector_passes:
  "\<exists>h. HashTable_SelfTest hashTestVector 15 (HashTable_new HashKey HashInt) = Inr h \<and> HashTable_IsEmpty h"
proof -
  have "distinct (map HashKey hashTestVector)" "length hashTestVector = 15"
    by (code_simp, simp add: hashTestVector_def)
  with HashTable_SelfTest_passes [of HashKey hashTestVector HashInt] show ?thesis by auto
qed

end
