(* ===== verification/Bitmap.thy ===== *)
theory Bitmap
  imports Prelude
begin

text \<open>
  The bitmap of \<^verbatim>\<open>lib/bitmap.cc\<close>: an array of 32-bit words whose bits record which disk
  sectors (or pages) are in use.  Every operation is modelled on the word array, with its
  assertions.  The abstraction \<open>bset\<close> is the set of bits that are on; the locale
  \<open>free_map\<close> is the allocator interface the file system relies on, with the allocation and
  deallocation loops proved once over it, and the word-array bitmap is its interpretation.
\<close>

section \<open>The class\<close>

definition BitsInByte :: int where
  "BitsInByte = 8"

definition BitsInWord :: int where
  "BitsInWord = 4 * BitsInByte"

record bitmap =
  numBits :: int
  numWords :: int
  bmap :: "32 word list"    \<comment> \<open>the field \<^verbatim>\<open>map\<close>\<close>

definition bit_mask :: "int \<Rightarrow> 32 word" where
  "bit_mask which = push_bit (nat (which smod BitsInWord)) 1"

definition Bitmap_Test :: "bitmap \<Rightarrow> int \<Rightarrow> bool res" where
  "Bitmap_Test b which =
     rbind (assert (0 \<le> which \<and> which < numBits b)) (\<lambda>_.
     rbind (aget (bmap b) (which sdiv BitsInWord)) (\<lambda>w.
     Inr (w AND bit_mask which \<noteq> 0)))"

definition Bitmap_Mark :: "bitmap \<Rightarrow> int \<Rightarrow> bitmap res" where
  "Bitmap_Mark b which =
     rbind (assert (0 \<le> which \<and> which < numBits b)) (\<lambda>_.
     rbind (aget (bmap b) (which sdiv BitsInWord)) (\<lambda>w.
     rbind (aput (bmap b) (which sdiv BitsInWord) (w OR bit_mask which)) (\<lambda>m.
     let b' = b\<lparr>bmap := m\<rparr> in
     rbind (Bitmap_Test b' which) (\<lambda>t.
     rbind (assert t) (\<lambda>_. Inr b')))))"

definition Bitmap_Clear :: "bitmap \<Rightarrow> int \<Rightarrow> bitmap res" where
  "Bitmap_Clear b which =
     rbind (assert (0 \<le> which \<and> which < numBits b)) (\<lambda>_.
     rbind (aget (bmap b) (which sdiv BitsInWord)) (\<lambda>w.
     rbind (aput (bmap b) (which sdiv BitsInWord) (w AND NOT (bit_mask which))) (\<lambda>m.
     let b' = b\<lparr>bmap := m\<rparr> in
     rbind (Bitmap_Test b' which) (\<lambda>t.
     rbind (assert (\<not> t)) (\<lambda>_. Inr b')))))"

definition Bitmap_new :: "int \<Rightarrow> bitmap res" where
  "Bitmap_new numItems =
     rbind (assert (numItems > 0)) (\<lambda>_.
     let nw = divRoundUp numItems BitsInWord;
         b = \<lparr>numBits = numItems, numWords = nw, bmap = replicate (nat nw) 0\<rparr> in
     for_range 0 (numBits b) (\<lambda>i b. Bitmap_Clear b i) b)"

definition Bitmap_FindAndSet :: "bitmap \<Rightarrow> (int \<times> bitmap) res" where
  "Bitmap_FindAndSet b =
     rbind (search 0 (numBits b) (\<lambda>i. rbind (Bitmap_Test b i) (\<lambda>t. Inr (\<not> t)))) (\<lambda>r.
     case r of
       Some i \<Rightarrow> rbind (Bitmap_Mark b i) (\<lambda>b'. Inr (i, b'))
     | None \<Rightarrow> Inr (-1, b))"

definition Bitmap_NumClear :: "bitmap \<Rightarrow> int res" where
  "Bitmap_NumClear b =
     for_range 0 (numBits b) (\<lambda>i count.
       rbind (Bitmap_Test b i) (\<lambda>t. Inr (if \<not> t then count + 1 else count))) 0"

text \<open>\<^verbatim>\<open>Print\<close> writes the numbers of the bits that are set; the model collects them.\<close>

definition Bitmap_Print :: "bitmap \<Rightarrow> int list res" where
  "Bitmap_Print b =
     for_range 0 (numBits b) (\<lambda>i out.
       rbind (Bitmap_Test b i) (\<lambda>t. Inr (if t then out @ [i] else out))) []"

definition Bitmap_SelfTest :: "bitmap \<Rightarrow> bitmap res" where
  "Bitmap_SelfTest b =
     rbind (assert (numBits b \<ge> BitsInWord)) (\<lambda>_.
     rbind (Bitmap_NumClear b) (\<lambda>c. rbind (assert (c = numBits b)) (\<lambda>_.
     rbind (Bitmap_FindAndSet b) (\<lambda>(i, b). rbind (assert (i = 0)) (\<lambda>_.
     rbind (Bitmap_Mark b 31) (\<lambda>b.
     rbind (Bitmap_Test b 0) (\<lambda>t0. rbind (Bitmap_Test b 31) (\<lambda>t31.
     rbind (assert (t0 \<and> t31)) (\<lambda>_.
     rbind (Bitmap_FindAndSet b) (\<lambda>(i, b). rbind (assert (i = 1)) (\<lambda>_.
     rbind (Bitmap_Clear b 0) (\<lambda>b.
     rbind (Bitmap_Clear b 1) (\<lambda>b.
     rbind (Bitmap_Clear b 31) (\<lambda>b.
     rbind (for_range 0 (numBits b) (\<lambda>i b. Bitmap_Mark b i) b) (\<lambda>b.
     rbind (Bitmap_FindAndSet b) (\<lambda>(i, b). rbind (assert (i = -1)) (\<lambda>_.
     for_range 0 (numBits b) (\<lambda>i b. Bitmap_Clear b i) b)))))))))))))))))"

section \<open>The set a bitmap stands for\<close>

definition bitmap_ok :: "bitmap \<Rightarrow> bool" where
  "bitmap_ok b \<longleftrightarrow> 0 < numBits b \<and> numWords b = divRoundUp (numBits b) BitsInWord \<and>
     int (length (bmap b)) = numWords b"

definition bit_at :: "bitmap \<Rightarrow> int \<Rightarrow> bool" where
  "bit_at b i = bit (bmap b ! nat (i div 32)) (nat (i mod 32))"

definition bset :: "bitmap \<Rightarrow> int set" where
  "bset b = {i. 0 \<le> i \<and> i < numBits b \<and> bit_at b i}"

lemma BitsInWord_32 [simp]: "BitsInWord = 32"
  by (simp add: BitsInWord_def BitsInByte_def)

lemma word_index:
  assumes "bitmap_ok b" "0 \<le> i" "i < numBits b"
  shows "nat (i div 32) < length (bmap b)"
proof -
  have "i div 32 < numWords b"
    using less_divRoundUp [of i "numBits b" 32] assms by (simp add: bitmap_ok_def)
  moreover have "0 \<le> i div 32" using assms by simp
  ultimately show ?thesis using assms by (simp add: bitmap_ok_def nat_less_iff)
qed

lemma and_bit_mask:
  "0 \<le> i \<Longrightarrow> w AND bit_mask i \<noteq> 0 \<longleftrightarrow> bit w (nat (i mod 32))"
  by (simp add: bit_mask_def push_bit_eq_mult and_exp_eq_0_iff_not_bit)

lemma Bitmap_Test_ok:
  assumes "bitmap_ok b" "0 \<le> i" "i < numBits b"
  shows "Bitmap_Test b i = Inr (i \<in> bset b)"
proof -
  have "nat (i div 32) < length (bmap b)" by (rule word_index [OF assms])
  then have "i div 32 < int (length (bmap b))" using assms by (simp add: nat_less_iff)
  then show ?thesis
    using assms by (simp add: Bitmap_Test_def and_bit_mask bset_def bit_at_def)
qed

lemma same_bit_position:
  fixes i j :: int
  assumes "0 \<le> i" "0 \<le> j" "nat (i div 32) = nat (j div 32)" "nat (i mod 32) = nat (j mod 32)"
  shows "i = j"
proof -
  have "i div 32 = j div 32" "i mod 32 = j mod 32" using assms by (simp_all add: eq_nat_nat_iff)
  then show ?thesis by (metis div_mult_mod_eq)
qed

lemma bit_at_update:
  assumes "bitmap_ok b" "0 \<le> i" "i < numBits b" "0 \<le> j" "j < numBits b"
  shows "bit_at (b\<lparr>bmap := (bmap b)[nat (i div 32) := w]\<rparr>) j =
    (if j div 32 = i div 32 then bit w (nat (j mod 32)) else bit_at b j)"
  using assms word_index [OF assms(1-3)]
  by (auto simp: bit_at_def nth_list_update eq_nat_nat_iff)

lemma bit_bit_mask: "0 \<le> i \<Longrightarrow> 0 \<le> j \<Longrightarrow> bit (bit_mask i) (nat (j mod 32)) \<longleftrightarrow> j mod 32 = i mod 32"
  by (auto simp: bit_mask_def bit_simps eq_nat_nat_iff nat_less_iff)

lemma bitmap_ok_update: "bitmap_ok (b\<lparr>bmap := (bmap b)[k := w]\<rparr>) = bitmap_ok b"
  by (simp add: bitmap_ok_def)

lemma bset_Mark:
  assumes "bitmap_ok b" "0 \<le> i" "i < numBits b"
  shows "bset (b\<lparr>bmap := (bmap b)[nat (i div 32) := bmap b ! nat (i div 32) OR bit_mask i]\<rparr>)
    = insert i (bset b)"
proof (rule set_eqI)
  fix j
  show "j \<in> bset (b\<lparr>bmap := (bmap b)[nat (i div 32) := bmap b ! nat (i div 32) OR bit_mask i]\<rparr>)
    \<longleftrightarrow> j \<in> insert i (bset b)"
  proof (cases "0 \<le> j \<and> j < numBits b")
    case True
    then have "j = i \<longleftrightarrow> j div 32 = i div 32 \<and> j mod 32 = i mod 32"
      by (metis div_mult_mod_eq)
    with True show ?thesis
      using assms by (auto simp: bset_def bit_at_update bit_or_iff bit_bit_mask) (simp_all add: bit_at_def)
  qed (use assms in \<open>auto simp: bset_def\<close>)
qed

lemma bset_Clear:
  assumes "bitmap_ok b" "0 \<le> i" "i < numBits b"
  shows "bset (b\<lparr>bmap := (bmap b)[nat (i div 32) := bmap b ! nat (i div 32) AND NOT (bit_mask i)]\<rparr>)
    = bset b - {i}"
proof (rule set_eqI)
  fix j
  show "j \<in> bset (b\<lparr>bmap := (bmap b)[nat (i div 32) := bmap b ! nat (i div 32) AND NOT (bit_mask i)]\<rparr>)
    \<longleftrightarrow> j \<in> bset b - {i}"
  proof (cases "0 \<le> j \<and> j < numBits b")
    case True
    then have "j = i \<longleftrightarrow> j div 32 = i div 32 \<and> j mod 32 = i mod 32"
      by (metis div_mult_mod_eq)
    with True show ?thesis
      using assms
      by (auto simp: bset_def bit_at_update bit_and_iff bit_not_iff bit_bit_mask nat_less_iff)
        (simp_all add: bit_at_def)
  qed (use assms in \<open>auto simp: bset_def\<close>)
qed

lemma bset_bounds: "bset b \<subseteq> {0..<numBits b}"
  by (auto simp: bset_def)

lemma Bitmap_Mark_ok:
  assumes "bitmap_ok b" "0 \<le> i" "i < numBits b"
  shows "\<exists>b'. Bitmap_Mark b i = Inr b' \<and> bitmap_ok b' \<and> numBits b' = numBits b \<and>
    bset b' = insert i (bset b)"
proof -
  let ?b = "b\<lparr>bmap := (bmap b)[nat (i div 32) := bmap b ! nat (i div 32) OR bit_mask i]\<rparr>"
  have idx: "i div 32 < int (length (bmap b))"
    using word_index [OF assms] assms by (simp add: nat_less_iff)
  have ok: "bitmap_ok ?b" using assms by (simp add: bitmap_ok_update)
  then have "Bitmap_Test ?b i = Inr (i \<in> bset ?b)"
    using assms by (intro Bitmap_Test_ok) simp_all
  then have "Bitmap_Mark b i = Inr ?b"
    using assms idx by (simp add: Bitmap_Mark_def Let_def bset_Mark)
  with ok show ?thesis using bset_Mark [OF assms] by simp
qed

lemma Bitmap_Clear_ok:
  assumes "bitmap_ok b" "0 \<le> i" "i < numBits b"
  shows "\<exists>b'. Bitmap_Clear b i = Inr b' \<and> bitmap_ok b' \<and> numBits b' = numBits b \<and>
    bset b' = bset b - {i}"
proof -
  let ?b = "b\<lparr>bmap := (bmap b)[nat (i div 32) := bmap b ! nat (i div 32) AND NOT (bit_mask i)]\<rparr>"
  have idx: "i div 32 < int (length (bmap b))"
    using word_index [OF assms] assms by (simp add: nat_less_iff)
  have ok: "bitmap_ok ?b" using assms by (simp add: bitmap_ok_update)
  then have "Bitmap_Test ?b i = Inr (i \<in> bset ?b)"
    using assms by (intro Bitmap_Test_ok) simp_all
  then have "Bitmap_Clear b i = Inr ?b"
    using assms idx by (simp add: Bitmap_Clear_def Let_def bset_Clear)
  with ok show ?thesis using bset_Clear [OF assms] by simp
qed

lemma Bitmap_FindAndSet_ok:
  assumes ok: "bitmap_ok b"
  shows "(bset b = {0..<numBits b} \<and> Bitmap_FindAndSet b = Inr (-1, b)) \<or>
    (\<exists>i b'. Bitmap_FindAndSet b = Inr (i, b') \<and> 0 \<le> i \<and> i < numBits b \<and> i \<notin> bset b \<and>
       (\<forall>j. 0 \<le> j \<longrightarrow> j < i \<longrightarrow> j \<in> bset b) \<and>
       bitmap_ok b' \<and> numBits b' = numBits b \<and> bset b' = insert i (bset b))"
proof (rule search_cases [of 0 "numBits b" "\<lambda>i. rbind (Bitmap_Test b i) (\<lambda>t. Inr (\<not> t))"
      "\<lambda>i. i \<notin> bset b"])
  fix i assume i: "0 \<le> i" "i < numBits b"
  then show "rbind (Bitmap_Test b i) (\<lambda>t. Inr (\<not> t)) = Inr (i \<notin> bset b)"
    using ok by (simp add: Bitmap_Test_ok)
next
  fix i
  assume "search 0 (numBits b) (\<lambda>i. rbind (Bitmap_Test b i) (\<lambda>t. Inr (\<not> t))) = Inr (Some i)"
    and i: "0 \<le> i" "i < numBits b" "i \<notin> bset b"
    and low: "\<And>j. 0 \<le> j \<Longrightarrow> j < i \<Longrightarrow> \<not> j \<notin> bset b"
  with Bitmap_Mark_ok [OF ok i(1,2)] show ?thesis
    by (auto simp: Bitmap_FindAndSet_def)
next
  assume "search 0 (numBits b) (\<lambda>i. rbind (Bitmap_Test b i) (\<lambda>t. Inr (\<not> t))) = Inr None"
    and full: "\<And>j. 0 \<le> j \<Longrightarrow> j < numBits b \<Longrightarrow> \<not> j \<notin> bset b"
  then show ?thesis
    using bset_bounds [of b] by (auto simp: Bitmap_FindAndSet_def)
qed

lemma card_clear_step:
  fixes i :: int
  assumes "0 \<le> i"
  shows "int (card ({0..<i + 1} - S)) = int (card ({0..<i} - S)) + (if i \<in> S then 0 else 1)"
proof -
  have "{0..<i + 1} = insert i {0..<i}" using assms by auto
  then show ?thesis by (simp add: insert_Diff_if)
qed

lemma Bitmap_NumClear_ok:
  assumes ok: "bitmap_ok b"
  shows "Bitmap_NumClear b = Inr (int (card ({0..<numBits b} - bset b)))"
proof -
  let ?body = "\<lambda>i count. rbind (Bitmap_Test b i) (\<lambda>t. Inr (if \<not> t then count + 1 else count))"
  have "\<exists>c. for_range 0 (numBits b) ?body 0 = Inr c \<and> c = int (card ({0..<numBits b} - bset b))"
  proof (rule for_range_rule)
    fix i c assume "0 \<le> i" "i < numBits b" "c = int (card ({0..<i} - bset b))"
    then show "\<exists>c'. ?body i c = Inr c' \<and> c' = int (card ({0..<i + 1} - bset b))"
      using ok by (simp add: Bitmap_Test_ok card_clear_step)
  qed (use ok in \<open>simp_all add: bitmap_ok_def\<close>)
  then show ?thesis by (simp add: Bitmap_NumClear_def)
qed

section \<open>The allocator interface\<close>

text \<open>
  What the file system needs of a free map: \<open>used\<close> is the set of allocated numbers below
  \<open>nbits\<close>, and the operations act on it as set operations.
\<close>

locale free_map =
  fixes nbits :: "'m \<Rightarrow> int"
    and used :: "'m \<Rightarrow> int set"
    and inv :: "'m \<Rightarrow> bool"
    and test :: "'m \<Rightarrow> int \<Rightarrow> bool res"
    and mark :: "'m \<Rightarrow> int \<Rightarrow> 'm res"
    and clear :: "'m \<Rightarrow> int \<Rightarrow> 'm res"
    and find :: "'m \<Rightarrow> (int \<times> 'm) res"
    and nclear :: "'m \<Rightarrow> int res"
  assumes used_bounds: "used m \<subseteq> {0..<nbits m}"
    and nbits_pos: "inv m \<Longrightarrow> 0 < nbits m"
    and test_used: "inv m \<Longrightarrow> 0 \<le> i \<Longrightarrow> i < nbits m \<Longrightarrow> test m i = Inr (i \<in> used m)"
    and mark_used: "inv m \<Longrightarrow> 0 \<le> i \<Longrightarrow> i < nbits m \<Longrightarrow>
      \<exists>m'. mark m i = Inr m' \<and> inv m' \<and> nbits m' = nbits m \<and> used m' = insert i (used m)"
    and clear_used: "inv m \<Longrightarrow> 0 \<le> i \<Longrightarrow> i < nbits m \<Longrightarrow>
      \<exists>m'. clear m i = Inr m' \<and> inv m' \<and> nbits m' = nbits m \<and> used m' = used m - {i}"
    and find_cases: "inv m \<Longrightarrow>
      (used m = {0..<nbits m} \<and> find m = Inr (-1, m)) \<or>
      (\<exists>i m'. find m = Inr (i, m') \<and> 0 \<le> i \<and> i < nbits m \<and> i \<notin> used m \<and>
         (\<forall>j. 0 \<le> j \<longrightarrow> j < i \<longrightarrow> j \<in> used m) \<and>
         inv m' \<and> nbits m' = nbits m \<and> used m' = insert i (used m))"
    and nclear_card: "inv m \<Longrightarrow> nclear m = Inr (int (card ({0..<nbits m} - used m)))"
begin

lemma find_free:
  assumes "inv m" "{0..<nbits m} - used m \<noteq> {}"
  obtains i m' where "find m = Inr (i, m')" "0 \<le> i" "i < nbits m" "i \<notin> used m"
    "\<forall>j. 0 \<le> j \<longrightarrow> j < i \<longrightarrow> j \<in> used m" "inv m'" "nbits m' = nbits m"
    "used m' = insert i (used m)"
  using find_cases [OF assms(1)] assms(2) by auto

text \<open>Marking (clearing) every number of the map, as the self test does.\<close>

lemma mark_all:
  assumes "inv m"
  shows "\<exists>m'. for_range 0 (nbits m) (\<lambda>i m. mark m i) m = Inr m' \<and> inv m' \<and>
    nbits m' = nbits m \<and> used m' = {0..<nbits m}"
proof -
  have "\<exists>m'. for_range 0 (nbits m) (\<lambda>i m. mark m i) m = Inr m' \<and>
      (inv m' \<and> nbits m' = nbits m \<and> {0..<nbits m} \<subseteq> used m')"
  proof (rule for_range_rule [where I = "\<lambda>i m'. inv m' \<and> nbits m' = nbits m \<and> {0..<i} \<subseteq> used m'"])
    fix i m' assume "0 \<le> i" "i < nbits m" "inv m' \<and> nbits m' = nbits m \<and> {0..<i} \<subseteq> used m'"
    moreover have "{0..<i + 1} \<subseteq> insert i {0..<i}" by auto
    ultimately show "\<exists>m''. mark m' i = Inr m'' \<and> inv m'' \<and> nbits m'' = nbits m \<and> {0..<i + 1} \<subseteq> used m''"
      using mark_used [of m' i] by fastforce
  qed (use assms nbits_pos [of m] in auto)
  then show ?thesis using used_bounds by (metis subset_antisym)
qed

lemma clear_all:
  assumes "inv m"
  shows "\<exists>m'. for_range 0 (nbits m) (\<lambda>i m. clear m i) m = Inr m' \<and> inv m' \<and>
    nbits m' = nbits m \<and> used m' = {}"
proof -
  have "\<exists>m'. for_range 0 (nbits m) (\<lambda>i m. clear m i) m = Inr m' \<and>
      (inv m' \<and> nbits m' = nbits m \<and> used m' \<inter> {0..<nbits m} = {})"
  proof (rule for_range_rule [where I = "\<lambda>i m'. inv m' \<and> nbits m' = nbits m \<and> used m' \<inter> {0..<i} = {}"])
    fix i m' assume "0 \<le> i" "i < nbits m" "inv m' \<and> nbits m' = nbits m \<and> used m' \<inter> {0..<i} = {}"
    moreover have "{0..<i + 1} \<subseteq> insert i {0..<i}" by auto
    ultimately show "\<exists>m''. clear m' i = Inr m'' \<and> inv m'' \<and> nbits m'' = nbits m \<and> used m'' \<inter> {0..<i + 1} = {}"
      using clear_used [of m' i] by fastforce
  qed (use assms nbits_pos [of m] in auto)
  then show ?thesis using used_bounds by (metis Int_absorb2)
qed

text \<open>
  The allocation loop of a file header: it fills the first \<open>n\<close> entries of a table with
  numbers that were free, all different, and marks exactly those.
\<close>

lemma alloc_loop:
  assumes "inv m" "0 \<le> n" "n \<le> int (length xs)" "n \<le> int (card ({0..<nbits m} - used m))"
  shows "\<exists>m' ys. for_range 0 n (\<lambda>i (m, xs). rbind (find m) (\<lambda>(s, m).
        rbind (aput xs i s) (\<lambda>xs. rbind (assert (0 \<le> s)) (\<lambda>_. Inr (m, xs))))) (m, xs)
      = Inr (m', ys) \<and> inv m' \<and> nbits m' = nbits m \<and> length ys = length xs \<and>
      drop (nat n) ys = drop (nat n) xs \<and> distinct (take (nat n) ys) \<and> set (take (nat n) ys) \<inter> used m = {} \<and>
      used m' = used m \<union> set (take (nat n) ys)"
proof -
  let ?body = "\<lambda>i (m, xs). rbind (find m) (\<lambda>(s, m).
        rbind (aput xs i s) (\<lambda>xs. rbind (assert (0 \<le> s)) (\<lambda>_. Inr (m, xs))))"
  let ?I = "\<lambda>i (m', ys). inv m' \<and> nbits m' = nbits m \<and> length ys = length xs \<and>
      drop (nat i) ys = drop (nat i) xs \<and> distinct (take (nat i) ys) \<and> set (take (nat i) ys) \<inter> used m = {} \<and>
      used m' = used m \<union> set (take (nat i) ys)"
  have "\<exists>t. for_range 0 n ?body (m, xs) = Inr t \<and> ?I n t"
  proof (rule for_range_rule)
    fix i :: int and t assume i: "0 \<le> i" "i < n" and "?I i t"
    then obtain m' ys where t: "t = (m', ys)" and I: "?I i (m', ys)" by (cases t) auto
    have "card (set (take (nat i) ys)) = nat i"
      using I i assms(3) by (simp add: distinct_card)
    then have "card ({0..<nbits m} - used m - set (take (nat i) ys)) > 0"
      using i assms(4) diff_card_le_card_Diff [of "set (take (nat i) ys)" "{0..<nbits m} - used m"]
      by simp
    moreover have "{0..<nbits m'} - used m' = {0..<nbits m} - used m - set (take (nat i) ys)"
      using I by auto
    ultimately have ne: "{0..<nbits m'} - used m' \<noteq> {}" by (metis card.empty less_numeral_extra(3))
    have inv: "inv m'" using I by simp
    obtain s m'' where f: "find m' = Inr (s, m'')" "0 \<le> s" "s < nbits m'" "s \<notin> used m'"
        "\<forall>j. 0 \<le> j \<longrightarrow> j < s \<longrightarrow> j \<in> used m'" "inv m''"
        "nbits m'' = nbits m'" "used m'' = insert s (used m')"
      by (rule find_free [OF inv ne])
    have snoc: "take (nat (i + 1)) (ys[nat i := s]) = take (nat i) ys @ [s]"
      using i I assms(3) by (simp add: nat_add_distrib take_Suc_conv_app_nth)
    have "?body i t = Inr (m'', ys[nat i := s])"
      using f i I assms(3) by (simp add: t)
    moreover have "drop (nat (i + 1)) (ys[nat i := s]) = drop (nat (i + 1)) xs"
    proof -
      have "nat (i + 1) = 1 + nat i" using i by simp
      then have "drop (nat (i + 1)) zs = drop 1 (drop (nat i) zs)" for zs :: "int list" by simp
      moreover have "drop (nat i) ys = drop (nat i) xs" using I by simp
      ultimately have "drop (nat (i + 1)) ys = drop (nat (i + 1)) xs" by (simp only:)
      moreover have "nat i < nat (i + 1)" using i by simp
      ultimately show ?thesis by (simp only: drop_update_cancel)
    qed
    then have "?I (i + 1) (m'', ys[nat i := s])"
      using I f snoc by auto
    ultimately show "\<exists>t'. ?body i t = Inr t' \<and> ?I (i + 1) t'" by blast
  qed (use assms in auto)
  then show ?thesis by auto
qed

text \<open>The deallocation loop clears exactly the first \<open>n\<close> numbers of the table.\<close>

lemma dealloc_loop:
  assumes "inv m" "0 \<le> n" "n \<le> int (length xs)" "distinct (take (nat n) xs)"
    "set (take (nat n) xs) \<subseteq> used m"
  shows "\<exists>m'. for_range 0 n (\<lambda>i m. rbind (aget xs i) (\<lambda>s.
        rbind (test m s) (\<lambda>t. rbind (assert t) (\<lambda>_. clear m s)))) m = Inr m' \<and>
      inv m' \<and> nbits m' = nbits m \<and> used m' = used m - set (take (nat n) xs)"
proof -
  let ?body = "\<lambda>i m. rbind (aget xs i) (\<lambda>s.
        rbind (test m s) (\<lambda>t. rbind (assert t) (\<lambda>_. clear m s)))"
  let ?I = "\<lambda>i m'. inv m' \<and> nbits m' = nbits m \<and> used m' = used m - set (take (nat i) xs)"
  show ?thesis
  proof (rule for_range_rule [where I = ?I])
    fix i :: int and m' assume i: "0 \<le> i" "i < n" and I: "?I i m'"
    let ?s = "xs ! nat i"
    have lt: "nat i < length (take (nat n) xs)" using i assms(3) by simp
    have nth: "take (nat n) xs ! nat i = ?s" using i by simp
    have snoc: "take (nat (i + 1)) xs = take (nat i) xs @ [?s]"
      using i assms(3) by (simp add: nat_add_distrib take_Suc_conv_app_nth)
    have "?s \<in> used m" using assms(5) lt nth by (metis nth_mem subsetD)
    moreover have "?s \<notin> set (take (nat i) xs)"
    proof -
      have "take (nat (i + 1)) xs = take (nat (i + 1)) (take (nat n) xs)"
        using i by (simp add: min_def)
      then have "distinct (take (nat i) xs @ [?s])"
        using assms(4) snoc by (metis distinct_take)
      then show ?thesis by simp
    qed
    ultimately have s: "?s \<in> used m'" using I by simp
    then have "0 \<le> ?s" "?s < nbits m'" using used_bounds by fastforce+
    with I s i assms(3) obtain m'' where "?body i m' = Inr m''" "inv m''" "nbits m'' = nbits m'"
        "used m'' = used m' - {?s}"
      using clear_used [of m' ?s] by (auto simp: test_used)
    then show "\<exists>m''. ?body i m' = Inr m'' \<and> ?I (i + 1) m''"
      using I snoc by auto
  qed (use assms in auto)
qed

end

interpretation bm: free_map numBits bset bitmap_ok
  Bitmap_Test Bitmap_Mark Bitmap_Clear Bitmap_FindAndSet Bitmap_NumClear
proof unfold_locales
  fix b i assume "bitmap_ok b"
  show "0 < numBits b" using \<open>bitmap_ok b\<close> by (simp add: bitmap_ok_def)
qed (auto intro: bset_bounds [THEN subsetD] Bitmap_Test_ok Bitmap_Mark_ok Bitmap_Clear_ok
    Bitmap_NumClear_ok dest: Bitmap_FindAndSet_ok)

section \<open>What the operations do\<close>

lemma Bitmap_new_ok:
  assumes "0 < n"
  shows "\<exists>b. Bitmap_new n = Inr b \<and> bitmap_ok b \<and> numBits b = n \<and> bset b = {}"
proof -
  let ?b = "\<lparr>numBits = n, numWords = divRoundUp n 32, bmap = replicate (nat (divRoundUp n 32)) 0\<rparr>"
  have "bitmap_ok ?b"
    using assms divRoundUp_bounds(3) [of n 32] by (simp add: bitmap_ok_def)
  from bm.clear_all [OF this] show ?thesis
    using assms by (simp add: Bitmap_new_def Let_def)
qed

text \<open>
  C25. On a well-formed bitmap and a bit number in range, no assertion of \<^verbatim>\<open>Test\<close>, \<^verbatim>\<open>Mark\<close> or
  \<^verbatim>\<open>Clear\<close> fails, \<^verbatim>\<open>Test\<close> answers whether the bit is on, and \<^verbatim>\<open>Mark\<close> and \<^verbatim>\<open>Clear\<close> switch exactly that
  bit of the word array: the packed representation refines a set of numbers.
\<close>

theorem Bitmap_refines_set:
  assumes "bitmap_ok b" "0 \<le> i" "i < numBits b"
  shows "Bitmap_Test b i = Inr (i \<in> bset b) \<and>
    (\<exists>b'. Bitmap_Mark b i = Inr b' \<and> bitmap_ok b' \<and> numBits b' = numBits b \<and>
       bset b' = insert i (bset b)) \<and>
    (\<exists>b'. Bitmap_Clear b i = Inr b' \<and> bitmap_ok b' \<and> numBits b' = numBits b \<and>
       bset b' = bset b - {i})"
  using assms by (simp add: bm.test_used bm.mark_used bm.clear_used)

text \<open>A 40-bit map (two words), bit 35 in the second word.\<close>

theorem Bitmap_refines_set_witness:
  "bitmap_ok \<lparr>numBits = 40, numWords = 2, bmap = [5, 0]\<rparr> \<and>
   (\<exists>b'. Bitmap_Mark \<lparr>numBits = 40, numWords = 2, bmap = [5, 0]\<rparr> 35 = Inr b' \<and>
      bset b' = insert 35 (bset \<lparr>numBits = 40, numWords = 2, bmap = [5, 0]\<rparr>))"
proof -
  let ?b = "\<lparr>numBits = 40, numWords = 2, bmap = [5, 0]\<rparr>"
  have ok: "bitmap_ok ?b" by (simp add: bitmap_ok_def divRoundUp_def)
  from Bitmap_refines_set [OF ok, of 35] ok show ?thesis by auto
qed

text \<open>
  C26. \<^verbatim>\<open>FindAndSet\<close> allocates the lowest clear bit, marking it and nothing else, and answers -1
  with the map unchanged exactly when every bit is on; \<^verbatim>\<open>NumClear\<close> is the number of bits it
  could still allocate.
\<close>

theorem Bitmap_FindAndSet_first_clear:
  assumes "bitmap_ok b"
  shows "Bitmap_NumClear b = Inr (int (card ({0..<numBits b} - bset b))) \<and>
    (Bitmap_FindAndSet b = Inr (-1, b) \<longleftrightarrow> bset b = {0..<numBits b}) \<and>
    (bset b \<noteq> {0..<numBits b} \<longrightarrow>
      (\<exists>i b'. Bitmap_FindAndSet b = Inr (i, b') \<and> 0 \<le> i \<and> i < numBits b \<and> i \<notin> bset b \<and>
         (\<forall>j. 0 \<le> j \<longrightarrow> j < i \<longrightarrow> j \<in> bset b) \<and>
         bitmap_ok b' \<and> numBits b' = numBits b \<and> bset b' = insert i (bset b)))"
  using bm.find_cases [OF assms] bm.nclear_card [OF assms] by auto

theorem Bitmap_FindAndSet_first_clear_witness:
  "bitmap_ok \<lparr>numBits = 40, numWords = 2, bmap = [- 1, 1]\<rparr> \<and>
   Bitmap_NumClear \<lparr>numBits = 40, numWords = 2, bmap = [- 1, 1]\<rparr> = Inr (int (card
     ({0..<40} - bset \<lparr>numBits = 40, numWords = 2, bmap = [- 1, 1]\<rparr>)))"
proof -
  let ?b = "\<lparr>numBits = 40, numWords = 2, bmap = [- 1, 1]\<rparr>"
  have ok: "bitmap_ok ?b" by (simp add: bitmap_ok_def divRoundUp_def)
  from Bitmap_FindAndSet_first_clear [OF ok] ok show ?thesis by simp
qed

lemma Bitmap_FindAndSet_at:
  assumes "bitmap_ok b" "0 \<le> i" "i < numBits b" "i \<notin> bset b"
    "\<And>j. 0 \<le> j \<Longrightarrow> j < i \<Longrightarrow> j \<in> bset b"
  shows "\<exists>b'. Bitmap_FindAndSet b = Inr (i, b') \<and> bitmap_ok b' \<and> numBits b' = numBits b \<and>
    bset b' = insert i (bset b)"
proof -
  have "{0..<numBits b} - bset b \<noteq> {}" using assms by auto
  then obtain k b' where k: "Bitmap_FindAndSet b = Inr (k, b')" "0 \<le> k" "k \<notin> bset b"
      "\<forall>j. 0 \<le> j \<longrightarrow> j < k \<longrightarrow> j \<in> bset b" "bitmap_ok b'" "numBits b' = numBits b"
      "bset b' = insert k (bset b)"
    using bm.find_free [OF assms(1)] by metis
  then have "k = i" using assms by (metis linorder_neqE)
  with k show ?thesis by blast
qed

text \<open>
  The self test of \<^verbatim>\<open>lib/bitmap.cc\<close> passes on every fresh bitmap of at least one word: none
  of its assertions fails and it leaves the map empty again.
\<close>

theorem Bitmap_SelfTest_passes:
  assumes "32 \<le> n"
  shows "\<exists>b. rbind (Bitmap_new n) Bitmap_SelfTest = Inr b \<and> bitmap_ok b \<and> numBits b = n \<and>
    bset b = {}"
proof -
  obtain b0 where b0: "Bitmap_new n = Inr b0" "bitmap_ok b0" "numBits b0 = n" "bset b0 = {}"
    using Bitmap_new_ok [of n] assms by auto
  obtain b1 where b1: "Bitmap_FindAndSet b0 = Inr (0, b1)" "bitmap_ok b1" "numBits b1 = n"
      "bset b1 = {0}"
    using Bitmap_FindAndSet_at [of b0 0] b0 assms by auto
  obtain b2 where b2: "Bitmap_Mark b1 31 = Inr b2" "bitmap_ok b2" "numBits b2 = n"
      "bset b2 = {0, 31}"
    using bm.mark_used [of b1 31] b1 assms by auto
  obtain b3 where b3: "Bitmap_FindAndSet b2 = Inr (1, b3)" "bitmap_ok b3" "numBits b3 = n"
      "bset b3 = {0, 1, 31}"
    using Bitmap_FindAndSet_at [of b2 1] b2 assms by auto
  obtain b4 where b4: "Bitmap_Clear b3 0 = Inr b4" "bitmap_ok b4" "numBits b4 = n"
    using bm.clear_used [of b3 0] b3 assms by auto
  obtain b5 where b5: "Bitmap_Clear b4 1 = Inr b5" "bitmap_ok b5" "numBits b5 = n"
    using bm.clear_used [of b4 1] b4 assms by auto
  obtain b6 where b6: "Bitmap_Clear b5 31 = Inr b6" "bitmap_ok b6" "numBits b6 = n"
    using bm.clear_used [of b5 31] b5 assms by auto
  obtain b7 where b7: "for_range 0 n (\<lambda>i b. Bitmap_Mark b i) b6 = Inr b7" "bitmap_ok b7"
      "numBits b7 = n" "bset b7 = {0..<n}"
    using bm.mark_all [of b6] b6 by auto
  have full: "Bitmap_FindAndSet b7 = Inr (-1, b7)"
    using bm.find_cases [OF b7(2)] b7(3,4) by auto
  obtain b8 where b8: "for_range 0 n (\<lambda>i b. Bitmap_Clear b i) b7 = Inr b8" "bitmap_ok b8"
      "numBits b8 = n" "bset b8 = {}"
    using bm.clear_all [of b7] b7 by auto
  have "Bitmap_SelfTest b0 = Inr b8"
    using assms b0 b1 b2 b3 b4 b5 b6 b7 full b8
    by (simp add: Bitmap_SelfTest_def bm.nclear_card bm.test_used)
  with b0 b8 show ?thesis by simp
qed

end
