(* ===== verification/Bytes.thy ===== *)
theory Bytes
  imports Prelude
begin

text \<open>
  How the kernel's integers lie in memory and on disk: 32-bit words in little-endian byte order (the
  order of the simulated MIPS and of the hosts the build targets), and arrays of them.
\<close>

type_synonym byte = "8 word"

definition word_bytes :: "32 word \<Rightarrow> byte list" where
  "word_bytes w = [ucast w, ucast (drop_bit 8 w), ucast (drop_bit 16 w), ucast (drop_bit 24 w)]"

definition bytes_word :: "byte \<Rightarrow> byte \<Rightarrow> byte \<Rightarrow> byte \<Rightarrow> 32 word" where
  "bytes_word a b c d =
     ucast a OR push_bit 8 (ucast b) OR push_bit 16 (ucast c) OR push_bit 24 (ucast d)"

fun bytes_words :: "byte list \<Rightarrow> 32 word list" where
  "bytes_words (a # b # c # d # bs) = bytes_word a b c d # bytes_words bs"
| "bytes_words _ = []"

definition words_bytes :: "32 word list \<Rightarrow> byte list" where
  "words_bytes ws = concat (map word_bytes ws)"

lemma length_word_bytes [simp]: "length (word_bytes w) = 4"
  by (simp add: word_bytes_def)

lemma bytes_word_of: "bytes_word (ucast w) (ucast (drop_bit 8 w)) (ucast (drop_bit 16 w)) (ucast (drop_bit 24 w)) = w"
proof (rule bit_word_eqI)
  fix n assume "n < LENGTH(32)"
  then have "n < 8 \<or> (8 \<le> n \<and> n < 16) \<or> (16 \<le> n \<and> n < 24) \<or> (24 \<le> n \<and> n < 32)" by auto
  then show "bit (bytes_word (ucast w) (ucast (drop_bit 8 w)) (ucast (drop_bit 16 w)) (ucast (drop_bit 24 w))) n = bit w n"
    by (elim disjE) (auto simp: bytes_word_def bit_simps)
qed

lemma word_bytes_of: "word_bytes (bytes_word a b c d) = [a, b, c, d]"
  by (simp add: word_bytes_def bytes_word_def, intro conjI; rule bit_word_eqI; auto simp: bit_simps dest: bit_imp_le_length)

lemma bytes_words_app [simp]: "bytes_words (word_bytes w @ bs) = w # bytes_words bs"
  by (simp add: word_bytes_def bytes_word_of)

lemma bytes_words_inverse [simp]: "bytes_words (words_bytes ws) = ws"
  by (induction ws) (simp_all add: words_bytes_def)

lemma words_bytes_inverse: "4 dvd length bs \<Longrightarrow> words_bytes (bytes_words bs) = bs"
proof (induction bs rule: bytes_words.induct)
  case (1 a b c d bs)
  then have "4 dvd length bs" by (simp add: dvd_def) presburger
  with 1 show ?case by (simp add: words_bytes_def word_bytes_of)
qed (auto simp: words_bytes_def dest!: dvd_imp_le)

lemma length_words_bytes [simp]: "length (words_bytes ws) = 4 * length ws"
  by (induction ws) (simp_all add: words_bytes_def)

lemma length_bytes_words: "4 dvd length bs \<Longrightarrow> length (bytes_words bs) = length bs div 4"
  using words_bytes_inverse [of bs] length_words_bytes [of "bytes_words bs"] by (metis nonzero_mult_div_cancel_left zero_neq_numeral)

section \<open>Signed integers\<close>

definition in_int :: "int \<Rightarrow> bool" where
  "in_int i \<longleftrightarrow> - 2147483648 \<le> i \<and> i < 2147483648"

definition chk :: "int \<Rightarrow> int res" where
  "chk i = (if in_int i then Inr i else Inl SignedOverflow)"

lemma chk_in [simp]: "in_int i \<Longrightarrow> chk i = Inr i"
  by (simp add: chk_def)

lemma chk_eq_Inr [simp]: "chk i = Inr j \<longleftrightarrow> in_int i \<and> j = i"
  by (auto simp: chk_def)

lemma sint_of_int: "in_int i \<Longrightarrow> sint (word_of_int i :: 32 word) = i"
  by (simp add: sint_sbintrunc' signed_take_bit_int_eq_self in_int_def)

lemma in_int_sint: "in_int (sint (w :: 32 word))"
  using sint_range_size [of w] by (simp add: in_int_def word_size)

end
