(* ===== verification/Disk.thy ===== *)
theory Disk
  imports Bytes
begin

text \<open>
  The simulated disk (\<^verbatim>\<open>machine/disk.cc\<close>) and its synchronous interface as one thread at a time sees it
  (\<^verbatim>\<open>filesys/synchdisk.cc\<close>).

  The disk is a UNIX file: a four-byte magic number followed by 1024 sectors of 128 bytes.
  \<open>diskfile\<close> holds these bytes, \<open>active\<close>, \<open>lastSector\<close> and \<open>bufferInit\<close> are the fields of the
  class, \<open>totalTicks\<close> is the part of \<^verbatim>\<open>kernel->stats\<close> the latency computation reads, and \<open>fresh n\<close>
  is what a newly allocated, uninitialised block of \<open>n\<close> bytes contains (the file system writes such
  bytes to disk, so the model does not pretend they are zero).

  \<open>SynchDisk_ReadSector\<close> and \<open>SynchDisk_WriteSector\<close> are a whole request: the lock is held, the request
  is made, the semaphore is signalled by the interrupt \<open>ticks\<close> later, the lock is released.  The
  locale \<open>block_device\<close> states what the file system relies on.
\<close>

section \<open>Geometry and state\<close>

definition SectorSize :: int where "SectorSize = 128"
definition SectorsPerTrack :: int where "SectorsPerTrack = 32"
definition NumTracks :: int where "NumTracks = 32"
definition NumSectors :: int where "NumSectors = SectorsPerTrack * NumTracks"
definition RotationTime :: int where "RotationTime = 500"
definition SeekTime :: int where "SeekTime = 500"
definition MagicNumber :: "32 word" where "MagicNumber = 0x456789ab"
definition MagicSize :: int where "MagicSize = 4"
definition DiskSize :: int where "DiskSize = MagicSize + NumSectors * SectorSize"

lemmas geometry = SectorSize_def SectorsPerTrack_def NumTracks_def NumSectors_def RotationTime_def
  SeekTime_def MagicSize_def DiskSize_def

record disk =
  diskfile :: "byte list"
  active :: bool
  lastSector :: int
  bufferInit :: int
  totalTicks :: int
  fresh :: "nat \<Rightarrow> byte list"

text \<open>
  \<^verbatim>\<open>Disk::Disk\<close>: \<open>contents\<close> is the UNIX file \<^verbatim>\<open>DISK_n\<close> when it exists.  A new file gets the magic
  number and a four-byte zero at its end; the bytes skipped by the seek read as zero.
\<close>

definition Disk_new :: "byte list option \<Rightarrow> int \<Rightarrow> (nat \<Rightarrow> byte list) \<Rightarrow> disk res" where
  "Disk_new contents now f =
     (case contents of
        Some bs \<Rightarrow> rbind (assert (take (nat MagicSize) bs = word_bytes MagicNumber)) (\<lambda>_.
          Inr \<lparr>diskfile = bs, active = False, lastSector = 0, bufferInit = 0, totalTicks = now, fresh = f\<rparr>)
      | None \<Rightarrow>
          Inr \<lparr>diskfile = word_bytes MagicNumber @ replicate (nat (DiskSize - MagicSize)) 0,
            active = False, lastSector = 0, bufferInit = 0, totalTicks = now, fresh = f\<rparr>)"

section \<open>Timing\<close>

definition Disk_TimeToSeek :: "disk \<Rightarrow> int \<Rightarrow> int \<times> int" where
  "Disk_TimeToSeek d newSector =
     (let newTrack = newSector sdiv SectorsPerTrack;
          oldTrack = lastSector d sdiv SectorsPerTrack;
          seek = \<bar>newTrack - oldTrack\<bar> * SeekTime;
          over = (totalTicks d + seek) smod RotationTime
      in (seek, if over > 0 then RotationTime - over else 0))"

definition Disk_ModuloDiff :: "int \<Rightarrow> int \<Rightarrow> int" where
  "Disk_ModuloDiff to frm =
     (let toOffset = to smod SectorsPerTrack; fromOffset = frm smod SectorsPerTrack
      in ((toOffset - fromOffset) + SectorsPerTrack) smod SectorsPerTrack)"

definition Disk_ComputeLatency :: "disk \<Rightarrow> int \<Rightarrow> bool \<Rightarrow> int" where
  "Disk_ComputeLatency d newSector writing =
     (let (seek, rotation) = Disk_TimeToSeek d newSector;
          timeAfter = totalTicks d + seek + rotation
      in if \<not> writing \<and> seek = 0 \<and>
            (timeAfter - bufferInit d) sdiv RotationTime
              > Disk_ModuloDiff newSector (bufferInit d sdiv RotationTime)
         then RotationTime
         else seek + (rotation + Disk_ModuloDiff newSector (timeAfter sdiv RotationTime) * RotationTime)
              + RotationTime)"

definition Disk_UpdateLast :: "disk \<Rightarrow> int \<Rightarrow> disk" where
  "Disk_UpdateLast d newSector =
     (let (seek, rotate) = Disk_TimeToSeek d newSector;
          d = (if seek \<noteq> 0 then d\<lparr>bufferInit := totalTicks d + seek + rotate\<rparr> else d)
      in d\<lparr>lastSector := newSector\<rparr>)"

section \<open>Requests\<close>

text \<open>A request answers with the delay after which the interrupt is scheduled.\<close>

definition Disk_ReadRequest :: "int \<Rightarrow> disk \<Rightarrow> (byte list \<times> int \<times> disk) res" where
  "Disk_ReadRequest sectorNumber d =
     (let ticks = Disk_ComputeLatency d sectorNumber False in
      rbind (assert (\<not> active d)) (\<lambda>_.
      rbind (assert (sectorNumber \<ge> 0 \<and> sectorNumber < NumSectors)) (\<lambda>_.
      let data = take (nat SectorSize) (drop (nat (SectorSize * sectorNumber + MagicSize)) (diskfile d)) in
      rbind (assert (int (length data) = SectorSize)) (\<lambda>_.
      Inr (data, ticks, Disk_UpdateLast (d\<lparr>active := True\<rparr>) sectorNumber)))))"

definition Disk_WriteRequest :: "int \<Rightarrow> byte list \<Rightarrow> disk \<Rightarrow> (int \<times> disk) res" where
  "Disk_WriteRequest sectorNumber data d =
     (let ticks = Disk_ComputeLatency d sectorNumber True in
      rbind (assert (\<not> active d)) (\<lambda>_.
      rbind (assert (sectorNumber \<ge> 0 \<and> sectorNumber < NumSectors)) (\<lambda>_.
      let off = nat (SectorSize * sectorNumber + MagicSize);
          d = d\<lparr>diskfile := splice_at off (take (nat SectorSize) data) (diskfile d), active := True\<rparr> in
      Inr (ticks, Disk_UpdateLast d sectorNumber))))"

definition Disk_CallBack :: "disk \<Rightarrow> disk" where
  "Disk_CallBack d = d\<lparr>active := False\<rparr>"

definition SynchDisk_ReadSector :: "int \<Rightarrow> disk \<Rightarrow> (byte list \<times> disk) res" where
  "SynchDisk_ReadSector sectorNumber d =
     rbind (Disk_ReadRequest sectorNumber d) (\<lambda>(data, ticks, d).
     Inr (data, Disk_CallBack (d\<lparr>totalTicks := totalTicks d + ticks\<rparr>)))"

definition SynchDisk_WriteSector :: "int \<Rightarrow> byte list \<Rightarrow> disk \<Rightarrow> disk res" where
  "SynchDisk_WriteSector sectorNumber data d =
     rbind (Disk_WriteRequest sectorNumber data d) (\<lambda>(ticks, d).
     Inr (Disk_CallBack (d\<lparr>totalTicks := totalTicks d + ticks\<rparr>)))"

section \<open>What is on the disk\<close>

definition disk_ok :: "disk \<Rightarrow> bool" where
  "disk_ok d \<longleftrightarrow> int (length (diskfile d)) = DiskSize \<and> \<not> active d \<and> (\<forall>n. length (fresh d n) = n)"

definition sect :: "disk \<Rightarrow> int \<Rightarrow> byte list" where
  "sect d i = take 128 (drop (nat (128 * i + 4)) (diskfile d))"

text \<open>
  The interface of a disk the file system uses: \<open>rd\<close> returns a sector's contents and changes no
  sector, \<open>wr\<close> changes exactly one.
\<close>

locale block_device =
  fixes ok :: "'d \<Rightarrow> bool"
    and rd :: "int \<Rightarrow> 'd \<Rightarrow> (byte list \<times> 'd) res"
    and wr :: "int \<Rightarrow> byte list \<Rightarrow> 'd \<Rightarrow> 'd res"
    and sc :: "'d \<Rightarrow> int \<Rightarrow> byte list"
    and junk :: "'d \<Rightarrow> nat \<Rightarrow> byte list"
  assumes sc_length: "ok d \<Longrightarrow> 0 \<le> i \<Longrightarrow> i < 1024 \<Longrightarrow> length (sc d i) = 128"
    and rd_ok: "ok d \<Longrightarrow> 0 \<le> i \<Longrightarrow> i < 1024 \<Longrightarrow>
      \<exists>d'. rd i d = Inr (sc d i, d') \<and> ok d' \<and> sc d' = sc d \<and> junk d' = junk d"
    and wr_ok: "ok d \<Longrightarrow> 0 \<le> i \<Longrightarrow> i < 1024 \<Longrightarrow> length data = 128 \<Longrightarrow>
      \<exists>d'. wr i data d = Inr d' \<and> ok d' \<and> sc d' i = data \<and> junk d' = junk d \<and>
        (\<forall>j. 0 \<le> j \<longrightarrow> j < 1024 \<longrightarrow> j \<noteq> i \<longrightarrow> sc d' j = sc d j)"
begin

text \<open>Reading the sectors of a table one after the other.\<close>

lemma read_run:
  assumes "ok d" "0 \<le> lo" "lo \<le> hi" "hi \<le> int (length ds)"
    "\<And>i. lo \<le> i \<Longrightarrow> i < hi \<Longrightarrow> 0 \<le> ds ! nat i \<and> ds ! nat i < 1024"
  shows "\<exists>d'. for_range lo hi (\<lambda>i (buf, d). rbind (aget ds i) (\<lambda>s. rbind (rd s d) (\<lambda>(data, d).
      Inr (buf @ data, d)))) ([], d) =
        Inr (concat (map (sc d) (take (nat (hi - lo)) (drop (nat lo) ds))), d') \<and>
    ok d' \<and> sc d' = sc d \<and> junk d' = junk d"
proof -
  let ?body = "\<lambda>i (buf, d). rbind (aget ds i) (\<lambda>s. rbind (rd s d) (\<lambda>(data, d). Inr (buf @ data, d)))"
  let ?I = "\<lambda>i (buf, d'). buf = concat (map (sc d) (take (nat (i - lo)) (drop (nat lo) ds))) \<and>
    ok d' \<and> sc d' = sc d \<and> junk d' = junk d"
  have "\<exists>t. for_range lo hi ?body ([], d) = Inr t \<and> ?I hi t"
  proof (rule for_range_rule)
    fix i t assume i: "lo \<le> i" "i < hi" and I: "?I i t"
    obtain buf d1 where t: "t = (buf, d1)" by (cases t)
    have s: "0 \<le> ds ! nat i" "ds ! nat i < 1024" using assms(5) i by auto
    with I t obtain d2 where d2: "rd (ds ! nat i) d1 = Inr (sc d (ds ! nat i), d2)" "ok d2"
        "sc d2 = sc d" "junk d2 = junk d"
      using rd_ok [of d1 "ds ! nat i"] by auto
    have "nat lo + nat (i - lo) = nat i" "nat (i + 1 - lo) = Suc (nat (i - lo))" using i assms(2) by auto
    moreover have "nat (i - lo) < length (drop (nat lo) ds)" using i assms(2,4) by auto
    ultimately have "take (nat (i + 1 - lo)) (drop (nat lo) ds) = take (nat (i - lo)) (drop (nat lo) ds) @ [ds ! nat i]"
      by (simp add: take_Suc_conv_app_nth)
    then show "\<exists>t'. ?body i t = Inr t' \<and> ?I (i + 1) t'" using i I d2 t assms(2,4) by auto
  qed (use assms in auto)
  then show ?thesis by auto
qed

text \<open>Writing consecutive blocks of a buffer to the sectors of a table with no repetition.\<close>

lemma write_run:
  assumes "ok d" "0 \<le> lo" "lo \<le> hi" "hi \<le> int (length ds)" "length buf = 128 * nat (hi - lo)"
    "\<And>i. lo \<le> i \<Longrightarrow> i < hi \<Longrightarrow> 0 \<le> ds ! nat i \<and> ds ! nat i < 1024"
    "distinct (take (nat (hi - lo)) (drop (nat lo) ds))"
  shows "\<exists>d'. for_range lo hi (\<lambda>i d. rbind (aget ds i) (\<lambda>s.
      wr s (take 128 (drop (nat ((i - lo) * 128)) buf)) d)) d = Inr d' \<and> ok d' \<and> junk d' = junk d \<and>
    (\<forall>i. lo \<le> i \<longrightarrow> i < hi \<longrightarrow> sc d' (ds ! nat i) = take 128 (drop (nat ((i - lo) * 128)) buf)) \<and>
    (\<forall>s. 0 \<le> s \<longrightarrow> s < 1024 \<longrightarrow> s \<notin> set (take (nat (hi - lo)) (drop (nat lo) ds)) \<longrightarrow> sc d' s = sc d s)"
proof -
  let ?blk = "\<lambda>i. take 128 (drop (nat ((i - lo) * 128)) buf)"
  let ?seg = "\<lambda>i. take (nat (i - lo)) (drop (nat lo) ds)"
  let ?body = "\<lambda>i d. rbind (aget ds i) (\<lambda>s. wr s (?blk i) d)"
  let ?I = "\<lambda>k d'. ok d' \<and> junk d' = junk d \<and>
    (\<forall>i. lo \<le> i \<longrightarrow> i < k \<longrightarrow> sc d' (ds ! nat i) = ?blk i) \<and>
    (\<forall>s. 0 \<le> s \<longrightarrow> s < 1024 \<longrightarrow> s \<notin> set (?seg k) \<longrightarrow> sc d' s = sc d s)"
  show ?thesis
  proof (rule for_range_rule [where I = ?I])
    fix i t assume i: "lo \<le> i" "i < hi" and I: "?I i t"
    have s: "0 \<le> ds ! nat i" "ds ! nat i < 1024" using assms(6) i by auto
    have len: "length (?blk i) = 128"
    proof -
      have "nat (i - lo) + 1 \<le> nat (hi - lo)" using i by simp
      then have "nat ((i - lo) * 128) + 128 \<le> 128 * nat (hi - lo)" by (simp add: nat_mult_distrib)
      then show ?thesis using assms(5) by simp
    qed
    obtain t' where t': "wr (ds ! nat i) (?blk i) t = Inr t'" "ok t'" "sc t' (ds ! nat i) = ?blk i"
        "junk t' = junk t" "\<forall>j. 0 \<le> j \<longrightarrow> j < 1024 \<longrightarrow> j \<noteq> ds ! nat i \<longrightarrow> sc t' j = sc t j"
      using wr_ok [OF _ s len] I by blast
    have "nat lo + nat (i - lo) = nat i" "nat (i + 1 - lo) = Suc (nat (i - lo))" using i assms(2) by auto
    moreover have lt: "nat (i - lo) < length (drop (nat lo) ds)" using i assms(2,4) by auto
    ultimately have snoc: "?seg (i + 1) = ?seg i @ [ds ! nat i]" by (simp add: take_Suc_conv_app_nth)
    have "?seg (i + 1) = take (nat (i + 1 - lo)) (?seg hi)" using i by (simp add: min_def)
    then have "distinct (?seg i @ [ds ! nat i])" using assms(7) snoc by (metis distinct_take)
    then have new: "ds ! nat i \<notin> set (?seg i)" by simp
    have old: "ds ! nat j \<in> set (?seg i)" if "lo \<le> j" "j < i" for j
    proof -
      have "nat lo + nat (j - lo) = nat j" "nat (j - lo) < nat (i - lo)" using that assms(2) by auto
      then have "?seg i ! nat (j - lo) = ds ! nat j" using lt by simp
      moreover have "nat (j - lo) < length (?seg i)" using that i lt by simp
      ultimately show ?thesis by (metis nth_mem)
    qed
    have "sc t' (ds ! nat j) = ?blk j" if "lo \<le> j" "j < i + 1" for j
    proof (cases "j = i")
      case False
      then have "j < i" using that by simp
      with old that new have "ds ! nat j \<noteq> ds ! nat i" by metis
      moreover have "0 \<le> ds ! nat j \<and> ds ! nat j < 1024" using assms(6) that i by auto
      ultimately show ?thesis using t'(5) I that \<open>j < i\<close> by simp
    qed (use t' in simp)
    moreover have "aget ds i = Inr (ds ! nat i)" using i assms(2,4) by simp
    ultimately show "\<exists>t'. ?body i t = Inr t' \<and> ?I (i + 1) t'"
      using t' I snoc by (intro exI [of _ t']) auto
  qed (use assms in auto)
qed

end

section \<open>The simulated disk is such a device\<close>

lemma UpdateLast_fields [simp]:
  "diskfile (Disk_UpdateLast d s) = diskfile d" "active (Disk_UpdateLast d s) = active d"
  "fresh (Disk_UpdateLast d s) = fresh d"
  by (simp_all add: Disk_UpdateLast_def Let_def split: prod.split)

lemma CallBack_fields [simp]:
  "diskfile (Disk_CallBack d) = diskfile d" "active (Disk_CallBack d) = False"
  "fresh (Disk_CallBack d) = fresh d"
  by (simp_all add: Disk_CallBack_def)

lemma sect_cong: "diskfile d = diskfile d' \<Longrightarrow> sect d = sect d'"
  by (simp add: sect_def fun_eq_iff)

lemma sect_bounds:
  assumes "disk_ok d" "0 \<le> i" "i < 1024"
  shows "nat (128 * i + 4) + 128 \<le> length (diskfile d)"
  using assms by (simp add: disk_ok_def geometry nat_le_iff)

lemma length_sect: "disk_ok d \<Longrightarrow> 0 \<le> i \<Longrightarrow> i < 1024 \<Longrightarrow> length (sect d i) = 128"
  using sect_bounds [of d i] by (simp add: sect_def)

lemma ReadSector_ok:
  assumes "disk_ok d" "0 \<le> i" "i < 1024"
  shows "\<exists>d'. SynchDisk_ReadSector i d = Inr (sect d i, d') \<and> disk_ok d' \<and> diskfile d' = diskfile d \<and>
    fresh d' = fresh d"
  using assms length_sect [OF assms]
  by (simp add: SynchDisk_ReadSector_def Disk_ReadRequest_def Let_def disk_ok_def geometry sect_def)

lemma WriteSector_ok:
  assumes "disk_ok d" "0 \<le> i" "i < 1024" "length data = 128"
  shows "\<exists>d'. SynchDisk_WriteSector i data d = Inr d' \<and> disk_ok d' \<and> sect d' i = data \<and>
    fresh d' = fresh d \<and> (\<forall>j. 0 \<le> j \<longrightarrow> j < 1024 \<longrightarrow> j \<noteq> i \<longrightarrow> sect d' j = sect d j)"
proof -
  note b = sect_bounds [OF assms(1-3)]
  let ?xs = "splice_at (nat (128 * i + 4)) data (diskfile d)"
  obtain d' where d': "SynchDisk_WriteSector i data d = Inr d'" "diskfile d' = ?xs" "active d' = False"
      "fresh d' = fresh d"
    using assms by (simp add: SynchDisk_WriteSector_def Disk_WriteRequest_def Let_def disk_ok_def geometry)
  moreover have "length ?xs = length (diskfile d)" using b assms(4) by simp
  moreover have "sect d' i = data"
    using b assms(4) splice_at_same [of "nat (128 * i + 4)" data "diskfile d"] by (simp add: sect_def d'(2))
  moreover have "sect d' j = sect d j" if "0 \<le> j" "j < 1024" "j \<noteq> i" for j
  proof -
    have "nat (128 * j + 4) + 128 \<le> nat (128 * i + 4) \<or> nat (128 * i + 4) + 128 \<le> nat (128 * j + 4)"
      using that assms(2) by (cases "j < i") auto
    with b assms(4) show ?thesis by (simp add: sect_def d'(2) splice_at_apart)
  qed
  ultimately show ?thesis using assms(1) by (intro exI [of _ d']) (auto simp: disk_ok_def)
qed

interpretation sd: block_device disk_ok SynchDisk_ReadSector SynchDisk_WriteSector sect fresh
proof unfold_locales
  fix d i assume "disk_ok d" "0 \<le> i" "i < (1024 :: int)"
  with ReadSector_ok [OF this] show "\<exists>d'. SynchDisk_ReadSector i d = Inr (sect d i, d') \<and> disk_ok d' \<and>
      sect d' = sect d \<and> fresh d' = fresh d"
    using sect_cong by blast
qed (use length_sect WriteSector_ok in auto)

lemma Disk_new_ok:
  assumes "\<And>n. length (f n) = n"
  shows "\<exists>d. Disk_new None now f = Inr d \<and> disk_ok d \<and> fresh d = f"
  using assms by (simp add: Disk_new_def disk_ok_def geometry)

section \<open>Latency\<close>

lemma ModuloDiff_bounds:
  assumes "0 \<le> to" "0 \<le> frm"
  shows "0 \<le> Disk_ModuloDiff to frm" "Disk_ModuloDiff to frm < 32"
    "(frm + Disk_ModuloDiff to frm) mod 32 = to mod 32"
proof -
  have "0 \<le> to mod 32 - frm mod 32 + 32" by (smt (verit) pos_mod_bound pos_mod_sign)
  then have eq: "Disk_ModuloDiff to frm = (to mod 32 - frm mod 32 + 32) mod 32"
    using assms by (simp add: Disk_ModuloDiff_def geometry Let_def del: mod_add_self2)
  then show "0 \<le> Disk_ModuloDiff to frm" "Disk_ModuloDiff to frm < 32" by simp_all
  show "(frm + Disk_ModuloDiff to frm) mod 32 = to mod 32"
    unfolding eq by (simp add: mod_simps)
qed

lemma TimeToSeek_bounds:
  assumes "0 \<le> s" "s < 1024" "0 \<le> lastSector d" "lastSector d < 1024" "0 \<le> totalTicks d"
    and t: "Disk_TimeToSeek d s = (seek, rotation)"
  shows "0 \<le> seek" "seek \<le> 15500" "0 \<le> rotation" "rotation < 500"
    "(totalTicks d + seek + rotation) mod 500 = 0"
proof -
  let ?seek = "\<bar>s div 32 - lastSector d div 32\<bar> * 500"
  have track: "0 \<le> s div 32" "s div 32 < 32" "0 \<le> lastSector d div 32" "lastSector d div 32 < 32"
    using assms by auto
  have seek: "seek = ?seek" using t assms by (simp add: Disk_TimeToSeek_def geometry Let_def)
  with track show bounds: "0 \<le> seek" "seek \<le> 15500" by (auto simp: abs_le_iff)
  let ?over = "(totalTicks d + seek) mod 500"
  have rot: "rotation = (if ?over > 0 then 500 - ?over else 0)"
    using t assms bounds seek by (auto simp: Disk_TimeToSeek_def geometry Let_def)
  have "0 \<le> ?over" "?over < 500" by simp_all
  with rot show "0 \<le> rotation" "rotation < 500" by auto
  show "(totalTicks d + seek + rotation) mod 500 = 0"
  proof (cases "?over > 0")
    case True
    then have "totalTicks d + seek + rotation = (totalTicks d + seek - ?over) + 500" using rot by simp
    moreover have "(totalTicks d + seek - ?over) mod 500 = 0" by (simp add: minus_mod_eq_mult_div)
    ultimately show ?thesis by (metis mod_add_self2)
  next
    case False
    with rot \<open>0 \<le> ?over\<close> show ?thesis by simp
  qed
qed

text \<open>
  A disk request for a valid sector always takes at least one sector rotation and at most a full
  seek, a partial rotation, a full rotation and the transfer (32,000 ticks); so the interrupt is
  always scheduled strictly in the future, which \<^verbatim>\<open>Interrupt::Schedule\<close> asserts.
\<close>

lemma Disk_ComputeLatency_bounds:
  assumes "0 \<le> s" "s < NumSectors" "0 \<le> lastSector d" "lastSector d < NumSectors"
    "0 \<le> totalTicks d"
  shows "RotationTime \<le> Disk_ComputeLatency d s w \<and> Disk_ComputeLatency d s w < 32000"
proof -
  have r: "s < 1024" "lastSector d < 1024" using assms by (simp_all add: geometry)
  obtain seek rotation where t: "Disk_TimeToSeek d s = (seek, rotation)" by fastforce
  note b = TimeToSeek_bounds [OF assms(1) r(1) assms(3) r(2) assms(5) t]
  have "0 \<le> (totalTicks d + seek + rotation) div 500" using assms(5) b by simp
  with ModuloDiff_bounds(1,2) [of s "(totalTicks d + seek + rotation) div 500"] assms(1)
  have m: "0 \<le> Disk_ModuloDiff s ((totalTicks d + seek + rotation) div 500)"
    "Disk_ModuloDiff s ((totalTicks d + seek + rotation) div 500) \<le> 31" by auto
  show ?thesis
    using t b m assms(5) by (auto simp: Disk_ComputeLatency_def RotationTime_def Let_def)
qed

end
