(* ===== verification/OpenFile.thy ===== *)
theory OpenFile
  imports Bitmap Disk
begin

text \<open>
  Files on the simulated disk: the file header (\<^verbatim>\<open>filesys/filehdr.cc\<close>), a fixed table of data
  sectors stored in one sector itself, and the open file (\<^verbatim>\<open>filesys/openfile.cc\<close>), which turns byte
  ranges into whole-sector transfers.

  A file's contents (\<open>fdata\<close>) are the bytes of its data sectors up to its length.  The main facts:
  \<^verbatim>\<open>ReadAt\<close> returns the requested slice of the contents, \<^verbatim>\<open>WriteAt\<close> replaces it and nothing else, in
  this file or in any sector outside it, although it writes whole sectors from a buffer whose
  untouched parts come from the disk or from uninitialised memory.
\<close>

section \<open>File headers\<close>

definition NumDirect :: int where
  "NumDirect = (SectorSize - 2 * 4) sdiv 4"

definition MaxFileSize :: int where
  "MaxFileSize = NumDirect * SectorSize"

record filehdr =
  numBytes :: int
  numSectors :: int
  dataSectors :: "int list"

text \<open>The in-memory object is transferred as it lies in memory: 32 integers.\<close>

definition hdr_bytes :: "filehdr \<Rightarrow> byte list" where
  "hdr_bytes h = words_bytes (map word_of_int (numBytes h # numSectors h # dataSectors h))"

definition bytes_hdr :: "byte list \<Rightarrow> filehdr" where
  "bytes_hdr bs = (let ws = map sint (bytes_words bs) in
     \<lparr>numBytes = ws ! 0, numSectors = ws ! 1, dataSectors = drop 2 ws\<rparr>)"

text \<open>\<^verbatim>\<open>new FileHeader\<close> leaves the fields uninitialised.\<close>

definition FileHeader_new :: "disk \<Rightarrow> filehdr" where
  "FileHeader_new d = bytes_hdr (fresh d (nat SectorSize))"

definition FileHeader_Allocate :: "filehdr \<Rightarrow> bitmap \<Rightarrow> int \<Rightarrow> (bool \<times> filehdr \<times> bitmap) res" where
  "FileHeader_Allocate h freeMap fileSize =
     (let h = h\<lparr>numBytes := fileSize, numSectors := divRoundUp fileSize SectorSize\<rparr> in
      rbind (Bitmap_NumClear freeMap) (\<lambda>clear.
      if clear < numSectors h then Inr (False, h, freeMap)
      else rbind (for_range 0 (numSectors h) (\<lambda>i (m, xs).
             rbind (Bitmap_FindAndSet m) (\<lambda>(s, m).
             rbind (aput xs i s) (\<lambda>xs.
             rbind (assert (0 \<le> s)) (\<lambda>_. Inr (m, xs))))) (freeMap, dataSectors h)) (\<lambda>(m, xs).
           Inr (True, h\<lparr>dataSectors := xs\<rparr>, m))))"

definition FileHeader_Deallocate :: "filehdr \<Rightarrow> bitmap \<Rightarrow> bitmap res" where
  "FileHeader_Deallocate h freeMap =
     for_range 0 (numSectors h) (\<lambda>i m.
       rbind (aget (dataSectors h) i) (\<lambda>s.
       rbind (Bitmap_Test m s) (\<lambda>t. rbind (assert t) (\<lambda>_. Bitmap_Clear m s)))) freeMap"

definition FileHeader_FetchFrom :: "int \<Rightarrow> disk \<Rightarrow> (filehdr \<times> disk) res" where
  "FileHeader_FetchFrom sector d =
     rbind (SynchDisk_ReadSector sector d) (\<lambda>(data, d). Inr (bytes_hdr data, d))"

definition FileHeader_WriteBack :: "filehdr \<Rightarrow> int \<Rightarrow> disk \<Rightarrow> disk res" where
  "FileHeader_WriteBack h sector d = SynchDisk_WriteSector sector (hdr_bytes h) d"

definition FileHeader_ByteToSector :: "filehdr \<Rightarrow> int \<Rightarrow> int res" where
  "FileHeader_ByteToSector h offset = aget (dataSectors h) (offset sdiv SectorSize)"

definition FileHeader_FileLength :: "filehdr \<Rightarrow> int" where
  "FileHeader_FileLength h = numBytes h"

text \<open>
  \<^verbatim>\<open>Print\<close>: the length, the sector numbers and, sector by sector, the bytes of the file (the counter
  \<open>k\<close> stops the dump at the file's length).
\<close>

definition FileHeader_Print :: "filehdr \<Rightarrow> disk \<Rightarrow> ((int \<times> int list \<times> byte list list) \<times> disk) res" where
  "FileHeader_Print h d =
     rbind (for_range 0 (numSectors h) (\<lambda>i out.
       rbind (aget (dataSectors h) i) (\<lambda>s. Inr (out @ [s]))) []) (\<lambda>blocks.
     rbind (for_range 0 (numSectors h) (\<lambda>i (k, out, d).
       rbind (aget (dataSectors h) i) (\<lambda>s.
       rbind (SynchDisk_ReadSector s d) (\<lambda>(data, d).
       let line = take (nat (numBytes h - k)) data in
       Inr (k + int (length line), out @ [line], d)))) (0, [], d)) (\<lambda>(k, out, d).
     Inr ((numBytes h, blocks, out), d)))"

section \<open>Open files\<close>

record openfile =
  hdr :: filehdr
  seekPosition :: int

definition OpenFile_new :: "int \<Rightarrow> disk \<Rightarrow> (openfile \<times> disk) res" where
  "OpenFile_new sector d =
     rbind (FileHeader_FetchFrom sector d) (\<lambda>(h, d). Inr (\<lparr>hdr = h, seekPosition = 0\<rparr>, d))"

definition OpenFile_Seek :: "openfile \<Rightarrow> int \<Rightarrow> openfile" where
  "OpenFile_Seek f position = f\<lparr>seekPosition := position\<rparr>"

definition OpenFile_Length :: "openfile \<Rightarrow> int" where
  "OpenFile_Length f = FileHeader_FileLength (hdr f)"

text \<open>The check both transfers begin with: the number of bytes to transfer.\<close>

definition clip :: "int \<Rightarrow> int \<Rightarrow> int \<Rightarrow> int res" where
  "clip fileLength num position =
     (if num \<le> 0 \<or> position \<ge> fileLength then Inr 0
      else rbind (chk (position + num)) (\<lambda>e.
           if e > fileLength then chk (fileLength - position) else Inr num))"

definition OpenFile_ReadAt :: "openfile \<Rightarrow> int \<Rightarrow> int \<Rightarrow> disk \<Rightarrow> ((int \<times> byte list) \<times> disk) res" where
  "OpenFile_ReadAt f num position d =
     rbind (clip (FileHeader_FileLength (hdr f)) num position) (\<lambda>n.
     if n = 0 then Inr ((0, []), d)
     else
       let firstSector = divRoundDown position SectorSize;
           lastSector = divRoundDown (position + n - 1) SectorSize;
           start = position - firstSector * SectorSize
       in rbind (for_range firstSector (lastSector + 1) (\<lambda>i (buf, d).
            rbind (FileHeader_ByteToSector (hdr f) (i * SectorSize)) (\<lambda>s.
            rbind (SynchDisk_ReadSector s d) (\<lambda>(data, d). Inr (buf @ data, d)))) ([], d)) (\<lambda>(buf, d).
          if start < 0 \<or> int (length buf) < start + n then Inl BadIndex
          else Inr ((n, take (nat n) (drop (nat start) buf)), d)))"

definition OpenFile_WriteAt :: "openfile \<Rightarrow> byte list \<Rightarrow> int \<Rightarrow> int \<Rightarrow> disk \<Rightarrow> (int \<times> disk) res" where
  "OpenFile_WriteAt f src num position d =
     rbind (clip (FileHeader_FileLength (hdr f)) num position) (\<lambda>n.
     if n = 0 then Inr (0, d)
     else
       let firstSector = divRoundDown position SectorSize;
           lastSector = divRoundDown (position + n - 1) SectorSize;
           numSectors = 1 + lastSector - firstSector;
           buf = fresh d (nat (numSectors * SectorSize));
           firstAligned = (position = firstSector * SectorSize);
           lastAligned = (position + n = (lastSector + 1) * SectorSize);
           start = position - firstSector * SectorSize
       in
       if start < 0 \<or> int (length src) < n then Inl BadIndex
       else
         rbind (if \<not> firstAligned
                then rbind (OpenFile_ReadAt f SectorSize (firstSector * SectorSize) d) (\<lambda>((_, bs), d).
                     Inr (splice_at 0 bs buf, d))
                else Inr (buf, d)) (\<lambda>(buf, d).
         rbind (if \<not> lastAligned \<and> (firstSector \<noteq> lastSector \<or> firstAligned)
                then rbind (OpenFile_ReadAt f SectorSize (lastSector * SectorSize) d) (\<lambda>((_, bs), d).
                     Inr (splice_at (nat ((lastSector - firstSector) * SectorSize)) bs buf, d))
                else Inr (buf, d)) (\<lambda>(buf, d).
         let buf = splice_at (nat start) (take (nat n) src) buf in
         rbind (for_range firstSector (lastSector + 1) (\<lambda>i d.
           rbind (FileHeader_ByteToSector (hdr f) (i * SectorSize)) (\<lambda>s.
           SynchDisk_WriteSector s
             (take (nat SectorSize) (drop (nat ((i - firstSector) * SectorSize)) buf)) d)) d) (\<lambda>d.
         Inr (n, d)))))"

definition OpenFile_Read :: "openfile \<Rightarrow> int \<Rightarrow> disk \<Rightarrow> ((int \<times> byte list) \<times> openfile \<times> disk) res" where
  "OpenFile_Read f num d =
     rbind (OpenFile_ReadAt f num (seekPosition f) d) (\<lambda>((result, data), d).
     rbind (chk (seekPosition f + result)) (\<lambda>p. Inr ((result, data), f\<lparr>seekPosition := p\<rparr>, d)))"

definition OpenFile_Write :: "openfile \<Rightarrow> byte list \<Rightarrow> int \<Rightarrow> disk \<Rightarrow> (int \<times> openfile \<times> disk) res" where
  "OpenFile_Write f src num d =
     rbind (OpenFile_WriteAt f src num (seekPosition f) d) (\<lambda>(result, d).
     rbind (chk (seekPosition f + result)) (\<lambda>p. Inr (result, f\<lparr>seekPosition := p\<rparr>, d)))"

section \<open>Well-formed headers and their encoding\<close>

lemma NumDirect_30 [simp]: "NumDirect = 30"
  by (simp add: NumDirect_def SectorSize_def)

definition hdr_ok :: "filehdr \<Rightarrow> bool" where
  "hdr_ok h \<longleftrightarrow> 0 \<le> numBytes h \<and> numSectors h = divRoundUp (numBytes h) 128 \<and> numSectors h \<le> 30 \<and>
     length (dataSectors h) = 30 \<and> (\<forall>s \<in> set (dataSectors h). in_int s) \<and>
     distinct (take (nat (numSectors h)) (dataSectors h)) \<and>
     (\<forall>s \<in> set (take (nat (numSectors h)) (dataSectors h)). 0 \<le> s \<and> s < 1024)"

definition data_sectors :: "filehdr \<Rightarrow> int list" where
  "data_sectors h = take (nat (numSectors h)) (dataSectors h)"

text \<open>The contents of a file.\<close>

definition fdata :: "disk \<Rightarrow> filehdr \<Rightarrow> byte list" where
  "fdata d h = take (nat (numBytes h)) (concat (map (sect d) (data_sectors h)))"

lemma hdr_okD:
  assumes "hdr_ok h"
  shows "0 \<le> numBytes h" "numBytes h \<le> 128 * numSectors h" "0 \<le> numSectors h" "numSectors h \<le> 30"
    "length (dataSectors h) = 30" "distinct (data_sectors h)"
    "\<And>i. 0 \<le> i \<Longrightarrow> i < numSectors h \<Longrightarrow> 0 \<le> dataSectors h ! nat i \<and> dataSectors h ! nat i < 1024"
    "length (data_sectors h) = nat (numSectors h)" "numBytes h \<le> 3840"
    "128 * numSectors h < numBytes h + 128"
proof -
  note b = divRoundUp_bounds [of "numBytes h" 128]
  show "0 \<le> numBytes h" "numBytes h \<le> 128 * numSectors h" "0 \<le> numSectors h" "numSectors h \<le> 30"
    "length (dataSectors h) = 30" "distinct (data_sectors h)" "numBytes h \<le> 3840"
    "128 * numSectors h < numBytes h + 128"
    using assms b by (auto simp: hdr_ok_def data_sectors_def)
  then show "length (data_sectors h) = nat (numSectors h)" by (simp add: data_sectors_def)
  fix i assume i: "0 \<le> i" "i < numSectors h"
  have "nat i < length (take (nat (numSectors h)) (dataSectors h))"
    using i \<open>numSectors h \<le> 30\<close> \<open>length (dataSectors h) = 30\<close> by simp
  then have "take (nat (numSectors h)) (dataSectors h) ! nat i \<in> set (take (nat (numSectors h)) (dataSectors h))"
    by (rule nth_mem)
  then show "0 \<le> dataSectors h ! nat i \<and> dataSectors h ! nat i < 1024"
    using assms i by (auto simp: hdr_ok_def)
qed

lemma hdr_roundtrip:
  assumes "hdr_ok h"
  shows "bytes_hdr (hdr_bytes h) = h" "length (hdr_bytes h) = 128"
proof -
  have "in_int (numBytes h)" "in_int (numSectors h)"
    using hdr_okD [OF assms] by (auto simp: in_int_def)
  moreover have "map (\<lambda>i. sint (word_of_int i :: 32 word)) (dataSectors h) = dataSectors h"
    using assms by (intro map_idI) (auto simp: hdr_ok_def sint_of_int)
  ultimately show "bytes_hdr (hdr_bytes h) = h"
    by (simp add: bytes_hdr_def hdr_bytes_def sint_of_int comp_def)
  show "length (hdr_bytes h) = 128" using hdr_okD(5) [OF assms] by (simp add: hdr_bytes_def)
qed

section \<open>Reading\<close>

text \<open>How many bytes a request transfers.\<close>

definition xfer :: "int \<Rightarrow> int \<Rightarrow> int \<Rightarrow> int" where
  "xfer len num pos = (if num \<le> 0 \<or> pos \<ge> len then 0 else min num (len - pos))"

lemma clip_xfer:
  assumes "0 \<le> pos" "0 \<le> len" "len \<le> 3840" "pos + num < 2147483648"
  shows "clip len num pos = Inr (xfer len num pos)"
  using assms by (auto simp: clip_def xfer_def in_int_def)

lemma xfer_bounds:
  assumes "0 \<le> pos" "xfer len num pos \<noteq> 0"
  shows "0 < xfer len num pos" "pos + xfer len num pos \<le> len" "xfer len num pos \<le> num"
  using assms by (auto simp: xfer_def min_def split: if_splits)

definition fblocks :: "disk \<Rightarrow> filehdr \<Rightarrow> byte list" where
  "fblocks d h = concat (map (sect d) (data_sectors h))"

lemma data_sectors_range:
  assumes "hdr_ok h" "s \<in> set (data_sectors h)"
  shows "0 \<le> s" "s < 1024"
  using assms by (auto simp: hdr_ok_def data_sectors_def)

lemma block_lengths:
  assumes "disk_ok d" "hdr_ok h"
  shows "\<forall>b \<in> set (map (sect d) (data_sectors h)). length b = 128"
    "length (fblocks d h) = 128 * nat (numSectors h)"
proof -
  show 1: "\<forall>b \<in> set (map (sect d) (data_sectors h)). length b = 128"
    using data_sectors_range [OF assms(2)] by (auto simp: sd.sc_length [OF assms(1)])
  show "length (fblocks d h) = 128 * nat (numSectors h)"
    using length_concat_blocks [OF 1] hdr_okD(8) [OF assms(2)] by (simp add: fblocks_def)
qed

lemma length_fdata:
  assumes "disk_ok d" "hdr_ok h"
  shows "length (fdata d h) = nat (numBytes h)"
  using block_lengths(2) [OF assms] hdr_okD [OF assms(2)] by (simp add: fdata_def fblocks_def [symmetric])

lemma sector_span:
  assumes h: "hdr_ok h" and n: "0 \<le> pos" "0 < n" "pos + n \<le> numBytes h"
  shows "0 \<le> pos div 128" "pos div 128 \<le> (pos + n - 1) div 128" "(pos + n - 1) div 128 + 1 \<le> numSectors h"
    "128 * (pos div 128) \<le> pos" "pos < 128 * (pos div 128) + 128"
    "128 * ((pos + n - 1) div 128) \<le> pos + n - 1" "pos + n - 1 < 128 * ((pos + n - 1) div 128) + 128"
proof -
  show "0 \<le> pos div 128" using n by simp
  show "pos div 128 \<le> (pos + n - 1) div 128" using n by (intro zdiv_mono1) auto
  show 1: "128 * (pos div 128) \<le> pos" "pos < 128 * (pos div 128) + 128" by linarith+
  show 2: "128 * ((pos + n - 1) div 128) \<le> pos + n - 1" "pos + n - 1 < 128 * ((pos + n - 1) div 128) + 128"
    by linarith+
  have "pos + n - 1 < 128 * numSectors h" using hdr_okD(2) [OF h] n by simp
  with 2 show "(pos + n - 1) div 128 + 1 \<le> numSectors h" by linarith
qed

lemma ReadAt_ok:
  assumes d: "disk_ok d" and h: "hdr_ok (hdr f)" and pos: "0 \<le> pos" "pos + num < 2147483648"
  defines "n \<equiv> xfer (numBytes (hdr f)) num pos"
  shows "\<exists>d'. OpenFile_ReadAt f num pos d = Inr ((n, take (nat n) (drop (nat pos) (fdata d (hdr f)))), d') \<and>
    disk_ok d' \<and> sect d' = sect d \<and> fresh d' = fresh d"
proof -
  have clip: "clip (FileHeader_FileLength (hdr f)) num pos = Inr n"
    unfolding n_def FileHeader_FileLength_def using hdr_okD [OF h] pos by (intro clip_xfer) auto
  show ?thesis
  proof (cases "n = 0")
    case True
    with clip d show ?thesis by (simp add: OpenFile_ReadAt_def)
  next
    case False
    have n: "0 < n" "pos + n \<le> numBytes (hdr f)" using xfer_bounds pos(1) False by (auto simp: n_def)
    define lo where "lo = pos div 128"
    define hi where "hi = (pos + n - 1) div 128 + 1"
    have span: "0 \<le> lo" "lo < hi" "hi \<le> numSectors (hdr f)" "128 * lo \<le> pos" "pos < 128 * lo + 128"
      "128 * hi < pos + n + 128" "pos + n \<le> 128 * hi"
      using sector_span [OF h pos(1) n] by (simp_all add: lo_def hi_def)
    let ?ds = "dataSectors (hdr f)"
    let ?body = "\<lambda>i (buf, d). rbind (aget ?ds i) (\<lambda>s. rbind (SynchDisk_ReadSector s d) (\<lambda>(data, d). Inr (buf @ data, d)))"
    let ?seg = "take (nat (hi - lo)) (drop (nat lo) ?ds)"
    obtain d' where run: "for_range lo hi ?body ([], d) = Inr (concat (map (sect d) ?seg), d')"
        "disk_ok d'" "sect d' = sect d" "fresh d' = fresh d"
      using sd.read_run [OF d, of lo hi ?ds] hdr_okD [OF h] span by auto
    have "nat (hi - lo) \<le> nat (numSectors (hdr f) - lo)" using span(3) by (intro nat_mono) simp
    then have le: "nat (hi - lo) \<le> nat (numSectors (hdr f)) - nat lo"
      by (simp only: nat_diff_distrib' hdr_okD(3) [OF h] span(1))
    then have seg: "?seg = take (nat (hi - lo)) (drop (nat lo) (data_sectors (hdr f)))"
      by (simp add: data_sectors_def drop_take min_def)
    have lens: "\<forall>b \<in> set (drop (nat lo) (map (sect d) (data_sectors (hdr f)))). length b = 128"
      using block_lengths(1) [OF d h] by (meson in_set_dropD)
    have "concat (map (sect d) ?seg) = take (nat (hi - lo) * 128) (drop (nat lo * 128) (fblocks d (hdr f)))"
      unfolding seg fblocks_def take_map [symmetric] drop_map [symmetric]
      by (simp add: concat_take_blocks [OF lens] concat_drop_blocks [OF block_lengths(1) [OF d h]])
    then have buf: "concat (map (sect d) ?seg) =
        take (128 * nat (hi - lo)) (drop (128 * nat lo) (fblocks d (hdr f)))" (is "?buf = _")
      by (simp add: mult.commute)
    have lenbuf: "int (length ?buf) = 128 * (hi - lo)"
    proof -
      have "128 * nat (hi - lo) \<le> length (drop (128 * nat lo) (fblocks d (hdr f)))"
        using le by (simp add: block_lengths(2) [OF d h] diff_mult_distrib2 [symmetric])
      then have "length ?buf = 128 * nat (hi - lo)" unfolding buf by simp
      then show ?thesis using span(2) by simp
    qed
    have start: "nat (pos - lo * 128) + nat n \<le> 128 * nat (hi - lo)"
      "128 * nat lo + nat (pos - lo * 128) = nat pos" using span n pos(1) by linarith+
    then have "take (nat n) (drop (nat (pos - lo * 128)) ?buf) = take (nat n) (drop (nat pos) (fblocks d (hdr f)))"
      unfolding buf using start(1) by (simp add: drop_take min_absorb1 add.commute le_diff_conv2)
    also have "\<dots> = take (nat n) (drop (nat pos) (fdata d (hdr f)))"
    proof -
      have "nat n \<le> nat (numBytes (hdr f)) - nat pos" using n pos(1) by linarith
      then show ?thesis by (simp add: fdata_def fblocks_def [symmetric] drop_take min_def)
    qed
    finally have out: "take (nat n) (drop (nat (pos - lo * 128)) ?buf) = \<dots>" .
    have "for_range lo hi (\<lambda>i (buf, d). rbind (FileHeader_ByteToSector (hdr f) (i * SectorSize)) (\<lambda>s.
            rbind (SynchDisk_ReadSector s d) (\<lambda>(data, d). Inr (buf @ data, d)))) ([], d) =
          for_range lo hi ?body ([], d)"
      using span by (intro for_range_cong) (simp add: FileHeader_ByteToSector_def SectorSize_def)
    moreover have "divRoundDown pos SectorSize = lo" "divRoundDown (pos + n - 1) SectorSize + 1 = hi"
      using pos(1) n(1) by (simp_all add: divRoundDown_def SectorSize_def lo_def hi_def)
    moreover have "\<not> (pos - lo * SectorSize < 0 \<or> int (length ?buf) < pos - lo * SectorSize + n)"
      using lenbuf span by (simp add: SectorSize_def)
    ultimately have "OpenFile_ReadAt f num pos d =
        Inr ((n, take (nat n) (drop (nat (pos - lo * SectorSize)) ?buf)), d')"
      using run(1) clip False by (simp only: OpenFile_ReadAt_def Let_def rbind_Inr if_False prod.case)
    with run out show ?thesis by (simp add: SectorSize_def)
  qed
qed

section \<open>Writing\<close>

text \<open>
  The buffer \<^verbatim>\<open>WriteAt\<close> assembles, on its own: \<open>C\<close> are the bytes of the file's sectors, of which the
  first \<open>L\<close> belong to the file; the first and last sectors of the range are filled from \<open>C\<close> when they
  are only partly overwritten.
\<close>

lemma merge_buffer:
  fixes C :: "'a list"
  assumes N: "0 < N" "P + N \<le> L" "L \<le> length C" "length src = N"
    and F: "128 * F \<le> P" "P < 128 * F + 128"
    and G: "128 * (F + G) < P + N" "P + N \<le> 128 * (F + G) + 128"
    and b0: "length b0 = 128 * G + 128"
    and b1: "b1 = (if P \<noteq> 128 * F then splice_at 0 (take (min 128 (L - 128 * F)) (drop (128 * F) C)) b0 else b0)"
    and b2: "b2 = (if P + N \<noteq> 128 * (F + G) + 128 \<and> (G \<noteq> 0 \<or> P = 128 * F)
      then splice_at (128 * G) (take (min 128 (L - 128 * (F + G))) (drop (128 * (F + G)) C)) b1 else b1)"
    and b3: "b3 = splice_at (P - 128 * F) src b2"
  shows "length b3 = length b0"
    "j < 128 * G + 128 \<Longrightarrow> 128 * F + j < L \<Longrightarrow>
     b3 ! j = (if P \<le> 128 * F + j \<and> 128 * F + j < P + N then src ! (128 * F + j - P) else C ! (128 * F + j))"
proof -
  let ?x = "take (min 128 (L - 128 * F)) (drop (128 * F) C)"
  let ?y = "take (min 128 (L - 128 * (F + G))) (drop (128 * (F + G)) C)"
  have x: "length ?x = min 128 (L - 128 * F)" "length ?y = min 128 (L - 128 * (F + G))" using N by auto
  have fit: "length ?x \<le> length b0" "128 * G + length ?y \<le> length b0" unfolding x b0 by linarith+
  have "length (splice_at 0 ?x b0) = length b0" using fit(1) by (intro length_splice_at) simp
  then have l1: "length b1 = length b0" by (metis b1)
  have "length (splice_at (128 * G) ?y b1) = length b1" using fit(2) l1 by (intro length_splice_at) simp
  then have l2: "length b2 = length b0" by (metis b2 l1)
  obtain Q where Q: "P = 128 * F + Q" using F(1) le_Suc_ex by blast
  have fit3: "P - 128 * F + length src \<le> length b2" using N(4) G(2) unfolding Q l2 b0 by simp
  then show l3: "length b3 = length b0" using b3 l2 by simp
  assume k: "j < 128 * G + 128" "128 * F + j < L"
  have nth1: "b1 ! j = C ! (128 * F + j)" if "P \<noteq> 128 * F" "j < 128"
  proof -
    have "j < length ?x" unfolding x using k that by simp
    with that k fit show ?thesis using N by (simp add: b1 b0 nth_splice_at)
  qed
  have nth2: "b2 ! j = C ! (128 * F + j)" if out: "128 * F + j < P \<or> P + N \<le> 128 * F + j"
  proof (cases "P + N \<noteq> 128 * (F + G) + 128 \<and> (G \<noteq> 0 \<or> P = 128 * F) \<and> 128 * G \<le> j")
    case True
    then obtain i where i: "j = 128 * G + i" using le_Suc_ex by blast
    have "i < 128" using k(1) unfolding i by simp
    moreover have "i + 128 * (F + G) < L" using k(2) unfolding i by (simp only: distrib_left distrib_right ac_simps)
    then have "i < L - 128 * (F + G)" by (simp only: less_diff_conv)
    ultimately have "j - 128 * G < length ?y" "128 * (F + G) + (j - 128 * G) = 128 * F + j"
      unfolding x i by simp_all
    moreover have "b2 = splice_at (128 * G) ?y b1" using True by (simp only: b2 if_True simp_thms)
    moreover have "128 * G \<le> j" "j < 128 * G + length ?y" "j < length b1" "128 * G + length ?y \<le> length b1"
      using calculation(1) k(1) fit(2) l1 b0 unfolding i by simp_all
    ultimately have "b2 ! j = ?y ! (j - 128 * G)" by (simp only: nth_splice_at simp_thms if_True)
    also have "\<dots> = C ! (128 * (F + G) + (j - 128 * G))"
      using \<open>j - 128 * G < length ?y\<close> by (rule nth_take_drop)
    finally show ?thesis using \<open>128 * (F + G) + (j - 128 * G) = 128 * F + j\<close> by simp
  next
    case False
    have "b2 ! j = b1 ! j"
    proof (cases "P + N \<noteq> 128 * (F + G) + 128 \<and> (G \<noteq> 0 \<or> P = 128 * F)")
      case True
      with False have "j < 128 * G" by auto
      with True k fit l1 show ?thesis by (simp add: b2 b0 nth_splice_at)
    next
      case False
      then show ?thesis by (simp only: b2 if_False)
    qed
    moreover have "P \<noteq> 128 * F \<and> j < 128" using False out k F G by auto
    ultimately show ?thesis using nth1 by simp
  qed
  show "b3 ! j = (if P \<le> 128 * F + j \<and> 128 * F + j < P + N then src ! (128 * F + j - P) else C ! (128 * F + j))"
  proof (cases "P \<le> 128 * F + j \<and> 128 * F + j < P + N")
    case True
    then have "j - (P - 128 * F) = 128 * F + j - P" "P - 128 * F \<le> j" "j < P - 128 * F + length src"
      unfolding Q N(4) by simp_all
    with True fit3 k b0 l2 show ?thesis by (simp add: b3 nth_splice_at)
  next
    case False
    then have "\<not> (P - 128 * F \<le> j \<and> j < P - 128 * F + length src)" unfolding Q N(4) by simp
    then have "b3 ! j = b2 ! j" using nth_splice_at [OF fit3, of j] k(1) b0 l2 unfolding b3 by presburger
    moreover have "b2 ! j = C ! (128 * F + j)" using False by (intro nth2) linarith
    ultimately show ?thesis using False by presburger
  qed
qed

lemma fdata_blocks:
  assumes "disk_ok d" "hdr_ok h" "k < nat (numBytes h)"
  shows "fdata d h ! k = sect d (dataSectors h ! (k div 128)) ! (k mod 128)"
proof -
  note D = hdr_okD [OF assms(2)]
  have k: "k < 128 * nat (numSectors h)" using assms(3) D(2) by linarith
  then have "k div 128 < nat (numSectors h)" by (simp add: less_mult_imp_div_less mult.commute)
  then have "map (sect d) (data_sectors h) ! (k div 128) = sect d (dataSectors h ! (k div 128))"
    using D(8) by (simp add: data_sectors_def)
  moreover have "concat (map (sect d) (data_sectors h)) ! k =
      map (sect d) (data_sectors h) ! (k div 128) ! (k mod 128)"
    using k D(8) by (intro nth_concat_blocks [OF block_lengths(1) [OF assms(1,2)]]) simp
  ultimately show ?thesis using assms(3) by (simp add: fdata_def)
qed

text \<open>Filling a partly overwritten sector of the buffer from the file.\<close>

lemma fill_ok:
  assumes d: "disk_ok d" and h: "hdr_ok (hdr f)" and i: "0 \<le> i" "128 * i < numBytes (hdr f)"
  shows "\<exists>d'. (if c then rbind (OpenFile_ReadAt f SectorSize (i * SectorSize) d) (\<lambda>((_, bs), d).
        Inr (splice_at k bs buf, d)) else Inr (buf, d)) =
      Inr (if c then splice_at k (take (min 128 (nat (numBytes (hdr f)) - 128 * nat i))
        (drop (128 * nat i) (fblocks d (hdr f)))) buf else buf, d') \<and>
    disk_ok d' \<and> sect d' = sect d \<and> fresh d' = fresh d"
proof -
  let ?n = "xfer (numBytes (hdr f)) 128 (i * 128)"
  have "nat (i * 128) = 128 * nat i" by (simp add: nat_mult_distrib mult.commute)
  moreover have "nat ?n = min 128 (nat (numBytes (hdr f)) - 128 * nat i)"
    using i by (simp add: xfer_def min_def nat_diff_distrib nat_mult_distrib) linarith
  ultimately have "take (nat ?n) (drop (nat (i * 128)) (fdata d (hdr f))) =
      take (min 128 (nat (numBytes (hdr f)) - 128 * nat i)) (drop (128 * nat i) (fblocks d (hdr f)))"
    by (simp add: fdata_def fblocks_def [symmetric] drop_take)
  moreover have "i * 128 + 128 < 2147483648" using i hdr_okD(9) [OF h] by linarith
  ultimately show ?thesis
    using ReadAt_ok [OF d h, of "i * 128" 128] i d by (cases c) (auto simp: SectorSize_def)
qed

lemma write_back:
  assumes d: "disk_ok d" and h: "hdr_ok h" and i: "0 \<le> lo" "lo \<le> e" "e + 1 \<le> numSectors h"
    and buf: "length buf = 128 * nat (e + 1 - lo)"
  shows "\<exists>d'. for_range lo (e + 1) (\<lambda>i d. rbind (FileHeader_ByteToSector h (i * SectorSize)) (\<lambda>s.
        SynchDisk_WriteSector s (take (nat SectorSize) (drop (nat ((i - lo) * SectorSize)) buf)) d)) d = Inr d' \<and>
    disk_ok d' \<and> fresh d' = fresh d \<and>
    (\<forall>i. lo \<le> i \<longrightarrow> i \<le> e \<longrightarrow> sect d' (dataSectors h ! nat i) = take 128 (drop (nat ((i - lo) * 128)) buf)) \<and>
    (\<forall>i. 0 \<le> i \<longrightarrow> i < numSectors h \<longrightarrow> \<not> (lo \<le> i \<and> i \<le> e) \<longrightarrow>
       sect d' (dataSectors h ! nat i) = sect d (dataSectors h ! nat i)) \<and>
    (\<forall>s. 0 \<le> s \<longrightarrow> s < 1024 \<longrightarrow> s \<notin> set (data_sectors h) \<longrightarrow> sect d' s = sect d s)"
proof -
  note D = hdr_okD [OF h]
  let ?ds = "dataSectors h"
  let ?seg = "take (nat (e + 1 - lo)) (drop (nat lo) ?ds)"
  have "nat lo + nat (e + 1 - lo) \<le> nat (numSectors h)" using i by linarith
  then have sub: "?seg = take (nat (e + 1 - lo)) (drop (nat lo) (data_sectors h))"
    by (simp add: data_sectors_def drop_take min_def le_diff_conv2)
  have "distinct ?seg" unfolding sub using D(6) by simp
  then obtain d' where run: "for_range lo (e + 1) (\<lambda>i d. rbind (aget ?ds i) (\<lambda>s.
        SynchDisk_WriteSector s (take 128 (drop (nat ((i - lo) * 128)) buf)) d)) d = Inr d'" "disk_ok d'"
      "fresh d' = fresh d"
      "\<forall>i. lo \<le> i \<longrightarrow> i < e + 1 \<longrightarrow> sect d' (?ds ! nat i) = take 128 (drop (nat ((i - lo) * 128)) buf)"
      "\<forall>s. 0 \<le> s \<longrightarrow> s < 1024 \<longrightarrow> s \<notin> set ?seg \<longrightarrow> sect d' s = sect d s"
    using sd.write_run [OF d i(1), of "e + 1" ?ds buf] D i buf by auto
  have "?ds ! nat k \<notin> set ?seg" if k: "0 \<le> k" "k < numSectors h" "\<not> (lo \<le> k \<and> k \<le> e)" for k
  proof
    assume "?ds ! nat k \<in> set ?seg"
    then obtain j where j: "j < nat (e + 1 - lo)" "?ds ! (nat lo + j) = ?ds ! nat k"
      by (auto simp: in_set_conv_nth)
    have "nat lo + j < nat (numSectors h)" "nat k < nat (numSectors h)" using i j k by linarith+
    with j(2) have "nat lo + j = nat k"
      using D(6,8) nth_eq_iff_index_eq [OF D(6), of "nat lo + j" "nat k"] by (simp add: data_sectors_def)
    with j k i show False by linarith
  qed
  moreover have "set ?seg \<subseteq> set (data_sectors h)" unfolding sub by (meson in_set_dropD in_set_takeD subsetI)
  moreover have "for_range lo (e + 1) (\<lambda>i d. rbind (FileHeader_ByteToSector h (i * SectorSize)) (\<lambda>s.
        SynchDisk_WriteSector s (take (nat SectorSize) (drop (nat ((i - lo) * SectorSize)) buf)) d)) d =
      for_range lo (e + 1) (\<lambda>i d. rbind (aget ?ds i) (\<lambda>s.
        SynchDisk_WriteSector s (take 128 (drop (nat ((i - lo) * 128)) buf)) d)) d"
    using i by (intro for_range_cong) (simp add: FileHeader_ByteToSector_def SectorSize_def)
  ultimately show ?thesis using run D(7) by (intro exI [of _ d']) auto
qed

text \<open>The file after the sectors \<open>lo\<close> to \<open>e\<close> have been overwritten with a merged buffer.\<close>

lemma fdata_written:
  assumes d: "disk_ok d" and d': "disk_ok d'" and h: "hdr_ok h" and lo: "0 \<le> lo" "lo \<le> e"
    and rng: "128 * lo \<le> pos" "pos + n \<le> 128 * e + 128" "0 \<le> pos" "0 < n" "pos + n \<le> numBytes h"
    and src: "length src = nat n" and b: "length b = 128 * nat (e - lo) + 128"
    and merged: "\<And>j. j < 128 * nat (e - lo) + 128 \<Longrightarrow> 128 * nat lo + j < nat (numBytes h) \<Longrightarrow>
      b ! j = (if nat pos \<le> 128 * nat lo + j \<and> 128 * nat lo + j < nat pos + nat n
        then src ! (128 * nat lo + j - nat pos) else fblocks d h ! (128 * nat lo + j))"
    and inside: "\<And>i. lo \<le> i \<Longrightarrow> i \<le> e \<Longrightarrow>
      sect d' (dataSectors h ! nat i) = take 128 (drop (nat ((i - lo) * 128)) b)"
    and outside: "\<And>i. 0 \<le> i \<Longrightarrow> i < numSectors h \<Longrightarrow> \<not> (lo \<le> i \<and> i \<le> e) \<Longrightarrow>
      sect d' (dataSectors h ! nat i) = sect d (dataSectors h ! nat i)"
  shows "fdata d' h = splice_at (nat pos) src (fdata d h)"
proof (rule nth_equalityI)
  let ?L = "nat (numBytes h)"
  have len: "length (fdata d h) = ?L" "length (fdata d' h) = ?L" using length_fdata h d d' by auto
  have fits: "nat pos + length src \<le> length (fdata d h)" using rng(3-5) src len(1) by simp
  show "length (fdata d' h) = length (splice_at (nat pos) src (fdata d h))"
    using length_splice_at [OF fits] len by simp
  fix k assume "k < length (fdata d' h)"
  then have k: "k < ?L" using len by simp
  note sp = nth_splice_at [OF fits, of k, unfolded len(1) src, OF k]
  have kd: "int (k div 128) < numSectors h" "128 * (k div 128) + k mod 128 = k"
    using k hdr_okD(2) [OF h] by auto
  show "fdata d' h ! k = splice_at (nat pos) src (fdata d h) ! k"
  proof (cases "lo \<le> int (k div 128) \<and> int (k div 128) \<le> e")
    case True
    define i where "i = k div 128 - nat lo"
    have i: "k div 128 = nat lo + i" "i \<le> nat (e - lo)" using True lo(1) unfolding i_def by linarith+
    then have "int (k div 128) - lo = int i" using lo(1) by simp
    then have i3: "nat ((int (k div 128) - lo) * 128) = 128 * i" by (simp add: nat_mult_distrib)
    have j: "128 * i + k mod 128 < 128 * nat (e - lo) + 128" "128 * nat lo + (128 * i + k mod 128) = k"
      using i kd(2) by auto
    have "fdata d' h ! k = take 128 (drop (128 * i) b) ! (k mod 128)"
      using inside [OF conjunct1 [OF True] conjunct2 [OF True]] fdata_blocks [OF d' h k] i3 by simp
    also have "\<dots> = b ! (128 * i + k mod 128)"
      using j(1) by (intro nth_take_drop) (simp add: b)
    also have "\<dots> = (if nat pos \<le> k \<and> k < nat pos + nat n then src ! (k - nat pos) else fblocks d h ! k)"
      using merged [OF j(1), unfolded j(2), OF k] .
    also have "fblocks d h ! k = fdata d h ! k" using k by (simp add: fdata_def fblocks_def)
    finally show ?thesis using sp by simp
  next
    case False
    have "\<not> (nat pos \<le> k \<and> k < nat pos + nat n)" using False lo rng kd(2) by linarith
    moreover have "fdata d' h ! k = fdata d h ! k"
      using outside [OF _ kd(1) False] fdata_blocks [OF d h k] fdata_blocks [OF d' h k] by simp
    ultimately show ?thesis by (simp only: sp if_False)
  qed
qed

lemma WriteAt_ok:
  assumes d: "disk_ok d" and h: "hdr_ok (hdr f)" and pos: "0 \<le> pos" "pos + num < 2147483648"
  defines "n \<equiv> xfer (numBytes (hdr f)) num pos"
  assumes src: "n \<le> int (length src)"
  shows "\<exists>d'. OpenFile_WriteAt f src num pos d = Inr (n, d') \<and> disk_ok d' \<and> fresh d' = fresh d \<and>
    fdata d' (hdr f) = splice_at (nat pos) (take (nat n) src) (fdata d (hdr f)) \<and>
    (\<forall>s. 0 \<le> s \<longrightarrow> s < 1024 \<longrightarrow> s \<notin> set (data_sectors (hdr f)) \<longrightarrow> sect d' s = sect d s)"
proof -
  note D = hdr_okD [OF h]
  have clip: "clip (FileHeader_FileLength (hdr f)) num pos = Inr n"
    unfolding n_def FileHeader_FileLength_def using D pos by (intro clip_xfer) auto
  show ?thesis
  proof (cases "n = 0")
    case True
    with clip d show ?thesis by (simp add: OpenFile_WriteAt_def splice_at_def)
  next
    case False
    have n: "0 < n" "pos + n \<le> numBytes (hdr f)" using xfer_bounds pos(1) False by (auto simp: n_def)
    define lo where "lo = pos div 128"
    define e where "e = (pos + n - 1) div 128"
    have span: "0 \<le> lo" "lo \<le> e" "e + 1 \<le> numSectors (hdr f)" "128 * lo \<le> pos" "pos < 128 * lo + 128"
      "128 * e < pos + n" "pos + n \<le> 128 * e + 128"
      using sector_span [OF h pos(1) n] by (simp_all add: lo_def e_def)
    let ?L = "nat (numBytes (hdr f))" and ?C = "fblocks d (hdr f)"
    let ?x = "\<lambda>i. take (min 128 (?L - 128 * nat i)) (drop (128 * nat i) ?C)"
    define c1 where "c1 \<longleftrightarrow> pos \<noteq> lo * SectorSize"
    define c2 where "c2 \<longleftrightarrow> pos + n \<noteq> (e + 1) * SectorSize \<and> (lo \<noteq> e \<or> pos = lo * SectorSize)"
    define b0 where "b0 = fresh d (nat ((1 + e - lo) * SectorSize))"
    define b1 where "b1 = (if c1 then splice_at 0 (?x lo) b0 else b0)"
    define b2 where "b2 = (if c2 then splice_at (nat ((e - lo) * SectorSize)) (?x e) b1 else b1)"
    define b3 where "b3 = splice_at (nat (pos - lo * SectorSize)) (take (nat n) src) b2"
    have lt: "128 * lo < numBytes (hdr f)" "128 * e < numBytes (hdr f)" "0 \<le> e" using span n by linarith+
    from fill_ok [OF d h span(1) lt(1), of c1 0 b0] obtain d1 where
      r1: "(if c1 then rbind (OpenFile_ReadAt f SectorSize (lo * SectorSize) d) (\<lambda>((_, bs), d).
          Inr (splice_at 0 bs b0, d)) else Inr (b0, d)) = Inr (b1, d1)" and
      d1: "disk_ok d1" "sect d1 = sect d" "fresh d1 = fresh d"
      unfolding b1_def by blast
    have C: "fblocks d1 (hdr f) = ?C" by (simp add: fblocks_def d1(2))
    from fill_ok [OF d1(1) h lt(3,2), of c2 "nat ((e - lo) * SectorSize)" b1, unfolded C] obtain d2 where
      r2: "(if c2 then rbind (OpenFile_ReadAt f SectorSize (e * SectorSize) d1) (\<lambda>((_, bs), d).
          Inr (splice_at (nat ((e - lo) * SectorSize)) bs b1, d)) else Inr (b1, d1)) = Inr (b2, d2)" and
      d2: "disk_ok d2" "sect d2 = sect d" "fresh d2 = fresh d"
      unfolding b2_def d1(2,3) by blast
    have len0: "length b0 = 128 * nat (e - lo) + 128"
      using d span by (simp add: b0_def disk_ok_def SectorSize_def nat_mult_distrib nat_add_distrib algebra_simps)
    have nats: "nat e = nat lo + nat (e - lo)" "nat ((e - lo) * SectorSize) = 128 * nat (e - lo)"
      using span(1,2) by (linarith, simp add: SectorSize_def nat_mult_distrib)
    obtain q where q: "pos = 128 * lo + int q" using span(4) zle_iff_zadd by auto
    then have natpos: "nat pos = 128 * nat lo + q" "nat (pos - lo * SectorSize) = q"
      using span(1) by (simp_all add: SectorSize_def nat_add_distrib nat_mult_distrib)
    have nn: "0 < nat n" "nat pos + nat n \<le> ?L" "?L \<le> length ?C" "length (take (nat n) src) = nat n"
      using n pos(1) src D(2) block_lengths(2) [OF d h] by auto
    have F: "128 * nat lo \<le> nat pos" "nat pos < 128 * nat lo + 128" using natpos(1) q span(5) by auto
    have G: "128 * (nat lo + nat (e - lo)) < nat pos + nat n" "nat pos + nat n \<le> 128 * (nat lo + nat (e - lo)) + 128"
      unfolding nats(1) [symmetric] using span(6,7) lt(3) n(1) pos(1) by linarith+
    have c1: "c1 \<longleftrightarrow> nat pos \<noteq> 128 * nat lo" unfolding c1_def SectorSize_def using natpos(1) q by simp
    have c2: "c2 \<longleftrightarrow> nat pos + nat n \<noteq> 128 * (nat lo + nat (e - lo)) + 128 \<and> (nat (e - lo) \<noteq> 0 \<or> nat pos = 128 * nat lo)"
    proof -
      have "pos + n = (e + 1) * SectorSize \<longleftrightarrow> nat pos + nat n = 128 * (nat lo + nat (e - lo)) + 128"
      proof -
        have "pos + n = int (nat pos + nat n)" "(e + 1) * SectorSize = int (128 * nat e + 128)"
          using lt(3) pos(1) n(1) by (simp_all add: SectorSize_def)
        then show ?thesis unfolding nats(1) [symmetric] by (simp only: of_nat_eq_iff)
      qed
      moreover have "lo = e \<longleftrightarrow> nat (e - lo) = 0" using span(2) by auto
      moreover have "pos = lo * SectorSize \<longleftrightarrow> nat pos = 128 * nat lo" using c1 by (simp add: c1_def)
      ultimately show ?thesis by (simp only: c2_def)
    qed
    have "nat (pos - lo * SectorSize) = nat pos - 128 * nat lo" using natpos by simp
    then have b3: "b3 = splice_at (nat pos - 128 * nat lo) (take (nat n) src) b2" by (simp add: b3_def)
    have b1: "b1 = (if nat pos \<noteq> 128 * nat lo then splice_at 0 (?x lo) b0 else b0)" by (simp only: b1_def c1)
    have b2: "b2 = (if nat pos + nat n \<noteq> 128 * (nat lo + nat (e - lo)) + 128 \<and> (nat (e - lo) \<noteq> 0 \<or> nat pos = 128 * nat lo)
      then splice_at (128 * nat (e - lo)) (take (min 128 (?L - 128 * (nat lo + nat (e - lo))))
        (drop (128 * (nat lo + nat (e - lo))) ?C)) b1 else b1)"
      by (simp only: b2_def c2 nats)
    note M = merge_buffer [OF nn F G len0 b1 b2 b3]
    have len3: "length b3 = 128 * nat (e + 1 - lo)" unfolding M(1) len0 using span(2) by linarith
    obtain d3 where d3: "for_range lo (e + 1) (\<lambda>i d. rbind (FileHeader_ByteToSector (hdr f) (i * SectorSize)) (\<lambda>s.
        SynchDisk_WriteSector s (take (nat SectorSize) (drop (nat ((i - lo) * SectorSize)) b3)) d)) d2 = Inr d3"
      "disk_ok d3" "fresh d3 = fresh d"
      and inside: "\<And>i. lo \<le> i \<Longrightarrow> i \<le> e \<Longrightarrow> sect d3 (dataSectors (hdr f) ! nat i) = take 128 (drop (nat ((i - lo) * 128)) b3)"
      and outside: "\<And>i. 0 \<le> i \<Longrightarrow> i < numSectors (hdr f) \<Longrightarrow> \<not> (lo \<le> i \<and> i \<le> e) \<Longrightarrow>
        sect d3 (dataSectors (hdr f) ! nat i) = sect d (dataSectors (hdr f) ! nat i)"
      and others: "\<And>s. 0 \<le> s \<Longrightarrow> s < 1024 \<Longrightarrow> s \<notin> set (data_sectors (hdr f)) \<Longrightarrow> sect d3 s = sect d s"
      using write_back [OF d2(1) h span(1-3) len3] unfolding d2(2,3) by blast
    have "fdata d3 (hdr f) = splice_at (nat pos) (take (nat n) src) (fdata d (hdr f))"
      using M(1) inside outside unfolding len0
      by (intro fdata_written [OF d d3(2) h span(1,2,4,7) pos(1) n nn(4) _ M(2)]) auto
    moreover have "OpenFile_WriteAt f src num pos d = Inr (n, d3)"
    proof -
      have "divRoundDown pos SectorSize = lo" "divRoundDown (pos + n - 1) SectorSize = e"
        using pos(1) n(1) by (simp_all add: divRoundDown_def SectorSize_def lo_def e_def)
      moreover have "\<not> (pos - lo * SectorSize < 0 \<or> int (length src) < n)"
        using src span(4) by (simp add: SectorSize_def)
      ultimately show ?thesis
        using clip False r1 r2 d3(1) unfolding c1_def c2_def b0_def b3_def
        by (simp only: OpenFile_WriteAt_def Let_def rbind_Inr if_False prod.case not_not)
    qed
    ultimately show ?thesis using d3 others by blast
  qed
qed

text \<open>Files the kernel always transfers as a whole: the free map and the directory.\<close>

lemma splice_all: "length ys = length xs \<Longrightarrow> splice_at 0 ys xs = ys"
  by (simp add: splice_at_def)

lemma ReadAt_whole:
  assumes d: "disk_ok d" and h: "hdr_ok (hdr f)" and n: "n = numBytes (hdr f)"
  shows "\<exists>d'. OpenFile_ReadAt f n 0 d = Inr ((n, fdata d (hdr f)), d') \<and>
    disk_ok d' \<and> sect d' = sect d \<and> fresh d' = fresh d"
proof -
  have "xfer n n 0 = n" "n < 2147483648" using hdr_okD(1,9) [OF h] n by (auto simp: xfer_def)
  with ReadAt_ok [OF d h, of 0 n] length_fdata [OF d h] show ?thesis by (simp add: n)
qed

lemma WriteAt_whole:
  assumes d: "disk_ok d" and h: "hdr_ok (hdr f)" and n: "n = numBytes (hdr f)" "length src = nat n"
  shows "\<exists>d'. OpenFile_WriteAt f src n 0 d = Inr (n, d') \<and> disk_ok d' \<and> fresh d' = fresh d \<and>
    fdata d' (hdr f) = src \<and>
    (\<forall>s. 0 \<le> s \<longrightarrow> s < 1024 \<longrightarrow> s \<notin> set (data_sectors (hdr f)) \<longrightarrow> sect d' s = sect d s)"
proof -
  have "xfer n n 0 = n" "n < 2147483648" "n \<le> int (length src)"
    using hdr_okD(1,9) [OF h] n by (auto simp: xfer_def)
  moreover have "splice_at 0 src (fdata d (hdr f)) = src"
    using n length_fdata [OF d h] by (intro splice_all) simp
  ultimately show ?thesis using WriteAt_ok [OF d h, of 0 n src] n by simp
qed

section \<open>Allocating and freeing data sectors\<close>

lemma Allocate_ok:
  assumes m: "bitmap_ok m" "numBits m = 1024" and sz: "0 \<le> sz" "sz \<le> 3840"
    and ds: "length (dataSectors h) = 30" "\<forall>s \<in> set (dataSectors h). in_int s"
  defines "ns \<equiv> divRoundUp sz 128"
  shows "if int (card ({0..<1024} - bset m)) < ns
    then \<exists>h'. FileHeader_Allocate h m sz = Inr (False, h', m)
    else \<exists>h' m'. FileHeader_Allocate h m sz = Inr (True, h', m') \<and> hdr_ok h' \<and> numBytes h' = sz \<and>
      bitmap_ok m' \<and> numBits m' = 1024 \<and> set (data_sectors h') \<inter> bset m = {} \<and>
      bset m' = bset m \<union> set (data_sectors h')"
proof (cases "int (card ({0..<1024} - bset m)) < ns")
  case True
  then show ?thesis
    using bm.nclear_card [OF m(1)] m(2)
    by (simp add: FileHeader_Allocate_def Let_def SectorSize_def ns_def)
next
  case False
  note b = divRoundUp_bounds [OF sz(1), of 128]
  have ns: "0 \<le> ns" "ns \<le> 30" using b sz(2) by (simp_all add: ns_def)
  let ?loop = "for_range 0 ns (\<lambda>i (m, xs). rbind (Bitmap_FindAndSet m) (\<lambda>(s, m).
      rbind (aput xs i s) (\<lambda>xs. rbind (assert (0 \<le> s)) (\<lambda>_. Inr (m, xs))))) (m, dataSectors h)"
  obtain m' ys where run: "?loop = Inr (m', ys)" "bitmap_ok m'" "numBits m' = 1024" "length ys = 30"
      "drop (nat ns) ys = drop (nat ns) (dataSectors h)" "distinct (take (nat ns) ys)"
      "set (take (nat ns) ys) \<inter> bset m = {}" "bset m' = bset m \<union> set (take (nat ns) ys)"
    using bm.alloc_loop [OF m(1) ns(1), of "dataSectors h"] m(2) ns(2) ds(1) False by auto
  let ?h = "h\<lparr>numBytes := sz, numSectors := ns, dataSectors := ys\<rparr>"
  have range: "0 \<le> s \<and> s < 1024" if "s \<in> set (take (nat ns) ys)" for s
    using bset_bounds [of m'] run(3,8) that by auto
  have "in_int s" if "s \<in> set ys" for s
  proof -
    have "s \<in> set (take (nat ns) ys) \<or> s \<in> set (drop (nat ns) ys)"
      using that by (metis Un_iff append_take_drop_id set_append)
    then show ?thesis using range [of s] ds(2) run(5) by (auto simp: in_int_def dest: in_set_dropD)
  qed
  then have "hdr_ok ?h" using sz ns run(4,6) range by (simp add: hdr_ok_def ns_def)
  moreover have "FileHeader_Allocate h m sz = Inr (True, ?h, m')"
    using False run(1) bm.nclear_card [OF m(1)] m(2)
    by (simp add: FileHeader_Allocate_def Let_def SectorSize_def ns_def)
  ultimately show ?thesis using False run by (auto simp: data_sectors_def)
qed

lemma Deallocate_ok:
  assumes m: "bitmap_ok m" and h: "hdr_ok h" "set (data_sectors h) \<subseteq> bset m"
  shows "\<exists>m'. FileHeader_Deallocate h m = Inr m' \<and> bitmap_ok m' \<and> numBits m' = numBits m \<and>
    bset m' = bset m - set (data_sectors h)"
  using bm.dealloc_loop [OF m, of "numSectors h" "dataSectors h"] hdr_okD [OF h(1)] h(2)
  by (simp add: FileHeader_Deallocate_def data_sectors_def)

lemma hdr_WriteBack_FetchFrom:
  assumes "disk_ok d" "hdr_ok h" "0 \<le> s" "s < 1024"
  shows "\<exists>d'. FileHeader_WriteBack h s d = Inr d' \<and> disk_ok d' \<and> fresh d' = fresh d \<and>
    bytes_hdr (sect d' s) = h \<and> (\<forall>j. 0 \<le> j \<longrightarrow> j < 1024 \<longrightarrow> j \<noteq> s \<longrightarrow> sect d' j = sect d j)"
  using sd.wr_ok [OF assms(1,3,4) hdr_roundtrip(2) [OF assms(2)]] hdr_roundtrip(1) [OF assms(2)]
  by (auto simp: FileHeader_WriteBack_def)

lemma FetchFrom_ok:
  assumes "disk_ok d" "0 \<le> s" "s < 1024"
  shows "\<exists>d'. FileHeader_FetchFrom s d = Inr (bytes_hdr (sect d s), d') \<and> disk_ok d' \<and>
    sect d' = sect d \<and> fresh d' = fresh d"
  using sd.rd_ok [OF assms] by (auto simp: FileHeader_FetchFrom_def)

section \<open>Properties\<close>

text \<open>
  C23. Reading is exact: for a well-formed header on a sound disk and any non-negative position,
  \<^verbatim>\<open>ReadAt\<close> returns as many bytes as were asked for and exist past the position, and they are the
  bytes of the file there; it changes no sector of the disk.
\<close>

theorem ReadAt_returns_slice:
  assumes "disk_ok d" "hdr_ok (hdr f)" "0 \<le> pos" "pos + num < 2 ^ 31"
  shows "\<exists>n d'. OpenFile_ReadAt f num pos d =
      Inr ((int n, take n (drop (nat pos) (fdata d (hdr f)))), d') \<and>
    n = nat (if num \<le> 0 \<or> pos \<ge> numBytes (hdr f) then 0 else min num (numBytes (hdr f) - pos)) \<and>
    sect d' = sect d \<and> disk_ok d'"
proof -
  have "0 \<le> xfer (numBytes (hdr f)) num pos" by (auto simp: xfer_def)
  with ReadAt_ok [OF assms(1-3), of num] assms(4) show ?thesis
    by (auto simp: xfer_def [symmetric] intro!: exI [of _ "nat (xfer (numBytes (hdr f)) num pos)"])
qed

text \<open>A 200-byte file in the sectors 5 and 7 of a new disk.\<close>

definition example_hdr :: filehdr where
  "example_hdr = \<lparr>numBytes = 200, numSectors = 2, dataSectors = [5, 7] @ replicate 28 0\<rparr>"

lemma example_hdr_ok: "hdr_ok example_hdr"
  by (simp add: hdr_ok_def example_hdr_def divRoundUp_def in_int_def)

theorem ReadAt_returns_slice_witness:
  "\<exists>d n d'. Disk_new None 0 (\<lambda>n. replicate n 0) = Inr d \<and>
     OpenFile_ReadAt \<lparr>hdr = example_hdr, seekPosition = 0\<rparr> 100 150 d = Inr ((int n, take n (drop 150 (fdata d example_hdr))), d') \<and>
     n = 50"
proof -
  obtain d where d: "Disk_new None 0 (\<lambda>n. replicate n 0) = Inr d" "disk_ok d"
    using Disk_new_ok [of "\<lambda>n. replicate n 0" 0] by auto
  from ReadAt_returns_slice [OF d(2), of "\<lparr>hdr = example_hdr, seekPosition = 0\<rparr>" 150 100] d(1)
  show ?thesis using example_hdr_ok by (auto simp: example_hdr_def)
qed

text \<open>
  C22. Writing is exact and confined: \<^verbatim>\<open>WriteAt\<close> replaces exactly the requested bytes of the file
  (clipped to its length), leaves its other bytes as they were although it writes whole sectors, and
  touches no sector that does not belong to the file.
\<close>

theorem WriteAt_splices:
  assumes "disk_ok d" "hdr_ok (hdr f)" "0 \<le> pos" "pos + num < 2 ^ 31" "num \<le> int (length src)"
  shows "\<exists>n d'. OpenFile_WriteAt f src num pos d = Inr (int n, d') \<and>
    n = nat (if num \<le> 0 \<or> pos \<ge> numBytes (hdr f) then 0 else min num (numBytes (hdr f) - pos)) \<and>
    fdata d' (hdr f) = splice_at (nat pos) (take n src) (fdata d (hdr f)) \<and>
    (\<forall>s. 0 \<le> s \<longrightarrow> s < 1024 \<longrightarrow> s \<notin> set (data_sectors (hdr f)) \<longrightarrow> sect d' s = sect d s) \<and> disk_ok d'"
proof -
  let ?n = "xfer (numBytes (hdr f)) num pos"
  have "0 \<le> ?n" "?n \<le> int (length src)" using assms(5) by (auto simp: xfer_def)
  with WriteAt_ok [OF assms(1-3), of num src] assms(4) show ?thesis
    by (auto simp: xfer_def [symmetric] intro!: exI [of _ "nat ?n"])
qed

theorem WriteAt_splices_witness:
  "\<exists>d d'. Disk_new None 0 (\<lambda>n. replicate n 0) = Inr d \<and>
     OpenFile_WriteAt \<lparr>hdr = example_hdr, seekPosition = 0\<rparr> [1, 2, 3] 3 127 d = Inr (3, d') \<and>
     fdata d' example_hdr = splice_at 127 [1, 2, 3] (fdata d example_hdr)"
proof -
  obtain d where d: "Disk_new None 0 (\<lambda>n. replicate n 0) = Inr d" "disk_ok d"
    using Disk_new_ok [of "\<lambda>n. replicate n 0" 0] by auto
  from WriteAt_splices [OF d(2), of "\<lparr>hdr = example_hdr, seekPosition = 0\<rparr>" 127 3 "[1, 2, 3]"] d(1)
  show ?thesis using example_hdr_ok by (auto simp: example_hdr_def)
qed

text \<open>
  Allocation takes what is free and freeing gives it back: for a file that fits a header,
  \<^verbatim>\<open>Allocate\<close> fails exactly when there are fewer clear sectors than needed, leaving the map as it was;
  otherwise the header gets as many different sectors as the size needs, none of which was in use,
  exactly these are marked, and \<^verbatim>\<open>Deallocate\<close> restores the map.
\<close>

theorem Allocate_Deallocate:
  assumes "bitmap_ok m" "numBits m = NumSectors" "0 \<le> sz" "sz \<le> MaxFileSize"
    "length (dataSectors h) = nat NumDirect" "\<forall>s \<in> set (dataSectors h). in_int s"
  shows "if int (card ({0..<NumSectors} - bset m)) < divRoundUp sz SectorSize
    then \<exists>h'. FileHeader_Allocate h m sz = Inr (False, h', m)
    else \<exists>h' m' m''. FileHeader_Allocate h m sz = Inr (True, h', m') \<and> hdr_ok h' \<and>
      FileHeader_FileLength h' = sz \<and> set (data_sectors h') \<inter> bset m = {} \<and>
      int (card (set (data_sectors h'))) = divRoundUp sz SectorSize \<and>
      bset m' = bset m \<union> set (data_sectors h') \<and>
      FileHeader_Deallocate h' m' = Inr m'' \<and> bset m'' = bset m"
proof -
  have a: "numBits m = 1024" "sz \<le> 3840" "length (dataSectors h) = 30"
    using assms(2,4,5) by (simp_all add: geometry MaxFileSize_def)
  note A = Allocate_ok [OF assms(1) a(1) assms(3) a(2,3) assms(6)]
  show ?thesis
  proof (cases "int (card ({0..<1024} - bset m)) < divRoundUp sz 128")
    case True
    with A show ?thesis by (simp add: geometry)
  next
    case False
    with A obtain h' m' where h': "FileHeader_Allocate h m sz = Inr (True, h', m')" "hdr_ok h'"
        "numBytes h' = sz" "bitmap_ok m'" "set (data_sectors h') \<inter> bset m = {}"
        "bset m' = bset m \<union> set (data_sectors h')"
      by auto
    obtain m'' where "FileHeader_Deallocate h' m' = Inr m''" "bset m'' = bset m' - set (data_sectors h')"
      using Deallocate_ok [OF h'(4,2)] h'(6) by auto
    moreover have "bset m' - set (data_sectors h') = bset m" using h'(5,6) by auto
    moreover have "int (card (set (data_sectors h'))) = divRoundUp sz 128"
      using hdr_okD(3,6,8) [OF h'(2)] h'(2,3) by (simp add: distinct_card hdr_ok_def)
    ultimately show ?thesis using False h' by (simp add: geometry FileHeader_FileLength_def)
  qed
qed

theorem Allocate_Deallocate_witness:
  "\<exists>m h' m'. Bitmap_new 1024 = Inr m \<and> FileHeader_Allocate example_hdr m 300 = Inr (True, h', m') \<and>
     hdr_ok h' \<and> bset m' = set (data_sectors h')"
proof -
  obtain m where m: "Bitmap_new 1024 = Inr m" "bitmap_ok m" "numBits m = 1024" "bset m = {}"
    using Bitmap_new_ok [of 1024] by auto
  then have "bset m = {}" "numBits m = NumSectors" by (simp_all add: geometry)
  with Allocate_Deallocate [OF m(2), of 300 example_hdr] m(1) show ?thesis
    by (auto simp: geometry MaxFileSize_def example_hdr_def in_int_def divRoundUp_def)
qed

text \<open>
  C28. \<^verbatim>\<open>Allocate\<close> does not check that the file fits its header: asked for more than 30 sectors on a disk
  that has them free, it writes past the end of \<^verbatim>\<open>dataSectors\<close>.
\<close>

theorem Allocate_overruns_header:
  assumes "bitmap_ok m" "numBits m = NumSectors" "sz > MaxFileSize"
    "divRoundUp sz SectorSize \<le> int (card ({0..<NumSectors} - bset m))" "length (dataSectors h) = nat NumDirect"
  shows "FileHeader_Allocate h m sz = Inl BadIndex"
proof -
  let ?ns = "divRoundUp sz 128"
  have ns: "30 < ?ns" "?ns \<le> int (card ({0..<1024} - bset m))"
    using assms(3,4) divRoundUp_bounds(1) [of sz 128] by (simp_all add: MaxFileSize_def geometry)
  have m: "numBits m = 1024" using assms(2) by (simp add: geometry)
  let ?body = "\<lambda>i (m, xs). rbind (Bitmap_FindAndSet m) (\<lambda>(s, m).
      rbind (aput xs i s) (\<lambda>xs. rbind (assert (0 \<le> s)) (\<lambda>_. Inr (m, xs))))"
  obtain m' ys where run: "for_range 0 30 ?body (m, dataSectors h) = Inr (m', ys)" "bitmap_ok m'"
      "length ys = 30"
    using bm.alloc_loop [OF assms(1), of 30 "dataSectors h"] m ns assms(5) by auto
  obtain s m'' where f: "Bitmap_FindAndSet m' = Inr (s, m'')"
    using bm.find_cases [OF run(2)] by auto
  have "for_range 0 ?ns ?body (m, dataSectors h) = rbind (Inr (m', ys)) (for_range 30 ?ns ?body)"
    using for_range_split [of 0 30 ?ns ?body "(m, dataSectors h)"] ns(1) run(1) by simp
  also have "\<dots> = Inl BadIndex"
    using ns(1) f run(3) by (simp add: for_range_step aput_def)
  finally show ?thesis
    using ns(2) bm.nclear_card [OF assms(1)] m by (simp add: FileHeader_Allocate_def Let_def SectorSize_def)
qed

theorem Allocate_overruns_header_witness:
  "\<exists>m. Bitmap_new 1024 = Inr m \<and> FileHeader_Allocate example_hdr m 4000 = Inl BadIndex"
proof -
  obtain m where m: "Bitmap_new 1024 = Inr m" "bitmap_ok m" "numBits m = 1024" "bset m = {}"
    using Bitmap_new_ok [of 1024] by auto
  with Allocate_overruns_header [OF m(2), of 4000 example_hdr] show ?thesis
    by (auto simp: geometry MaxFileSize_def example_hdr_def divRoundUp_def)
qed

end
