(* ===== verification/Directory.thy ===== *)
theory Directory
  imports OpenFile
begin

text \<open>
  The directory (\<^verbatim>\<open>filesys/directory.cc\<close>): a fixed table of entries (in-use flag, header sector, nine
  significant characters of a name), kept as a file.  Entries are modelled with the bytes the compiler
  pads them with, so that fetching and writing back are exact inverses.  The table implements a
  map from truncated names to header sectors.
\<close>

definition FileNameMaxLen :: nat where
  "FileNameMaxLen = 9"

section \<open>C strings\<close>

text \<open>
  A C string argument is the list of its characters; reading at its end yields the terminator.
\<close>

definition hd0 :: "byte list \<Rightarrow> byte" where
  "hd0 bs = (case bs of [] \<Rightarrow> 0 | b # _ \<Rightarrow> b)"

fun strncmp :: "nat \<Rightarrow> byte list \<Rightarrow> byte list \<Rightarrow> int" where
  "strncmp 0 a b = 0"
| "strncmp (Suc n) a b =
     (if hd0 a \<noteq> hd0 b then (if hd0 a < hd0 b then -1 else 1)
      else if hd0 a = 0 then 0 else strncmp n (tl a) (tl b))"

definition strncpy :: "nat \<Rightarrow> byte list \<Rightarrow> byte list \<Rightarrow> byte list" where
  "strncpy n dst src =
     (let c = takeWhile (\<lambda>b. b \<noteq> 0) (take n src) in c @ replicate (n - length c) 0 @ drop n dst)"

text \<open>The significant part of a name.\<close>

definition key :: "byte list \<Rightarrow> byte list" where
  "key s = takeWhile (\<lambda>b. b \<noteq> 0) (take FileNameMaxLen s)"

lemma strncmp_eq_0:
  "strncmp n a b = 0 \<longleftrightarrow> takeWhile (\<lambda>b. b \<noteq> 0) (take n a) = takeWhile (\<lambda>b. b \<noteq> 0) (take n b)"
proof (induction n a b rule: strncmp.induct)
  case (2 n a b)
  then show ?case by (cases a; cases b) (auto simp: hd0_def)
qed simp

section \<open>Entries and their bytes\<close>

record dirent =
  inUse :: bool
  sector :: int
  name :: "byte list"     \<comment> \<open>\<^verbatim>\<open>char name[FileNameMaxLen + 1]\<close>\<close>
  pad :: "byte list"      \<comment> \<open>three bytes before \<^verbatim>\<open>sector\<close>, two after \<^verbatim>\<open>name\<close>\<close>

definition dirent_bytes :: "dirent \<Rightarrow> byte list" where
  "dirent_bytes e = (if inUse e then 1 else 0) # take 3 (pad e) @ word_bytes (word_of_int (sector e)) @
     name e @ drop 3 (pad e)"

definition bytes_dirent :: "byte list \<Rightarrow> dirent" where
  "bytes_dirent bs =
     \<lparr>inUse = (bs ! 0 \<noteq> 0), sector = sint (bytes_word (bs ! 4) (bs ! 5) (bs ! 6) (bs ! 7)),
      name = take 10 (drop 8 bs), pad = take 3 (drop 1 bs) @ drop 18 bs\<rparr>"

definition table_bytes :: "dirent list \<Rightarrow> byte list" where
  "table_bytes es = concat (map dirent_bytes es)"

definition bytes_table :: "nat \<Rightarrow> byte list \<Rightarrow> dirent list" where
  "bytes_table n bs = map (\<lambda>i. bytes_dirent (take 20 (drop (20 * i) bs))) [0..<n]"

section \<open>The class\<close>

record directory =
  tableSize :: int
  dtable :: "dirent list"   \<comment> \<open>the field \<^verbatim>\<open>table\<close>\<close>

definition Directory_new :: "int \<Rightarrow> disk \<Rightarrow> directory" where
  "Directory_new sz d =
     \<lparr>tableSize = sz, dtable = map (\<lambda>e. e\<lparr>inUse := False\<rparr>) (bytes_table (nat sz) (fresh d (20 * nat sz)))\<rparr>"

definition Directory_FetchFrom :: "directory \<Rightarrow> openfile \<Rightarrow> disk \<Rightarrow> (directory \<times> disk) res" where
  "Directory_FetchFrom dir file d =
     rbind (OpenFile_ReadAt file (tableSize dir * 20) 0 d) (\<lambda>((_, data), d).
     Inr (dir\<lparr>dtable := bytes_table (nat (tableSize dir)) (splice_at 0 data (table_bytes (dtable dir)))\<rparr>, d))"

definition Directory_WriteBack :: "directory \<Rightarrow> openfile \<Rightarrow> disk \<Rightarrow> disk res" where
  "Directory_WriteBack dir file d =
     rbind (OpenFile_WriteAt file (table_bytes (dtable dir)) (tableSize dir * 20) 0 d) (\<lambda>(_, d). Inr d)"

definition Directory_FindIndex :: "directory \<Rightarrow> byte list \<Rightarrow> int res" where
  "Directory_FindIndex dir nm =
     rbind (search 0 (tableSize dir) (\<lambda>i. rbind (aget (dtable dir) i) (\<lambda>e.
       Inr (inUse e \<and> strncmp FileNameMaxLen (name e) nm = 0)))) (\<lambda>r.
     Inr (case r of Some i \<Rightarrow> i | None \<Rightarrow> -1))"

definition Directory_Find :: "directory \<Rightarrow> byte list \<Rightarrow> int res" where
  "Directory_Find dir nm =
     rbind (Directory_FindIndex dir nm) (\<lambda>i.
     if i \<noteq> -1 then rbind (aget (dtable dir) i) (\<lambda>e. Inr (sector e)) else Inr (-1))"

definition Directory_Add :: "directory \<Rightarrow> byte list \<Rightarrow> int \<Rightarrow> (bool \<times> directory) res" where
  "Directory_Add dir nm newSector =
     rbind (Directory_FindIndex dir nm) (\<lambda>i.
     if i \<noteq> -1 then Inr (False, dir)
     else rbind (search 0 (tableSize dir) (\<lambda>i. rbind (aget (dtable dir) i) (\<lambda>e. Inr (\<not> inUse e)))) (\<lambda>r.
       case r of
         None \<Rightarrow> Inr (False, dir)
       | Some i \<Rightarrow>
           rbind (aget (dtable dir) i) (\<lambda>e.
           rbind (aput (dtable dir) i (e\<lparr>inUse := True, name := strncpy FileNameMaxLen (name e) nm,
             sector := newSector\<rparr>)) (\<lambda>t. Inr (True, dir\<lparr>dtable := t\<rparr>)))))"

definition Directory_Remove :: "directory \<Rightarrow> byte list \<Rightarrow> (bool \<times> directory) res" where
  "Directory_Remove dir nm =
     rbind (Directory_FindIndex dir nm) (\<lambda>i.
     if i = -1 then Inr (False, dir)
     else rbind (aget (dtable dir) i) (\<lambda>e.
          rbind (aput (dtable dir) i (e\<lparr>inUse := False\<rparr>)) (\<lambda>t. Inr (True, dir\<lparr>dtable := t\<rparr>))))"

text \<open>\<^verbatim>\<open>List\<close> prints the names in use; the model returns the name fields.\<close>

definition Directory_List :: "directory \<Rightarrow> byte list list res" where
  "Directory_List dir =
     for_range 0 (tableSize dir) (\<lambda>i out. rbind (aget (dtable dir) i) (\<lambda>e.
       Inr (if inUse e then out @ [name e] else out))) []"

definition Directory_Print :: "directory \<Rightarrow> disk \<Rightarrow>
    ((byte list \<times> int \<times> (int \<times> int list \<times> byte list list)) list \<times> disk) res" where
  "Directory_Print dir d =
     for_range 0 (tableSize dir) (\<lambda>i (out, d). rbind (aget (dtable dir) i) (\<lambda>e.
       if inUse e
       then rbind (FileHeader_FetchFrom (sector e) d) (\<lambda>(h, d).
            rbind (FileHeader_Print h d) (\<lambda>(p, d). Inr (out @ [(name e, sector e, p)], d)))
       else Inr (out, d))) ([], d)"

section \<open>Encoding\<close>

definition dirent_ok :: "dirent \<Rightarrow> bool" where
  "dirent_ok e \<longleftrightarrow> length (name e) = 10 \<and> length (pad e) = 5 \<and> in_int (sector e)"

lemma length_dirent_bytes [simp]: "dirent_ok e \<Longrightarrow> length (dirent_bytes e) = 20"
  by (simp add: dirent_ok_def dirent_bytes_def)

lemma list_3_2: "length xs = 5 \<Longrightarrow> take 3 xs @ drop 3 xs = xs"
  by simp

lemma dirent_roundtrip:
  assumes "dirent_ok e"
  shows "bytes_dirent (dirent_bytes e) = e"
proof -
  obtain a b c p q where pad: "pad e = [a, b, c, p, q]"
    using assms by (auto simp: dirent_ok_def length_Suc_conv eval_nat_numeral)
  then show ?thesis
    using assms
    by (simp add: bytes_dirent_def dirent_bytes_def dirent_ok_def word_bytes_def bytes_word_of sint_of_int)
qed

lemma table_roundtrip:
  assumes "\<forall>e \<in> set es. dirent_ok e"
  shows "bytes_table (length es) (table_bytes es) = es"
proof (rule nth_equalityI)
  fix i assume "i < length (bytes_table (length es) (table_bytes es))"
  then have i: "i < length es" by (simp add: bytes_table_def)
  have lens: "\<forall>b \<in> set (map dirent_bytes es). length b = 20" using assms by auto
  then have lens': "\<forall>b \<in> set (drop i (map dirent_bytes es)). length b = 20" by (meson in_set_dropD)
  have "take 20 (drop (20 * i) (table_bytes es)) = concat (take 1 (drop i (map dirent_bytes es)))"
    by (simp add: table_bytes_def concat_take_blocks [OF lens'] concat_drop_blocks [OF lens] mult.commute
        del: One_nat_def)
  also have "\<dots> = dirent_bytes (es ! i)"
    using i by (simp add: take_Suc_conv_app_nth [of 0, simplified] hd_drop_conv_nth take_Suc)
  finally show "bytes_table (length es) (table_bytes es) ! i = es ! i"
    using i assms by (simp add: bytes_table_def dirent_roundtrip)
qed (simp add: bytes_table_def)

lemma bytes_dirent_ok: "length bs = 20 \<Longrightarrow> dirent_ok (bytes_dirent bs)"
  by (simp add: dirent_ok_def bytes_dirent_def in_int_sint)

lemma bytes_table_ok: "20 * n \<le> length bs \<Longrightarrow> \<forall>e \<in> set (bytes_table n bs). dirent_ok e"
  by (auto simp: bytes_table_def intro!: bytes_dirent_ok)

lemma length_table_bytes: "\<forall>e \<in> set es. dirent_ok e \<Longrightarrow> length (table_bytes es) = 20 * length es"
  by (induction es) (simp_all add: table_bytes_def)

section \<open>The map a directory stands for\<close>

definition holds_key :: "byte list \<Rightarrow> dirent \<Rightarrow> bool" where
  "holds_key k e \<longleftrightarrow> inUse e \<and> key (name e) = k"

definition dir_ok :: "directory \<Rightarrow> bool" where
  "dir_ok dir \<longleftrightarrow> tableSize dir = int (length (dtable dir)) \<and> (\<forall>e \<in> set (dtable dir). dirent_ok e) \<and>
     (\<forall>i < length (dtable dir). \<forall>j < length (dtable dir). \<forall>k.
        holds_key k (dtable dir ! i) \<longrightarrow> holds_key k (dtable dir ! j) \<longrightarrow> i = j)"

definition dmap :: "directory \<Rightarrow> byte list \<rightharpoonup> int" where
  "dmap dir k = map_option sector (find (holds_key k) (dtable dir))"

lemma dmap_eq_Some:
  assumes "dir_ok dir"
  shows "dmap dir k = Some s \<longleftrightarrow>
    (\<exists>i < length (dtable dir). holds_key k (dtable dir ! i) \<and> sector (dtable dir ! i) = s)"
proof -
  have uniq: "i = j" if "i < length (dtable dir)" "j < length (dtable dir)"
      "holds_key k (dtable dir ! i)" "holds_key k (dtable dir ! j)" for i j
    using assms that by (auto simp: dir_ok_def)
  show ?thesis
  proof
    assume "dmap dir k = Some s"
    then show "\<exists>i < length (dtable dir). holds_key k (dtable dir ! i) \<and> sector (dtable dir ! i) = s"
      unfolding dmap_def by (auto simp: find_Some_iff)
  next
    assume "\<exists>i < length (dtable dir). holds_key k (dtable dir ! i) \<and> sector (dtable dir ! i) = s"
    then obtain i where i: "i < length (dtable dir)" "holds_key k (dtable dir ! i)" "sector (dtable dir ! i) = s"
      by blast
    then have "find (holds_key k) (dtable dir) \<noteq> None" by (metis find_None_iff nth_mem)
    then obtain e where e: "find (holds_key k) (dtable dir) = Some e" by blast
    then obtain j where "j < length (dtable dir)" "holds_key k (dtable dir ! j)" "e = dtable dir ! j"
      unfolding find_Some_iff by blast
    with uniq i e show "dmap dir k = Some s" unfolding dmap_def by auto
  qed
qed

lemma dmap_eq_None: "dmap dir k = None \<longleftrightarrow> (\<forall>e \<in> set (dtable dir). \<not> holds_key k e)"
  by (auto simp: dmap_def find_None_iff)

lemma holds_key_strncmp: "inUse e \<and> strncmp FileNameMaxLen (name e) nm = 0 \<longleftrightarrow> holds_key (key nm) e"
  by (simp add: holds_key_def strncmp_eq_0 key_def)

lemma FindIndex_ok:
  assumes ok: "dir_ok dir"
  shows "(Directory_FindIndex dir nm = Inr (-1) \<and> dmap dir (key nm) = None) \<or>
    (\<exists>i < length (dtable dir). Directory_FindIndex dir nm = Inr (int i) \<and> holds_key (key nm) (dtable dir ! i) \<and>
       dmap dir (key nm) = Some (sector (dtable dir ! i)))"
proof -
  have size: "tableSize dir = int (length (dtable dir))" using ok by (simp add: dir_ok_def)
  let ?p = "\<lambda>i. rbind (aget (dtable dir) i) (\<lambda>e. Inr (inUse e \<and> strncmp FileNameMaxLen (name e) nm = 0))"
  show ?thesis
  proof (rule search_cases [of 0 "tableSize dir" ?p "\<lambda>i. holds_key (key nm) (dtable dir ! nat i)"])
    fix i assume "0 \<le> i" "i < tableSize dir"
    then show "?p i = Inr (holds_key (key nm) (dtable dir ! nat i))"
      using size by (simp add: holds_key_strncmp)
  next
    fix i assume i: "search 0 (tableSize dir) ?p = Inr (Some i)" "0 \<le> i" "i < tableSize dir"
      "holds_key (key nm) (dtable dir ! nat i)"
    then have "dmap dir (key nm) = Some (sector (dtable dir ! nat i))"
      unfolding dmap_eq_Some [OF ok] using size by (intro exI [of _ "nat i"]) simp
    with i size show ?thesis
      by (intro disjI2 exI [of _ "nat i"]) (simp add: Directory_FindIndex_def)
  next
    assume m: "search 0 (tableSize dir) ?p = Inr None"
      "\<And>j. 0 \<le> j \<Longrightarrow> j < tableSize dir \<Longrightarrow> \<not> holds_key (key nm) (dtable dir ! nat j)"
    have "\<not> holds_key (key nm) e" if "e \<in> set (dtable dir)" for e
      using that m(2) [of "int j" for j] size by (auto simp: in_set_conv_nth)
    with m(1) show ?thesis by (simp add: Directory_FindIndex_def dmap_eq_None)
  qed
qed

lemma Find_dmap:
  assumes "dir_ok dir"
  shows "Directory_Find dir nm = Inr (case dmap dir (key nm) of Some s \<Rightarrow> s | None \<Rightarrow> -1)"
  using FindIndex_ok [OF assms, of nm] by (auto simp: Directory_Find_def)

text \<open>Replacing one entry.\<close>

lemma key_strncpy: "key (strncpy FileNameMaxLen dst nm) = key nm"
proof -
  define c where "c = takeWhile (\<lambda>b. b \<noteq> 0) (take 9 nm)"
  have c: "\<forall>b \<in> set c. b \<noteq> 0" "length c \<le> 9" by (auto simp: c_def dest: set_takeWhileD intro: le_trans [OF length_takeWhile_le])
  then have "take 9 (c @ replicate (9 - length c) 0 @ drop 9 dst) = c @ replicate (9 - length c) 0" by simp
  then show ?thesis
    using c by (simp add: key_def strncpy_def FileNameMaxLen_def Let_def c_def [symmetric] takeWhile_append)
qed

lemma replace_entry:
  assumes ok: "dir_ok dir" and i: "i < length (dtable dir)" and e: "dirent_ok e"
    and new: "\<And>k j. holds_key k e \<Longrightarrow> j < length (dtable dir) \<Longrightarrow> j \<noteq> i \<Longrightarrow> \<not> holds_key k (dtable dir ! j)"
  defines "dir' \<equiv> dir\<lparr>dtable := (dtable dir)[i := e]\<rparr>"
  shows "dir_ok dir'"
    "dmap dir' = (\<lambda>k. if holds_key k e then Some (sector e)
      else if holds_key k (dtable dir ! i) then None else dmap dir k)"
proof -
  have nth: "dtable dir' ! j = (if j = i then e else dtable dir ! j)" for j
    using i by (auto simp: dir'_def nth_list_update)
  have "i1 = i2" if "i1 < length (dtable dir)" "i2 < length (dtable dir)"
    "holds_key k (dtable dir' ! i1)" "holds_key k (dtable dir' ! i2)" for i1 i2 k
  proof (cases "i1 = i \<or> i2 = i")
    case True
    with that new show ?thesis unfolding nth by metis
  next
    case False
    then have "holds_key k (dtable dir ! i1)" "holds_key k (dtable dir ! i2)" using that by (simp_all add: nth)
    with that(1,2) ok show ?thesis unfolding dir_ok_def by blast
  qed
  moreover have "\<forall>x \<in> set ((dtable dir)[i := e]). dirent_ok x"
    using ok e set_update_subset_insert [of "dtable dir" i e] unfolding dir_ok_def by blast
  ultimately show ok': "dir_ok dir'"
    using ok unfolding dir_ok_def by (simp add: dir'_def)
  show "dmap dir' = (\<lambda>k. if holds_key k e then Some (sector e)
      else if holds_key k (dtable dir ! i) then None else dmap dir k)"
  proof (rule ext)
    fix k
    have uniq: "j = i" if "j < length (dtable dir)" "holds_key k (dtable dir ! j)" "holds_key k (dtable dir ! i)" for j
      using ok i that by (auto simp: dir_ok_def)
    have "dmap dir' k = Some s \<longleftrightarrow> (if holds_key k e then Some (sector e)
      else if holds_key k (dtable dir ! i) then None else dmap dir k) = Some s" for s
    proof -
      have len: "length (dtable dir') = length (dtable dir)" by (simp add: dir'_def)
      show ?thesis
      proof (cases "holds_key k e")
        case True
        then show ?thesis
          unfolding dmap_eq_Some [OF ok'] nth len using i new [OF True] by auto
      next
        case False
        show ?thesis
        proof (cases "holds_key k (dtable dir ! i)")
          case True
          then have "\<not> holds_key k (dtable dir' ! j)" if "j < length (dtable dir)" for j
            using that False uniq [of j] unfolding nth by auto
          then show ?thesis
            using True False unfolding dmap_eq_Some [OF ok'] len by auto
        next
          case not_i: False
          have hk: "holds_key k (dtable dir' ! j) \<longleftrightarrow> holds_key k (dtable dir ! j)" for j
            using False not_i unfolding nth by simp
          have sc: "sector (dtable dir' ! j) = sector (dtable dir ! j)" if "holds_key k (dtable dir ! j)" for j
            using that not_i unfolding nth by auto
          have "dmap dir' k = Some s \<longleftrightarrow> dmap dir k = Some s"
            unfolding dmap_eq_Some [OF ok'] dmap_eq_Some [OF ok] len hk by (auto simp: sc)
          with False not_i show ?thesis by simp
        qed
      qed
    qed
    then show "dmap dir' k = (if holds_key k e then Some (sector e)
      else if holds_key k (dtable dir ! i) then None else dmap dir k)"
      by (metis option.exhaust)
  qed
qed

lemma Add_dmap:
  assumes ok: "dir_ok dir" and s: "in_int s"
  shows "if dmap dir (key nm) \<noteq> None \<or> (\<forall>e \<in> set (dtable dir). inUse e)
    then Directory_Add dir nm s = Inr (False, dir)
    else \<exists>dir'. Directory_Add dir nm s = Inr (True, dir') \<and> dir_ok dir' \<and>
      length (dtable dir') = length (dtable dir) \<and> dmap dir' = (dmap dir)(key nm \<mapsto> s)"
proof (cases "dmap dir (key nm) = None")
  case False
  with FindIndex_ok [OF ok, of nm] show ?thesis by (auto simp: Directory_Add_def)
next
  case True
  then have fi: "Directory_FindIndex dir nm = Inr (-1)" using FindIndex_ok [OF ok, of nm] by auto
  have size: "tableSize dir = int (length (dtable dir))" using ok by (simp add: dir_ok_def)
  let ?p = "\<lambda>i. rbind (aget (dtable dir) i) (\<lambda>e. Inr (\<not> inUse e))"
  show ?thesis
  proof (rule search_cases [of 0 "tableSize dir" ?p "\<lambda>i. \<not> inUse (dtable dir ! nat i)"])
    fix i assume "0 \<le> i" "i < tableSize dir"
    then show "?p i = Inr (\<not> inUse (dtable dir ! nat i))" using size by simp
  next
    fix i assume i: "search 0 (tableSize dir) ?p = Inr (Some i)" "0 \<le> i" "i < tableSize dir"
      "\<not> inUse (dtable dir ! nat i)"
    let ?e = "(dtable dir ! nat i)\<lparr>inUse := True, name := strncpy FileNameMaxLen (name (dtable dir ! nat i)) nm, sector := s\<rparr>"
    have mem: "dtable dir ! nat i \<in> set (dtable dir)" using i size by simp
    have e: "dirent_ok ?e"
      using ok mem s length_takeWhile_le [of "\<lambda>b. b \<noteq> 0" "take 9 nm"]
      by (auto simp: dir_ok_def dirent_ok_def strncpy_def FileNameMaxLen_def Let_def)
    have hk: "holds_key k ?e \<longleftrightarrow> k = key nm" "\<not> holds_key k (dtable dir ! nat i)" for k
      using i(4) by (auto simp: holds_key_def key_strncpy)
    have "\<not> holds_key k (dtable dir ! j)" if "holds_key k ?e" "j < length (dtable dir)" for k j
      using True that hk by (auto simp: dmap_eq_None)
    note R = replace_entry [OF ok _ e this]
    have "Directory_Add dir nm s = Inr (True, dir\<lparr>dtable := (dtable dir)[nat i := ?e]\<rparr>)"
      using fi i size by (simp add: Directory_Add_def)
    moreover have "dmap (dir\<lparr>dtable := (dtable dir)[nat i := ?e]\<rparr>) = (dmap dir)(key nm \<mapsto> s)"
      using R(2) [of "nat i"] i size hk by (auto simp: fun_eq_iff)
    moreover have "\<not> (\<forall>e \<in> set (dtable dir). inUse e)" using mem i(4) by blast
    ultimately show ?thesis using True R(1) [of "nat i"] i size by auto
  next
    assume m: "search 0 (tableSize dir) ?p = Inr None"
      "\<And>j. 0 \<le> j \<Longrightarrow> j < tableSize dir \<Longrightarrow> \<not> \<not> inUse (dtable dir ! nat j)"
    have "\<forall>e \<in> set (dtable dir). inUse e"
      using m(2) [of "int j" for j] size by (auto simp: in_set_conv_nth)
    with m(1) fi show ?thesis by (simp add: Directory_Add_def)
  qed
qed

lemma Remove_dmap:
  assumes ok: "dir_ok dir"
  shows "if dmap dir (key nm) = None then Directory_Remove dir nm = Inr (False, dir)
    else \<exists>dir'. Directory_Remove dir nm = Inr (True, dir') \<and> dir_ok dir' \<and>
      length (dtable dir') = length (dtable dir) \<and> dmap dir' = (dmap dir)(key nm := None)"
proof (cases "dmap dir (key nm) = None")
  case True
  with FindIndex_ok [OF ok, of nm] show ?thesis by (auto simp: Directory_Remove_def)
next
  case False
  with FindIndex_ok [OF ok, of nm] obtain i where i: "i < length (dtable dir)"
      "Directory_FindIndex dir nm = Inr (int i)" "holds_key (key nm) (dtable dir ! i)" by auto
  let ?e = "(dtable dir ! i)\<lparr>inUse := False\<rparr>"
  have e: "dirent_ok ?e" using ok i by (auto simp: dir_ok_def dirent_ok_def)
  have hk: "\<not> holds_key k ?e" "holds_key k (dtable dir ! i) \<longleftrightarrow> k = key nm" for k
    using i(3) by (auto simp: holds_key_def)
  note R = replace_entry [OF ok i(1) e]
  have "Directory_Remove dir nm = Inr (True, dir\<lparr>dtable := (dtable dir)[i := ?e]\<rparr>)"
    using i by (simp add: Directory_Remove_def)
  moreover have "dmap (dir\<lparr>dtable := (dtable dir)[i := ?e]\<rparr>) = (dmap dir)(key nm := None)"
    using R(2) hk by (auto simp: fun_eq_iff)
  ultimately show ?thesis using False R(1) hk by auto
qed

section \<open>Fetching and writing back\<close>

lemma Directory_FetchFrom_ok:
  assumes d: "disk_ok d" and h: "hdr_ok (hdr f)" "numBytes (hdr f) = 20 * tableSize dir"
    and dir: "tableSize dir = int (length (dtable dir))" "\<forall>e \<in> set (dtable dir). dirent_ok e"
  shows "\<exists>d'. Directory_FetchFrom dir f d =
      Inr (dir\<lparr>dtable := bytes_table (length (dtable dir)) (fdata d (hdr f))\<rparr>, d') \<and>
    disk_ok d' \<and> sect d' = sect d \<and> fresh d' = fresh d"
proof -
  obtain d' where d': "OpenFile_ReadAt f (tableSize dir * 20) 0 d =
      Inr ((tableSize dir * 20, fdata d (hdr f)), d')" "disk_ok d'" "sect d' = sect d" "fresh d' = fresh d"
    using ReadAt_whole [OF d h(1), of "tableSize dir * 20"] h(2) by auto
  moreover have "splice_at 0 (fdata d (hdr f)) (table_bytes (dtable dir)) = fdata d (hdr f)"
    using length_fdata [OF d h(1)] h(2) dir(1) length_table_bytes [OF dir(2)]
    by (intro splice_all) (simp add: nat_mult_distrib)
  ultimately show ?thesis using dir(1) by (simp add: Directory_FetchFrom_def)
qed

lemma Directory_WriteBack_ok:
  assumes d: "disk_ok d" and h: "hdr_ok (hdr f)" "numBytes (hdr f) = 20 * tableSize dir"
    and dir: "tableSize dir = int (length (dtable dir))" "\<forall>e \<in> set (dtable dir). dirent_ok e"
  shows "\<exists>d'. Directory_WriteBack dir f d = Inr d' \<and> disk_ok d' \<and> fresh d' = fresh d \<and>
    fdata d' (hdr f) = table_bytes (dtable dir) \<and>
    (\<forall>s. 0 \<le> s \<longrightarrow> s < 1024 \<longrightarrow> s \<notin> set (data_sectors (hdr f)) \<longrightarrow> sect d' s = sect d s)"
proof -
  have len: "length (table_bytes (dtable dir)) = nat (numBytes (hdr f))"
    using length_table_bytes [OF dir(2)] h(2) dir(1) by (simp add: nat_mult_distrib)
  with WriteAt_whole [OF d h(1), of "tableSize dir * 20" "table_bytes (dtable dir)"] h(2) show ?thesis
    by (auto simp: Directory_WriteBack_def mult.commute)
qed

section \<open>Properties\<close>

text \<open>
  C27. The directory implements a map from names, cut to nine characters, to header sectors: \<^verbatim>\<open>Find\<close>
  looks a name up (-1 for none), \<^verbatim>\<open>Add\<close> refuses a name already there or a full table and otherwise
  binds it, \<^verbatim>\<open>Remove\<close> unbinds it; other names keep their sectors.
\<close>

theorem Directory_implements_map:
  assumes "dir_ok dir" "in_int s"
  shows "Directory_Find dir nm = Inr (case dmap dir (key nm) of Some s \<Rightarrow> s | None \<Rightarrow> -1) \<and>
    (if dmap dir (key nm) \<noteq> None \<or> (\<forall>e \<in> set (dtable dir). inUse e)
     then Directory_Add dir nm s = Inr (False, dir)
     else \<exists>dir'. Directory_Add dir nm s = Inr (True, dir') \<and> dir_ok dir' \<and>
       dmap dir' = (dmap dir)(key nm \<mapsto> s)) \<and>
    (if dmap dir (key nm) = None then Directory_Remove dir nm = Inr (False, dir)
     else \<exists>dir'. Directory_Remove dir nm = Inr (True, dir') \<and> dir_ok dir' \<and>
       dmap dir' = (dmap dir)(key nm := None))"
  using Find_dmap [OF assms(1), of nm] Add_dmap [OF assms, of nm] Remove_dmap [OF assms(1), of nm]
  by (auto split: if_splits)

theorem Directory_implements_map_witness:
  "\<exists>dir'. Directory_Add \<lparr>tableSize = 2, dtable =
      [\<lparr>inUse = True, sector = 9, name = [97, 0, 0, 0, 0, 0, 0, 0, 0, 0], pad = replicate 5 0\<rparr>,
       \<lparr>inUse = False, sector = 0, name = replicate 10 0, pad = replicate 5 0\<rparr>]\<rparr> [98, 99] 40 = Inr (True, dir') \<and>
    dmap dir' [97] = Some 9 \<and> dmap dir' [98, 99] = Some 40"
proof -
  let ?dir = "\<lparr>tableSize = 2, dtable =
      [\<lparr>inUse = True, sector = 9, name = [97, 0, 0, 0, 0, 0, 0, 0, 0, 0], pad = replicate 5 0\<rparr>,
       \<lparr>inUse = False, sector = 0, name = replicate 10 0, pad = replicate 5 0\<rparr>]\<rparr>"
  have "dir_ok ?dir"
    by (simp add: dir_ok_def dirent_ok_def in_int_def holds_key_def All_less_Suc)
  moreover have "dmap ?dir [98, 99] = None" "dmap ?dir [97] = Some 9" "key [98, 99] = [98, 99]"
    by (simp_all add: dmap_def holds_key_def key_def FileNameMaxLen_def)
  ultimately show ?thesis
    using Directory_implements_map [of ?dir 40 "[98, 99]"] by (auto simp: in_int_def)
qed

end
