(* ===== verification/FileSys.thy ===== *)
theory FileSys
  imports Directory
begin

text \<open>
  The disk file system (\<^verbatim>\<open>filesys/filesys.cc\<close>, the part compiled without \<^verbatim>\<open>FILESYS_STUB\<close>) and the
  persistent bitmap (\<^verbatim>\<open>filesys/pbitmap.cc\<close>).  The free map and the directory are files whose headers
  sit in sectors 0 and 1; every operation fetches both, works on them in memory and writes them
  back.

  The invariant \<open>fs_ok\<close> says that the sectors in use are exactly those of the two system files and
  of the files in the directory, each sector belonging to one of them only.  The abstract file
  system is the map \<open>files\<close> from names to contents: \<^verbatim>\<open>Create\<close>, \<^verbatim>\<open>Remove\<close> and writing through an open
  file act on it as on a map, and formatting establishes the invariant.
\<close>

section \<open>Persistent bitmaps\<close>

definition PersistentBitmap_FetchFrom :: "bitmap \<Rightarrow> openfile \<Rightarrow> disk \<Rightarrow> (bitmap \<times> disk) res" where
  "PersistentBitmap_FetchFrom b file d =
     rbind (OpenFile_ReadAt file (numWords b * 4) 0 d) (\<lambda>((_, data), d).
     Inr (b\<lparr>bmap := bytes_words (splice_at 0 data (words_bytes (bmap b)))\<rparr>, d))"

definition PersistentBitmap_WriteBack :: "bitmap \<Rightarrow> openfile \<Rightarrow> disk \<Rightarrow> disk res" where
  "PersistentBitmap_WriteBack b file d =
     rbind (OpenFile_WriteAt file (words_bytes (bmap b)) (numWords b * 4) 0 d) (\<lambda>(_, d). Inr d)"

definition PersistentBitmap_new :: "openfile \<Rightarrow> int \<Rightarrow> disk \<Rightarrow> (bitmap \<times> disk) res" where
  "PersistentBitmap_new file n d =
     rbind (Bitmap_new n) (\<lambda>b. PersistentBitmap_FetchFrom b file d)"

section \<open>The file system\<close>

definition FreeMapSector :: int where "FreeMapSector = 0"
definition DirectorySector :: int where "DirectorySector = 1"
definition FreeMapFileSize :: int where "FreeMapFileSize = NumSectors sdiv BitsInByte"
definition NumDirEntries :: int where "NumDirEntries = 20"
definition DirectoryFileSize :: int where "DirectoryFileSize = 20 * NumDirEntries"
definition MaxFile :: int where "MaxFile = 20"
definition MaxSocket :: int where "MaxSocket = 20"

record filesys =
  freeMapFile :: openfile
  directoryFile :: openfile
  openfiles :: "openfile option list"   \<comment> \<open>the field \<^verbatim>\<open>openfile\<close>\<close>
  socket :: "int list"

text \<open>The first half of the constructor: formatting the disk, or opening the two system files.\<close>

definition FileSystem_format :: "disk \<Rightarrow> ((openfile \<times> openfile) \<times> disk) res" where
  "FileSystem_format d =
     rbind (Bitmap_new NumSectors) (\<lambda>freeMap.
     let directory = Directory_new NumDirEntries d;
         mapHdr = FileHeader_new d; dirHdr = FileHeader_new d in
     rbind (Bitmap_Mark freeMap FreeMapSector) (\<lambda>freeMap.
     rbind (Bitmap_Mark freeMap DirectorySector) (\<lambda>freeMap.
     rbind (FileHeader_Allocate mapHdr freeMap FreeMapFileSize) (\<lambda>(b, mapHdr, freeMap).
     rbind (assert b) (\<lambda>_.
     rbind (FileHeader_Allocate dirHdr freeMap DirectoryFileSize) (\<lambda>(b, dirHdr, freeMap).
     rbind (assert b) (\<lambda>_.
     rbind (FileHeader_WriteBack mapHdr FreeMapSector d) (\<lambda>d.
     rbind (FileHeader_WriteBack dirHdr DirectorySector d) (\<lambda>d.
     rbind (OpenFile_new FreeMapSector d) (\<lambda>(freeMapFile, d).
     rbind (OpenFile_new DirectorySector d) (\<lambda>(directoryFile, d).
     rbind (PersistentBitmap_WriteBack freeMap freeMapFile d) (\<lambda>d.
     rbind (Directory_WriteBack directory directoryFile d) (\<lambda>d.
     Inr ((freeMapFile, directoryFile), d))))))))))))))"

definition FileSystem_attach :: "bool \<Rightarrow> disk \<Rightarrow> (filesys \<times> disk) res" where
  "FileSystem_attach format d =
     rbind (if format then FileSystem_format d
            else rbind (OpenFile_new FreeMapSector d) (\<lambda>(fm, d).
                 rbind (OpenFile_new DirectorySector d) (\<lambda>(df, d). Inr ((fm, df), d)))) (\<lambda>((fm, df), d).
     Inr (\<lparr>freeMapFile = fm, directoryFile = df, openfiles = replicate (nat MaxFile) None,
           socket = replicate (nat MaxSocket) (-1)\<rparr>, d))"

definition FileSystem_findIndexFree :: "filesys \<Rightarrow> int res" where
  "FileSystem_findIndexFree fs =
     rbind (search 2 MaxFile (\<lambda>i. rbind (aget (openfiles fs) i) (\<lambda>f. Inr (f = None)))) (\<lambda>r.
     Inr (case r of Some i \<Rightarrow> i | None \<Rightarrow> -1))"

definition FileSystem_findIndexSocketFree :: "filesys \<Rightarrow> int res" where
  "FileSystem_findIndexSocketFree fs =
     rbind (search 0 MaxSocket (\<lambda>i. rbind (aget (socket fs) i) (\<lambda>s. Inr (s = -1)))) (\<lambda>r.
     Inr (case r of Some i \<Rightarrow> i | None \<Rightarrow> -1))"

text \<open>As the code has it: the answer on success is the identifier looked for, not its index.\<close>

definition FileSystem_findIndexSocket :: "filesys \<Rightarrow> int \<Rightarrow> int res" where
  "FileSystem_findIndexSocket fs ident =
     rbind (search 0 MaxSocket (\<lambda>i. rbind (aget (socket fs) i) (\<lambda>s. Inr (s = ident)))) (\<lambda>r.
     Inr (case r of Some i \<Rightarrow> ident | None \<Rightarrow> -1))"

definition fetch_directory :: "filesys \<Rightarrow> disk \<Rightarrow> (directory \<times> disk) res" where
  "fetch_directory fs d = Directory_FetchFrom (Directory_new NumDirEntries d) (directoryFile fs) d"

definition FileSystem_Create :: "filesys \<Rightarrow> byte list \<Rightarrow> int \<Rightarrow> disk \<Rightarrow> (bool \<times> disk) res" where
  "FileSystem_Create fs nm initialSize d =
     rbind (fetch_directory fs d) (\<lambda>(directory, d).
     rbind (Directory_Find directory nm) (\<lambda>found.
     if found \<noteq> -1 then Inr (False, d)
     else
       rbind (PersistentBitmap_new (freeMapFile fs) NumSectors d) (\<lambda>(freeMap, d).
       rbind (Bitmap_FindAndSet freeMap) (\<lambda>(sector, freeMap).
       if sector = -1 then Inr (False, d)
       else
         rbind (Directory_Add directory nm sector) (\<lambda>(added, directory).
         if \<not> added then Inr (False, d)
         else
           rbind (FileHeader_Allocate (FileHeader_new d) freeMap initialSize) (\<lambda>(ok, h, freeMap).
           if \<not> ok then Inr (False, d)
           else
             rbind (FileHeader_WriteBack h sector d) (\<lambda>d.
             rbind (Directory_WriteBack directory (directoryFile fs) d) (\<lambda>d.
             rbind (PersistentBitmap_WriteBack freeMap (freeMapFile fs) d) (\<lambda>d.
             Inr (True, d))))))))))"

definition FileSystem_Open :: "filesys \<Rightarrow> byte list \<Rightarrow> disk \<Rightarrow> (openfile option \<times> disk) res" where
  "FileSystem_Open fs nm d =
     rbind (fetch_directory fs d) (\<lambda>(directory, d).
     rbind (Directory_Find directory nm) (\<lambda>sector.
     if sector \<ge> 0 then rbind (OpenFile_new sector d) (\<lambda>(f, d). Inr (Some f, d))
     else Inr (None, d)))"

text \<open>
  \<^verbatim>\<open>Open(name, t)\<close> records the file in the table; the slot may be -1.  (The constructor it calls is
  declared with two arguments and defined with three; the model takes its common effect, reading the
  header.  The mode and the name it stores are not used by this file system.)
\<close>

definition FileSystem_Open_t :: "filesys \<Rightarrow> byte list \<Rightarrow> disk \<Rightarrow> (openfile option \<times> filesys \<times> disk) res" where
  "FileSystem_Open_t fs nm d =
     rbind (FileSystem_findIndexFree fs) (\<lambda>slot.
     rbind (fetch_directory fs d) (\<lambda>(directory, d).
     rbind (Directory_Find directory nm) (\<lambda>sector.
     rbind (if sector \<ge> 0
            then rbind (OpenFile_new sector d) (\<lambda>(f, d).
                 rbind (aput (openfiles fs) slot (Some f)) (\<lambda>t. Inr (fs\<lparr>openfiles := t\<rparr>, d)))
            else Inr (fs, d)) (\<lambda>(fs, d).
     rbind (aget (openfiles fs) slot) (\<lambda>f. Inr (f, fs, d))))))"

definition FileSystem_Remove :: "filesys \<Rightarrow> byte list \<Rightarrow> disk \<Rightarrow> (bool \<times> disk) res" where
  "FileSystem_Remove fs nm d =
     rbind (fetch_directory fs d) (\<lambda>(directory, d).
     rbind (Directory_Find directory nm) (\<lambda>sector.
     if sector = -1 then Inr (False, d)
     else
       rbind (FileHeader_FetchFrom sector d) (\<lambda>(h, d).
       rbind (PersistentBitmap_new (freeMapFile fs) NumSectors d) (\<lambda>(freeMap, d).
       rbind (FileHeader_Deallocate h freeMap) (\<lambda>freeMap.
       rbind (Bitmap_Clear freeMap sector) (\<lambda>freeMap.
       rbind (Directory_Remove directory nm) (\<lambda>(_, directory).
       rbind (PersistentBitmap_WriteBack freeMap (freeMapFile fs) d) (\<lambda>d.
       rbind (Directory_WriteBack directory (directoryFile fs) d) (\<lambda>d.
       Inr (True, d))))))))))"

definition FileSystem_List :: "filesys \<Rightarrow> disk \<Rightarrow> (byte list list \<times> disk) res" where
  "FileSystem_List fs d =
     rbind (fetch_directory fs d) (\<lambda>(directory, d).
     rbind (Directory_List directory) (\<lambda>names. Inr (names, d)))"

definition FileSystem_Print :: "filesys \<Rightarrow> disk \<Rightarrow>
    (((int \<times> int list \<times> byte list list) \<times> (int \<times> int list \<times> byte list list) \<times> int list \<times>
      (byte list \<times> int \<times> (int \<times> int list \<times> byte list list)) list) \<times> disk) res" where
  "FileSystem_Print fs d =
     rbind (PersistentBitmap_new (freeMapFile fs) NumSectors d) (\<lambda>(freeMap, d).
     let directory = Directory_new NumDirEntries d in
     rbind (FileHeader_FetchFrom FreeMapSector d) (\<lambda>(bitHdr, d).
     rbind (FileHeader_Print bitHdr d) (\<lambda>(p1, d).
     rbind (FileHeader_FetchFrom DirectorySector d) (\<lambda>(dirHdr, d).
     rbind (FileHeader_Print dirHdr d) (\<lambda>(p2, d).
     rbind (Bitmap_Print freeMap) (\<lambda>p3.
     rbind (Directory_FetchFrom directory (directoryFile fs) d) (\<lambda>(directory, d).
     rbind (Directory_Print directory d) (\<lambda>(p4, d).
     Inr ((p1, p2, p3, p4), d)))))))))"

section \<open>The invariant and the abstract file system\<close>

definition bytes_bitmap :: "byte list \<Rightarrow> bitmap" where
  "bytes_bitmap bs = \<lparr>numBits = 1024, numWords = 32, bmap = bytes_words bs\<rparr>"

abbreviation map_hdr :: "filesys \<Rightarrow> filehdr" where "map_hdr fs \<equiv> hdr (freeMapFile fs)"
abbreviation dir_hdr :: "filesys \<Rightarrow> filehdr" where "dir_hdr fs \<equiv> hdr (directoryFile fs)"

definition free_map_of :: "filesys \<Rightarrow> disk \<Rightarrow> bitmap" where
  "free_map_of fs d = bytes_bitmap (fdata d (map_hdr fs))"

definition dir_of :: "filesys \<Rightarrow> disk \<Rightarrow> directory" where
  "dir_of fs d = \<lparr>tableSize = 20, dtable = bytes_table 20 (fdata d (dir_hdr fs))\<rparr>"

definition hdr_at :: "disk \<Rightarrow> int \<Rightarrow> filehdr" where
  "hdr_at d s = bytes_hdr (sect d s)"

definition owned :: "disk \<Rightarrow> int \<Rightarrow> int set" where
  "owned d s = insert s (set (data_sectors (hdr_at d s)))"

definition sys_sectors :: "filesys \<Rightarrow> int set" where
  "sys_sectors fs = {0, 1} \<union> set (data_sectors (map_hdr fs)) \<union> set (data_sectors (dir_hdr fs))"

definition file_ok :: "filesys \<Rightarrow> disk \<Rightarrow> int \<Rightarrow> bool" where
  "file_ok fs d s \<longleftrightarrow> 0 \<le> s \<and> s < 1024 \<and> hdr_ok (hdr_at d s) \<and> s \<notin> set (data_sectors (hdr_at d s)) \<and>
     owned d s \<inter> sys_sectors fs = {}"

definition sys_ok :: "filesys \<Rightarrow> disk \<Rightarrow> bool" where
  "sys_ok fs d \<longleftrightarrow> disk_ok d \<and> hdr_ok (map_hdr fs) \<and> numBytes (map_hdr fs) = 128 \<and>
     hdr_ok (dir_hdr fs) \<and> numBytes (dir_hdr fs) = 400 \<and> hdr_at d 0 = map_hdr fs \<and> hdr_at d 1 = dir_hdr fs \<and>
     {0, 1} \<inter> set (data_sectors (map_hdr fs)) = {} \<and> {0, 1} \<inter> set (data_sectors (dir_hdr fs)) = {} \<and>
     set (data_sectors (map_hdr fs)) \<inter> set (data_sectors (dir_hdr fs)) = {}"

definition fs_ok :: "filesys \<Rightarrow> disk \<Rightarrow> bool" where
  "fs_ok fs d \<longleftrightarrow> sys_ok fs d \<and> dir_ok (dir_of fs d) \<and>
     (\<forall>k s. dmap (dir_of fs d) k = Some s \<longrightarrow> file_ok fs d s) \<and>
     (\<forall>k k' s s'. dmap (dir_of fs d) k = Some s \<longrightarrow> dmap (dir_of fs d) k' = Some s' \<longrightarrow> k \<noteq> k' \<longrightarrow>
        owned d s \<inter> owned d s' = {}) \<and>
     bset (free_map_of fs d) = sys_sectors fs \<union> \<Union> (owned d ` ran (dmap (dir_of fs d)))"

definition files :: "filesys \<Rightarrow> disk \<Rightarrow> byte list \<rightharpoonup> byte list" where
  "files fs d k = map_option (\<lambda>s. fdata d (hdr_at d s)) (dmap (dir_of fs d) k)"

section \<open>What depends on which sectors\<close>

lemma fdata_frame: "(\<And>s. s \<in> set (data_sectors h) \<Longrightarrow> sect d' s = sect d s) \<Longrightarrow> fdata d' h = fdata d h"
  by (simp add: fdata_def cong: map_cong)

lemma owned_frame:
  assumes "\<And>x. x \<in> owned d s \<Longrightarrow> sect d' x = sect d x"
  shows "hdr_at d' s = hdr_at d s" "owned d' s = owned d s" "fdata d' (hdr_at d s) = fdata d (hdr_at d s)"
proof -
  show h: "hdr_at d' s = hdr_at d s" using assms [of s] by (simp add: hdr_at_def owned_def)
  then show "owned d' s = owned d s" by (simp add: owned_def)
  show "fdata d' (hdr_at d s) = fdata d (hdr_at d s)" using assms by (intro fdata_frame) (auto simp: owned_def)
qed

lemma same_sectors:
  assumes "sect d' = sect d"
  shows "fdata d' = fdata d" "hdr_at d' = hdr_at d" "owned d' = owned d" "dir_of fs d' = dir_of fs d"
    "free_map_of fs d' = free_map_of fs d" "files fs d' = files fs d"
    "disk_ok d' \<Longrightarrow> fs_ok fs d \<Longrightarrow> fs_ok fs d'" "disk_ok d' \<Longrightarrow> sys_ok fs d \<Longrightarrow> sys_ok fs d'"
proof -
  show f: "fdata d' = fdata d" by (rule ext) (simp add: fdata_def assms)
  show h: "hdr_at d' = hdr_at d" by (rule ext) (simp add: hdr_at_def assms)
  show o: "owned d' = owned d" by (rule ext) (simp add: owned_def h)
  show dir: "dir_of fs d' = dir_of fs d" by (simp add: dir_of_def f)
  show m: "free_map_of fs d' = free_map_of fs d" by (simp add: free_map_of_def f)
  show "files fs d' = files fs d" by (rule ext) (simp add: files_def f h dir)
  show sys: "sys_ok fs d'" if "disk_ok d'" "sys_ok fs d" using that by (simp add: sys_ok_def h)
  show "fs_ok fs d'" if "disk_ok d'" "fs_ok fs d"
    using that sys by (simp add: fs_ok_def file_ok_def h o dir m)
qed

section \<open>Fetching the two system files\<close>

lemma bytes_bitmap_ok: "length bs = 128 \<Longrightarrow> bitmap_ok (bytes_bitmap bs)"
  by (simp add: bytes_bitmap_def bitmap_ok_def divRoundUp_def length_bytes_words)

lemma bitmap_words:
  assumes "bitmap_ok m" "numBits m = 1024"
  shows "numWords m = 32" "length (words_bytes (bmap m)) = 128" "bytes_bitmap (words_bytes (bmap m)) = m"
proof -
  show n: "numWords m = 32" using assms by (simp add: bitmap_ok_def divRoundUp_def)
  then show "length (words_bytes (bmap m)) = 128" using assms by (simp add: bitmap_ok_def)
  show "bytes_bitmap (words_bytes (bmap m)) = m" using n assms(2) by (simp add: bytes_bitmap_def)
qed

lemma PersistentBitmap_new_ok:
  assumes "disk_ok d" "hdr_ok (hdr f)" "numBytes (hdr f) = 128"
  shows "\<exists>d'. PersistentBitmap_new f NumSectors d = Inr (bytes_bitmap (fdata d (hdr f)), d') \<and>
    disk_ok d' \<and> sect d' = sect d \<and> fresh d' = fresh d"
proof -
  obtain b where b: "Bitmap_new 1024 = Inr b" "bitmap_ok b" "numBits b = 1024"
    using Bitmap_new_ok [of 1024] by auto
  note w = bitmap_words [OF b(2,3)]
  have len: "length (fdata d (hdr f)) = 128" using length_fdata [OF assms(1,2)] assms(3) by simp
  then have "splice_at 0 (fdata d (hdr f)) (words_bytes (bmap b)) = fdata d (hdr f)"
    using w(2) by (intro splice_all) simp
  moreover have "b\<lparr>bmap := bytes_words (fdata d (hdr f))\<rparr> = bytes_bitmap (fdata d (hdr f))"
    using b(3) w(1) by (simp add: bytes_bitmap_def)
  ultimately show ?thesis
    using ReadAt_whole [OF assms(1,2), of 128] assms(3) b(1) w(1)
    by (auto simp: PersistentBitmap_new_def PersistentBitmap_FetchFrom_def geometry)
qed

lemma PersistentBitmap_WriteBack_ok:
  assumes "disk_ok d" "hdr_ok (hdr f)" "numBytes (hdr f) = 128" "bitmap_ok m" "numBits m = 1024"
  shows "\<exists>d'. PersistentBitmap_WriteBack m f d = Inr d' \<and> disk_ok d' \<and> fresh d' = fresh d \<and>
    fdata d' (hdr f) = words_bytes (bmap m) \<and>
    (\<forall>s. 0 \<le> s \<longrightarrow> s < 1024 \<longrightarrow> s \<notin> set (data_sectors (hdr f)) \<longrightarrow> sect d' s = sect d s)"
  using WriteAt_whole [OF assms(1,2), of 128 "words_bytes (bmap m)"] assms(3) bitmap_words [OF assms(4,5)]
  by (auto simp: PersistentBitmap_WriteBack_def)

lemma Directory_new_ok:
  assumes "disk_ok d"
  shows "tableSize (Directory_new 20 d) = 20" "length (dtable (Directory_new 20 d)) = 20"
    "\<forall>e \<in> set (dtable (Directory_new 20 d)). dirent_ok e" "dir_ok (Directory_new 20 d)"
    "dmap (Directory_new 20 d) = Map.empty"
proof -
  have len: "length (fresh d 400) = 400" using assms by (simp add: disk_ok_def)
  show "tableSize (Directory_new 20 d) = 20" "length (dtable (Directory_new 20 d)) = 20"
    by (simp_all add: Directory_new_def bytes_table_def)
  show 1: "\<forall>e \<in> set (dtable (Directory_new 20 d)). dirent_ok e"
    using bytes_table_ok [of 20 "fresh d 400"] len by (auto simp: Directory_new_def dirent_ok_def)
  have off: "\<not> holds_key k e" if "e \<in> set (dtable (Directory_new 20 d))" for e k
    using that by (auto simp: Directory_new_def holds_key_def)
  then show "dir_ok (Directory_new 20 d)"
    using 1 by (auto simp: dir_ok_def) (auto simp: Directory_new_def bytes_table_def)
  show "dmap (Directory_new 20 d) = Map.empty"
    using off by (auto simp: fun_eq_iff dmap_eq_None)
qed

lemma fetch_directory_ok:
  assumes "sys_ok fs d"
  shows "\<exists>d'. fetch_directory fs d = Inr (dir_of fs d, d') \<and> disk_ok d' \<and> sect d' = sect d \<and> fresh d' = fresh d"
proof -
  have d: "disk_ok d" "hdr_ok (dir_hdr fs)" "numBytes (dir_hdr fs) = 400" using assms by (auto simp: sys_ok_def)
  note N = Directory_new_ok [OF d(1)]
  have "(Directory_new 20 d)\<lparr>dtable := bytes_table 20 (fdata d (dir_hdr fs))\<rparr> = dir_of fs d"
    using N(1) by (simp add: dir_of_def)
  then show ?thesis
    using Directory_FetchFrom_ok [OF d(1,2), of "Directory_new 20 d"] d(3) N
    by (simp add: fetch_directory_def NumDirEntries_def)
qed

text \<open>Rebuilding the invariant after both system files have been rewritten.\<close>

lemma fs_ok_rebuild:
  assumes sys: "sys_ok fs d" and d': "disk_ok d'" "sect d' 0 = sect d 0" "sect d' 1 = sect d 1"
    and dir: "dir_ok dir" "tableSize dir = 20" "fdata d' (dir_hdr fs) = table_bytes (dtable dir)"
    and m: "bitmap_ok m" "numBits m = 1024" "fdata d' (map_hdr fs) = words_bytes (bmap m)"
  shows "dir_of fs d' = dir" "free_map_of fs d' = m" "sys_ok fs d'"
proof -
  have "length (dtable dir) = 20" "\<forall>e \<in> set (dtable dir). dirent_ok e" using dir(1,2) by (auto simp: dir_ok_def)
  with table_roundtrip [of "dtable dir"] dir(2,3) show "dir_of fs d' = dir" by (simp add: dir_of_def)
  show "free_map_of fs d' = m" using bitmap_words(3) [OF m(1,2)] m(3) by (simp add: free_map_of_def)
  show "sys_ok fs d'" using sys d' by (simp add: sys_ok_def hdr_at_def)
qed

lemma fresh_hdr_ok:
  assumes "disk_ok d"
  shows "length (dataSectors (FileHeader_new d)) = 30" "\<forall>s \<in> set (dataSectors (FileHeader_new d)). in_int s"
proof -
  have "length (bytes_words (fresh d 128)) = 32" using assms by (simp add: disk_ok_def length_bytes_words)
  then show "length (dataSectors (FileHeader_new d)) = 30" "\<forall>s \<in> set (dataSectors (FileHeader_new d)). in_int s"
    by (auto simp: FileHeader_new_def bytes_hdr_def SectorSize_def Let_def in_int_sint dest!: in_set_dropD)
qed

section \<open>Creating a file\<close>

lemma fs_okD:
  assumes "fs_ok fs d"
  shows "sys_ok fs d" "dir_ok (dir_of fs d)" "disk_ok d"
    "\<And>k s. dmap (dir_of fs d) k = Some s \<Longrightarrow> file_ok fs d s"
    "\<And>k k' s s'. dmap (dir_of fs d) k = Some s \<Longrightarrow> dmap (dir_of fs d) k' = Some s' \<Longrightarrow> k \<noteq> k' \<Longrightarrow>
      owned d s \<inter> owned d s' = {}"
    "bset (free_map_of fs d) = sys_sectors fs \<union> \<Union> (owned d ` ran (dmap (dir_of fs d)))"
proof -
  note A = assms [unfolded fs_ok_def]
  show sys: "sys_ok fs d" and "dir_ok (dir_of fs d)"
    and "bset (free_map_of fs d) = sys_sectors fs \<union> \<Union> (owned d ` ran (dmap (dir_of fs d)))"
    by (rule A [THEN conjunct1], rule A [THEN conjunct2, THEN conjunct1],
        rule A [THEN conjunct2, THEN conjunct2, THEN conjunct2, THEN conjunct2])
  show "disk_ok d" using sys by (simp add: sys_ok_def)
  show "\<And>k s. dmap (dir_of fs d) k = Some s \<Longrightarrow> file_ok fs d s" using A by blast
  show "\<And>k k' s s'. dmap (dir_of fs d) k = Some s \<Longrightarrow> dmap (dir_of fs d) k' = Some s' \<Longrightarrow> k \<noteq> k' \<Longrightarrow>
      owned d s \<inter> owned d s' = {}" using A by blast
qed

lemma owned_used:
  assumes "fs_ok fs d" "dmap (dir_of fs d) k = Some s"
  shows "owned d s \<subseteq> bset (free_map_of fs d)"
  using fs_okD(6) [OF assms(1)] assms(2) by (auto simp: ran_def)

lemma owned_range: "file_ok fs d s \<Longrightarrow> x \<in> owned d s \<Longrightarrow> 0 \<le> x \<and> x < 1024"
  using data_sectors_range by (auto simp: file_ok_def owned_def)

lemma sys_used: "fs_ok fs d \<Longrightarrow> sys_sectors fs \<subseteq> bset (free_map_of fs d)"
  using fs_okD(6) by blast

lemma sys_range: "sys_ok fs d \<Longrightarrow> x \<in> sys_sectors fs \<Longrightarrow> 0 \<le> x \<and> x < 1024"
  using data_sectors_range by (auto simp: sys_ok_def sys_sectors_def)

text \<open>
  The two system files are rewritten, one after the other, on a disk where only the sectors of \<open>D\<close>
  changed since the invariant held; \<open>D\<close> avoids the system sectors.
\<close>

lemma rewrite_system_files:
  assumes sys: "sys_ok fs d" and d1: "disk_ok d1"
    and same: "\<And>x. 0 \<le> x \<Longrightarrow> x < 1024 \<Longrightarrow> x \<notin> D \<Longrightarrow> sect d1 x = sect d x" and D: "D \<inter> sys_sectors fs = {}"
    and dir: "dir_ok dir" "tableSize dir = 20" and m: "bitmap_ok m" "numBits m = 1024"
  shows "\<exists>d2 d3. Directory_WriteBack dir (directoryFile fs) d1 = Inr d2 \<and>
    PersistentBitmap_WriteBack m (freeMapFile fs) d2 = Inr d3 \<and> sys_ok fs d3 \<and> dir_of fs d3 = dir \<and>
    free_map_of fs d3 = m \<and>
    (\<forall>x. 0 \<le> x \<longrightarrow> x < 1024 \<longrightarrow> x \<notin> sys_sectors fs - {0, 1} \<longrightarrow> sect d3 x = sect d1 x)"
proof -
  have h: "hdr_ok (map_hdr fs)" "numBytes (map_hdr fs) = 128" "hdr_ok (dir_hdr fs)" "numBytes (dir_hdr fs) = 400"
    and apart: "{0, 1} \<inter> set (data_sectors (map_hdr fs)) = {}" "{0, 1} \<inter> set (data_sectors (dir_hdr fs)) = {}"
      "set (data_sectors (map_hdr fs)) \<inter> set (data_sectors (dir_hdr fs)) = {}"
    using sys by (auto simp: sys_ok_def)
  have tab: "tableSize dir = int (length (dtable dir))" "\<forall>e \<in> set (dtable dir). dirent_ok e"
    using dir(1) by (auto simp: dir_ok_def)
  obtain d2 where d2: "Directory_WriteBack dir (directoryFile fs) d1 = Inr d2" "disk_ok d2"
      "fdata d2 (dir_hdr fs) = table_bytes (dtable dir)"
      "\<And>s. 0 \<le> s \<Longrightarrow> s < 1024 \<Longrightarrow> s \<notin> set (data_sectors (dir_hdr fs)) \<Longrightarrow> sect d2 s = sect d1 s"
    using Directory_WriteBack_ok [OF d1 h(3) _ tab] h(4) dir(2) by auto
  obtain d3 where d3: "PersistentBitmap_WriteBack m (freeMapFile fs) d2 = Inr d3" "disk_ok d3"
      "fdata d3 (map_hdr fs) = words_bytes (bmap m)"
      "\<And>s. 0 \<le> s \<Longrightarrow> s < 1024 \<Longrightarrow> s \<notin> set (data_sectors (map_hdr fs)) \<Longrightarrow> sect d3 s = sect d2 s"
    using PersistentBitmap_WriteBack_ok [OF d2(2) h(1,2) m] by auto
  have frame: "sect d3 x = sect d1 x" if "0 \<le> x" "x < 1024" "x \<notin> sys_sectors fs - {0, 1}" for x
  proof -
    have "x \<notin> set (data_sectors (map_hdr fs))" "x \<notin> set (data_sectors (dir_hdr fs))"
      using that(3) apart by (auto simp: sys_sectors_def)
    then show ?thesis using that(1,2) d2(4) d3(4) by simp
  qed
  have "fdata d3 (dir_hdr fs) = table_bytes (dtable dir)"
    unfolding d2(3) [symmetric] using apart(3) data_sectors_range [OF h(3)]
    by (intro fdata_frame d3(4)) auto
  moreover have "sect d3 0 = sect d 0" "sect d3 1 = sect d 1"
    using frame [of 0] frame [of 1] same [of 0] same [of 1] D by (auto simp: sys_sectors_def)
  ultimately have "dir_of fs d3 = dir" "free_map_of fs d3 = m" "sys_ok fs d3"
    using fs_ok_rebuild [OF sys d3(2) _ _ dir _ m d3(3)] by auto
  with d2(1) d3(1) frame show ?thesis by blast
qed

text \<open>Files whose sectors did not change are still there.\<close>

lemma file_frame:
  assumes "\<And>x. x \<in> owned d s \<Longrightarrow> sect d' x = sect d x" "file_ok fs d s"
  shows "file_ok fs d' s" "owned d' s = owned d s" "hdr_at d' s = hdr_at d s"
    "fdata d' (hdr_at d' s) = fdata d (hdr_at d s)"
  using owned_frame [OF assms(1)] assms(2) by (simp_all add: file_ok_def)

lemma Create_commit:
  assumes ok: "fs_ok fs d" and s: "0 \<le> s" "s < 1024" "s \<notin> bset (free_map_of fs d)"
    and h: "hdr_ok h" "set (data_sectors h) \<inter> insert s (bset (free_map_of fs d)) = {}"
    and dir: "dir_ok dir" "tableSize dir = 20" "dmap dir = (dmap (dir_of fs d))(k \<mapsto> s)"
      "dmap (dir_of fs d) k = None"
    and m: "bitmap_ok m" "numBits m = 1024"
      "bset m = insert s (bset (free_map_of fs d)) \<union> set (data_sectors h)"
  shows "\<exists>d'. rbind (FileHeader_WriteBack h s d) (\<lambda>d.
      rbind (Directory_WriteBack dir (directoryFile fs) d) (\<lambda>d.
      rbind (PersistentBitmap_WriteBack m (freeMapFile fs) d) (\<lambda>d. Inr (True, d)))) = Inr (True, d') \<and>
    fs_ok fs d' \<and> files fs d' = (files fs d)(k \<mapsto> fdata d' h)"
proof -
  note F = fs_okD [OF ok] and U = sys_used [OF ok]
  obtain d1 where d1: "FileHeader_WriteBack h s d = Inr d1" "disk_ok d1" "bytes_hdr (sect d1 s) = h"
      "\<And>j. 0 \<le> j \<Longrightarrow> j < 1024 \<Longrightarrow> j \<noteq> s \<Longrightarrow> sect d1 j = sect d j"
    using hdr_WriteBack_FetchFrom [OF F(3) h(1) s(1,2)] by auto
  have snew: "s \<notin> sys_sectors fs" using U s(3) by auto
  have "sect d1 x = sect d x" if "0 \<le> x" "x < 1024" "x \<notin> {s}" for x using d1(4) that by simp
  moreover have "{s} \<inter> sys_sectors fs = {}" using snew by simp
  ultimately obtain d2 d3 where d3: "Directory_WriteBack dir (directoryFile fs) d1 = Inr d2"
      "PersistentBitmap_WriteBack m (freeMapFile fs) d2 = Inr d3" "sys_ok fs d3" "dir_of fs d3 = dir"
      "free_map_of fs d3 = m"
      and frame: "\<And>x. 0 \<le> x \<Longrightarrow> x < 1024 \<Longrightarrow> x \<notin> sys_sectors fs \<Longrightarrow> sect d3 x = sect d1 x"
    using rewrite_system_files [OF F(1) d1(2) _ _ dir(1,2) m(1,2), of "{s}"] by blast
  have hs: "hdr_at d3 s = h" "owned d3 s = insert s (set (data_sectors h))"
    using frame [OF s(1,2) snew] d1(3) by (simp_all add: hdr_at_def owned_def)
  have old: "file_ok fs d3 t" "owned d3 t = owned d t" "fdata d3 (hdr_at d3 t) = fdata d (hdr_at d t)"
    "owned d t \<inter> owned d3 s = {}" if "dmap (dir_of fs d) k' = Some t" for k' t
  proof -
    have t: "file_ok fs d t" "owned d t \<subseteq> bset (free_map_of fs d)" using F(4) owned_used [OF ok] that by auto
    have "sect d3 x = sect d x" if "x \<in> owned d t" for x
    proof -
      have "0 \<le> x" "x < 1024" "x \<notin> sys_sectors fs" "x \<noteq> s"
        using that t owned_range [OF t(1)] s(3) by (auto simp: file_ok_def)
      then show ?thesis using frame d1(4) by simp
    qed
    from file_frame [OF this t(1)] show "file_ok fs d3 t" "owned d3 t = owned d t"
      "fdata d3 (hdr_at d3 t) = fdata d (hdr_at d t)" by auto
    show "owned d t \<inter> owned d3 s = {}" using t(2) s(3) h(2) hs(2) by auto
  qed
  have new: "file_ok fs d3 s" using s h hs U unfolding file_ok_def by auto
  have dm: "dmap (dir_of fs d3) = (dmap (dir_of fs d))(k \<mapsto> s)" using d3(4) dir(3) by simp
  have "fs_ok fs d3"
    unfolding fs_ok_def dm
  proof (intro conjI allI impI)
    show "sys_ok fs d3" "dir_ok (dir_of fs d3)" using d3 dir(1) by auto
    show "file_ok fs d3 t" if "((dmap (dir_of fs d))(k \<mapsto> s)) k' = Some t" for k' t
      using that new old(1) by (auto split: if_splits)
    show "owned d3 t \<inter> owned d3 t' = {}" if "((dmap (dir_of fs d))(k \<mapsto> s)) k1 = Some t"
        "((dmap (dir_of fs d))(k \<mapsto> s)) k2 = Some t'" "k1 \<noteq> k2" for k1 k2 t t'
      using that old(2,4) F(5) by (auto split: if_splits) blast+
    have "ran ((dmap (dir_of fs d))(k \<mapsto> s)) = insert s (ran (dmap (dir_of fs d)))"
      using dir(4) by (rule ran_map_upd)
    moreover have "owned d3 ` ran (dmap (dir_of fs d)) = owned d ` ran (dmap (dir_of fs d))"
      by (rule image_cong) (auto simp: ran_def old(2))
    ultimately show "bset (free_map_of fs d3) =
        sys_sectors fs \<union> \<Union> (owned d3 ` ran ((dmap (dir_of fs d))(k \<mapsto> s)))"
      using d3(5) m(3) F(6) hs(2) by auto
  qed
  moreover have "files fs d3 = (files fs d)(k \<mapsto> fdata d3 h)"
  proof (rule ext)
    fix k'
    show "files fs d3 k' = ((files fs d)(k \<mapsto> fdata d3 h)) k'"
      using hs(1) old(3) by (cases "dmap (dir_of fs d) k'") (auto simp: files_def dm)
  qed
  ultimately show ?thesis using d1(1) d3(1,2) by simp
qed

lemma free_map_ok:
  assumes "sys_ok fs d"
  shows "bitmap_ok (free_map_of fs d)" "numBits (free_map_of fs d) = 1024"
  using assms length_fdata [of d "map_hdr fs"]
  by (auto simp: free_map_of_def sys_ok_def intro!: bytes_bitmap_ok) (simp add: bytes_bitmap_def)

lemma dir_of_size: "tableSize (dir_of fs d) = 20" "length (dtable (dir_of fs d)) = 20"
  by (simp_all add: dir_of_def bytes_table_def)

text \<open>When \<^verbatim>\<open>Create\<close> succeeds: the name is new, the directory has room, the disk has room for header and data.\<close>

definition room_for :: "filesys \<Rightarrow> disk \<Rightarrow> byte list \<Rightarrow> int \<Rightarrow> bool" where
  "room_for fs d nm sz \<longleftrightarrow> files fs d (key nm) = None \<and> (\<exists>e \<in> set (dtable (dir_of fs d)). \<not> inUse e) \<and>
     divRoundUp sz 128 + 1 \<le> int (card ({0..<1024} - bset (free_map_of fs d)))"

lemma card_take_one:
  assumes "finite A" "s \<in> A" "s \<notin> B"
  shows "int (card (A - B)) = int (card (A - insert s B)) + 1"
proof -
  have "A - B = insert s (A - insert s B)" using assms(2,3) by auto
  then have "card (A - B) = card (insert s (A - insert s B))" by (rule arg_cong)
  also have "\<dots> = Suc (card (A - insert s B))" using assms(1) by (intro card_insert_disjoint) auto
  finally show ?thesis by (simp only: of_nat_Suc)
qed

lemma Create_ok:
  assumes ok: "fs_ok fs d" and sz: "0 \<le> sz" "sz \<le> 3840"
  shows "\<exists>b d'. FileSystem_Create fs nm sz d = Inr (b, d') \<and> fs_ok fs d' \<and> (b \<longleftrightarrow> room_for fs d nm sz) \<and>
    (if b then \<exists>c. length c = nat sz \<and> files fs d' = (files fs d)(key nm \<mapsto> c) else files fs d' = files fs d)"
proof -
  note F = fs_okD [OF ok]
  let ?k = "key nm" and ?dir = "dir_of fs d" and ?m = "free_map_of fs d"
  have fresh0: "divRoundUp sz 128 \<ge> 0" using divRoundUp_bounds(3) [OF sz(1)] by simp
  obtain d1 where d1: "fetch_directory fs d = Inr (?dir, d1)" "disk_ok d1" "sect d1 = sect d"
    using fetch_directory_ok [OF F(1)] by blast
  note S1 = same_sectors [OF d1(3)]
  have hm: "hdr_ok (map_hdr fs)" "numBytes (map_hdr fs) = 128" using F(1) by (auto simp: sys_ok_def)
  obtain d2 where d2: "PersistentBitmap_new (freeMapFile fs) NumSectors d1 = Inr (?m, d2)" "disk_ok d2" "sect d2 = sect d"
    using PersistentBitmap_new_ok [OF d1(2) hm] d1(3) S1(1) by (auto simp: free_map_of_def)
  note S2 = same_sectors [OF d2(3)]
  note m = free_map_ok [OF F(1)]
  have fail: ?thesis if "FileSystem_Create fs nm sz d = Inr (False, d')" "sect d' = sect d" "disk_ok d'"
    "\<not> room_for fs d nm sz" for d'
    using that same_sectors [OF that(2)] ok by auto
  show ?thesis
  proof (cases "dmap ?dir ?k")
    case (Some s)
    then have "0 \<le> s" using F(4) by (auto simp: file_ok_def)
    with Some d1 show ?thesis
      by (intro fail [of d1]) (auto simp: FileSystem_Create_def Find_dmap [OF F(2)] room_for_def files_def)
  next
    case None
    then have find: "Directory_Find ?dir nm = Inr (-1)" by (simp add: Find_dmap [OF F(2)])
    show ?thesis
    proof (cases "bset ?m = {0..<1024}")
      case True
      then have "Bitmap_FindAndSet ?m = Inr (-1, ?m)" using bm.find_cases [OF m(1)] m(2) by auto
      with True d1 d2 find fresh0 show ?thesis
        by (intro fail [of d2]) (auto simp: FileSystem_Create_def room_for_def)
    next
      case False
      then have ne: "{0..<numBits ?m} - bset ?m \<noteq> {}" using bset_bounds [of ?m] m(2) by auto
      obtain s m1 where g: "Bitmap_FindAndSet ?m = Inr (s, m1)" "0 \<le> s" "s < numBits ?m" "s \<notin> bset ?m"
          "\<forall>j. 0 \<le> j \<longrightarrow> j < s \<longrightarrow> j \<in> bset ?m" "bitmap_ok m1" "numBits m1 = numBits ?m" "bset m1 = insert s (bset ?m)"
        by (rule bm.find_free [OF m(1) ne])
      note f = g(1,2) g(3) [unfolded m(2)] g(4,6) g(7) [unfolded m(2)] g(8)
      have card: "int (card ({0..<1024} - bset ?m)) = int (card ({0..<1024} - bset m1)) + 1"
        unfolding f(7) using f(2-4) by (intro card_take_one) auto
      have "in_int s" using f by (simp add: in_int_def)
      note A = Add_dmap [OF F(2) this, of nm]
      show ?thesis
      proof (cases "\<forall>e \<in> set (dtable ?dir). inUse e")
        case True
        with A have "Directory_Add ?dir nm s = Inr (False, ?dir)" by simp
        with True d1 d2 find f(1,2) show ?thesis
          by (intro fail [of d2]) (auto simp: FileSystem_Create_def room_for_def)
      next
        case room: False
        with A None obtain dir where dir: "Directory_Add ?dir nm s = Inr (True, dir)" "dir_ok dir"
            "length (dtable dir) = 20" "dmap dir = (dmap ?dir)(?k \<mapsto> s)"
          by (auto simp: dir_of_size)
        have size: "tableSize dir = 20" using dir(2,3) by (simp add: dir_ok_def)
        note H = Allocate_ok [OF f(5,6) sz fresh_hdr_ok [OF d2(2)]]
        show ?thesis
        proof (cases "int (card ({0..<1024} - bset m1)) < divRoundUp sz 128")
          case True
          with H obtain h' where "FileHeader_Allocate (FileHeader_new d2) m1 sz = Inr (False, h', m1)" by auto
          with True card d1 d2 find f(1,2) dir(1) show ?thesis
            by (intro fail [of d2]) (auto simp: FileSystem_Create_def room_for_def)
        next
          case False
          with H obtain h m2 where h: "FileHeader_Allocate (FileHeader_new d2) m1 sz = Inr (True, h, m2)"
              "hdr_ok h" "numBytes h = sz" "bitmap_ok m2" "numBits m2 = 1024"
              "set (data_sectors h) \<inter> bset m1 = {}" "bset m2 = bset m1 \<union> set (data_sectors h)"
            by auto
          have ok2: "fs_ok fs d2" using S2(7) [OF d2(2) ok] .
          from Create_commit [OF ok2 f(2,3) _ h(2) _ dir(2) size _ _ h(4,5), of ?k] f(4,7) h(6,7) dir(4) None
          obtain d3 where d3: "rbind (FileHeader_WriteBack h s d2) (\<lambda>d.
              rbind (Directory_WriteBack dir (directoryFile fs) d) (\<lambda>d.
              rbind (PersistentBitmap_WriteBack m2 (freeMapFile fs) d) (\<lambda>d. Inr (True, d)))) = Inr (True, d3)"
            "fs_ok fs d3" "files fs d3 = (files fs d)(?k \<mapsto> fdata d3 h)"
            by (auto simp: S2)
          moreover have "length (fdata d3 h) = nat sz"
            using length_fdata [OF fs_okD(3) [OF d3(2)] h(2)] h(3) by simp
          moreover have "room_for fs d nm sz" using False card room None by (auto simp: room_for_def files_def)
          moreover have "FileSystem_Create fs nm sz d = Inr (True, d3)"
            using d1(1) d2(1) find f(1,2) dir(1) h(1) d3(1) by (simp add: FileSystem_Create_def)
          ultimately show ?thesis by auto
        qed
      qed
    qed
  qed
qed

section \<open>Opening, writing, removing\<close>

lemma OpenFile_new_ok:
  assumes "disk_ok d" "0 \<le> s" "s < 1024"
  shows "\<exists>d'. OpenFile_new s d = Inr (\<lparr>hdr = hdr_at d s, seekPosition = 0\<rparr>, d') \<and> disk_ok d' \<and>
    sect d' = sect d \<and> fresh d' = fresh d"
  using FetchFrom_ok [OF assms] by (auto simp: OpenFile_new_def hdr_at_def)

lemma Open_ok:
  assumes ok: "fs_ok fs d"
  shows "\<exists>r d'. FileSystem_Open fs nm d = Inr (r, d') \<and> disk_ok d' \<and> sect d' = sect d \<and>
    r = map_option (\<lambda>s. \<lparr>hdr = hdr_at d s, seekPosition = 0\<rparr>) (dmap (dir_of fs d) (key nm))"
proof -
  note F = fs_okD [OF ok]
  obtain d1 where d1: "fetch_directory fs d = Inr (dir_of fs d, d1)" "disk_ok d1" "sect d1 = sect d"
    using fetch_directory_ok [OF F(1)] by blast
  show ?thesis
  proof (cases "dmap (dir_of fs d) (key nm)")
    case None
    with d1 show ?thesis by (simp add: FileSystem_Open_def Find_dmap [OF F(2)])
  next
    case (Some s)
    then have s: "0 \<le> s" "s < 1024" using F(4) by (auto simp: file_ok_def)
    with Some d1 OpenFile_new_ok [OF d1(2) s] same_sectors(2) [OF d1(3)] show ?thesis
      by (auto simp: FileSystem_Open_def Find_dmap [OF F(2)])
  qed
qed

text \<open>Writing through an open file changes that file in the abstract file system and no other.\<close>

lemma write_file:
  assumes ok: "fs_ok fs d" and k: "dmap (dir_of fs d) k = Some s" and f: "hdr f = hdr_at d s"
    and pos: "0 \<le> pos" "pos + num < 2147483648" and src: "num \<le> int (length src)"
  defines "n \<equiv> xfer (numBytes (hdr f)) num pos"
  shows "\<exists>d'. OpenFile_WriteAt f src num pos d = Inr (n, d') \<and> fs_ok fs d' \<and>
    dir_of fs d' = dir_of fs d \<and> hdr_at d' s = hdr_at d s \<and>
    files fs d' = (files fs d)(k \<mapsto> splice_at (nat pos) (take (nat n) src) (fdata d (hdr_at d s)))"
proof -
  note F = fs_okD [OF ok]
  have s: "file_ok fs d s" using F(4) k by blast
  then have h: "hdr_ok (hdr f)" using f by (simp add: file_ok_def)
  have "n \<le> int (length src)" using src by (auto simp: n_def xfer_def)
  then obtain d' where d': "OpenFile_WriteAt f src num pos d = Inr (n, d')" "disk_ok d'"
      "fdata d' (hdr_at d s) = splice_at (nat pos) (take (nat n) src) (fdata d (hdr_at d s))"
      and frame: "\<And>x. 0 \<le> x \<Longrightarrow> x < 1024 \<Longrightarrow> x \<notin> set (data_sectors (hdr_at d s)) \<Longrightarrow> sect d' x = sect d x"
    using WriteAt_ok [OF F(3) h pos, of src] unfolding n_def f by blast
  have sysf: "sect d' x = sect d x" if "x \<in> sys_sectors fs" for x
    using that s sys_range [OF F(1) that] by (intro frame) (auto simp: file_ok_def owned_def)
  then have eqs: "fdata d' (map_hdr fs) = fdata d (map_hdr fs)" "fdata d' (dir_hdr fs) = fdata d (dir_hdr fs)"
    by (auto intro!: fdata_frame simp: sys_sectors_def)
  have hs: "hdr_at d' s = hdr_at d s"
    using frame [of s] s by (auto simp: file_ok_def hdr_at_def)
  then have os: "owned d' s = owned d s" by (simp add: owned_def)
  have other: "sect d' x = sect d x" if "dmap (dir_of fs d) k' = Some t" "k' \<noteq> k" "x \<in> owned d t" for k' t x
  proof (rule frame)
    show "0 \<le> x" "x < 1024" using that owned_range F(4) by blast+
    show "x \<notin> set (data_sectors (hdr_at d s))" using F(5) [OF that(1) k that(2)] that(3) by (auto simp: owned_def)
  qed
  have oth: "hdr_at d' t = hdr_at d t" "owned d' t = owned d t" "fdata d' (hdr_at d t) = fdata d (hdr_at d t)"
    if "dmap (dir_of fs d) k' = Some t" "k' \<noteq> k" for k' t
  proof -
    have "\<And>x. x \<in> owned d t \<Longrightarrow> sect d' x = sect d x" using other that by blast
    from owned_frame [OF this] show "hdr_at d' t = hdr_at d t" "owned d' t = owned d t"
      "fdata d' (hdr_at d t) = fdata d (hdr_at d t)" by auto
  qed
  have same: "owned d' t = owned d t" "hdr_at d' t = hdr_at d t" "file_ok fs d' t"
    if "dmap (dir_of fs d) k' = Some t" for k' t
  proof -
    have "owned d' t = owned d t \<and> hdr_at d' t = hdr_at d t"
    proof (cases "k' = k")
      case True
      with that k hs os show ?thesis by simp
    next
      case False
      with oth that show ?thesis by blast
    qed
    then show "owned d' t = owned d t" "hdr_at d' t = hdr_at d t" "file_ok fs d' t"
      using F(4) [OF that] by (simp_all add: file_ok_def)
  qed
  have dirs: "dir_of fs d' = dir_of fs d" "free_map_of fs d' = free_map_of fs d"
    using eqs by (simp_all add: dir_of_def free_map_of_def)
  have "sys_ok fs d'"
    using F(1) d'(2) sysf [of 0] sysf [of 1] by (simp add: sys_ok_def hdr_at_def sys_sectors_def)
  moreover have "owned d' ` ran (dmap (dir_of fs d)) = owned d ` ran (dmap (dir_of fs d))"
    by (rule image_cong) (auto simp: ran_def same)
  ultimately have "fs_ok fs d'"
    unfolding fs_ok_def dirs using F(2,5,6) same by (intro conjI allI impI) (auto simp: same)
  moreover have "files fs d' = (files fs d)(k \<mapsto> splice_at (nat pos) (take (nat n) src) (fdata d (hdr_at d s)))"
  proof (rule ext)
    fix k'
    show "files fs d' k' = ((files fs d)(k \<mapsto> splice_at (nat pos) (take (nat n) src) (fdata d (hdr_at d s)))) k'"
    proof (cases "k' = k")
      case True
      then show ?thesis using k hs d'(3) by (simp add: files_def dirs)
    next
      case False
      then show ?thesis
        using oth by (cases "dmap (dir_of fs d) k'") (auto simp: files_def dirs)
    qed
  qed
  ultimately show ?thesis using d'(1) dirs(1) hs by blast
qed

lemma rewrite_system_files_rev:
  assumes sys: "sys_ok fs d" and dir: "dir_ok dir" "tableSize dir = 20" and m: "bitmap_ok m" "numBits m = 1024"
  shows "\<exists>d2 d3. PersistentBitmap_WriteBack m (freeMapFile fs) d = Inr d2 \<and>
    Directory_WriteBack dir (directoryFile fs) d2 = Inr d3 \<and> sys_ok fs d3 \<and> dir_of fs d3 = dir \<and>
    free_map_of fs d3 = m \<and>
    (\<forall>x. 0 \<le> x \<longrightarrow> x < 1024 \<longrightarrow> x \<notin> sys_sectors fs \<longrightarrow> sect d3 x = sect d x)"
proof -
  have h: "hdr_ok (map_hdr fs)" "numBytes (map_hdr fs) = 128" "hdr_ok (dir_hdr fs)" "numBytes (dir_hdr fs) = 400"
    and apart: "{0, 1} \<inter> set (data_sectors (map_hdr fs)) = {}" "{0, 1} \<inter> set (data_sectors (dir_hdr fs)) = {}"
      "set (data_sectors (map_hdr fs)) \<inter> set (data_sectors (dir_hdr fs)) = {}" and d: "disk_ok d"
    using sys by (auto simp: sys_ok_def)
  have tab: "tableSize dir = int (length (dtable dir))" "\<forall>e \<in> set (dtable dir). dirent_ok e"
    using dir(1) by (auto simp: dir_ok_def)
  obtain d2 where d2: "PersistentBitmap_WriteBack m (freeMapFile fs) d = Inr d2" "disk_ok d2"
      "fdata d2 (map_hdr fs) = words_bytes (bmap m)"
      "\<And>s. 0 \<le> s \<Longrightarrow> s < 1024 \<Longrightarrow> s \<notin> set (data_sectors (map_hdr fs)) \<Longrightarrow> sect d2 s = sect d s"
    using PersistentBitmap_WriteBack_ok [OF d h(1,2) m] by auto
  obtain d3 where d3: "Directory_WriteBack dir (directoryFile fs) d2 = Inr d3" "disk_ok d3"
      "fdata d3 (dir_hdr fs) = table_bytes (dtable dir)"
      "\<And>s. 0 \<le> s \<Longrightarrow> s < 1024 \<Longrightarrow> s \<notin> set (data_sectors (dir_hdr fs)) \<Longrightarrow> sect d3 s = sect d2 s"
    using Directory_WriteBack_ok [OF d2(2) h(3) _ tab] h(4) dir(2) by auto
  have frame: "sect d3 x = sect d x" if "0 \<le> x" "x < 1024" "x \<notin> sys_sectors fs - {0, 1}" for x
  proof -
    have "x \<notin> set (data_sectors (map_hdr fs))" "x \<notin> set (data_sectors (dir_hdr fs))"
      using that(3) apart by (auto simp: sys_sectors_def)
    then show ?thesis using that(1,2) d2(4) d3(4) by simp
  qed
  have "fdata d3 (map_hdr fs) = words_bytes (bmap m)"
    unfolding d2(3) [symmetric] using apart(3) data_sectors_range [OF h(1)] by (intro fdata_frame d3(4)) auto
  moreover have "sect d3 0 = sect d 0" "sect d3 1 = sect d 1" using frame [of 0] frame [of 1] by auto
  ultimately have "dir_of fs d3 = dir" "free_map_of fs d3 = m" "sys_ok fs d3"
    using fs_ok_rebuild [OF sys d3(2) _ _ dir d3(3) m] by auto
  with d2(1) d3(1) frame show ?thesis by auto
qed

lemma Remove_commit:
  assumes ok: "fs_ok fs d" and k: "dmap (dir_of fs d) k = Some s"
    and dir: "dir_ok dir" "tableSize dir = 20" "dmap dir = (dmap (dir_of fs d))(k := None)"
    and m: "bitmap_ok m" "numBits m = 1024" "bset m = bset (free_map_of fs d) - owned d s"
  shows "\<exists>d'. rbind (PersistentBitmap_WriteBack m (freeMapFile fs) d) (\<lambda>d.
      rbind (Directory_WriteBack dir (directoryFile fs) d) (\<lambda>d. Inr (True, d))) = Inr (True, d') \<and>
    fs_ok fs d' \<and> files fs d' = (files fs d)(k := None)"
proof -
  note F = fs_okD [OF ok]
  obtain d2 d3 where d3: "PersistentBitmap_WriteBack m (freeMapFile fs) d = Inr d2"
      "Directory_WriteBack dir (directoryFile fs) d2 = Inr d3" "sys_ok fs d3" "dir_of fs d3 = dir"
      "free_map_of fs d3 = m"
      and frame: "\<And>x. 0 \<le> x \<Longrightarrow> x < 1024 \<Longrightarrow> x \<notin> sys_sectors fs \<Longrightarrow> sect d3 x = sect d x"
    using rewrite_system_files_rev [OF F(1) dir(1,2) m(1,2)] by blast
  have old: "file_ok fs d3 t" "owned d3 t = owned d t" "fdata d3 (hdr_at d3 t) = fdata d (hdr_at d t)"
    if "dmap (dir_of fs d) k' = Some t" for k' t
  proof -
    have t: "file_ok fs d t" using F(4) that by auto
    have "sect d3 x = sect d x" if "x \<in> owned d t" for x
      using that t owned_range [OF t] by (intro frame) (auto simp: file_ok_def)
    from file_frame [OF this t] show "file_ok fs d3 t" "owned d3 t = owned d t"
      "fdata d3 (hdr_at d3 t) = fdata d (hdr_at d t)" by auto
  qed
  have dm: "dmap (dir_of fs d3) = (dmap (dir_of fs d))(k := None)" using d3(4) dir(3) by simp
  have "fs_ok fs d3"
    unfolding fs_ok_def dm
  proof (intro conjI allI impI)
    show "sys_ok fs d3" "dir_ok (dir_of fs d3)" using d3 dir(1) by auto
    show "file_ok fs d3 t" if "((dmap (dir_of fs d))(k := None)) k' = Some t" for k' t
      using that old(1) by (auto split: if_splits)
    show "owned d3 t \<inter> owned d3 t' = {}" if "((dmap (dir_of fs d))(k := None)) k1 = Some t"
        "((dmap (dir_of fs d))(k := None)) k2 = Some t'" "k1 \<noteq> k2" for k1 k2 t t'
      using that old(2) F(5) by (auto split: if_splits)
    have "bset m = sys_sectors fs \<union> \<Union> (owned d ` ran ((dmap (dir_of fs d))(k := None)))"
    proof -
      have ran: "ran (dmap (dir_of fs d)) = insert s (ran ((dmap (dir_of fs d))(k := None)))"
        using k ran_map_upd [of "(dmap (dir_of fs d))(k := None)" k s] by (simp add: map_upd_triv)
      have "owned d s \<inter> sys_sectors fs = {}" using F(4) [OF k] by (simp add: file_ok_def)
      moreover have "owned d t \<inter> owned d s = {}" if "t \<in> ran ((dmap (dir_of fs d))(k := None))" for t
        using that F(5) [OF _ k] by (auto simp: ran_def split: if_splits)
      ultimately show ?thesis unfolding m(3) F(6) ran by auto
    qed
    moreover have "owned d3 ` ran ((dmap (dir_of fs d))(k := None)) = owned d ` ran ((dmap (dir_of fs d))(k := None))"
      by (rule image_cong) (auto simp: ran_def old(2) split: if_splits)
    ultimately show "bset (free_map_of fs d3) =
        sys_sectors fs \<union> \<Union> (owned d3 ` ran ((dmap (dir_of fs d))(k := None)))"
      using d3(5) by simp
  qed
  moreover have "files fs d3 = (files fs d)(k := None)"
    using old(3) by (auto simp: files_def dm fun_eq_iff) (metis (no_types, lifting) map_option_cong)
  ultimately show ?thesis using d3(1,2) by simp
qed

lemma Remove_ok:
  assumes ok: "fs_ok fs d"
  shows "\<exists>b d'. FileSystem_Remove fs nm d = Inr (b, d') \<and> fs_ok fs d' \<and>
    (b \<longleftrightarrow> files fs d (key nm) \<noteq> None) \<and> files fs d' = (files fs d)(key nm := None)"
proof -
  note F = fs_okD [OF ok]
  let ?k = "key nm" and ?dir = "dir_of fs d" and ?m = "free_map_of fs d"
  obtain d1 where d1: "fetch_directory fs d = Inr (?dir, d1)" "disk_ok d1" "sect d1 = sect d"
    using fetch_directory_ok [OF F(1)] by blast
  show ?thesis
  proof (cases "dmap ?dir ?k")
    case None
    then have "files fs d ?k = None" by (simp add: files_def)
    with None d1 same_sectors(6,7) [OF d1(3)] ok show ?thesis
      by (auto simp: FileSystem_Remove_def Find_dmap [OF F(2)] fun_upd_idem)
  next
    case (Some s)
    have s: "file_ok fs d s" using F(4) [OF Some] .
    then have sr: "0 \<le> s" "s < 1024" by (auto simp: file_ok_def)
    have find: "Directory_Find ?dir nm = Inr s" using Find_dmap [OF F(2), of nm] Some by simp
    obtain d2 where d2: "FileHeader_FetchFrom s d1 = Inr (hdr_at d s, d2)" "disk_ok d2" "sect d2 = sect d"
      using FetchFrom_ok [OF d1(2) sr] d1(3) by (auto simp: hdr_at_def)
    have hm: "hdr_ok (map_hdr fs)" "numBytes (map_hdr fs) = 128" using F(1) by (auto simp: sys_ok_def)
    obtain d3 where d3: "PersistentBitmap_new (freeMapFile fs) NumSectors d2 = Inr (?m, d3)" "disk_ok d3" "sect d3 = sect d"
      using PersistentBitmap_new_ok [OF d2(2) hm] d2(3) same_sectors(1) [OF d2(3)] by (auto simp: free_map_of_def)
    have m: "bitmap_ok ?m" "numBits ?m = 1024"
      using bytes_bitmap_ok [of "fdata d (map_hdr fs)"] length_fdata [OF F(3) hm(1)] hm(2)
      by (simp_all add: free_map_of_def bytes_bitmap_def)
    have sub: "owned d s \<subseteq> bset ?m" unfolding F(6) using Some by (auto simp: ran_def)
    obtain m1 where m1: "FileHeader_Deallocate (hdr_at d s) ?m = Inr m1" "bitmap_ok m1" "numBits m1 = 1024"
        "bset m1 = bset ?m - set (data_sectors (hdr_at d s))"
      using Deallocate_ok [OF m(1), of "hdr_at d s"] s sub m(2) by (auto simp: file_ok_def owned_def)
    obtain m2 where m2: "Bitmap_Clear m1 s = Inr m2" "bitmap_ok m2" "numBits m2 = 1024" "bset m2 = bset ?m - owned d s"
      using Bitmap_Clear_ok [OF m1(2) sr(1)] sr(2) m1(3,4) by (auto simp: owned_def)
    obtain dir where dir: "Directory_Remove ?dir nm = Inr (True, dir)" "dir_ok dir"
        "length (dtable dir) = 20" "dmap dir = (dmap ?dir)(?k := None)"
      using Remove_dmap [OF F(2), of nm] Some by (auto simp: dir_of_size)
    have size: "tableSize dir = 20" using dir(2,3) by (simp add: dir_ok_def)
    note S3 = same_sectors [OF d3(3)]
    obtain d4 where d4: "rbind (PersistentBitmap_WriteBack m2 (freeMapFile fs) d3) (\<lambda>d.
        rbind (Directory_WriteBack dir (directoryFile fs) d) (\<lambda>d. Inr (True, d))) = Inr (True, d4)"
        "fs_ok fs d4" "files fs d4 = (files fs d3)(?k := None)"
      using Remove_commit [OF S3(7) [OF d3(2) ok], of ?k s dir m2] Some dir(2,4) size m2(2-4) by (auto simp: S3)
    have "FileSystem_Remove fs nm d = Inr (True, d4)"
      using d1(1) find d2(1) d3(1) m1(1) m2(1) dir(1) d4(1) sr(1) by (simp add: FileSystem_Remove_def)
    with d4(2,3) S3(6) Some show ?thesis by (auto simp: files_def)
  qed
qed

section \<open>Formatting and attaching\<close>

lemma attach_again:
  assumes "fs_ok fs d"
  shows "\<exists>fs' d'. FileSystem_attach False d = Inr (fs', d') \<and> fs_ok fs' d' \<and> files fs' d' = files fs d"
proof -
  note F = fs_okD [OF assms]
  have h: "hdr_at d 0 = map_hdr fs" "hdr_at d 1 = dir_hdr fs" using F(1) by (auto simp: sys_ok_def)
  obtain d1 where d1: "OpenFile_new 0 d = Inr (\<lparr>hdr = map_hdr fs, seekPosition = 0\<rparr>, d1)" "disk_ok d1" "sect d1 = sect d"
    using OpenFile_new_ok [OF F(3), of 0] h by auto
  obtain d2 where d2: "OpenFile_new 1 d1 = Inr (\<lparr>hdr = dir_hdr fs, seekPosition = 0\<rparr>, d2)" "disk_ok d2" "sect d2 = sect d"
    using OpenFile_new_ok [OF d1(2), of 1] h same_sectors(2) [OF d1(3)] d1(3) by auto
  let ?fs = "\<lparr>freeMapFile = \<lparr>hdr = map_hdr fs, seekPosition = 0\<rparr>, directoryFile = \<lparr>hdr = dir_hdr fs, seekPosition = 0\<rparr>,
    openfiles = replicate (nat MaxFile) None, socket = replicate (nat MaxSocket) (-1)\<rparr>"
  note S = same_sectors [OF d2(3)]
  have eqs: "dir_of ?fs = dir_of fs" "free_map_of ?fs = free_map_of fs" "sys_sectors ?fs = sys_sectors fs"
    by (simp_all add: dir_of_def free_map_of_def sys_sectors_def fun_eq_iff)
  have "fs_ok ?fs d2" using S(7) [OF d2(2) assms] by (simp add: fs_ok_def eqs sys_ok_def file_ok_def)
  moreover have "files ?fs d2 = files fs d" unfolding S(6) [symmetric] by (simp add: files_def eqs fun_eq_iff)
  moreover have "FileSystem_attach False d = Inr (?fs, d2)"
    using d1(1) d2(1) by (simp add: FileSystem_attach_def FreeMapSector_def DirectorySector_def)
  ultimately show ?thesis by blast
qed

lemma card_free:
  assumes "A \<subseteq> {0..<n}" "0 \<le> (n::int)"
  shows "int (card ({0..<n} - A)) = n - int (card A)"
proof -
  have fin: "finite A" using assms(1) finite_subset by blast
  have "card A \<le> card {0..<n}" using assms(1) by (intro card_mono) auto
  then show ?thesis using card_Diff_subset [OF fin assms(1)] assms(2) by simp
qed

text \<open>What the constructor has in memory before it writes anything: two headers with sectors of their own.\<close>

lemma format_headers:
  assumes d: "disk_ok d"
  shows "\<exists>m0 m1 m2 m3 m4 h1 h2. Bitmap_new NumSectors = Inr m0 \<and> Bitmap_Mark m0 0 = Inr m1 \<and>
    Bitmap_Mark m1 1 = Inr m2 \<and>
    FileHeader_Allocate (FileHeader_new d) m2 FreeMapFileSize = Inr (True, h1, m3) \<and>
    FileHeader_Allocate (FileHeader_new d) m3 DirectoryFileSize = Inr (True, h2, m4) \<and>
    hdr_ok h1 \<and> numBytes h1 = 128 \<and> hdr_ok h2 \<and> numBytes h2 = 400 \<and> bitmap_ok m4 \<and> numBits m4 = 1024 \<and>
    {0, 1} \<inter> set (data_sectors h1) = {} \<and> {0, 1} \<inter> set (data_sectors h2) = {} \<and>
    set (data_sectors h1) \<inter> set (data_sectors h2) = {} \<and>
    bset m4 = {0, 1} \<union> set (data_sectors h1) \<union> set (data_sectors h2)"
proof -
  obtain m0 where m0: "Bitmap_new 1024 = Inr m0" "bitmap_ok m0" "numBits m0 = 1024" "bset m0 = {}"
    using Bitmap_new_ok [of 1024] by auto
  obtain m1 where m1: "Bitmap_Mark m0 0 = Inr m1" "bitmap_ok m1" "numBits m1 = 1024" "bset m1 = {0}"
    using Bitmap_Mark_ok [OF m0(2), of 0] m0(3,4) by auto
  obtain m2 where m2: "Bitmap_Mark m1 1 = Inr m2" "bitmap_ok m2" "numBits m2 = 1024" "bset m2 = {0, 1}"
    using Bitmap_Mark_ok [OF m1(2), of 1] m1(3,4) by auto
  note fr = fresh_hdr_ok [OF d]
  have "int (card ({0..<1024} - bset m2)) = 1022"
    unfolding m2(4) by (subst card_free) auto
  moreover have "divRoundUp 128 128 = 1" "divRoundUp 400 128 = 4" by (simp_all add: divRoundUp_def)
  ultimately obtain h1 m3 where h1: "FileHeader_Allocate (FileHeader_new d) m2 128 = Inr (True, h1, m3)" "hdr_ok h1"
      "numBytes h1 = 128" "bitmap_ok m3" "numBits m3 = 1024" "set (data_sectors h1) \<inter> bset m2 = {}"
      "bset m3 = bset m2 \<union> set (data_sectors h1)"
    using Allocate_ok [OF m2(2,3) _ _ fr, of 128] by auto
  have "length (data_sectors h1) = 1" using hdr_okD(1) [OF h1(2)] h1(2,3) \<open>divRoundUp 128 128 = 1\<close>
    by (simp add: hdr_ok_def data_sectors_def)
  then have "card (set (data_sectors h1)) \<le> 1" using card_length [of "data_sectors h1"] by simp
  moreover have "card (bset m2) \<le> 2" unfolding m2(4) by simp
  ultimately have "card (bset m3) \<le> 3" unfolding h1(7) using card_Un_le [of "bset m2" "set (data_sectors h1)"] by linarith
  then have "int (card ({0..<1024} - bset m3)) \<ge> 1021"
    using card_free [of "bset m3" 1024] bset_bounds [of m3] h1(5) by simp
  with \<open>divRoundUp 400 128 = 4\<close> obtain h2 m4 where h2: "FileHeader_Allocate (FileHeader_new d) m3 400 = Inr (True, h2, m4)"
      "hdr_ok h2" "numBytes h2 = 400" "bitmap_ok m4" "numBits m4 = 1024" "set (data_sectors h2) \<inter> bset m3 = {}"
      "bset m4 = bset m3 \<union> set (data_sectors h2)"
    using Allocate_ok [OF h1(4,5) _ _ fr, of 400] by auto
  have c: "NumSectors = 1024" "FreeMapFileSize = 128" "DirectoryFileSize = 400"
    by (simp_all add: geometry FreeMapFileSize_def DirectoryFileSize_def NumDirEntries_def BitsInByte_def)
  show ?thesis unfolding c
    using m0(1) m1(1) m2(1) h1 h2 m2(4) by (intro exI conjI) (assumption | blast)+
qed

lemma format_ok:
  assumes d: "disk_ok d"
  shows "\<exists>fs d'. FileSystem_attach True d = Inr (fs, d') \<and> fs_ok fs d' \<and> files fs d' = Map.empty"
proof -
  obtain m0 m1 m2 m3 m4 h1 h2 where m: "Bitmap_new NumSectors = Inr m0" "Bitmap_Mark m0 0 = Inr m1"
      "Bitmap_Mark m1 1 = Inr m2" "FileHeader_Allocate (FileHeader_new d) m2 FreeMapFileSize = Inr (True, h1, m3)"
      "FileHeader_Allocate (FileHeader_new d) m3 DirectoryFileSize = Inr (True, h2, m4)"
    and h: "hdr_ok h1" "numBytes h1 = 128" "hdr_ok h2" "numBytes h2 = 400" "bitmap_ok m4" "numBits m4 = 1024"
      "{0, 1} \<inter> set (data_sectors h1) = {}" "{0, 1} \<inter> set (data_sectors h2) = {}"
      "set (data_sectors h1) \<inter> set (data_sectors h2) = {}"
      "bset m4 = {0, 1} \<union> set (data_sectors h1) \<union> set (data_sectors h2)"
    using format_headers [OF d] by (elim exE conjE) (rule that)
  obtain d1 where d1: "FileHeader_WriteBack h1 0 d = Inr d1" "disk_ok d1" "hdr_at d1 0 = h1"
    using hdr_WriteBack_FetchFrom [OF d h(1), of 0] by (auto simp: hdr_at_def)
  obtain d2 where d2: "FileHeader_WriteBack h2 1 d1 = Inr d2" "disk_ok d2" "hdr_at d2 1 = h2" "hdr_at d2 0 = h1"
    using hdr_WriteBack_FetchFrom [OF d1(2) h(3), of 1] d1(3) by (auto simp: hdr_at_def)
  let ?f1 = "\<lparr>hdr = h1, seekPosition = 0\<rparr>" and ?f2 = "\<lparr>hdr = h2, seekPosition = 0\<rparr>"
  obtain d3 where d3: "OpenFile_new 0 d2 = Inr (?f1, d3)" "disk_ok d3" "sect d3 = sect d2"
    using OpenFile_new_ok [OF d2(2), of 0] d2(4) by auto
  obtain d4 where d4: "OpenFile_new 1 d3 = Inr (?f2, d4)" "disk_ok d4" "sect d4 = sect d2"
    using OpenFile_new_ok [OF d3(2), of 1] d2(3) d3(3) same_sectors(2) [OF d3(3)] by auto
  let ?fs = "\<lparr>freeMapFile = ?f1, directoryFile = ?f2,
    openfiles = replicate (nat MaxFile) None, socket = replicate (nat MaxSocket) (-1)\<rparr>"
  have sys: "sys_ok ?fs d4"
    using d4(2) h d2(3,4) same_sectors(2) [OF d4(3)] by (simp add: sys_ok_def)
  note N = Directory_new_ok [OF d]
  obtain d5 d6 where d6: "PersistentBitmap_WriteBack m4 (freeMapFile ?fs) d4 = Inr d5"
      "Directory_WriteBack (Directory_new 20 d) (directoryFile ?fs) d5 = Inr d6" "sys_ok ?fs d6"
      "dir_of ?fs d6 = Directory_new 20 d" "free_map_of ?fs d6 = m4"
    using rewrite_system_files_rev [OF sys N(4,1) h(5,6)] by blast
  have "fs_ok ?fs d6" unfolding fs_ok_def d6(4,5) using d6(3) N(4,5) h(10) by (simp add: sys_sectors_def)
  moreover have "files ?fs d6 = Map.empty" by (simp add: fun_eq_iff files_def d6(4) N(5))
  moreover have "FileSystem_format d = Inr ((?f1, ?f2), d6)"
    using m d1(1) d2(1) d3(1) d4(1) d6(1,2)
    by (simp add: FileSystem_format_def FreeMapSector_def DirectorySector_def NumDirEntries_def assert_def)
  then have "FileSystem_attach True d = Inr (?fs, d6)" by (simp add: FileSystem_attach_def)
  ultimately show ?thesis by blast
qed

section \<open>The contract of a file store\<close>

text \<open>
  What a client of a file system relies on: operations keep an invariant and act on a map from
  (cut) names to contents.  The clients' lemmas are proved from the laws alone.
\<close>

locale file_store =
  fixes inv :: "'s \<Rightarrow> bool"
    and contents :: "'s \<Rightarrow> byte list \<rightharpoonup> byte list"
    and fits :: "'s \<Rightarrow> byte list \<Rightarrow> int \<Rightarrow> bool"
    and create :: "byte list \<Rightarrow> int \<Rightarrow> 's \<Rightarrow> (bool \<times> 's) res"
    and remove :: "byte list \<Rightarrow> 's \<Rightarrow> (bool \<times> 's) res"
  assumes create_law: "inv s \<Longrightarrow> 0 \<le> sz \<Longrightarrow> sz \<le> 3840 \<Longrightarrow> \<exists>b s'. create nm sz s = Inr (b, s') \<and> inv s' \<and>
      (b \<longleftrightarrow> fits s nm sz) \<and>
      (if b then \<exists>c. length c = nat sz \<and> contents s' = (contents s)(key nm \<mapsto> c) else contents s' = contents s)"
    and remove_law: "inv s \<Longrightarrow> \<exists>b s'. remove nm s = Inr (b, s') \<and> inv s' \<and>
      (b \<longleftrightarrow> contents s (key nm) \<noteq> None) \<and> contents s' = (contents s)(key nm := None)"
    and fits_new: "fits s nm sz \<Longrightarrow> contents s (key nm) = None"
begin

lemma create_remove:
  assumes "inv s" "0 \<le> sz" "sz \<le> 3840" "fits s nm sz"
  shows "\<exists>s1 s2. create nm sz s = Inr (True, s1) \<and> remove nm s1 = Inr (True, s2) \<and> inv s2 \<and> contents s2 = contents s"
proof -
  from create_law [OF assms(1-3), of nm] assms(4) obtain s1 c where
    s1: "create nm sz s = Inr (True, s1)" "inv s1" "contents s1 = (contents s)(key nm \<mapsto> c)" by auto
  from remove_law [OF s1(2), of nm] s1(3) obtain s2 where
    s2: "remove nm s1 = Inr (True, s2)" "inv s2" "contents s2 = (contents s1)(key nm := None)" by auto
  have "contents s2 = contents s" using s2(3) s1(3) fits_new [OF assms(4)] by (auto simp: fun_eq_iff)
  with s1(1) s2(1,2) show ?thesis by blast
qed

end

interpretation st: file_store "fs_ok fs" "files fs" "room_for fs" "FileSystem_Create fs" "FileSystem_Remove fs" for fs
  by unfold_locales (blast intro: Create_ok, blast intro: Remove_ok, simp add: room_for_def)

text \<open>A client of the file system: creating, removing, and writing through a freshly opened file.\<close>

datatype fs_op = CreateOp "byte list" int | RemoveOp "byte list" | WriteOp "byte list" "byte list" int

fun fs_step :: "filesys \<Rightarrow> fs_op \<Rightarrow> disk \<Rightarrow> (int \<times> disk) res" where
  "fs_step fs (CreateOp nm sz) d = rbind (FileSystem_Create fs nm sz d) (\<lambda>(b, d). Inr (of_bool b, d))"
| "fs_step fs (RemoveOp nm) d = rbind (FileSystem_Remove fs nm d) (\<lambda>(b, d). Inr (of_bool b, d))"
| "fs_step fs (WriteOp nm src pos) d =
     rbind (FileSystem_Open fs nm d) (\<lambda>(f, d).
     case f of None \<Rightarrow> Inr (-1, d) | Some f \<Rightarrow> OpenFile_WriteAt f src (int (length src)) pos d)"

fun op_ok :: "fs_op \<Rightarrow> bool" where
  "op_ok (CreateOp nm sz) \<longleftrightarrow> 0 \<le> sz \<and> sz \<le> 3840"
| "op_ok (RemoveOp nm) \<longleftrightarrow> True"
| "op_ok (WriteOp nm src pos) \<longleftrightarrow> 0 \<le> pos \<and> pos + int (length src) < 2147483648"

lemma open_write:
  assumes ok: "fs_ok fs d" and op: "op_ok (WriteOp nm src pos)"
  shows "\<exists>n d'. fs_step fs (WriteOp nm src pos) d = Inr (n, d') \<and> fs_ok fs d' \<and>
    (case files fs d (key nm) of
       None \<Rightarrow> n = -1 \<and> files fs d' = files fs d
     | Some c \<Rightarrow> n = xfer (int (length c)) (int (length src)) pos \<and>
         files fs d' = (files fs d)(key nm \<mapsto> splice_at (nat pos) (take (nat n) src) c))"
proof -
  obtain r d1 where d1: "FileSystem_Open fs nm d = Inr (r, d1)" "disk_ok d1" "sect d1 = sect d"
      "r = map_option (\<lambda>s. \<lparr>hdr = hdr_at d s, seekPosition = 0\<rparr>) (dmap (dir_of fs d) (key nm))"
    using Open_ok [OF ok, of nm] by auto
  note S = same_sectors [OF d1(3)]
  have ok1: "fs_ok fs d1" using S(7) [OF d1(2) ok] .
  show ?thesis
  proof (cases "dmap (dir_of fs d) (key nm)")
    case None
    with d1 ok1 S(6) [of fs] show ?thesis by (simp add: files_def)
  next
    case (Some s)
    let ?f = "\<lparr>hdr = hdr_at d s, seekPosition = 0\<rparr>"
    have "file_ok fs d s" using fs_okD(4) [OF ok Some] .
    then have h: "hdr_ok (hdr_at d s)" by (simp add: file_ok_def)
    then have len: "int (length (fdata d (hdr_at d s))) = numBytes (hdr_at d s)"
      using length_fdata [OF fs_okD(3) [OF ok] h] hdr_okD(1) [OF h] by (simp add: hdr_ok_def)
    obtain d' where d': "OpenFile_WriteAt ?f src (int (length src)) pos d1 =
        Inr (xfer (numBytes (hdr_at d s)) (int (length src)) pos, d')" "fs_ok fs d'"
        "files fs d' = (files fs d)(key nm \<mapsto> splice_at (nat pos)
          (take (nat (xfer (numBytes (hdr_at d s)) (int (length src)) pos)) src) (fdata d (hdr_at d s)))"
      using write_file [OF ok1, of "key nm" s ?f pos "int (length src)" src] Some op by (auto simp: S)
    with d1(1,4) Some len show ?thesis by (simp add: files_def)
  qed
qed

lemma fs_step_ok:
  assumes "fs_ok fs d" "op_ok op"
  shows "\<exists>n d'. fs_step fs op d = Inr (n, d') \<and> fs_ok fs d'"
proof (cases op)
  case (CreateOp nm sz)
  with assms Create_ok [of fs d sz nm] show ?thesis by auto
next
  case (RemoveOp nm)
  with assms Remove_ok [of fs d nm] show ?thesis by auto
next
  case (WriteOp nm src pos)
  with assms open_write [of fs d nm src pos] show ?thesis by blast
qed

lemma fs_run_ok:
  assumes "fs_ok fs d" "\<forall>op \<in> set ops. op_ok op"
  shows "\<exists>outs d'. run (fs_step fs) ops d = Inr (outs, d') \<and> fs_ok fs d'"
  using assms
proof (induction ops arbitrary: d)
  case (Cons op ops)
  then obtain n d1 where d1: "fs_step fs op d = Inr (n, d1)" "fs_ok fs d1" using fs_step_ok [of fs d op] by auto
  with Cons.IH [OF d1(2)] Cons.prems(2) show ?case by auto
qed simp

lemma empty_room:
  assumes ok: "fs_ok fs d" and e: "files fs d = Map.empty" and sz: "0 \<le> sz" "sz \<le> 3840"
  shows "room_for fs d nm sz"
proof -
  note F = fs_okD [OF ok]
  have dm: "dmap (dir_of fs d) k = None" for k using e by (auto simp: files_def fun_eq_iff)
  have "\<not> inUse x" if "x \<in> set (dtable (dir_of fs d))" for x
    using dm [of "key (name x)"] that by (auto simp: dmap_eq_None holds_key_def)
  moreover have "set (dtable (dir_of fs d)) \<noteq> {}" using dir_of_size(2) [of fs d] by auto
  ultimately have slot: "\<exists>x \<in> set (dtable (dir_of fs d)). \<not> inUse x" by fastforce
  have h: "hdr_ok (map_hdr fs)" "hdr_ok (dir_hdr fs)" using F(1) by (auto simp: sys_ok_def)
  have le: "card (set (data_sectors x)) \<le> 30" if "hdr_ok x" for x
    using card_length [of "data_sectors x"] hdr_okD(8,4) [OF that] by simp
  have "ran (dmap (dir_of fs d)) = {}" using dm by (auto simp: ran_def)
  then have b: "bset (free_map_of fs d) = sys_sectors fs" using F(6) by simp
  have "card (sys_sectors fs) \<le> card ({0, 1} \<union> set (data_sectors (map_hdr fs))) + card (set (data_sectors (dir_hdr fs)))"
    unfolding sys_sectors_def by (rule card_Un_le)
  also have "\<dots> \<le> card {0, 1 :: int} + card (set (data_sectors (map_hdr fs))) + card (set (data_sectors (dir_hdr fs)))"
    by (rule add_right_mono) (rule card_Un_le)
  finally have "card (sys_sectors fs) \<le> 62" using le [OF h(1)] le [OF h(2)] by simp
  then have "int (card ({0..<1024} - bset (free_map_of fs d))) \<ge> 962"
    unfolding b by (subst card_free) (auto dest: sys_range [OF F(1)])
  moreover have "divRoundUp sz 128 \<le> 30"
    using divRoundUp_bounds(2) [of sz 128] sz by simp
  ultimately show ?thesis using slot e by (simp add: room_for_def)
qed

section \<open>Properties\<close>

lemma example_fs:
  "\<exists>d fs d'. Disk_new None 0 (\<lambda>n. replicate n 0) = Inr d \<and> FileSystem_attach True d = Inr (fs, d') \<and>
     disk_ok d \<and> fs_ok fs d' \<and> files fs d' = Map.empty"
proof -
  obtain d where "Disk_new None 0 (\<lambda>n. replicate n 0) = Inr d" "disk_ok d"
    using Disk_new_ok [of "\<lambda>n. replicate n 0" 0] by auto
  with format_ok [of d] show ?thesis by auto
qed

text \<open>
  C6. \<^verbatim>\<open>Create\<close> is atomic: on a sound file system it never fails an assertion; it succeeds exactly when the
  name is new, the directory has a free entry and there are free sectors for header and data; then the
  name is bound to contents of the requested length and every other file keeps its contents;
  otherwise nothing changes.  The allocation invariant holds afterwards.
\<close>

theorem FileSystem_Create_binds:
  assumes "fs_ok fs d" "0 \<le> sz" "sz \<le> MaxFileSize"
  shows "\<exists>b d'. FileSystem_Create fs nm sz d = Inr (b, d') \<and> fs_ok fs d' \<and> (b \<longleftrightarrow> room_for fs d nm sz) \<and>
    (if b then \<exists>c. length c = nat sz \<and> files fs d' = (files fs d)(key nm \<mapsto> c) else files fs d' = files fs d)"
  using st.create_law [OF assms(1,2), of nm] assms(3) by (simp add: MaxFileSize_def NumDirect_def geometry)

theorem FileSystem_Create_binds_witness:
  "\<exists>d fs d1 b d2. Disk_new None 0 (\<lambda>n. replicate n 0) = Inr d \<and> FileSystem_attach True d = Inr (fs, d1) \<and>
     FileSystem_Create fs [97] 200 d1 = Inr (b, d2) \<and> fs_ok fs d2"
proof -
  from example_fs obtain d fs d1 where d: "Disk_new None 0 (\<lambda>n. replicate n 0) = Inr d"
    "FileSystem_attach True d = Inr (fs, d1)" "fs_ok fs d1" by auto
  from FileSystem_Create_binds [OF d(3), of 200 "[97]"] d(1,2) show ?thesis
    by (auto simp: MaxFileSize_def NumDirect_def geometry)
qed

text \<open>
  C7. \<^verbatim>\<open>Remove\<close> unbinds one name: on a sound file system it answers true exactly when the file exists,
  gives its header and data sectors back to the free map (the allocation invariant holds again), and
  leaves every other file as it was.
\<close>

theorem FileSystem_Remove_unbinds:
  assumes "fs_ok fs d"
  shows "\<exists>b d'. FileSystem_Remove fs nm d = Inr (b, d') \<and> fs_ok fs d' \<and>
    (b \<longleftrightarrow> files fs d (key nm) \<noteq> None) \<and> files fs d' = (files fs d)(key nm := None)"
  by (rule st.remove_law [OF assms])

theorem FileSystem_Remove_unbinds_witness:
  "\<exists>d fs d1 d2. Disk_new None 0 (\<lambda>n. replicate n 0) = Inr d \<and> FileSystem_attach True d = Inr (fs, d1) \<and>
     FileSystem_Remove fs [97] d1 = Inr (False, d2)"
proof -
  from example_fs obtain d fs d1 where d: "Disk_new None 0 (\<lambda>n. replicate n 0) = Inr d"
    "FileSystem_attach True d = Inr (fs, d1)" "fs_ok fs d1" "files fs d1 = Map.empty" by auto
  from FileSystem_Remove_unbinds [OF d(3), of "[97]"] d show ?thesis by auto
qed

text \<open>
  Creating a file that fits and removing it again restores the abstract file system.
\<close>

theorem FileSystem_Create_Remove:
  assumes "fs_ok fs d" "0 \<le> sz" "sz \<le> MaxFileSize" "room_for fs d nm sz"
  shows "\<exists>d1 d2. FileSystem_Create fs nm sz d = Inr (True, d1) \<and> FileSystem_Remove fs nm d1 = Inr (True, d2) \<and>
    fs_ok fs d2 \<and> files fs d2 = files fs d"
  using st.create_remove [OF assms(1,2) _ assms(4)] assms(3) by (simp add: MaxFileSize_def NumDirect_def geometry)

theorem FileSystem_Create_Remove_witness:
  "\<exists>d fs d1 d2 d3. Disk_new None 0 (\<lambda>n. replicate n 0) = Inr d \<and> FileSystem_attach True d = Inr (fs, d1) \<and>
     FileSystem_Create fs [97] 3840 d1 = Inr (True, d2) \<and> FileSystem_Remove fs [97] d2 = Inr (True, d3) \<and>
     files fs d3 = Map.empty"
proof -
  from example_fs obtain d fs d1 where d: "Disk_new None 0 (\<lambda>n. replicate n 0) = Inr d"
    "FileSystem_attach True d = Inr (fs, d1)" "fs_ok fs d1" "files fs d1 = Map.empty" by auto
  from FileSystem_Create_Remove [OF d(3), of 3840 "[97]"] empty_room [OF d(3,4), of 3840] d show ?thesis
    by (auto simp: MaxFileSize_def NumDirect_def geometry)
qed

text \<open>
  C11. Files are isolated from each other: a file opened by name and written at any position has exactly
  the written bytes replaced, clipped to its length; no other file and neither the directory nor the
  free map changes, although the transfers are whole sectors.  Writing to a name that is not there
  changes nothing.
\<close>

theorem FileSystem_write_isolated:
  assumes "fs_ok fs d" "0 \<le> pos" "pos + int (length src) < 2 ^ 31"
  shows "\<exists>n d'. rbind (FileSystem_Open fs nm d) (\<lambda>(f, d).
      case f of None \<Rightarrow> Inr (-1, d) | Some f \<Rightarrow> OpenFile_WriteAt f src (int (length src)) pos d) = Inr (n, d') \<and>
    fs_ok fs d' \<and>
    (case files fs d (key nm) of
       None \<Rightarrow> n = -1 \<and> files fs d' = files fs d
     | Some c \<Rightarrow> n = (if src = [] \<or> pos \<ge> int (length c) then 0 else min (int (length src)) (int (length c) - pos)) \<and>
         files fs d' = (files fs d)(key nm \<mapsto> splice_at (nat pos) (take (nat n) src) c))"
proof -
  have "xfer (int n) (int (length src)) pos =
      (if src = [] \<or> pos \<ge> int n then 0 else min (int (length src)) (int n - pos))" for n
    by (simp add: xfer_def)
  from open_write [OF assms(1), of nm src pos, unfolded this] assms(2,3) show ?thesis by simp
qed

theorem FileSystem_write_isolated_witness:
  "\<exists>d fs d1 d2. Disk_new None 0 (\<lambda>n. replicate n 0) = Inr d \<and> FileSystem_attach True d = Inr (fs, d1) \<and>
     rbind (FileSystem_Open fs [97] d1) (\<lambda>(f, d). case f of None \<Rightarrow> Inr (-1, d)
       | Some f \<Rightarrow> OpenFile_WriteAt f [1, 2] (int (length [1, 2 :: byte])) 5 d) = Inr (-1, d2)"
proof -
  from example_fs obtain d fs d1 where d: "Disk_new None 0 (\<lambda>n. replicate n 0) = Inr d"
    "FileSystem_attach True d = Inr (fs, d1)" "fs_ok fs d1" "files fs d1 = Map.empty" by auto
  from FileSystem_write_isolated [OF d(3), of 5 "[1, 2]" "[97]"] d show ?thesis by auto
qed



text \<open>
  \<^verbatim>\<open>findIndexSocket\<close> does not find an index: when some slot holds the identifier it answers the
  identifier itself, whatever the slot, so closing through its answer clears another slot or writes
  outside the table.
\<close>

theorem findIndexSocket_answers_id:
  assumes "length (socket fs) = nat MaxSocket"
  shows "FileSystem_findIndexSocket fs ident = Inr (if ident \<in> set (socket fs) then ident else -1)"
proof -
  have len: "length (socket fs) = 20" using assms by (simp add: MaxSocket_def)
  have get: "rbind (aget (socket fs) i) (\<lambda>s. Inr (s = ident)) = Inr (socket fs ! nat i = ident)"
    if "0 \<le> i" "i < MaxSocket" for i using that len by (simp add: aget_def MaxSocket_def)
  show ?thesis
  proof (rule search_cases [of 0 MaxSocket "\<lambda>i. rbind (aget (socket fs) i) (\<lambda>s. Inr (s = ident))"
        "\<lambda>i. socket fs ! nat i = ident"])
    fix i assume "search 0 MaxSocket (\<lambda>i. rbind (aget (socket fs) i) (\<lambda>s. Inr (s = ident))) = Inr (Some i)"
      "0 \<le> i" "i < MaxSocket" "socket fs ! nat i = ident"
    then show ?thesis using len nth_mem [of "nat i" "socket fs"]
      by (auto simp: FileSystem_findIndexSocket_def MaxSocket_def)
  next
    assume a: "search 0 MaxSocket (\<lambda>i. rbind (aget (socket fs) i) (\<lambda>s. Inr (s = ident))) = Inr None"
      "\<And>j. 0 \<le> j \<Longrightarrow> j < MaxSocket \<Longrightarrow> socket fs ! nat j \<noteq> ident"
    have "ident \<notin> set (socket fs)"
      using a(2) [of "int k" for k] len by (auto simp: in_set_conv_nth MaxSocket_def)
    then show ?thesis using a(1) by (simp add: FileSystem_findIndexSocket_def)
  qed (use get in auto)
qed

theorem findIndexSocket_answers_id_witness:
  "FileSystem_findIndexSocket \<lparr>freeMapFile = \<lparr>hdr = example_hdr, seekPosition = 0\<rparr>,
     directoryFile = \<lparr>hdr = example_hdr, seekPosition = 0\<rparr>, openfiles = [], socket = (replicate 20 (-1))[0 := 33]\<rparr> 33 = Inr 33"
  by (subst findIndexSocket_answers_id) (simp_all add: MaxSocket_def eval_nat_numeral)

end
