(* ===== verification/Machine.thy ===== *)
theory Machine
  imports Bytes
begin

text \<open>
  The simulated workstation's registers, main memory and address translation
  (\<^verbatim>\<open>machine/machine.cc\<close>, \<^verbatim>\<open>machine/translate.cc\<close>).  Registers, addresses and page numbers are 32-bit
  words; memory is a list of bytes; the host is little-endian, as the simulated machine.

  A trap calls the kernel's exception handler and then returns to the simulator's loop.  Here an
  operation that may trap returns \<open>Inl e\<close> with the machine state at the call of
  \<^verbatim>\<open>ExceptionHandler(e)\<close> (\<^verbatim>\<open>RaiseException\<close> has recorded the bad address and completed the delayed
  load); the caller runs the handler.  \<open>Inr\<close> is the answer \<^verbatim>\<open>TRUE\<close> with the value.
\<close>

section \<open>State\<close>

definition PageSize :: "32 word" where "PageSize = 128"
definition NumPhysPages :: "32 word" where "NumPhysPages = 128"
definition MemorySize :: int where "MemorySize = 16384"
definition TLBSize :: int where "TLBSize = 4"

datatype ExceptionType = NoException | SyscallException | PageFaultException | ReadOnlyException
  | BusErrorException | AddressErrorException | OverflowException | IllegalInstrException | NumExceptionTypes

definition StackReg :: nat where "StackReg = 29"
definition RetAddrReg :: nat where "RetAddrReg = 31"
definition HiReg :: nat where "HiReg = 32"
definition LoReg :: nat where "LoReg = 33"
definition PCReg :: nat where "PCReg = 34"
definition NextPCReg :: nat where "NextPCReg = 35"
definition PrevPCReg :: nat where "PrevPCReg = 36"
definition LoadReg :: nat where "LoadReg = 37"
definition LoadValueReg :: nat where "LoadValueReg = 38"
definition BadVAddrReg :: nat where "BadVAddrReg = 39"
definition NumTotalRegs :: nat where "NumTotalRegs = 40"

lemmas reg_numbers = StackReg_def RetAddrReg_def HiReg_def LoReg_def PCReg_def NextPCReg_def PrevPCReg_def
  LoadReg_def LoadValueReg_def BadVAddrReg_def NumTotalRegs_def

record tentry =
  virtualPage :: "32 word"
  physicalPage :: "32 word"
  valid :: bool
  readOnly :: bool
  use :: bool
  dirty :: bool

record machine =
  registers :: "32 word list"
  mainMemory :: "byte list"
  tlb :: "tentry list option"
  pageTable :: "tentry list option"
  pageTableSize :: "32 word"
  singleStep :: bool
  runUntilTime :: int

type_synonym 'a trap = "(ExceptionType + 'a) \<times> machine"

abbreviation reg :: "machine \<Rightarrow> nat \<Rightarrow> 32 word" where
  "reg m i \<equiv> registers m ! i"

definition set_reg :: "nat \<Rightarrow> 32 word \<Rightarrow> machine \<Rightarrow> machine" where
  "set_reg i v m = m\<lparr>registers := (registers m)[i := v]\<rparr>"

section \<open>\<^verbatim>\<open>machine.cc\<close>\<close>

text \<open>The two fields the constructor leaves uninitialised are arguments.\<close>

definition CheckEndian :: "unit res" where
  "CheckEndian = assert (bytes_word 1 2 3 4 = 0x04030201)"

definition Machine_new :: "bool \<Rightarrow> 32 word \<Rightarrow> int \<Rightarrow> machine res" where
  "Machine_new debug pts rut =
     rbind CheckEndian (\<lambda>_.
     Inr \<lparr>registers = replicate NumTotalRegs 0, mainMemory = replicate (nat MemorySize) 0, tlb = None,
       pageTable = None, pageTableSize = pts, singleStep = debug, runUntilTime = rut\<rparr>)"

definition Machine_ReadRegister :: "int \<Rightarrow> machine \<Rightarrow> (32 word) res" where
  "Machine_ReadRegister num m =
     rbind (assert (num \<ge> 0 \<and> num < int NumTotalRegs)) (\<lambda>_. aget (registers m) num)"

definition Machine_WriteRegister :: "int \<Rightarrow> 32 word \<Rightarrow> machine \<Rightarrow> machine res" where
  "Machine_WriteRegister num val m =
     rbind (assert (num \<ge> 0 \<and> num < int NumTotalRegs)) (\<lambda>_.
     rbind (aput (registers m) num val) (\<lambda>rs. Inr (m\<lparr>registers := rs\<rparr>)))"

text \<open>\<^verbatim>\<open>registers[registers[LoadReg]]\<close> is written through an index the program state holds.\<close>

definition Machine_DelayedLoad :: "32 word \<Rightarrow> 32 word \<Rightarrow> machine \<Rightarrow> machine res" where
  "Machine_DelayedLoad nextReg nextValue m =
     rbind (aput (registers m) (sint (reg m LoadReg)) (reg m LoadValueReg)) (\<lambda>rs.
     Inr (m\<lparr>registers := rs[LoadReg := nextReg, LoadValueReg := nextValue, 0 := 0]\<rparr>))"

definition Machine_RaiseException :: "ExceptionType \<Rightarrow> 32 word \<Rightarrow> machine \<Rightarrow> 'a trap res" where
  "Machine_RaiseException which badVAddr m =
     rbind (Machine_DelayedLoad 0 0 (set_reg BadVAddrReg badVAddr m)) (\<lambda>m. Inr (Inl which, m))"

section \<open>\<^verbatim>\<open>translate.cc\<close>\<close>

definition WordToHost :: "32 word \<Rightarrow> 32 word" where "WordToHost w = w"
definition ShortToHost :: "16 word \<Rightarrow> 16 word" where "ShortToHost w = w"
definition WordToMachine :: "32 word \<Rightarrow> 32 word" where "WordToMachine w = WordToHost w"
definition ShortToMachine :: "16 word \<Rightarrow> 16 word" where "ShortToMachine w = ShortToHost w"

lemmas endian_simps = WordToHost_def ShortToHost_def WordToMachine_def ShortToMachine_def

text \<open>The entry used, as a reference into the page table or the TLB, or the exception.\<close>

datatype entry_ref = TableRef int | TlbRef int

definition Machine_FindEntry :: "32 word \<Rightarrow> machine \<Rightarrow> (ExceptionType + entry_ref \<times> tentry) res" where
  "Machine_FindEntry vpn m = (case tlb m of
     None \<Rightarrow>
       (case pageTable m of
          None \<Rightarrow> Inl NullDeref
        | Some pt \<Rightarrow>
            if vpn \<ge> pageTableSize m then Inr (Inl AddressErrorException)
            else rbind (aget pt (uint vpn)) (\<lambda>e.
              if \<not> valid e then Inr (Inl PageFaultException) else Inr (Inr (TableRef (uint vpn), e))))
   | Some t \<Rightarrow>
       rbind (search 0 TLBSize (\<lambda>i. rbind (aget t i) (\<lambda>e. Inr (valid e \<and> virtualPage e = vpn)))) (\<lambda>r.
       case r of
         None \<Rightarrow> Inr (Inl PageFaultException)
       | Some i \<Rightarrow> rbind (aget t i) (\<lambda>e. Inr (Inr (TlbRef i, e)))))"

fun put_entry :: "entry_ref \<Rightarrow> tentry \<Rightarrow> machine \<Rightarrow> machine" where
  "put_entry (TableRef i) e m = m\<lparr>pageTable := map_option (\<lambda>pt. pt[nat i := e]) (pageTable m)\<rparr>"
| "put_entry (TlbRef i) e m = m\<lparr>tlb := map_option (\<lambda>t. t[nat i := e]) (tlb m)\<rparr>"

definition Machine_Translate :: "32 word \<Rightarrow> int \<Rightarrow> bool \<Rightarrow> machine \<Rightarrow> (32 word) trap res" where
  "Machine_Translate virtAddr sz writing m =
     (if (sz = 4 \<and> virtAddr AND 3 \<noteq> 0) \<or> (sz = 2 \<and> virtAddr AND 1 \<noteq> 0)
      then Inr (Inl AddressErrorException, m)
      else
        rbind (assert (tlb m = None \<or> pageTable m = None)) (\<lambda>_.
        rbind (assert (tlb m \<noteq> None \<or> pageTable m \<noteq> None)) (\<lambda>_.
        let vpn = virtAddr div PageSize; offset = virtAddr mod PageSize in
        rbind (Machine_FindEntry vpn m) (\<lambda>r.
        case r of
          Inl e \<Rightarrow> Inr (Inl e, m)
        | Inr (ref, entry) \<Rightarrow>
            if readOnly entry \<and> writing then Inr (Inl ReadOnlyException, m)
            else
              let pageFrame = physicalPage entry in
              if pageFrame \<ge> NumPhysPages then Inr (Inl BusErrorException, m)
              else
                let m = put_entry ref (entry\<lparr>use := True, dirty := dirty entry \<or> writing\<rparr>) m;
                    physAddr = pageFrame * PageSize + offset in
                rbind (assert (sint physAddr \<ge> 0 \<and> sint physAddr + sz \<le> MemorySize)) (\<lambda>_.
                Inr (Inr physAddr, m))))))"

definition tbind :: "'a trap res \<Rightarrow> ('a \<Rightarrow> machine \<Rightarrow> 'b trap res) \<Rightarrow> 'b trap res" where
  "tbind p f = rbind p (\<lambda>(r, m). case r of Inl e \<Rightarrow> Inr (Inl e, m) | Inr x \<Rightarrow> f x m)"

text \<open>\<^verbatim>\<open>if (exception != NoException) { RaiseException(exception, addr); return FALSE; }\<close>\<close>

definition translated :: "32 word \<Rightarrow> (32 word) trap res \<Rightarrow> (32 word \<Rightarrow> machine \<Rightarrow> 'b trap res) \<Rightarrow> 'b trap res" where
  "translated addr p f = rbind p (\<lambda>(r, m). case r of Inl e \<Rightarrow> Machine_RaiseException e addr m | Inr pa \<Rightarrow> f pa m)"

definition load_short :: "byte list \<Rightarrow> nat \<Rightarrow> 16 word" where
  "load_short mem p = ucast (mem ! p) OR push_bit 8 (ucast (mem ! Suc p))"

definition load_word :: "byte list \<Rightarrow> nat \<Rightarrow> 32 word" where
  "load_word mem p = bytes_word (mem ! p) (mem ! (p + 1)) (mem ! (p + 2)) (mem ! (p + 3))"

definition Machine_ReadMem :: "32 word \<Rightarrow> int \<Rightarrow> machine \<Rightarrow> (32 word) trap res" where
  "Machine_ReadMem addr sz m =
     translated addr (Machine_Translate addr sz False m) (\<lambda>pa m.
     let p = unat pa; mem = mainMemory m in
     if sz = 1 then Inr (Inr (scast (mem ! p)), m)
     else if sz = 2 then Inr (Inr (ucast (ShortToHost (load_short mem p))), m)
     else if sz = 4 then Inr (Inr (WordToHost (load_word mem p)), m)
     else Inl AssertFail)"

definition Machine_WriteMem :: "32 word \<Rightarrow> int \<Rightarrow> 32 word \<Rightarrow> machine \<Rightarrow> unit trap res" where
  "Machine_WriteMem addr sz val m =
     translated addr (Machine_Translate addr sz True m) (\<lambda>pa m.
     let p = unat pa; mem = mainMemory m in
     if sz = 1 then Inr (Inr (), m\<lparr>mainMemory := mem[p := ucast (val AND 0xff)]\<rparr>)
     else if sz = 2 then
       (let s = ShortToMachine (ucast (val AND 0xffff)) in
        Inr (Inr (), m\<lparr>mainMemory := splice_at p [ucast s, ucast (drop_bit 8 s)] mem\<rparr>))
     else if sz = 4 then Inr (Inr (), m\<lparr>mainMemory := splice_at p (word_bytes (WordToMachine val)) mem\<rparr>)
     else Inl AssertFail)"

section \<open>The machine's invariant and the reference translation\<close>

definition mach_ok :: "machine \<Rightarrow> bool" where
  "mach_ok m \<longleftrightarrow> length (registers m) = 40 \<and> length (mainMemory m) = 16384 \<and> tlb m = None \<and>
     (\<exists>pt. pageTable m = Some pt \<and> unat (pageTableSize m) \<le> length pt) \<and>
     unat (reg m LoadReg) < 32 \<and> reg m 0 = 0"

text \<open>What a linear page table means, on natural numbers: which byte of memory an address names.\<close>

definition va_phys :: "machine \<Rightarrow> bool \<Rightarrow> 32 word \<Rightarrow> ExceptionType + nat" where
  "va_phys m writing va =
     (let pt = the (pageTable m); v = unat va div 128 in
      if v \<ge> unat (pageTableSize m) then Inl AddressErrorException
      else if \<not> valid (pt ! v) then Inl PageFaultException
      else if readOnly (pt ! v) \<and> writing then Inl ReadOnlyException
      else if unat (physicalPage (pt ! v)) \<ge> 128 then Inl BusErrorException
      else Inr (unat (physicalPage (pt ! v)) * 128 + unat va mod 128))"

definition access :: "machine \<Rightarrow> int \<Rightarrow> bool \<Rightarrow> 32 word \<Rightarrow> ExceptionType + nat" where
  "access m sz writing va =
     (if unat va mod nat sz \<noteq> 0 then Inl AddressErrorException else va_phys m writing va)"

text \<open>Two states that differ in the use and dirty bits only.\<close>

definition same_map :: "machine \<Rightarrow> machine \<Rightarrow> bool" where
  "same_map m m' \<longleftrightarrow> registers m' = registers m \<and> mainMemory m' = mainMemory m \<and> tlb m' = tlb m \<and>
     pageTableSize m' = pageTableSize m \<and> va_phys m' = va_phys m \<and>
     (mach_ok m \<longrightarrow> mach_ok m')"

lemma va_phys_upd [simp]: "va_phys (m\<lparr>mainMemory := x\<rparr>) = va_phys m" "va_phys (m\<lparr>registers := rs\<rparr>) = va_phys m"
  by (simp_all add: va_phys_def fun_eq_iff)

lemma same_map_refl [simp]: "same_map m m"
  by (simp add: same_map_def)

lemma mod_mask: "(va :: 32 word) AND 3 \<noteq> 0 \<longleftrightarrow> unat va mod 4 \<noteq> 0" "va AND 1 \<noteq> 0 \<longleftrightarrow> unat va mod 2 \<noteq> 0"
proof -
  have "va AND 3 = take_bit 2 va" "va AND 1 = take_bit 1 va"
    by (simp_all add: take_bit_eq_mask mask_eq_exp_minus_1)
  then have "unat (va AND 3) = unat va mod 4" "unat (va AND 1) = unat va mod 2"
    by (simp_all add: take_bit_eq_mod unat_mod)
  then show "va AND 3 \<noteq> 0 \<longleftrightarrow> unat va mod 4 \<noteq> 0" "va AND 1 \<noteq> 0 \<longleftrightarrow> unat va mod 2 \<noteq> 0"
    by (metis unat_eq_zero)+
qed

lemma page_split: "unat ((va :: 32 word) div 128) = unat va div 128" "unat (va mod 128) = unat va mod 128"
  by (simp_all add: unat_div unat_mod)

lemma sint_small:
  assumes "unat (w :: 32 word) < 2147483648"
  shows "sint w = int (unat w)"
proof -
  define n where "n = unat w"
  have "w = word_of_int (int n)" by (simp add: n_def)
  moreover have "in_int (int n)" using assms unfolding n_def [symmetric] by (simp add: in_int_def)
  ultimately show ?thesis using sint_of_int [of "int n"] unfolding n_def [symmetric] by simp
qed

lemma phys_addr:
  assumes "unat (f :: 32 word) < 128"
  shows "unat (f * 128 + va mod 128) = unat f * 128 + unat va mod 128"
    "sint (f * 128 + va mod 128) = int (unat f * 128 + unat va mod 128)"
proof -
  have lt: "unat f * 128 + unat va mod 128 < 2 ^ 31" using assms by (simp add: less_Suc_eq_le)
  then have "unat (f * 128 + va mod 128) = (unat f * 128 + unat va mod 128) mod 2 ^ 32"
    by (simp add: unat_word_ariths unat_mod mod_simps)
  with lt show u: "unat (f * 128 + va mod 128) = unat f * 128 + unat va mod 128" by simp
  show "sint (f * 128 + va mod 128) = int (unat f * 128 + unat va mod 128)"
    using sint_small [of "f * 128 + va mod 128"] lt unfolding u by simp
qed

lemma put_table_same_map:
  assumes "mach_ok m" "pageTable m = Some pt" "v < unat (pageTableSize m)" "pt ! v = e"
    "valid e' = valid e" "readOnly e' = readOnly e" "physicalPage e' = physicalPage e"
  shows "same_map m (put_entry (TableRef (int v)) e' m)"
proof -
  have le: "unat (pageTableSize m) \<le> length pt" using assms(1,2) by (simp add: mach_ok_def)
  have nth: "pt[v := e'] ! i = (if i = v then e' else pt ! i)" if "i < unat (pageTableSize m)" for i
    using that le by (simp add: nth_list_update)
  have "va_phys (put_entry (TableRef (int v)) e' m) w va = va_phys m w va" for w va
    using assms(2-) by (cases "unat va div 128 < unat (pageTableSize m)") (auto simp: va_phys_def Let_def nth)
  then show ?thesis using assms(1,2) by (simp add: same_map_def fun_eq_iff mach_ok_def)
qed

lemma access_aligned:
  assumes "sz \<in> {1, 2, 4}" "access m sz w va = Inr p"
  shows "unat va mod nat sz = 0" "p mod nat sz = 0" "p + nat sz \<le> 16384"
proof -
  show al: "unat va mod nat sz = 0" using assms(2) by (auto simp: access_def split: if_splits)
  obtain f where f: "f < 128" "p = f * 128 + unat va mod 128"
    using assms(2) by (auto simp: access_def va_phys_def Let_def not_le split: if_splits)
  obtain k where k: "128 = k * nat sz" "0 < k" using assms(1) by (elim insertE emptyE) auto
  then have "unat va mod 128 mod nat sz = 0" using al by (metis dvd_triv_right mod_mod_cancel)
  then show pm: "p mod nat sz = 0" unfolding f(2) using k(1) by (metis mod_mult_self3 mult.assoc)
  have "p < 16384" using f by (simp add: less_Suc_eq_le)
  with pm assms(1) show "p + nat sz \<le> 16384" by (elim insertE emptyE) (simp_all, presburger+)
qed

lemma Translate_access:
  assumes ok: "mach_ok m" and sz: "sz \<in> {1, 2, 4}"
  shows "\<exists>m'. Machine_Translate va sz w m = Inr (map_sum id word_of_nat (access m sz w va), m') \<and> same_map m m' \<and>
    (access m sz w va = Inr p \<longrightarrow> unat (word_of_nat p :: 32 word) = p)"
proof -
  obtain pt where pt: "tlb m = None" "pageTable m = Some pt" "unat (pageTableSize m) \<le> length pt"
    using ok by (auto simp: mach_ok_def)
  let ?v = "unat va div 128"
  have mis: "(sz = 4 \<and> va AND 3 \<noteq> 0) \<or> (sz = 2 \<and> va AND 1 \<noteq> 0) \<longleftrightarrow> unat va mod nat sz \<noteq> 0"
    using sz by (auto simp: mod_mask)
  have vpn: "va div 128 \<ge> pageTableSize m \<longleftrightarrow> ?v \<ge> unat (pageTableSize m)" "uint (va div 128) = int ?v"
    using page_split(1) [of va] by (simp_all add: word_le_nat_alt uint_nat del: of_nat_unat)
  have frame: "physicalPage e \<ge> 128 \<longleftrightarrow> unat (physicalPage e) \<ge> 128" for e :: tentry
    by (simp add: word_le_nat_alt)
  have get: "?v < unat (pageTableSize m) \<Longrightarrow> aget pt (int ?v) = Inr (pt ! ?v)" using pt(3) by simp
  show ?thesis
  proof (cases "access m sz w va")
    case (Inl e)
    then have "Machine_Translate va sz w m = Inr (Inl e, m)"
      using pt(1,2) vpn frame get by (auto simp: Machine_Translate_def mis Machine_FindEntry_def PageSize_def NumPhysPages_def
          access_def va_phys_def Let_def split: if_splits)
    with Inl show ?thesis by auto
  next
    case (Inr p')
    define e where "e = pt ! ?v"
    have e: "unat va mod nat sz = 0" "?v < unat (pageTableSize m)" "valid e" "\<not> (readOnly e \<and> w)" "unat (physicalPage e) < 128"
        "p' = unat (physicalPage e) * 128 + unat va mod 128"
      using Inr pt(2) by (auto simp: access_def va_phys_def Let_def e_def not_le split: if_splits)
    note pa = phys_addr [OF e(5), of va, folded e(6)]
    have le: "int p' + sz \<le> 16384" using access_aligned(3) [OF sz Inr] sz by auto
    let ?m' = "put_entry (TableRef (int ?v)) (e\<lparr>use := True, dirty := dirty e \<or> w\<rparr>) m"
    have "Machine_Translate va sz w m = Inr (Inr (physicalPage e * 128 + va mod 128), ?m')"
      using pt(1,2) vpn frame [of e] e pa(2) le e_def get
      by (simp add: Machine_Translate_def mis Machine_FindEntry_def PageSize_def NumPhysPages_def MemorySize_def Let_def
          del: put_entry.simps)
    moreover have "physicalPage e * 128 + va mod 128 = word_of_nat p'" unfolding pa(1) [symmetric] by simp
    moreover have "same_map m ?m'" using put_table_same_map [OF ok pt(2) e(2)] e_def by simp
    moreover have "unat (word_of_nat p' :: 32 word) = p'" using pa(1) calculation(2) by simp
    ultimately show ?thesis using Inr by auto
  qed
qed

section \<open>Registers and traps\<close>

lemma mach_ok_regs:
  assumes "mach_ok m" "length rs = 40" "rs ! 0 = 0" "unat (rs ! LoadReg) < 32"
  shows "mach_ok (m\<lparr>registers := rs\<rparr>)" "va_phys (m\<lparr>registers := rs\<rparr>) = va_phys m"
  using assms by (auto simp: mach_ok_def va_phys_def fun_eq_iff)

lemma DelayedLoad_regs:
  assumes "length (registers m) = 40" "unat (reg m LoadReg) < 32"
  shows "Machine_DelayedLoad r v m = Inr (m\<lparr>registers :=
    (registers m)[unat (reg m LoadReg) := reg m LoadValueReg, LoadReg := r, LoadValueReg := v, 0 := 0]\<rparr>)"
proof -
  have "sint (reg m LoadReg) = int (unat (reg m LoadReg))" using sint_small [of "reg m LoadReg"] assms(2) by linarith
  then show ?thesis using assms by (simp add: Machine_DelayedLoad_def del: of_nat_unat)
qed

lemma DelayedLoad_ok:
  assumes "length (registers m) = 40" "unat (reg m LoadReg) < 32" "unat r < 32"
    "mach_ok m0" "mainMemory m0 = mainMemory m" "pageTable m0 = pageTable m" "pageTableSize m0 = pageTableSize m" "tlb m0 = tlb m"
  shows "\<exists>m'. Machine_DelayedLoad r v m = Inr m' \<and> mach_ok m' \<and> mainMemory m' = mainMemory m \<and> va_phys m' = va_phys m \<and>
    pageTable m' = pageTable m \<and> pageTableSize m' = pageTableSize m \<and> registers m' =
      (registers m)[unat (reg m LoadReg) := reg m LoadValueReg, LoadReg := r, LoadValueReg := v, 0 := 0]"
  unfolding DelayedLoad_regs [OF assms(1,2)]
  using assms by (auto simp: mach_ok_def va_phys_def fun_eq_iff reg_numbers nth_list_update)

lemma RaiseException_ok:
  assumes "mach_ok m"
  shows "\<exists>m'. (Machine_RaiseException e a m :: 'a trap res) = Inr (Inl e, m') \<and> mach_ok m' \<and>
    mainMemory m' = mainMemory m \<and> va_phys m' = va_phys m \<and> pageTableSize m' = pageTableSize m \<and> reg m' BadVAddrReg = a"
proof -
  let ?m = "set_reg BadVAddrReg a m"
  have R: "length (registers ?m) = 40" "reg ?m LoadReg = reg m LoadReg" "unat (reg m LoadReg) < 32"
      "mainMemory m = mainMemory ?m" "pageTable m = pageTable ?m" "pageTableSize m = pageTableSize ?m" "tlb m = tlb ?m"
    using assms by (simp_all add: mach_ok_def set_reg_def reg_numbers)
  obtain m' where m': "Machine_DelayedLoad 0 0 ?m = Inr m'" "mach_ok m'" "mainMemory m' = mainMemory ?m" "va_phys m' = va_phys ?m" "pageTableSize m' = pageTableSize ?m"
      "registers m' = (registers ?m)[unat (reg ?m LoadReg) := reg ?m LoadValueReg, LoadReg := 0, LoadValueReg := 0, 0 := 0]"
    using DelayedLoad_ok [OF R(1) _ _ assms R(4-), of 0 0] R(2,3) by auto
  moreover have "reg m' BadVAddrReg = a"
    using assms unfolding m'(6) by (auto simp: mach_ok_def set_reg_def reg_numbers nth_list_update)
  moreover have "va_phys ?m = va_phys m" by (simp add: set_reg_def va_phys_def fun_eq_iff)
  ultimately show ?thesis by (simp add: Machine_RaiseException_def set_reg_def)
qed

section \<open>Reading and writing memory\<close>

definition load_val :: "byte list \<Rightarrow> int \<Rightarrow> nat \<Rightarrow> 32 word" where
  "load_val mem sz p =
     (if sz = 1 then scast (mem ! p) else if sz = 2 then ucast (load_short mem p) else load_word mem p)"

definition store_val :: "byte list \<Rightarrow> int \<Rightarrow> nat \<Rightarrow> 32 word \<Rightarrow> byte list" where
  "store_val mem sz p v = splice_at p (take (nat sz) (word_bytes v)) mem"

text \<open>What is left of a word after a store of \<open>sz\<close> bytes and the load that reads it back.\<close>

definition narrow :: "int \<Rightarrow> 32 word \<Rightarrow> 32 word" where
  "narrow sz v = (if sz = 1 then scast (ucast v :: 8 word) else if sz = 2 then ucast (ucast v :: 16 word) else v)"

lemma low_bytes:
  "(ucast ((v :: 32 word) AND 0xff) :: 8 word) = ucast v" "(ucast (v AND 0xffff) :: 16 word) = ucast v"
  "(ucast (ucast v :: 16 word) :: 8 word) = ucast v" "(ucast (drop_bit 8 (ucast v :: 16 word)) :: 8 word) = ucast (drop_bit 8 v)"
proof -
  have m: "(0xff :: 32 word) = mask 8" "(0xffff :: 32 word) = mask 16" by (simp_all add: mask_eq_exp_minus_1)
  show "(ucast (v AND 0xff) :: 8 word) = ucast v" "(ucast (v AND 0xffff) :: 16 word) = ucast v"
    "(ucast (ucast v :: 16 word) :: 8 word) = ucast v" "(ucast (drop_bit 8 (ucast v :: 16 word)) :: 8 word) = ucast (drop_bit 8 v)"
    unfolding m by (rule bit_word_eqI; simp add: bit_simps; fail)+
qed

lemma WriteMem_ok:
  assumes ok: "mach_ok m" and sz: "sz \<in> {1, 2, 4}"
  shows "case access m sz True va of
      Inl e \<Rightarrow> \<exists>m'. Machine_WriteMem va sz v m = Inr (Inl e, m') \<and> mach_ok m' \<and> mainMemory m' = mainMemory m \<and>
        va_phys m' = va_phys m \<and> pageTableSize m' = pageTableSize m \<and> reg m' BadVAddrReg = va
    | Inr p \<Rightarrow> \<exists>m'. Machine_WriteMem va sz v m = Inr (Inr (), m') \<and> mach_ok m' \<and> registers m' = registers m \<and>
        mainMemory m' = store_val (mainMemory m) sz p v \<and> va_phys m' = va_phys m \<and> pageTableSize m' = pageTableSize m"
proof (cases "access m sz True va")
  case (Inl e)
  with Translate_access [OF ok sz, of va True] obtain m1 where m1: "Machine_Translate va sz True m = Inr (Inl e, m1)" "same_map m m1"
    by auto
  then have "mach_ok m1" using ok by (simp add: same_map_def)
  with m1 Inl RaiseException_ok [of m1 e va] show ?thesis
    by (auto simp: Machine_WriteMem_def translated_def same_map_def)
next
  case (Inr p)
  with Translate_access [OF ok sz, of va True p] obtain m1 where
    m1: "Machine_Translate va sz True m = Inr (Inr (word_of_nat p), m1)" "same_map m m1" "unat (word_of_nat p :: 32 word) = p"
    by auto
  have p: "p + nat sz \<le> length (mainMemory m)" using access_aligned(3) [OF sz Inr] ok by (simp add: mach_ok_def)
  then have "(mainMemory m)[p := ucast v] = splice_at p [ucast v] (mainMemory m)" if "sz = 1"
    using that by (simp add: splice_at_def upd_conv_take_nth_drop)
  then have "Machine_WriteMem va sz v m = Inr (Inr (), m1\<lparr>mainMemory := store_val (mainMemory m) sz p v\<rparr>)"
    using m1 sz by (auto simp: Machine_WriteMem_def translated_def same_map_def store_val_def Let_def word_bytes_def
        low_bytes endian_simps)
  moreover have "mach_ok (m1\<lparr>mainMemory := store_val (mainMemory m) sz p v\<rparr>)"
    using m1(2) ok p sz by (auto simp: same_map_def mach_ok_def store_val_def)
  moreover have "va_phys (m1\<lparr>mainMemory := store_val (mainMemory m) sz p v\<rparr>) = va_phys m"
    using m1(2) by (simp add: same_map_def)
  ultimately show ?thesis using Inr m1(2) by (simp add: same_map_def)
qed

lemma ReadMem_ok:
  assumes ok: "mach_ok m" and sz: "sz \<in> {1, 2, 4}"
  shows "case access m sz False va of
      Inl e \<Rightarrow> \<exists>m'. Machine_ReadMem va sz m = Inr (Inl e, m') \<and> mach_ok m' \<and> mainMemory m' = mainMemory m \<and>
        va_phys m' = va_phys m \<and> pageTableSize m' = pageTableSize m \<and> reg m' BadVAddrReg = va
    | Inr p \<Rightarrow> \<exists>m'. Machine_ReadMem va sz m = Inr (Inr (load_val (mainMemory m) sz p), m') \<and> same_map m m'"
proof (cases "access m sz False va")
  case (Inl e)
  with Translate_access [OF ok sz, of va False] obtain m1 where m1: "Machine_Translate va sz False m = Inr (Inl e, m1)" "same_map m m1"
    by auto
  then have "mach_ok m1" using ok by (simp add: same_map_def)
  with m1 Inl RaiseException_ok [of m1 e va] show ?thesis
    by (auto simp: Machine_ReadMem_def translated_def same_map_def)
next
  case (Inr p)
  with Translate_access [OF ok sz, of va False p] obtain m1 where
    m1: "Machine_Translate va sz False m = Inr (Inr (word_of_nat p), m1)" "same_map m m1" "unat (word_of_nat p :: 32 word) = p"
    by auto
  then show ?thesis using Inr sz
    by (auto simp: Machine_ReadMem_def translated_def load_val_def same_map_def endian_simps Let_def)
qed

lemma load_store:
  assumes "sz \<in> {1, 2, 4}" "p + nat sz \<le> length mem"
  shows "load_val (store_val mem sz p v) sz p = narrow sz v"
proof -
  have nth: "store_val mem sz p v ! (p + i) = word_bytes v ! i" if "i < nat sz" for i
    using that assms by (auto simp: store_val_def nth_splice_at)
  have w16: "ucast (ucast v :: 8 word) OR push_bit 8 (ucast (ucast (drop_bit 8 v) :: 8 word)) = (ucast v :: 16 word)"
    by (rule bit_word_eqI) (auto simp: bit_simps)
  from assms(1) consider "sz = 1" | "sz = 2" | "sz = 4" by auto
  then show ?thesis
  proof cases
    case 1
    with nth [of 0] show ?thesis by (simp add: load_val_def narrow_def word_bytes_def)
  next
    case 2
    with nth [of 0] nth [of 1] w16 show ?thesis by (simp add: load_val_def load_short_def narrow_def word_bytes_def)
  next
    case 3
    with nth [of 0] nth [of 1] nth [of 2] nth [of 3] bytes_word_of [of v] show ?thesis
      by (simp add: load_val_def load_word_def narrow_def word_bytes_def)
  qed
qed

lemma store_other:
  assumes "sz \<in> {1, 2, 4}" "p + nat sz \<le> length mem" "q < length mem" "q < p \<or> p + nat sz \<le> q"
  shows "store_val mem sz p v ! q = mem ! q"
  using assms by (auto simp: store_val_def nth_splice_at)

lemma va_phys_read: "va_phys m True va = Inr p \<Longrightarrow> va_phys m False va = Inr p"
  by (auto simp: va_phys_def Let_def split: if_splits)

text \<open>Each byte of an aligned access is itself mapped.\<close>

lemma aligned_room:
  assumes "N mod s = 0" "n mod s = 0" "n < N" "i < (s :: nat)"
  shows "n + i < N"
proof -
  obtain j k where jk: "N = s * k" "n = s * j" using assms(1,2) by (auto simp: mod_eq_0_iff_dvd elim!: dvdE)
  with assms(3) have "Suc j \<le> k" by (auto intro: Suc_leI)
  then have "s * Suc j \<le> s * k" by (rule mult_le_mono2)
  with jk assms(4) show ?thesis by simp
qed

lemma aligned_split:
  assumes "sz \<in> {1, 2, 4}" "n mod nat sz = 0" "i < nat sz"
  shows "(n + i) div 128 = n div (128 :: nat)" "(n + i) mod 128 = n mod 128 + i"
proof -
  have s: "128 mod nat sz = 0" using assms(1) by auto
  then have "n mod 128 mod nat sz = 0" using assms(2) by (metis mod_0_imp_dvd mod_mod_cancel)
  from aligned_room [OF s this _ assms(3)] have lt: "n mod 128 + i < 128" by simp
  have "n + i = 128 * (n div 128) + (n mod 128 + i)" by simp
  then show "(n + i) div 128 = n div 128" "(n + i) mod 128 = n mod 128 + i"
    using lt by (metis add.right_neutral div_less div_mult_self4 zero_neq_numeral) (metis lt mod_less mod_mult_self4 add.commute \<open>n + i = 128 * (n div 128) + (n mod 128 + i)\<close>)
qed

lemma access_bytes:
  assumes sz: "sz \<in> {1, 2, 4}" and acc: "access m sz w va = Inr p" and i: "i < nat sz"
  shows "va_phys m w (va + word_of_nat i) = Inr (p + i)"
proof -
  have al: "unat va mod nat sz = 0" using access_aligned(1) [OF sz acc] .
  have "(4294967296 :: nat) mod nat sz = 0" using sz by auto
  from aligned_room [OF this al _ i] have "unat va + i < 2 ^ 32" using unsigned_less [of va, where 'a = nat] by simp
  moreover have "i < 2 ^ 32" using i sz by auto
  ultimately have "unat (va + word_of_nat i) = unat va + i"
    by (simp add: unat_word_ariths unat_of_nat)
  with aligned_split [OF sz al i] acc show ?thesis
    by (auto simp: access_def va_phys_def Let_def split: if_splits)
qed

text \<open>What an operation on behalf of the running program may do to memory: change mapped, writable bytes.\<close>

definition confined :: "machine \<Rightarrow> machine \<Rightarrow> bool" where
  "confined m m' \<longleftrightarrow> pageTableSize m' = pageTableSize m \<and> va_phys m' = va_phys m \<and>
     (\<forall>q < 16384. mainMemory m' ! q \<noteq> mainMemory m ! q \<longrightarrow> (\<exists>va. va_phys m True va = Inr q))"

lemma confined_same: "pageTableSize m' = pageTableSize m \<Longrightarrow> va_phys m' = va_phys m \<Longrightarrow> mainMemory m' = mainMemory m \<Longrightarrow> confined m m'"
  by (simp add: confined_def)

lemma confined_trans: "confined m m1 \<Longrightarrow> confined m1 m2 \<Longrightarrow> confined m m2"
  unfolding confined_def by metis

lemma confined_store:
  assumes "sz \<in> {1, 2, 4}" "access m sz True va = Inr p" "length (mainMemory m) = 16384"
    "va_phys m' = va_phys m" "mainMemory m' = store_val (mainMemory m) sz p v" "pageTableSize m' = pageTableSize m"
  shows "confined m m'"
  unfolding confined_def
proof (intro conjI allI impI)
  fix q assume q: "q < 16384" "mainMemory m' ! q \<noteq> mainMemory m ! q"
  then have "\<not> (q < p \<or> p + nat sz \<le> q)"
    using store_other [OF assms(1), of p "mainMemory m" q v] access_aligned(3) [OF assms(1,2)] assms(3,5) by auto
  then have "va_phys m True (va + word_of_nat (q - p)) = Inr (p + (q - p))"
    by (intro access_bytes [OF assms(1,2)]) auto
  with \<open>\<not> (q < p \<or> p + nat sz \<le> q)\<close> show "\<exists>va. va_phys m True va = Inr q" by auto
qed (rule assms(4,6))+

text \<open>A read or write either traps, in a sound state, or completes.\<close>

lemma ReadMem_cases:
  assumes "mach_ok m" "sz \<in> {1, 2, 4}"
  obtains (traps) e m' where "Machine_ReadMem va sz m = Inr (Inl e, m')" "mach_ok m'" "confined m m'"
  | (reads) v m' where "Machine_ReadMem va sz m = Inr (Inr v, m')" "same_map m m'"
  using ReadMem_ok [OF assms, of va] by (cases "access m sz False va") (auto intro: confined_same)

lemma WriteMem_cases:
  assumes "mach_ok m" "sz \<in> {1, 2, 4}"
  obtains (traps) e m' where "Machine_WriteMem va sz v m = Inr (Inl e, m')" "mach_ok m'" "confined m m'"
  | (writes) m' where "Machine_WriteMem va sz v m = Inr (Inr (), m')" "mach_ok m'" "confined m m'"
proof (cases "access m sz True va")
  case (Inl e)
  with WriteMem_ok [OF assms, of va v] show ?thesis by (auto intro: that(1) confined_same)
next
  case (Inr p)
  with WriteMem_ok [OF assms, of va v] obtain m' where "Machine_WriteMem va sz v m = Inr (Inr (), m')" "mach_ok m'"
      "mainMemory m' = store_val (mainMemory m) sz p v" "va_phys m' = va_phys m" "pageTableSize m' = pageTableSize m" by auto
  moreover have "confined m m'" using confined_store [OF assms(2) Inr _ calculation(4,3,5)] assms(1) by (simp add: mach_ok_def)
  ultimately show ?thesis using that(2) by blast
qed

section \<open>Properties\<close>

definition example_machine :: machine where
  "example_machine = \<lparr>registers = replicate 40 0, mainMemory = replicate 16384 0, tlb = None,
     pageTable = Some [\<lparr>virtualPage = 0, physicalPage = 5, valid = True, readOnly = False, use = False, dirty = False\<rparr>],
     pageTableSize = 1, singleStep = False, runUntilTime = 0\<rparr>"

lemma example_machine_ok: "mach_ok example_machine"
  by (simp add: mach_ok_def example_machine_def reg_numbers)

lemma example_access: "access example_machine 4 w 8 = Inr 648"
  by (simp add: access_def va_phys_def example_machine_def)

text \<open>
  C17. \<^verbatim>\<open>Translate\<close> computes the linear page table: for an access of 1, 2 or 4 bytes it answers an address
  error exactly for unaligned addresses and pages beyond the table, a page fault for invalid entries,
  a read-only exception for writes to read-only pages, a bus error for frames that do not exist, and
  otherwise the byte \<open>frame * 128 + offset\<close>; its final assertion, that the access stays inside physical
  memory, never fails, and only use and dirty bits change.
\<close>

theorem Translate_correct:
  assumes "mach_ok m" "sz \<in> {1, 2, 4}"
  shows "\<exists>m'. Machine_Translate va sz w m =
      Inr (if unat va mod nat sz \<noteq> 0 then Inl AddressErrorException else map_sum id word_of_nat (va_phys m w va), m') \<and>
    mach_ok m' \<and> mainMemory m' = mainMemory m \<and> registers m' = registers m \<and> va_phys m' = va_phys m \<and>
    (\<forall>p. va_phys m w va = Inr p \<and> unat va mod nat sz = 0 \<longrightarrow> p + nat sz \<le> nat MemorySize)"
proof -
  obtain m' where "Machine_Translate va sz w m = Inr (map_sum id word_of_nat (access m sz w va), m')" "same_map m m'"
    using Translate_access [OF assms] by blast
  moreover have "p + nat sz \<le> 16384" if "va_phys m w va = Inr p" "unat va mod nat sz = 0" for p
    using access_aligned(3) [OF assms(2), of m w va p] that by (simp add: access_def)
  ultimately show ?thesis
    using assms(1) by (auto simp: access_def same_map_def MemorySize_def)
qed

theorem Translate_correct_witness:
  "\<exists>m'. Machine_Translate 8 4 True example_machine = Inr (Inr 648, m') \<and> mach_ok m'"
  using Translate_correct [OF example_machine_ok, of 4 8 True]
  by (auto simp: va_phys_def example_machine_def)

text \<open>
  C29. Memory keeps what is written: a successful \<^verbatim>\<open>WriteMem\<close> of 1, 2 or 4 bytes is followed by a
  \<^verbatim>\<open>ReadMem\<close> of the same size that returns the value, narrowed to a sign-extended byte or a
  zero-extended half word; every other byte of physical memory is as before; and a refused write
  traps with the address in \<^verbatim>\<open>BadVAddrReg\<close> and leaves memory alone.
\<close>

theorem WriteMem_ReadMem:
  assumes ok: "mach_ok m" and sz: "sz \<in> {1, 2, 4}"
  shows "case access m sz True va of
      Inl e \<Rightarrow> \<exists>m'. Machine_WriteMem va sz v m = Inr (Inl e, m') \<and> mach_ok m' \<and>
        mainMemory m' = mainMemory m \<and> reg m' BadVAddrReg = va
    | Inr p \<Rightarrow> \<exists>m' m''. Machine_WriteMem va sz v m = Inr (Inr (), m') \<and>
        Machine_ReadMem va sz m' = Inr (Inr (narrow sz v), m'') \<and> mach_ok m'' \<and>
        (\<forall>q < nat MemorySize. q < p \<or> p + nat sz \<le> q \<longrightarrow> mainMemory m'' ! q = mainMemory m ! q)"
proof (cases "access m sz True va")
  case (Inl e)
  with WriteMem_ok [OF ok sz, of va v] show ?thesis by auto
next
  case (Inr p)
  with WriteMem_ok [OF ok sz, of va v] obtain m' where m': "Machine_WriteMem va sz v m = Inr (Inr (), m')"
    "mach_ok m'" "mainMemory m' = store_val (mainMemory m) sz p v" "va_phys m' = va_phys m" by auto
  have "access m' sz False va = Inr p"
    using Inr va_phys_read [of m va p] m'(4) by (auto simp: access_def split: if_splits)
  with ReadMem_ok [OF m'(2) sz, of va] obtain m'' where
    m'': "Machine_ReadMem va sz m' = Inr (Inr (load_val (mainMemory m') sz p), m'')" "same_map m' m''" by auto
  have p: "p + nat sz \<le> length (mainMemory m)" "length (mainMemory m) = 16384"
    using access_aligned(3) [OF sz Inr] ok by (simp_all add: mach_ok_def)
  have val: "load_val (mainMemory m') sz p = narrow sz v" using load_store [OF sz p(1)] m'(3) by simp
  have "mainMemory m'' ! q = mainMemory m ! q" if "q < 16384" "q < p \<or> p + nat sz \<le> q" for q
    using store_other [OF sz p(1), of q v] that p(2) m'(3) m''(2) by (simp add: same_map_def)
  moreover have "mach_ok m''" using m''(2) m'(2) by (simp add: same_map_def)
  ultimately show ?thesis using m'(1) m''(1) val Inr by (auto simp: MemorySize_def)
qed

theorem WriteMem_ReadMem_witness:
  "\<exists>m' m''. Machine_WriteMem 8 4 1234 example_machine = Inr (Inr (), m') \<and>
     Machine_ReadMem 8 4 m' = Inr (Inr 1234, m'')"
  using WriteMem_ReadMem [OF example_machine_ok, of 4 8 1234] by (auto simp: example_access narrow_def)

end
