(* ===== verification/MipsSim.thy ===== *)
theory MipsSim
  imports Machine
begin

text \<open>
  The MIPS R2000 simulator (\<^verbatim>\<open>machine/mipssim.cc\<close>, \<^verbatim>\<open>machine/mipssim.h\<close>), as the build compiles it
  (\<^verbatim>\<open>SIM_FIX\<close> defined, little-endian host): decoding, one definition per instruction or group of
  instructions of the big switch, multiplication bit by bit, delayed loads and branch delay slots.

  Registers are 32-bit words; signed operations read them with \<open>sint\<close> or the signed comparisons, and
  additions wrap around, as the code relies on.  The division that the host cannot perform
  (\<open>-2 ^ 31 / -1\<close>) is a fault.
\<close>

section \<open>Opcodes and decoding\<close>

datatype (plugins only: code) opcode = OP_ADD | OP_ADDI | OP_ADDIU | OP_ADDU | OP_AND | OP_ANDI | OP_BEQ | OP_BGEZ | OP_BGEZAL | OP_BGTZ
  | OP_BLEZ | OP_BLTZ | OP_BLTZAL | OP_BNE | OP_DIV | OP_DIVU | OP_J | OP_JAL | OP_JALR | OP_JR | OP_LB | OP_LBU
  | OP_LH | OP_LHU | OP_LUI | OP_LW | OP_LWL | OP_LWR | OP_MFHI | OP_MFLO | OP_MTHI | OP_MTLO | OP_MULT | OP_MULTU
  | OP_NOR | OP_OR | OP_ORI | OP_RFE | OP_SB | OP_SH | OP_SLL | OP_SLLV | OP_SLT | OP_SLTI | OP_SLTIU | OP_SLTU
  | OP_SRA | OP_SRAV | OP_SRL | OP_SRLV | OP_SUB | OP_SUBU | OP_SW | OP_SWL | OP_SWR | OP_XOR | OP_XORI
  | OP_SYSCALL | OP_UNIMP | OP_RES | SPECIAL | BCOND

datatype format = IFMT | JFMT | RFMT

definition opTable :: "(opcode \<times> format) list" where
  "opTable =
    [(SPECIAL, RFMT), (BCOND, IFMT), (OP_J, JFMT), (OP_JAL, JFMT),
     (OP_BEQ, IFMT), (OP_BNE, IFMT), (OP_BLEZ, IFMT), (OP_BGTZ, IFMT),
     (OP_ADDI, IFMT), (OP_ADDIU, IFMT), (OP_SLTI, IFMT), (OP_SLTIU, IFMT),
     (OP_ANDI, IFMT), (OP_ORI, IFMT), (OP_XORI, IFMT), (OP_LUI, IFMT),
     (OP_UNIMP, IFMT), (OP_UNIMP, IFMT), (OP_UNIMP, IFMT), (OP_UNIMP, IFMT),
     (OP_RES, IFMT), (OP_RES, IFMT), (OP_RES, IFMT), (OP_RES, IFMT),
     (OP_RES, IFMT), (OP_RES, IFMT), (OP_RES, IFMT), (OP_RES, IFMT),
     (OP_RES, IFMT), (OP_RES, IFMT), (OP_RES, IFMT), (OP_RES, IFMT),
     (OP_LB, IFMT), (OP_LH, IFMT), (OP_LWL, IFMT), (OP_LW, IFMT),
     (OP_LBU, IFMT), (OP_LHU, IFMT), (OP_LWR, IFMT), (OP_RES, IFMT),
     (OP_SB, IFMT), (OP_SH, IFMT), (OP_SWL, IFMT), (OP_SW, IFMT),
     (OP_RES, IFMT), (OP_RES, IFMT), (OP_SWR, IFMT), (OP_RES, IFMT),
     (OP_UNIMP, IFMT), (OP_UNIMP, IFMT), (OP_UNIMP, IFMT), (OP_UNIMP, IFMT),
     (OP_RES, IFMT), (OP_RES, IFMT), (OP_RES, IFMT), (OP_RES, IFMT),
     (OP_UNIMP, IFMT), (OP_UNIMP, IFMT), (OP_UNIMP, IFMT), (OP_UNIMP, IFMT),
     (OP_RES, IFMT), (OP_RES, IFMT), (OP_RES, IFMT), (OP_RES, IFMT)]"

definition specialTable :: "opcode list" where
  "specialTable =
    [OP_SLL, OP_RES, OP_SRL, OP_SRA, OP_SLLV, OP_RES, OP_SRLV, OP_SRAV,
     OP_JR, OP_JALR, OP_RES, OP_RES, OP_SYSCALL, OP_UNIMP, OP_RES, OP_RES,
     OP_MFHI, OP_MTHI, OP_MFLO, OP_MTLO, OP_RES, OP_RES, OP_RES, OP_RES,
     OP_MULT, OP_MULTU, OP_DIV, OP_DIVU, OP_RES, OP_RES, OP_RES, OP_RES,
     OP_ADD, OP_ADDU, OP_SUB, OP_SUBU, OP_AND, OP_OR, OP_XOR, OP_NOR,
     OP_RES, OP_RES, OP_SLT, OP_SLTU, OP_RES, OP_RES, OP_RES, OP_RES,
     OP_RES, OP_RES, OP_RES, OP_RES, OP_RES, OP_RES, OP_RES, OP_RES,
     OP_RES, OP_RES, OP_RES, OP_RES, OP_RES, OP_RES, OP_RES, OP_RES]"

record instruction =
  opCode :: opcode
  i_rs :: nat
  i_rt :: nat
  i_rd :: nat
  extra :: "32 word"

definition Instruction_Decode :: "32 word \<Rightarrow> instruction" where
  "Instruction_Decode w =
     (let rs = unat (drop_bit 21 w AND 0x1f); rt = unat (drop_bit 16 w AND 0x1f); rd = unat (drop_bit 11 w AND 0x1f);
          (op, fmt) = opTable ! unat (drop_bit 26 w AND 0x3f);
          ex = (if fmt = IFMT then
                  (let ex = w AND 0xffff in if ex AND 0x8000 \<noteq> 0 then ex OR 0xffff0000 else ex)
                else if fmt = RFMT then drop_bit 6 w AND 0x1f
                else w AND 0x3ffffff);
          op = (if op = SPECIAL then specialTable ! unat (w AND 0x3f)
                else if op = BCOND then
                  (let i = w AND 0x1f0000 in
                   if i = 0 then OP_BLTZ else if i = 0x10000 then OP_BGEZ else if i = 0x100000 then OP_BLTZAL
                   else if i = 0x110000 then OP_BGEZAL else OP_UNIMP)
                else op) in
      \<lparr>opCode = op, i_rs = rs, i_rt = rt, i_rd = rd, extra = ex\<rparr>)"

section \<open>Multiplication\<close>

text \<open>
  The loop of \<^verbatim>\<open>Mult\<close>; \<open>n\<close> counts the remaining iterations.  \<open>a\<close> is a signed integer: its shift is
  arithmetic.
\<close>

primrec Mult_loop :: "nat \<Rightarrow> 32 word \<Rightarrow> 32 word \<Rightarrow> 32 word \<Rightarrow> 32 word \<Rightarrow> 32 word \<Rightarrow> 32 word \<times> 32 word" where
  "Mult_loop 0 a bLo bHi lo hi = (hi, lo)"
| "Mult_loop (Suc n) a bLo bHi lo hi =
     (let (brk, lo, hi) =
        (if a AND 1 \<noteq> 0 then
           (let lo = lo + bLo;
                hi = (if lo < bLo then hi + 1 else hi);
                hi = hi + bHi in
            (a AND 0xfffffffe = 0, lo, hi))
         else (False, lo, hi)) in
      if brk then (hi, lo)
      else
        let bHi = push_bit 1 bHi;
            bHi = (if bLo AND 0x80000000 \<noteq> 0 then bHi OR 1 else bHi);
            bLo = push_bit 1 bLo;
            a = signed_drop_bit 1 a in
        Mult_loop n a bLo bHi lo hi)"

definition Mult :: "32 word \<Rightarrow> 32 word \<Rightarrow> bool \<Rightarrow> 32 word \<times> 32 word" where
  "Mult a b signedArith =
     (if a = 0 \<or> b = 0 then (0, 0)
      else
        let negative = False;
            (negative, a) = (if signedArith \<and> a <s 0 then (\<not> negative, - a) else (negative, a));
            (negative, b) = (if signedArith \<and> b <s 0 then (\<not> negative, - b) else (negative, b));
            (hi, lo) = Mult_loop 32 a b 0 0 0 in
        if negative then
          (let hi = NOT hi; lo = NOT lo; lo = lo + 1; hi = (if lo = 0 then hi + 1 else hi) in (hi, lo))
        else (hi, lo))"

section \<open>The instructions\<close>

text \<open>
  An instruction that completes gives the next value of \<^verbatim>\<open>NextPCReg\<close> and the delayed load it starts
  (register and value; register 0 for none).
\<close>

type_synonym outcome = "(32 word \<times> 32 word \<times> 32 word) trap res"

definition next_pc :: "machine \<Rightarrow> 32 word" where
  "next_pc m = reg m NextPCReg + 4"

definition fin :: "machine \<Rightarrow> outcome" where
  "fin m = Inr (Inr (next_pc m, 0, 0), m)"

definition goto :: "32 word \<Rightarrow> machine \<Rightarrow> outcome" where
  "goto pc m = Inr (Inr (pc, 0, 0), m)"

definition SIGN_BIT :: "32 word" where "SIGN_BIT = 0x80000000"

definition IndexToAddr :: "32 word \<Rightarrow> 32 word" where "IndexToAddr x = push_bit 2 x"

definition branch_if :: "bool \<Rightarrow> instruction \<Rightarrow> machine \<Rightarrow> outcome" where
  "branch_if c i m = (if c then goto (reg m NextPCReg + IndexToAddr (extra i)) m else fin m)"

definition exec_ADD :: "instruction \<Rightarrow> machine \<Rightarrow> outcome" where
  "exec_ADD i m =
     (let a = reg m (i_rs i); b = reg m (i_rt i); sum = a + b in
      if (a XOR b) AND SIGN_BIT = 0 \<and> (a XOR sum) AND SIGN_BIT \<noteq> 0
      then Machine_RaiseException OverflowException 0 m
      else fin (set_reg (i_rd i) sum m))"

definition exec_ADDI :: "instruction \<Rightarrow> machine \<Rightarrow> outcome" where
  "exec_ADDI i m =
     (let a = reg m (i_rs i); sum = a + extra i in
      if (a XOR extra i) AND SIGN_BIT = 0 \<and> (extra i XOR sum) AND SIGN_BIT \<noteq> 0
      then Machine_RaiseException OverflowException 0 m
      else fin (set_reg (i_rt i) sum m))"

definition exec_SUB :: "instruction \<Rightarrow> machine \<Rightarrow> outcome" where
  "exec_SUB i m =
     (let a = reg m (i_rs i); b = reg m (i_rt i); diff = a - b in
      if (a XOR b) AND SIGN_BIT \<noteq> 0 \<and> (a XOR diff) AND SIGN_BIT \<noteq> 0
      then Machine_RaiseException OverflowException 0 m
      else fin (set_reg (i_rd i) diff m))"

definition exec_DIV :: "instruction \<Rightarrow> machine \<Rightarrow> outcome" where
  "exec_DIV i m =
     (let a = reg m (i_rs i); b = reg m (i_rt i) in
      if b = 0 then fin (set_reg HiReg 0 (set_reg LoReg 0 m))
      else if a = SIGN_BIT \<and> b = - 1 then Inl SignedOverflow
      else fin (set_reg HiReg (word_of_int (sint a smod sint b))
                 (set_reg LoReg (word_of_int (sint a sdiv sint b)) m)))"

definition exec_DIVU :: "instruction \<Rightarrow> machine \<Rightarrow> outcome" where
  "exec_DIVU i m =
     (let a = reg m (i_rs i); b = reg m (i_rt i) in
      if b = 0 then fin (set_reg HiReg 0 (set_reg LoReg 0 m))
      else fin (set_reg HiReg (a mod b) (set_reg LoReg (a div b) m)))"

definition exec_MULT :: "bool \<Rightarrow> instruction \<Rightarrow> machine \<Rightarrow> outcome" where
  "exec_MULT signedArith i m =
     (let (hi, lo) = Mult (reg m (i_rs i)) (reg m (i_rt i)) signedArith in
      fin (set_reg LoReg lo (set_reg HiReg hi m)))"

definition load :: "instruction \<Rightarrow> 32 word \<Rightarrow> machine \<Rightarrow> outcome" where
  "load i v m = Inr (Inr (next_pc m, word_of_nat (i_rt i), v), m)"

definition exec_LB :: "instruction \<Rightarrow> machine \<Rightarrow> outcome" where
  "exec_LB i m =
     tbind (Machine_ReadMem (reg m (i_rs i) + extra i) 1 m) (\<lambda>v m.
     load i (if v AND 0x80 \<noteq> 0 \<and> opCode i = OP_LB then v OR 0xffffff00 else v AND 0xff) m)"

definition exec_LH :: "instruction \<Rightarrow> machine \<Rightarrow> outcome" where
  "exec_LH i m =
     (let tmp = reg m (i_rs i) + extra i in
      if tmp AND 1 \<noteq> 0 then Machine_RaiseException AddressErrorException tmp m
      else tbind (Machine_ReadMem tmp 2 m) (\<lambda>v m.
        load i (if v AND 0x8000 \<noteq> 0 \<and> opCode i = OP_LH then v OR 0xffff0000 else v AND 0xffff) m))"

definition exec_LW :: "instruction \<Rightarrow> machine \<Rightarrow> outcome" where
  "exec_LW i m =
     (let tmp = reg m (i_rs i) + extra i in
      if tmp AND 3 \<noteq> 0 then Machine_RaiseException AddressErrorException tmp m
      else tbind (Machine_ReadMem tmp 4 m) (load i))"

text \<open>The value a register will have once the load in its delay slot is done.\<close>

definition pending :: "instruction \<Rightarrow> machine \<Rightarrow> 32 word" where
  "pending i m = (if reg m LoadReg = word_of_nat (i_rt i) then reg m LoadValueReg else reg m (i_rt i))"

definition lwl_merge :: "32 word \<Rightarrow> 32 word \<Rightarrow> 32 word \<Rightarrow> 32 word" where
  "lwl_merge byte old v =
     (let k = 3 - byte in
      if k = 0 then v
      else if k = 1 then (old AND 0xff) OR push_bit 8 v
      else if k = 2 then (old AND 0xffff) OR push_bit 16 v
      else if k = 3 then (old AND 0xffffff) OR push_bit 24 v
      else old)"

definition exec_LWL :: "instruction \<Rightarrow> machine \<Rightarrow> outcome" where
  "exec_LWL i m =
     (let tmp = reg m (i_rs i) + extra i; byte = tmp AND 3 in
      tbind (Machine_ReadMem (tmp - byte) 4 m) (\<lambda>v m. load i (lwl_merge byte (pending i m) v) m))"

definition lwr_merge :: "32 word \<Rightarrow> 32 word \<Rightarrow> 32 word \<Rightarrow> 32 word" where
  "lwr_merge byte old v =
     (let k = 3 - byte in
      if k = 0 then (old AND 0xffffff00) OR (signed_drop_bit 24 v AND 0xff)
      else if k = 1 then (old AND 0xffff0000) OR (signed_drop_bit 16 v AND 0xffff)
      else if k = 2 then (old AND 0xff000000) OR (signed_drop_bit 8 v AND 0xffffff)
      else if k = 3 then v
      else old)"

definition exec_LWR :: "instruction \<Rightarrow> machine \<Rightarrow> outcome" where
  "exec_LWR i m =
     (let tmp = reg m (i_rs i) + extra i; byte = tmp AND 3 in
      tbind (Machine_ReadMem (tmp - byte) 4 m) (\<lambda>v m. load i (lwr_merge byte (pending i m) v) m))"

definition store :: "int \<Rightarrow> instruction \<Rightarrow> machine \<Rightarrow> outcome" where
  "store sz i m =
     tbind (Machine_WriteMem (reg m (i_rs i) + extra i) sz (reg m (i_rt i)) m) (\<lambda>_ m. fin m)"

definition swl_merge :: "32 word \<Rightarrow> 32 word \<Rightarrow> 32 word \<Rightarrow> 32 word" where
  "swl_merge byte r v =
     (let k = 3 - byte in
      if k = 0 then r
      else if k = 1 then (v AND 0xff000000) OR (signed_drop_bit 8 r AND 0xffffff)
      else if k = 2 then (v AND 0xffff0000) OR (signed_drop_bit 16 r AND 0xffff)
      else if k = 3 then (v AND 0xffffff00) OR (signed_drop_bit 24 r AND 0xff)
      else v)"

definition exec_SWL :: "instruction \<Rightarrow> machine \<Rightarrow> outcome" where
  "exec_SWL i m =
     (let tmp = reg m (i_rs i) + extra i; byte = tmp AND 3 in
      tbind (Machine_ReadMem (tmp - byte) 4 m) (\<lambda>v m.
      tbind (Machine_WriteMem (tmp - byte) 4 (swl_merge byte (reg m (i_rt i)) v) m) (\<lambda>_ m. fin m)))"

definition swr_merge :: "32 word \<Rightarrow> 32 word \<Rightarrow> 32 word \<Rightarrow> 32 word" where
  "swr_merge byte r v =
     (let k = 3 - byte in
      if k = 0 then (v AND 0xffffff) OR push_bit 24 r
      else if k = 1 then (v AND 0xffff) OR push_bit 16 r
      else if k = 2 then (v AND 0xff) OR push_bit 8 r
      else if k = 3 then r
      else v)"

definition exec_SWR :: "instruction \<Rightarrow> machine \<Rightarrow> outcome" where
  "exec_SWR i m =
     (let tmp = reg m (i_rs i) + extra i; byte = tmp AND 3 in
      tbind (Machine_ReadMem (tmp - byte) 4 m) (\<lambda>v m.
      tbind (Machine_WriteMem (tmp - byte) 4 (swr_merge byte (reg m (i_rt i)) v) m) (\<lambda>_ m. fin m)))"

definition R31 :: nat where "R31 = 31"

definition put_rd :: "instruction \<Rightarrow> 32 word \<Rightarrow> machine \<Rightarrow> outcome" where
  "put_rd i v m = fin (set_reg (i_rd i) v m)"

definition put_rt :: "instruction \<Rightarrow> 32 word \<Rightarrow> machine \<Rightarrow> outcome" where
  "put_rt i v m = fin (set_reg (i_rt i) v m)"

definition link :: "nat \<Rightarrow> machine \<Rightarrow> machine" where
  "link r m = set_reg r (reg m NextPCReg + 4) m"

text \<open>The simpler cases of the switch of \<^verbatim>\<open>OneInstruction\<close>.\<close>

definition exec_MFHI :: "instruction \<Rightarrow> machine \<Rightarrow> outcome" where
  [simp]: "exec_MFHI i m = put_rd i (reg m HiReg) m"

definition exec_MFLO :: "instruction \<Rightarrow> machine \<Rightarrow> outcome" where
  [simp]: "exec_MFLO i m = put_rd i (reg m LoReg) m"

definition exec_MTHI :: "instruction \<Rightarrow> machine \<Rightarrow> outcome" where
  [simp]: "exec_MTHI i m = fin (set_reg HiReg (reg m (i_rs i)) m)"

definition exec_MTLO :: "instruction \<Rightarrow> machine \<Rightarrow> outcome" where
  [simp]: "exec_MTLO i m = fin (set_reg LoReg (reg m (i_rs i)) m)"

definition exec_SLL :: "instruction \<Rightarrow> machine \<Rightarrow> outcome" where
  [simp]: "exec_SLL i m = put_rd i (push_bit (unat (extra i)) (reg m (i_rt i))) m"

definition exec_SLLV :: "instruction \<Rightarrow> machine \<Rightarrow> outcome" where
  [simp]: "exec_SLLV i m = put_rd i (push_bit (unat (reg m (i_rs i) AND 0x1f)) (reg m (i_rt i))) m"

definition exec_SLT :: "instruction \<Rightarrow> machine \<Rightarrow> outcome" where
  [simp]: "exec_SLT i m = put_rd i (if reg m (i_rs i) <s reg m (i_rt i) then 1 else 0) m"

definition exec_SLTI :: "instruction \<Rightarrow> machine \<Rightarrow> outcome" where
  [simp]: "exec_SLTI i m = put_rt i (if reg m (i_rs i) <s extra i then 1 else 0) m"

definition exec_SLTIU :: "instruction \<Rightarrow> machine \<Rightarrow> outcome" where
  [simp]: "exec_SLTIU i m = put_rt i (if reg m (i_rs i) < extra i then 1 else 0) m"

definition exec_SLTU :: "instruction \<Rightarrow> machine \<Rightarrow> outcome" where
  [simp]: "exec_SLTU i m = put_rd i (if reg m (i_rs i) < reg m (i_rt i) then 1 else 0) m"

definition exec_SRA :: "instruction \<Rightarrow> machine \<Rightarrow> outcome" where
  [simp]: "exec_SRA i m = put_rd i (signed_drop_bit (unat (extra i)) (reg m (i_rt i))) m"

definition exec_SRAV :: "instruction \<Rightarrow> machine \<Rightarrow> outcome" where
  [simp]: "exec_SRAV i m = put_rd i (signed_drop_bit (unat (reg m (i_rs i) AND 0x1f)) (reg m (i_rt i))) m"

definition exec_SRL :: "instruction \<Rightarrow> machine \<Rightarrow> outcome" where
  [simp]: "exec_SRL i m = put_rd i (signed_drop_bit (unat (extra i)) (reg m (i_rt i))) m"

definition exec_SRLV :: "instruction \<Rightarrow> machine \<Rightarrow> outcome" where
  [simp]: "exec_SRLV i m = put_rd i (signed_drop_bit (unat (reg m (i_rs i) AND 0x1f)) (reg m (i_rt i))) m"

definition exec_SUBU :: "instruction \<Rightarrow> machine \<Rightarrow> outcome" where
  [simp]: "exec_SUBU i m = put_rd i (reg m (i_rs i) - reg m (i_rt i)) m"

definition exec_SYSCALL :: "instruction \<Rightarrow> machine \<Rightarrow> outcome" where
  [simp]: "exec_SYSCALL i m = Machine_RaiseException SyscallException 0 m"

definition exec_XOR :: "instruction \<Rightarrow> machine \<Rightarrow> outcome" where
  [simp]: "exec_XOR i m = put_rd i (reg m (i_rs i) XOR reg m (i_rt i)) m"

definition exec_XORI :: "instruction \<Rightarrow> machine \<Rightarrow> outcome" where
  [simp]: "exec_XORI i m = put_rt i (reg m (i_rs i) XOR (extra i AND 0xffff)) m"

text \<open>The switch of \<^verbatim>\<open>OneInstruction\<close>; cases that fall through repeat what they fall into.\<close>

primrec exec :: "opcode \<Rightarrow> instruction \<Rightarrow> machine \<Rightarrow> outcome" where
  "exec OP_ADD i m = exec_ADD i m"
| "exec OP_ADDI i m = exec_ADDI i m"
| "exec OP_ADDIU i m = put_rt i (reg m (i_rs i) + extra i) m"
| "exec OP_ADDU i m = put_rd i (reg m (i_rs i) + reg m (i_rt i)) m"
| "exec OP_AND i m = put_rd i (reg m (i_rs i) AND reg m (i_rt i)) m"
| "exec OP_ANDI i m = put_rt i (reg m (i_rs i) AND (extra i AND 0xffff)) m"
| "exec OP_BEQ i m = branch_if (reg m (i_rs i) = reg m (i_rt i)) i m"
| "exec OP_BGEZAL i m = (let m = link R31 m in branch_if (reg m (i_rs i) AND SIGN_BIT = 0) i m)"
| "exec OP_BGEZ i m = branch_if (reg m (i_rs i) AND SIGN_BIT = 0) i m"
| "exec OP_BGTZ i m = branch_if (0 <s reg m (i_rs i)) i m"
| "exec OP_BLEZ i m = branch_if (reg m (i_rs i) \<le>s 0) i m"
| "exec OP_BLTZAL i m = (let m = link R31 m in branch_if (reg m (i_rs i) AND SIGN_BIT \<noteq> 0) i m)"
| "exec OP_BLTZ i m = branch_if (reg m (i_rs i) AND SIGN_BIT \<noteq> 0) i m"
| "exec OP_BNE i m = branch_if (reg m (i_rs i) \<noteq> reg m (i_rt i)) i m"
| "exec OP_DIV i m = exec_DIV i m"
| "exec OP_DIVU i m = exec_DIVU i m"
| "exec OP_JAL i m = (let m = link R31 m in goto ((next_pc m AND 0xf0000000) OR IndexToAddr (extra i)) m)"
| "exec OP_J i m = goto ((next_pc m AND 0xf0000000) OR IndexToAddr (extra i)) m"
| "exec OP_JALR i m = (let m = link (i_rd i) m in goto (reg m (i_rs i)) m)"
| "exec OP_JR i m = goto (reg m (i_rs i)) m"
| "exec OP_LB i m = exec_LB i m"
| "exec OP_LBU i m = exec_LB i m"
| "exec OP_LH i m = exec_LH i m"
| "exec OP_LHU i m = exec_LH i m"
| "exec OP_LUI i m = put_rt i (push_bit 16 (extra i)) m"
| "exec OP_LW i m = exec_LW i m"
| "exec OP_LWL i m = exec_LWL i m"
| "exec OP_LWR i m = exec_LWR i m"
| "exec OP_MFHI i m = exec_MFHI i m"
| "exec OP_MFLO i m = exec_MFLO i m"
| "exec OP_MTHI i m = exec_MTHI i m"
| "exec OP_MTLO i m = exec_MTLO i m"
| "exec OP_MULT i m = exec_MULT True i m"
| "exec OP_MULTU i m = exec_MULT False i m"
| "exec OP_NOR i m = put_rd i (NOT (reg m (i_rs i) OR reg m (i_rt i))) m"
| "exec OP_OR i m = put_rd i (reg m (i_rs i) OR reg m (i_rt i)) m"
| "exec OP_ORI i m = put_rt i (reg m (i_rs i) OR (extra i AND 0xffff)) m"
| "exec OP_SB i m = store 1 i m"
| "exec OP_SH i m = store 2 i m"
| "exec OP_SLL i m = exec_SLL i m"
| "exec OP_SLLV i m = exec_SLLV i m"
| "exec OP_SLT i m = exec_SLT i m"
| "exec OP_SLTI i m = exec_SLTI i m"
| "exec OP_SLTIU i m = exec_SLTIU i m"
| "exec OP_SLTU i m = exec_SLTU i m"
| "exec OP_SRA i m = exec_SRA i m"
| "exec OP_SRAV i m = exec_SRAV i m"
| "exec OP_SRL i m = exec_SRL i m"
| "exec OP_SRLV i m = exec_SRLV i m"
| "exec OP_SUB i m = exec_SUB i m"
| "exec OP_SUBU i m = exec_SUBU i m"
| "exec OP_SW i m = store 4 i m"
| "exec OP_SWL i m = exec_SWL i m"
| "exec OP_SWR i m = exec_SWR i m"
| "exec OP_SYSCALL i m = exec_SYSCALL i m"
| "exec OP_XOR i m = exec_XOR i m"
| "exec OP_XORI i m = exec_XORI i m"
| "exec OP_RES i m = Machine_RaiseException IllegalInstrException 0 m"
| "exec OP_UNIMP i m = Machine_RaiseException IllegalInstrException 0 m"
| "exec OP_RFE i m = Inl AssertFail"
| "exec SPECIAL i m = Inl AssertFail"
| "exec BCOND i m = Inl AssertFail"

definition advance :: "32 word \<Rightarrow> machine \<Rightarrow> machine" where
  "advance pcAfter m =
     (let m = set_reg PrevPCReg (reg m PCReg) m; m = set_reg PCReg (reg m NextPCReg) m in
      set_reg NextPCReg pcAfter m)"

definition Machine_OneInstruction :: "machine \<Rightarrow> unit trap res" where
  "Machine_OneInstruction m =
     tbind (Machine_ReadMem (reg m PCReg) 4 m) (\<lambda>raw m.
     let i = Instruction_Decode raw in
     tbind (exec (opCode i) i m) (\<lambda>(pcAfter, nextLoadReg, nextLoadValue) m.
     rbind (Machine_DelayedLoad nextLoadReg nextLoadValue m) (\<lambda>m.
     Inr (Inr (), advance pcAfter m))))"

section \<open>Decoding\<close>

lemma Decode_fields:
  "i_rs (Instruction_Decode w) < 32" "i_rt (Instruction_Decode w) < 32" "i_rd (Instruction_Decode w) < 32"
proof -
  have "unat (v AND 0x1f :: 32 word) < 32" for v
  proof -
    have "v AND 0x1f = take_bit 5 v" by (simp add: take_bit_eq_mask mask_eq_exp_minus_1)
    then show ?thesis by (simp add: take_bit_eq_mod unat_mod)
  qed
  then show "i_rs (Instruction_Decode w) < 32" "i_rt (Instruction_Decode w) < 32" "i_rd (Instruction_Decode w) < 32"
    by (simp_all add: Instruction_Decode_def Let_def split: prod.split)
qed

lemma index6: "unat (v AND 0x3f :: 32 word) < 64"
proof -
  have "v AND 0x3f = take_bit 6 v" by (simp add: take_bit_eq_mask mask_eq_exp_minus_1)
  then show ?thesis by (simp add: take_bit_eq_mod unat_mod)
qed

lemma tables:
  "\<forall>op \<in> set specialTable. op \<notin> {SPECIAL, BCOND, OP_RFE}" "length specialTable = 64"
  "\<forall>e \<in> set opTable. fst e \<noteq> OP_RFE" "length opTable = 64"
  by (simp_all add: specialTable_def opTable_def)

lemma Decode_opcode: "opCode (Instruction_Decode w) \<notin> {SPECIAL, BCOND, OP_RFE}"
proof -
  have 1: "specialTable ! unat (w AND 0x3f) \<notin> {SPECIAL, BCOND, OP_RFE}"
    using index6 [of w] tables(1,2) by simp
  have 2: "fst (opTable ! unat (drop_bit 26 w AND 0x3f)) \<noteq> OP_RFE"
    using index6 [of "drop_bit 26 w"] tables(3,4) by simp
  show ?thesis using 1 2
    by (cases "opTable ! unat (drop_bit 26 w AND 0x3f)") (auto simp: Instruction_Decode_def Let_def)
qed

section \<open>Every instruction keeps the machine sound\<close>

text \<open>In the middle of an instruction register 0 may hold anything.\<close>

definition mid :: "machine \<Rightarrow> bool" where
  "mid m \<longleftrightarrow> mach_ok (set_reg 0 0 m)"

lemma mid_of_ok: "mach_ok m \<Longrightarrow> mid m"
  by (simp add: mid_def mach_ok_def set_reg_def reg_numbers)

lemma mid_set: "mid m \<Longrightarrow> r \<noteq> LoadReg \<Longrightarrow> mid (set_reg r v m)"
  by (cases "r = 0") (auto simp: mid_def mach_ok_def set_reg_def reg_numbers list_update_swap)

lemma confined_set [simp]: "confined m (set_reg r v m') = confined m m'"
  by (simp add: confined_def set_reg_def va_phys_def fun_eq_iff)

lemma confined_refl [simp]: "confined m m"
  by (simp add: confined_def)

definition outcome_ok :: "machine \<Rightarrow> outcome \<Rightarrow> bool" where
  "outcome_ok m out \<longleftrightarrow> (case out of
     Inl f \<Rightarrow> False
   | Inr (Inl e, m') \<Rightarrow> mach_ok m' \<and> confined m m'
   | Inr (Inr (pc, r, v), m') \<Rightarrow> unat r < 32 \<and> mid m' \<and> confined m m')"

lemma outcome_cases:
  assumes "outcome_ok m out"
  obtains (traps) e m' where "out = Inr (Inl e, m')" "mach_ok m'" "confined m m'"
  | (completes) pc r v m' where "out = Inr (Inr (pc, r, v), m')" "unat r < 32" "mid m'" "confined m m'"
proof (cases out)
  case (Inr p)
  obtain x m' where p: "p = (x, m')" by (cases p)
  show ?thesis
  proof (cases x)
    case (Inr y)
    obtain pc r v where "y = (pc, r, v)" by (cases y)
    with Inr p \<open>out = Inr p\<close> assms that(2) show ?thesis by (simp add: outcome_ok_def)
  qed (use Inr p assms that(1) in \<open>simp add: outcome_ok_def\<close>)
qed (use assms in \<open>simp add: outcome_ok_def\<close>)

lemma outcome_fin: "mid m' \<Longrightarrow> confined m m' \<Longrightarrow> outcome_ok m (fin m')"
  by (simp add: outcome_ok_def fin_def)

lemma outcome_goto: "mid m' \<Longrightarrow> confined m m' \<Longrightarrow> outcome_ok m (goto pc m')"
  by (simp add: outcome_ok_def goto_def)

lemma outcome_branch: "mid m' \<Longrightarrow> confined m m' \<Longrightarrow> outcome_ok m (branch_if c i m')"
  by (simp add: branch_if_def outcome_fin outcome_goto)

lemma outcome_load: "i_rt i < 32 \<Longrightarrow> mid m' \<Longrightarrow> confined m m' \<Longrightarrow> outcome_ok m (load i v m')"
  by (simp add: outcome_ok_def load_def unat_of_nat)

lemma outcome_raise: "mach_ok m \<Longrightarrow> outcome_ok m (Machine_RaiseException e a m)"
  using RaiseException_ok [where 'a = "32 word \<times> 32 word \<times> 32 word", of m e a]
  by (auto simp: outcome_ok_def intro: confined_same)

lemma outcome_put: "mach_ok m \<Longrightarrow> i_rd i < 32 \<Longrightarrow> outcome_ok m (put_rd i v m)"
    "mach_ok m \<Longrightarrow> i_rt i < 32 \<Longrightarrow> outcome_ok m (put_rt i v m)"
  by (simp_all add: put_rd_def put_rt_def reg_numbers outcome_fin mid_set mid_of_ok)

lemma outcome_read:
  assumes "mach_ok m" "sz \<in> {1, 2, 4}"
    and "\<And>v m'. mach_ok m' \<Longrightarrow> same_map m m' \<Longrightarrow> confined m m' \<Longrightarrow> outcome_ok m (f v m')"
  shows "outcome_ok m (tbind (Machine_ReadMem va sz m) f)"
proof (rule ReadMem_cases [OF assms(1,2), of va])
  fix v m' assume r: "Machine_ReadMem va sz m = Inr (Inr v, m')" "same_map m m'"
  then have "mach_ok m'" "confined m m'" using assms(1) by (auto simp: same_map_def intro: confined_same)
  with r assms(3) show ?thesis by (simp add: tbind_def)
qed (simp add: tbind_def outcome_ok_def)

lemma outcome_write:
  assumes "mach_ok m'" "sz \<in> {1, 2, 4}" "confined m m'"
  shows "outcome_ok m (tbind (Machine_WriteMem va sz v m') (\<lambda>_. fin))"
proof (rule WriteMem_cases [OF assms(1,2), of va v])
  fix e m'' assume "Machine_WriteMem va sz v m' = Inr (Inl e, m'')" "mach_ok m''" "confined m' m''"
  then show ?thesis using confined_trans [OF assms(3)] by (simp add: tbind_def outcome_ok_def)
next
  fix m'' assume "Machine_WriteMem va sz v m' = Inr (Inr (), m'')" "mach_ok m''" "confined m' m''"
  then show ?thesis using confined_trans [OF assms(3)] by (simp add: tbind_def outcome_fin mid_of_ok)
qed

lemmas outcome_intros = outcome_fin outcome_goto outcome_branch outcome_load outcome_raise outcome_put
  outcome_read outcome_write mid_set mid_of_ok

lemmas exec_defs = exec_ADD_def exec_ADDI_def exec_SUB_def exec_DIVU_def exec_MULT_def exec_LB_def exec_LH_def
  exec_LW_def exec_LWL_def exec_LWR_def exec_SWL_def exec_SWR_def store_def link_def Let_def R31_def

lemma exec_ok:
  assumes m: "mach_ok m" and i: "i_rs i < 32" "i_rt i < 32" "i_rd i < 32"
    and op: "op \<notin> {SPECIAL, BCOND, OP_RFE}"
    and div: "op = OP_DIV \<Longrightarrow> \<not> (reg m (i_rs i) = SIGN_BIT \<and> reg m (i_rt i) = - 1)"
  shows "outcome_ok m (exec op i m)"
proof (cases "op = OP_DIV")
  case True
  then show ?thesis using m div by (auto simp: exec_DIV_def Let_def reg_numbers outcome_intros)
next
  case False
  then show ?thesis using m i op
    by (cases op) (simp_all add: exec_defs reg_numbers outcome_intros split: prod.split)
qed

lemma DelayedLoad_mid:
  assumes "mid m" "unat r < 32"
  shows "\<exists>m'. Machine_DelayedLoad r v m = Inr m' \<and> mach_ok (advance pc m') \<and> mainMemory m' = mainMemory m \<and>
    va_phys m' = va_phys m \<and> pageTableSize m' = pageTableSize m"
proof -
  let ?m0 = "set_reg 0 0 m"
  have R: "length (registers m) = 40" "unat (reg m LoadReg) < 32" "mainMemory ?m0 = mainMemory m"
      "pageTable ?m0 = pageTable m" "pageTableSize ?m0 = pageTableSize m" "tlb ?m0 = tlb m"
    using assms(1) by (simp_all add: mid_def mach_ok_def set_reg_def reg_numbers)
  obtain m' where m': "Machine_DelayedLoad r v m = Inr m'" "mach_ok m'" "mainMemory m' = mainMemory m" "va_phys m' = va_phys m"
      "pageTableSize m' = pageTableSize m"
    using DelayedLoad_ok [OF R(1,2) assms(2) assms(1) [unfolded mid_def] R(3-), of v] by auto
  moreover have "mach_ok (advance pc m')"
    using m'(2) by (simp add: advance_def Let_def set_reg_def mach_ok_def reg_numbers)
  ultimately show ?thesis by blast
qed

lemma OneInstruction_ok:
  assumes m: "mach_ok m"
  shows "(\<exists>r m'. Machine_OneInstruction m = Inr (r, m') \<and> mach_ok m' \<and> confined m m') \<or>
    (Machine_OneInstruction m = Inl SignedOverflow \<and>
     (\<exists>raw m1. Machine_ReadMem (reg m PCReg) 4 m = Inr (Inr raw, m1) \<and> opCode (Instruction_Decode raw) = OP_DIV \<and>
        reg m (i_rs (Instruction_Decode raw)) = SIGN_BIT \<and> reg m (i_rt (Instruction_Decode raw)) = - 1))"
proof (rule ReadMem_cases [OF m, of 4 "reg m PCReg"])
  fix e m' assume "Machine_ReadMem (reg m PCReg) 4 m = Inr (Inl e, m')" "mach_ok m'" "confined m m'"
  then show ?thesis by (simp add: Machine_OneInstruction_def tbind_def)
next
  fix raw m1 assume rd: "Machine_ReadMem (reg m PCReg) 4 m = Inr (Inr raw, m1)" "same_map m m1"
  then have m1: "mach_ok m1" "confined m m1" "registers m1 = registers m"
    using m by (auto simp: same_map_def intro: confined_same)
  let ?i = "Instruction_Decode raw"
  show ?thesis
  proof (cases "opCode ?i = OP_DIV \<and> reg m (i_rs ?i) = SIGN_BIT \<and> reg m (i_rt ?i) = - 1")
    case True
    then have "Machine_OneInstruction m = Inl SignedOverflow"
      using rd(1) m1(3) by (simp add: Machine_OneInstruction_def tbind_def Let_def exec_DIV_def)
    with rd(1) True show ?thesis by blast
  next
    case False
    then have "outcome_ok m1 (exec (opCode ?i) ?i m1)"
      using m1(3) by (intro exec_ok m1(1) Decode_fields Decode_opcode) auto
    then consider e m' where "exec (opCode ?i) ?i m1 = Inr (Inl e, m')" "mach_ok m'" "confined m1 m'"
      | pc r v m' where "exec (opCode ?i) ?i m1 = Inr (Inr (pc, r, v), m')" "unat r < 32" "mid m'" "confined m1 m'"
      by (rule outcome_cases)
    then have "\<exists>r m'. Machine_OneInstruction m = Inr (r, m') \<and> mach_ok m' \<and> confined m1 m'"
    proof cases
      case 1
      then show ?thesis using rd(1) by (simp add: Machine_OneInstruction_def tbind_def Let_def)
    next
      case (2 pc r v m')
      obtain m2 where "Machine_DelayedLoad r v m' = Inr m2" "mach_ok (advance pc m2)" "mainMemory m2 = mainMemory m'"
          "va_phys m2 = va_phys m'" "pageTableSize m2 = pageTableSize m'"
        using DelayedLoad_mid [OF 2(3,2)] by blast
      moreover have "confined m1 (advance pc m2)"
        using confined_trans [OF 2(4), of m2] calculation(3,4,5) by (simp add: advance_def Let_def confined_same)
      ultimately show ?thesis using rd(1) 2(1) by (simp add: Machine_OneInstruction_def tbind_def Let_def)
    qed
    with confined_trans [OF m1(2)] show ?thesis by blast
  qed
qed simp

section \<open>Overflow\<close>

lemma sign_bit: "(w :: 32 word) AND SIGN_BIT \<noteq> 0 \<longleftrightarrow> bit w 31"
proof -
  have "SIGN_BIT = push_bit 31 1" by (simp add: SIGN_BIT_def)
  then show ?thesis by (metis (no_types) bit_iff_and_push_bit_not_eq_0)
qed

lemma bit31_sint: "bit (w :: 32 word) 31 \<longleftrightarrow> sint w < 0"
  using bit_last_iff [of w] by simp

lemma sign_differs: "((x :: 32 word) XOR y) AND SIGN_BIT \<noteq> 0 \<longleftrightarrow> (sint x < 0) \<noteq> (sint y < 0)"
  unfolding sign_bit bit31_sint [symmetric] by (simp add: bit_xor_iff)

text \<open>Reading the wrapped result back as a signed integer: the true value, give or take \<open>2 ^ 32\<close>.\<close>

lemma sint_wrap:
  assumes "w = (word_of_int i :: 32 word)" "- 4294967296 \<le> i" "i < 4294967296"
  shows "sint w = (if in_int i then i else if i < 0 then i + 4294967296 else i - 4294967296)"
proof -
  have eq: "(word_of_int (i + 4294967296) :: 32 word) = word_of_int i" "(word_of_int (i - 4294967296) :: 32 word) = word_of_int i"
    by simp_all
  have "sint w = i + 4294967296" if "in_int (i + 4294967296)"
    using sint_of_int [OF that] unfolding eq assms(1) .
  moreover have "sint w = i - 4294967296" if "in_int (i - 4294967296)"
    using sint_of_int [OF that] unfolding eq assms(1) .
  ultimately show ?thesis using assms(2,3) sint_of_int [of i] unfolding assms(1) by (auto simp: in_int_def)
qed

lemma sint_bounds: "- 2147483648 \<le> sint (w :: 32 word)" "sint (w :: 32 word) < 2147483648"
  using in_int_sint [of w] by (simp_all add: in_int_def)

lemma add_overflow_test:
  "(((a :: 32 word) XOR b) AND SIGN_BIT = 0 \<and> (a XOR (a + b)) AND SIGN_BIT \<noteq> 0) \<longleftrightarrow> \<not> in_int (sint a + sint b)"
proof -
  have w: "a + b = word_of_int (sint a + sint b)" by simp
  show ?thesis
    using sint_wrap [OF w] sint_bounds [of a] sint_bounds [of b] sign_differs [of a b] sign_differs [of a "a + b"]
    by (auto simp: in_int_def split: if_splits)
qed

lemma sub_overflow_test:
  "(((a :: 32 word) XOR b) AND SIGN_BIT \<noteq> 0 \<and> (a XOR (a - b)) AND SIGN_BIT \<noteq> 0) \<longleftrightarrow> \<not> in_int (sint a - sint b)"
proof -
  have w: "a - b = word_of_int (sint a - sint b)" by simp
  show ?thesis
    using sint_wrap [OF w] sint_bounds [of a] sint_bounds [of b] sign_differs [of a b] sign_differs [of a "a - b"]
    by (auto simp: in_int_def split: if_splits)
qed

section \<open>Multiplication is the double-length product\<close>

definition cat64 :: "32 word \<Rightarrow> 32 word \<Rightarrow> 64 word" where
  "cat64 hi lo = word_of_int (uint hi * 4294967296 + uint lo)"

lemma wrap64:
  assumes "x = y + k * 18446744073709551616"
  shows "(word_of_int x :: 64 word) = word_of_int y"
proof -
  have z: "(18446744073709551616 :: 64 word) = 0" by simp
  show ?thesis unfolding assms of_int_add of_int_mult of_int_numeral z by simp
qed

lemma uint_lt32: "uint (w :: 32 word) < 4294967296"
  using unsigned_less [of w, where 'a = int] by simp

lemma uint_add32: "uint (a + b :: 32 word) = uint a + uint b - (if uint a + uint b < 4294967296 then 0 else 4294967296)"
  by (simp add: uint_plus_if')

lemma uint_add32_ex: "\<exists>k. uint (a + b :: 32 word) = uint a + uint b - k * 4294967296"
  unfolding uint_add32
  by (rule exI [of _ "if uint a + uint b < 4294967296 then 0 else 1"]) simp

lemma carry_iff: "(a + b :: 32 word) < b \<longleftrightarrow> \<not> uint a + uint b < 4294967296"
  using uint_add32 [of a b] uint_lt32 [of a] uint_lt32 [of b] by (auto simp: word_less_def split: if_splits)

lemma cat64_add:
  "cat64 (hi + (if lo + bLo < bLo then 1 else 0) + bHi) (lo + bLo) = cat64 hi lo + cat64 bHi bLo"
proof -
  define c where "c = (if uint lo + uint bLo < 4294967296 then 0 else 1 :: int)"
  have c: "uint (if lo + bLo < bLo then 1 else 0 :: 32 word) = c" by (simp add: carry_iff c_def)
  define h where "h = hi + (if lo + bLo < bLo then 1 else 0)"
  obtain k1 where k1: "uint h = uint hi + c - k1 * 4294967296"
    using uint_add32_ex [of hi "if lo + bLo < bLo then 1 else 0"] unfolding h_def c by blast
  obtain k2 where k2: "uint (h + bHi) = uint h + uint bHi - k2 * 4294967296"
    using uint_add32_ex [of h bHi] by blast
  have l: "uint (lo + bLo) = uint lo + uint bLo - c * 4294967296" using uint_add32 [of lo bLo] by (simp add: c_def)
  have "uint (h + bHi) * 4294967296 + uint (lo + bLo) =
      ((uint hi * 4294967296 + uint lo) + (uint bHi * 4294967296 + uint bLo)) + (- k1 - k2) * 18446744073709551616"
    unfolding k2 k1 l by (simp add: algebra_simps)
  from wrap64 [OF this] show ?thesis unfolding cat64_def h_def [symmetric] by (simp only: of_int_add)
qed

lemma top_bit_carry: "(b :: 32 word) AND 0x80000000 \<noteq> 0 \<longleftrightarrow> b + b < b"
proof -
  have "bit b 31 \<longleftrightarrow> odd (uint b div 2147483648)"
    using bit_iff_odd [of "uint b" 31] by (simp add: bit_uint_iff)
  also have "\<dots> \<longleftrightarrow> 2147483648 \<le> uint b"
  proof (cases "uint b < 2147483648")
    case False
    then have "uint b div 2147483648 = 1 + (uint b - 2147483648) div 2147483648" by simp
    moreover have "(uint b - 2147483648) div 2147483648 = 0"
      using False uint_lt32 [of b] by (intro div_pos_pos_trivial) auto
    ultimately show ?thesis using False by simp
  qed (simp add: div_pos_pos_trivial)
  finally show ?thesis using sign_bit [of b] carry_iff [of b b] by (simp add: SIGN_BIT_def not_less)
qed

lemma double_word: "push_bit 1 (b :: 32 word) = b + b" "push_bit 1 b OR 1 = b + b + 1"
proof -
  show d: "push_bit 1 b = b + b" by (simp add: push_bit_eq_mult)
  show "push_bit 1 b OR 1 = b + b + 1" unfolding d or_one_eq by (simp flip: mult_2)
qed

lemma cat64_double:
  "cat64 (if bLo AND 0x80000000 \<noteq> 0 then push_bit 1 bHi OR 1 else push_bit 1 bHi) (push_bit 1 bLo) = 2 * cat64 bHi bLo"
proof -
  have "(if bLo AND 0x80000000 \<noteq> 0 then push_bit 1 bHi OR 1 else push_bit 1 bHi) = bHi + (if bLo + bLo < bLo then 1 else 0) + bHi"
    unfolding top_bit_carry double_word(1) [of bHi, symmetric]
    using double_word [of bHi] by (simp add: add.commute add.left_commute)
  with cat64_add [of bHi bLo bLo bHi] show ?thesis unfolding double_word(1) [of bLo] by (simp only: mult_2)
qed

lemma cat64_neg: "cat64 (if NOT lo + 1 = 0 then NOT hi + 1 else NOT hi) (NOT lo + 1) = - cat64 hi lo"
proof -
  have n: "NOT lo + 1 = - lo" "NOT hi + 1 = - hi" by (simp_all add: minus_eq_not_plus_1)
  have neg: "uint (- x :: 32 word) = (if x = 0 then 0 else 4294967296 - uint x)" for x
    using uint_lt32 [of x] by (simp add: uint_word_ariths zmod_zminus1_eq_if uint_0_iff)
  have nh: "uint (NOT hi) = 4294967295 - uint hi" 
  proof -
    have "uint (NOT hi) = - (uint hi + 1) mod 4294967296"
      using unsigned_not_eq [of hi, where 'a = int] by (simp add: take_bit_eq_mod not_int_def)
    also have "\<dots> = 4294967295 - uint hi" using uint_lt32 [of hi] by (subst minus_mod_int_eq) simp_all
    finally show ?thesis .
  qed
  show ?thesis
  proof (cases "lo = 0")
    case True
    obtain k where "uint (- hi) = - uint hi + k * 4294967296"
      using neg [of hi] by (cases "hi = 0") (auto intro: that [of 0] that [of 1])
    then have "uint (- hi) * 4294967296 + uint (- lo) = - (uint hi * 4294967296 + uint lo) + k * 18446744073709551616"
      using True by (simp add: algebra_simps)
    from wrap64 [OF this] show ?thesis using True unfolding cat64_def n by simp
  next
    case False
    then have "uint (NOT hi) * 4294967296 + uint (- lo) =
        - (uint hi * 4294967296 + uint lo) + 1 * 18446744073709551616"
      unfolding nh neg by (simp add: algebra_simps)
    from wrap64 [OF this] show ?thesis using False unfolding cat64_def n by simp
  qed
qed

text \<open>The loop adds the multiplicand once for each of the remaining low bits of \<open>a\<close>.\<close>

lemma low_bits_step:
  assumes "n < 32"
  shows "take_bit (Suc n) (uint a) = of_bool (a AND 1 \<noteq> 0) + 2 * take_bit n (uint (signed_drop_bit 1 (a :: 32 word)))"
proof -
  have one: "a AND 1 \<noteq> 0 \<longleftrightarrow> bit a 0" by (simp add: bit_iff_and_push_bit_not_eq_0)
  have "take_bit n (uint (signed_drop_bit 1 a)) = take_bit n (drop_bit 1 (uint a))"
    using assms by (intro bit_eqI) (auto simp: bit_simps)
  moreover have "take_bit (Suc n) (uint a) = of_bool (bit (uint a) 0) + 2 * take_bit n (drop_bit 1 (uint a))"
    by (simp add: take_bit_Suc mod2_eq_if drop_bit_eq_div bit_0)
  ultimately show ?thesis unfolding one by (simp add: bit_uint_iff)
qed

lemma break_iff: "(a :: 32 word) AND 1 \<noteq> 0 \<Longrightarrow> a AND 0xfffffffe = 0 \<Longrightarrow> a = 1"
proof -
  assume one: "a AND 1 \<noteq> 0" and rest: "a AND 0xfffffffe = 0"
  have "(0xfffffffe :: 32 word) = NOT 1" by simp
  then have "a = (a AND 1) OR (a AND 0xfffffffe)" by (metis bit.conj_disj_distrib bit.disj_cancel_right word_bw_same(1) and.right_neutral)
  then have "a = a AND 1" using rest by simp
  with one show "a = 1" by (metis and_one_eq of_bool_eq(1) of_bool_eq(2) mod2_eq_if odd_iff_mod_2_eq_one)
qed

lemma Mult_loop_cat:
  assumes "n \<le> 32"
  shows "(case Mult_loop n a bLo bHi lo hi of (h, l) \<Rightarrow> cat64 h l) =
    cat64 hi lo + word_of_int (take_bit n (uint a)) * cat64 bHi bLo"
  using assms
proof (induction n arbitrary: a bLo bHi lo hi)
  case (Suc n)
  let ?a = "signed_drop_bit 1 a" and ?bLo = "push_bit 1 bLo"
  let ?bHi = "if bLo AND 0x80000000 \<noteq> 0 then push_bit 1 bHi OR 1 else push_bit 1 bHi"
  let ?lo = "lo + bLo" and ?hi = "hi + (if lo + bLo < bLo then 1 else 0) + bHi"
  have n: "n \<le> 32" "n < 32" using Suc.prems by auto
  note IH = Suc.IH [OF n(1), of ?a ?bLo ?bHi]
  note bits = low_bits_step [OF n(2), of a]
  show ?case
  proof (cases "a AND 1 \<noteq> 0")
    case True
    have add: "cat64 ?hi ?lo = cat64 hi lo + cat64 bHi bLo" by (rule cat64_add)
    show ?thesis
    proof (cases "a AND 0xfffffffe = 0")
      case brk: True
      have "a = 1" by (rule break_iff [OF True brk])
      then have "take_bit (Suc n) (uint a) = 1" by simp
      with True brk add show ?thesis by (auto simp: Let_def split: if_splits)
    next
      case False
      have "(case Mult_loop (Suc n) a bLo bHi lo hi of (h, l) \<Rightarrow> cat64 h l) =
          (case Mult_loop n ?a ?bLo ?bHi ?lo ?hi of (h, l) \<Rightarrow> cat64 h l)"
        using True False by (simp add: Let_def)
      also have "\<dots> = cat64 hi lo + cat64 bHi bLo + word_of_int (take_bit n (uint ?a)) * (2 * cat64 bHi bLo)"
        unfolding IH add cat64_double ..
      finally show ?thesis using True unfolding bits by (simp add: algebra_simps)
    qed
  next
    case False
    then have "(case Mult_loop (Suc n) a bLo bHi lo hi of (h, l) \<Rightarrow> cat64 h l) =
        (case Mult_loop n ?a ?bLo ?bHi lo hi of (h, l) \<Rightarrow> cat64 h l)"
      by (simp add: Let_def)
    also have "\<dots> = cat64 hi lo + word_of_int (take_bit n (uint ?a)) * (2 * cat64 bHi bLo)"
      unfolding IH cat64_double ..
    finally show ?thesis using False unfolding bits by (simp add: algebra_simps)
  qed
qed simp

lemma Mult_core: "(case Mult_loop 32 a b 0 0 0 of (h, l) \<Rightarrow> cat64 h l) = word_of_int (uint a * uint b)"
proof -
  have "take_bit 32 (uint a) = uint a" using uint_lt32 [of a] by (simp add: take_bit_eq_mod)
  with Mult_loop_cat [of 32 a b 0 0 0] show ?thesis by (simp add: cat64_def)
qed

lemma uint_small: "0 \<le> i \<Longrightarrow> i < 4294967296 \<Longrightarrow> uint (word_of_int i :: 32 word) = i"
  by (simp add: uint_word_of_int)

lemma uint_abs: "sint (a :: 32 word) < 0 \<Longrightarrow> uint (- a) = - sint a" "0 \<le> sint a \<Longrightarrow> uint a = sint a"
proof -
  have w: "a = word_of_int (sint a)" "- a = word_of_int (- sint a)" by simp_all
  show "uint (- a) = - sint a" if "sint a < 0"
    using that sint_bounds [of a] unfolding w(2) by (intro uint_small) auto
  show "uint a = sint a" if "0 \<le> sint a"
    using that sint_bounds [of a] uint_small [of "sint a"] w(1) by simp
qed

lemma Mult_product:
  "(case Mult a b s of (hi, lo) \<Rightarrow> cat64 hi lo) =
    word_of_int (if s then sint a * sint b else uint a * uint b)"
proof (cases "a = 0 \<or> b = 0")
  case True
  then show ?thesis by (auto simp: Mult_def cat64_def)
next
  case nz: False
  define na nb where "na \<longleftrightarrow> s \<and> sint a < 0" and "nb \<longleftrightarrow> s \<and> sint b < 0"
  let ?a = "if na then - a else a" and ?b = "if nb then - b else b"
  obtain hi lo where loop: "Mult_loop 32 ?a ?b 0 0 0 = (hi, lo)" by fastforce
  have core: "cat64 hi lo = word_of_int (uint ?a * uint ?b)" using Mult_core [of ?a ?b] loop by simp
  have "Mult a b s = (if na \<noteq> nb then (if NOT lo + 1 = 0 then NOT hi + 1 else NOT hi, NOT lo + 1) else (hi, lo))"
    using nz loop by (auto simp: Mult_def Let_def na_def nb_def word_sless_alt split: if_splits prod.splits)
  then have "(case Mult a b s of (hi, lo) \<Rightarrow> cat64 hi lo) = (if na \<noteq> nb then - cat64 hi lo else cat64 hi lo)"
    using cat64_neg by simp
  also have "\<dots> = word_of_int ((if na \<noteq> nb then - 1 else 1) * (uint ?a * uint ?b))"
    unfolding core by simp
  also have "(if na \<noteq> nb then - 1 else 1) * (uint ?a * uint ?b) = (if s then sint a * sint b else uint a * uint b)"
    using uint_abs [of a] uint_abs [of b] by (auto simp: na_def nb_def not_less)
  finally show ?thesis .
qed
section \<open>Unaligned words\<close>

lemmas merge_defs = lwl_merge_def lwr_merge_def swl_merge_def swr_merge_def Let_def bytes_word_def

lemma merge_masks: "(0xff :: 32 word) = mask 8" "(0xffff :: 32 word) = mask 16" "(0xffffff :: 32 word) = mask 24"
    "(0xffffff00 :: 32 word) = NOT (mask 8)" "(0xffff0000 :: 32 word) = NOT (mask 16)" "(0xff000000 :: 32 word) = NOT (mask 24)"
  by (simp_all add: mask_eq_exp_minus_1)

lemma unaligned_loads:
  fixes b0 b1 b2 b3 b4 b5 b6 b7 :: byte
  shows "lwl_merge 0 (lwr_merge 1 old (bytes_word b0 b1 b2 b3)) (bytes_word b4 b5 b6 b7) = bytes_word b1 b2 b3 b4"
    "lwl_merge 1 (lwr_merge 2 old (bytes_word b0 b1 b2 b3)) (bytes_word b4 b5 b6 b7) = bytes_word b2 b3 b4 b5"
    "lwl_merge 2 (lwr_merge 3 old (bytes_word b0 b1 b2 b3)) (bytes_word b4 b5 b6 b7) = bytes_word b3 b4 b5 b6"
  by (rule bit_word_eqI; auto simp: merge_defs merge_masks bit_simps dest: bit_imp_le_length; fail)+

lemma unaligned_stores:
  fixes b0 b1 b2 b3 b4 b5 b6 b7 r0 r1 r2 r3 :: byte
  defines "r \<equiv> bytes_word r0 r1 r2 r3"
  shows "swr_merge 1 r (bytes_word b0 b1 b2 b3) = bytes_word b0 r0 r1 r2" "swl_merge 0 r (bytes_word b4 b5 b6 b7) = bytes_word r3 b5 b6 b7"
    "swr_merge 2 r (bytes_word b0 b1 b2 b3) = bytes_word b0 b1 r0 r1" "swl_merge 1 r (bytes_word b4 b5 b6 b7) = bytes_word r2 r3 b6 b7"
    "swr_merge 3 r (bytes_word b0 b1 b2 b3) = bytes_word b0 b1 b2 r0" "swl_merge 2 r (bytes_word b4 b5 b6 b7) = bytes_word r1 r2 r3 b7"
  unfolding r_def
  by (rule bit_word_eqI; auto simp: merge_defs merge_masks bit_simps dest: bit_imp_le_length; fail)+

section \<open>Properties\<close>



text \<open>
  C30. \<^verbatim>\<open>Mult\<close> is multiplication: the words it leaves in Hi and Lo are the 64-bit product of its operands,
  read as signed or as unsigned integers, the most negative integer included.
\<close>

theorem Mult_is_product:
  "case Mult a b signedArith of (hi, lo) \<Rightarrow>
     uint hi * 2 ^ 32 + uint lo = (if signedArith then sint a * sint b else uint a * uint b) mod 2 ^ 64"
proof (cases "Mult a b signedArith")
  case (Pair hi lo)
  have "uint (cat64 hi lo) = uint hi * 2 ^ 32 + uint lo"
    using uint_lt32 [of hi] uint_lt32 [of lo] uint_ge_0 [of hi] uint_ge_0 [of lo]
    unfolding cat64_def uint_word_of_int by (simp add: take_bit_eq_mod)
  moreover have "uint (cat64 hi lo) = (if signedArith then sint a * sint b else uint a * uint b) mod 2 ^ 64"
    using Mult_product [of a b signedArith] Pair by (simp add: uint_word_of_int)
  ultimately show ?thesis using Pair by simp
qed

text \<open>
  C31. Signed overflow is detected exactly: \<^verbatim>\<open>ADD\<close>, \<^verbatim>\<open>ADDI\<close> and \<^verbatim>\<open>SUB\<close> trap, leaving the target register alone,
  if and only if the true result does not fit 32 bits; otherwise the target gets the true result.
\<close>

theorem overflow_exact:
  assumes "mach_ok m" "i_rs i < 32" "i_rt i < 32" "i_rd i < 32"
  shows "(if in_int (sint (reg m (i_rs i)) + sint (reg m (i_rt i)))
      then exec OP_ADD i m = fin (set_reg (i_rd i) (word_of_int (sint (reg m (i_rs i)) + sint (reg m (i_rt i)))) m)
      else exec OP_ADD i m = Machine_RaiseException OverflowException 0 m) \<and>
    (if in_int (sint (reg m (i_rs i)) + sint (extra i))
      then exec OP_ADDI i m = fin (set_reg (i_rt i) (word_of_int (sint (reg m (i_rs i)) + sint (extra i))) m)
      else exec OP_ADDI i m = Machine_RaiseException OverflowException 0 m) \<and>
    (if in_int (sint (reg m (i_rs i)) - sint (reg m (i_rt i)))
      then exec OP_SUB i m = fin (set_reg (i_rd i) (word_of_int (sint (reg m (i_rs i)) - sint (reg m (i_rt i)))) m)
      else exec OP_SUB i m = Machine_RaiseException OverflowException 0 m)"
proof -
  have comm: "(x XOR y) AND SIGN_BIT = 0 \<longleftrightarrow> (y XOR x) AND SIGN_BIT = 0" for x y :: "32 word" by (simp add: xor.commute)
  have "((a XOR e) AND SIGN_BIT = 0 \<and> (e XOR (a + e)) AND SIGN_BIT \<noteq> 0) = (\<not> in_int (sint a + sint e))" for a e :: "32 word"
    using add_overflow_test [of e a] comm [of a e] by (simp add: add.commute)
  then show ?thesis
    using add_overflow_test sub_overflow_test by (simp add: exec_ADD_def exec_ADDI_def exec_SUB_def Let_def)
qed

theorem overflow_exact_witness:
  "exec OP_ADD \<lparr>opCode = OP_ADD, i_rs = 1, i_rt = 2, i_rd = 3, extra = 0\<rparr> (set_reg 2 7 example_machine) =
     fin (set_reg 3 7 (set_reg 2 7 example_machine))"
proof -
  have "mach_ok (set_reg 2 7 example_machine)"
    by (simp add: mach_ok_def set_reg_def example_machine_def reg_numbers)
  moreover have "reg (set_reg 2 7 example_machine) 1 = 0" "reg (set_reg 2 7 example_machine) 2 = 7"
    by (simp_all add: set_reg_def example_machine_def)
  ultimately show ?thesis
    using overflow_exact [of "set_reg 2 7 example_machine" "\<lparr>opCode = OP_ADD, i_rs = 1, i_rt = 2, i_rd = 3, extra = 0\<rparr>"]
    by (simp add: in_int_def)
qed



text \<open>
  C33. \<^verbatim>\<open>SRL\<close> is not a logical shift: it shifts a signed integer, so on a negative register and a shift of
  at least one the sign bit is copied in and the result is not the logical shift of the word.
\<close>

theorem SRL_shifts_sign:
  assumes "sint (reg m (i_rt i)) < 0" "0 < unat (extra i)" "unat (extra i) < 32"
  shows "exec OP_SRL i m = put_rd i (signed_drop_bit (unat (extra i)) (reg m (i_rt i))) m \<and>
    signed_drop_bit (unat (extra i)) (reg m (i_rt i)) \<noteq> drop_bit (unat (extra i)) (reg m (i_rt i))"
proof -
  have b: "bit (reg m (i_rt i)) 31" using assms(1) by (simp add: bit31_sint)
  have "bit (signed_drop_bit (unat (extra i)) (reg m (i_rt i))) 31" using b assms(2) by (auto simp: bit_simps)
  moreover have "\<not> bit (drop_bit (unat (extra i)) (reg m (i_rt i))) 31"
    using assms(2) bit_imp_le_length [of "reg m (i_rt i)" "unat (extra i) + 31"] by (auto simp: bit_simps)
  ultimately show ?thesis by auto
qed

theorem SRL_shifts_sign_witness:
  "exec OP_SRL \<lparr>opCode = OP_SRL, i_rs = 0, i_rt = 2, i_rd = 3, extra = 1\<rparr> (set_reg 2 (- 2) example_machine) =
     fin (set_reg 3 (- 1) (set_reg 2 (- 2) example_machine))"
proof -
  have "reg (set_reg 2 (- 2) example_machine) 2 = - 2" by (simp add: set_reg_def example_machine_def)
  then show ?thesis
    using SRL_shifts_sign [of "set_reg 2 (- 2) example_machine" "\<lparr>opCode = OP_SRL, i_rs = 0, i_rt = 2, i_rd = 3, extra = 1\<rparr>"]
    by (simp add: put_rd_def)
qed

end
