(* ===== verification/Disasm.thy ===== *)
theory Disasm
  imports MipsSim
begin

text \<open>
  Printing instructions for debugging (the \<^verbatim>\<open>'m'\<close> flag of \<^verbatim>\<open>OneInstruction\<close>): the opcode numbers and the
  table of format strings of \<^verbatim>\<open>machine/mipssim.h\<close>, \<^verbatim>\<open>TypeToReg\<close>, and the arguments each line prints.
\<close>

datatype RegType = NONE | RS | RT | RD | EXTRA

definition opStrings :: "(string \<times> RegType list) list" where
  "opStrings =
    [(''Shouldn'' @ [CHR 0x27] @ ''t happen'', [NONE, NONE, NONE]),
     (''ADD r%d,r%d,r%d'', [RD, RS, RT]),
     (''ADDI r%d,r%d,%d'', [RT, RS, EXTRA]),
     (''ADDIU r%d,r%d,%d'', [RT, RS, EXTRA]),
     (''ADDU r%d,r%d,r%d'', [RD, RS, RT]),
     (''AND r%d,r%d,r%d'', [RD, RS, RT]),
     (''ANDI r%d,r%d,%d'', [RT, RS, EXTRA]),
     (''BEQ r%d,r%d,%d'', [RS, RT, EXTRA]),
     (''BGEZ r%d,%d'', [RS, EXTRA, NONE]),
     (''BGEZAL r%d,%d'', [RS, EXTRA, NONE]),
     (''BGTZ r%d,%d'', [RS, EXTRA, NONE]),
     (''BLEZ r%d,%d'', [RS, EXTRA, NONE]),
     (''BLTZ r%d,%d'', [RS, EXTRA, NONE]),
     (''BLTZAL r%d,%d'', [RS, EXTRA, NONE]),
     (''BNE r%d,r%d,%d'', [RS, RT, EXTRA]),
     (''Shouldn'' @ [CHR 0x27] @ ''t happen'', [NONE, NONE, NONE]),
     (''DIV r%d,r%d'', [RS, RT, NONE]),
     (''DIVU r%d,r%d'', [RS, RT, NONE]),
     (''J %d'', [EXTRA, NONE, NONE]),
     (''JAL %d'', [EXTRA, NONE, NONE]),
     (''JALR r%d,r%d'', [RD, RS, NONE]),
     (''JR r%d,r%d'', [RD, RS, NONE]),
     (''LB r%d,%d(r%d)'', [RT, EXTRA, RS]),
     (''LBU r%d,%d(r%d)'', [RT, EXTRA, RS]),
     (''LH r%d,%d(r%d)'', [RT, EXTRA, RS]),
     (''LHU r%d,%d(r%d)'', [RT, EXTRA, RS]),
     (''LUI r%d,%d'', [RT, EXTRA, NONE]),
     (''LW r%d,%d(r%d)'', [RT, EXTRA, RS]),
     (''LWL r%d,%d(r%d)'', [RT, EXTRA, RS]),
     (''LWR r%d,%d(r%d)'', [RT, EXTRA, RS]),
     (''Shouldn'' @ [CHR 0x27] @ ''t happen'', [NONE, NONE, NONE]),
     (''MFHI r%d'', [RD, NONE, NONE]),
     (''MFLO r%d'', [RD, NONE, NONE]),
     (''Shouldn'' @ [CHR 0x27] @ ''t happen'', [NONE, NONE, NONE]),
     (''MTHI r%d'', [RS, NONE, NONE]),
     (''MTLO r%d'', [RS, NONE, NONE]),
     (''MULT r%d,r%d'', [RS, RT, NONE]),
     (''MULTU r%d,r%d'', [RS, RT, NONE]),
     (''NOR r%d,r%d,r%d'', [RD, RS, RT]),
     (''OR r%d,r%d,r%d'', [RD, RS, RT]),
     (''ORI r%d,r%d,%d'', [RT, RS, EXTRA]),
     (''RFE'', [NONE, NONE, NONE]),
     (''SB r%d,%d(r%d)'', [RT, EXTRA, RS]),
     (''SH r%d,%d(r%d)'', [RT, EXTRA, RS]),
     (''SLL r%d,r%d,%d'', [RD, RT, EXTRA]),
     (''SLLV r%d,r%d,r%d'', [RD, RT, RS]),
     (''SLT r%d,r%d,r%d'', [RD, RS, RT]),
     (''SLTI r%d,r%d,%d'', [RT, RS, EXTRA]),
     (''SLTIU r%d,r%d,%d'', [RT, RS, EXTRA]),
     (''SLTU r%d,r%d,r%d'', [RD, RS, RT]),
     (''SRA r%d,r%d,%d'', [RD, RT, EXTRA]),
     (''SRAV r%d,r%d,r%d'', [RD, RT, RS]),
     (''SRL r%d,r%d,%d'', [RD, RT, EXTRA]),
     (''SRLV r%d,r%d,r%d'', [RD, RT, RS]),
     (''SUB r%d,r%d,r%d'', [RD, RS, RT]),
     (''SUBU r%d,r%d,r%d'', [RD, RS, RT]),
     (''SW r%d,%d(r%d)'', [RT, EXTRA, RS]),
     (''SWL r%d,%d(r%d)'', [RT, EXTRA, RS]),
     (''SWR r%d,%d(r%d)'', [RT, EXTRA, RS]),
     (''XOR r%d,r%d,r%d'', [RD, RS, RT]),
     (''XORI r%d,r%d,%d'', [RT, RS, EXTRA]),
     (''SYSCALL'', [NONE, NONE, NONE]),
     (''Unimplemented'', [NONE, NONE, NONE]),
     (''Reserved'', [NONE, NONE, NONE])]"

text \<open>The opcode numbers; \<open>SPECIAL\<close> and \<open>BCOND\<close> are 100 and 101.\<close>

primrec op_num :: "opcode \<Rightarrow> nat" where
  "op_num OP_ADD = 1"
| "op_num OP_ADDI = 2"
| "op_num OP_ADDIU = 3"
| "op_num OP_ADDU = 4"
| "op_num OP_AND = 5"
| "op_num OP_ANDI = 6"
| "op_num OP_BEQ = 7"
| "op_num OP_BGEZ = 8"
| "op_num OP_BGEZAL = 9"
| "op_num OP_BGTZ = 10"
| "op_num OP_BLEZ = 11"
| "op_num OP_BLTZ = 12"
| "op_num OP_BLTZAL = 13"
| "op_num OP_BNE = 14"
| "op_num OP_DIV = 16"
| "op_num OP_DIVU = 17"
| "op_num OP_J = 18"
| "op_num OP_JAL = 19"
| "op_num OP_JALR = 20"
| "op_num OP_JR = 21"
| "op_num OP_LB = 22"
| "op_num OP_LBU = 23"
| "op_num OP_LH = 24"
| "op_num OP_LHU = 25"
| "op_num OP_LUI = 26"
| "op_num OP_LW = 27"
| "op_num OP_LWL = 28"
| "op_num OP_LWR = 29"
| "op_num OP_MFHI = 31"
| "op_num OP_MFLO = 32"
| "op_num OP_MTHI = 34"
| "op_num OP_MTLO = 35"
| "op_num OP_MULT = 36"
| "op_num OP_MULTU = 37"
| "op_num OP_NOR = 38"
| "op_num OP_OR = 39"
| "op_num OP_ORI = 40"
| "op_num OP_RFE = 41"
| "op_num OP_SB = 42"
| "op_num OP_SH = 43"
| "op_num OP_SLL = 44"
| "op_num OP_SLLV = 45"
| "op_num OP_SLT = 46"
| "op_num OP_SLTI = 47"
| "op_num OP_SLTIU = 48"
| "op_num OP_SLTU = 49"
| "op_num OP_SRA = 50"
| "op_num OP_SRAV = 51"
| "op_num OP_SRL = 52"
| "op_num OP_SRLV = 53"
| "op_num OP_SUB = 54"
| "op_num OP_SUBU = 55"
| "op_num OP_SW = 56"
| "op_num OP_SWL = 57"
| "op_num OP_SWR = 58"
| "op_num OP_XOR = 59"
| "op_num OP_XORI = 60"
| "op_num OP_SYSCALL = 61"
| "op_num OP_UNIMP = 62"
| "op_num OP_RES = 63"
| "op_num SPECIAL = 100"
| "op_num BCOND = 101"

definition MaxOpcode :: nat where "MaxOpcode = 63"

fun TypeToReg :: "RegType \<Rightarrow> instruction \<Rightarrow> int" where
  "TypeToReg RS i = int (i_rs i)"
| "TypeToReg RT i = int (i_rt i)"
| "TypeToReg RD i = int (i_rd i)"
| "TypeToReg EXTRA i = sint (extra i)"
| "TypeToReg NONE i = -1"

text \<open>The debug line: the index into the table comes before the assertion on it.\<close>

definition print_instr :: "instruction \<Rightarrow> (string \<times> int list) res" where
  "print_instr i =
     rbind (aget opStrings (int (op_num (opCode i)))) (\<lambda>(fmt, args).
     rbind (assert (op_num (opCode i) \<le> MaxOpcode)) (\<lambda>_.
     Inr (fmt, map (\<lambda>t. TypeToReg t i) args)))"

text \<open>How many integers a format asks for.\<close>

definition conversions :: "string \<Rightarrow> nat" where
  "conversions fmt = length (filter (\<lambda>c. c = CHR ''%'') fmt)"

lemma opStrings_table:
  "length opStrings = 64"
  "\<forall>e \<in> set opStrings. length (snd e) = 3 \<and> conversions (fst e) = length (takeWhile (\<lambda>t. t \<noteq> NONE) (snd e))"
  by (simp_all add: opStrings_def conversions_def)

lemma op_num_le: "op \<notin> {SPECIAL, BCOND} \<Longrightarrow> op_num op \<le> 63"
  by (cases op) simp_all

text \<open>
  The debug output is sound for every decoded instruction: the table lookup is in range, the opcode
  assertion holds, and the format asks for no more integers than are meant for it, those before the
  first \<^verbatim>\<open>NONE\<close>, each a register field or the sign-extended immediate of the instruction.
\<close>

lemma print_instr_sound:
  "\<exists>fmt args. print_instr (Instruction_Decode w) = Inr (fmt, map (\<lambda>t. TypeToReg t (Instruction_Decode w)) args) \<and>
     length args = 3 \<and> conversions fmt \<le> 3 \<and> NONE \<notin> set (take (conversions fmt) args)"
proof -
  let ?n = "op_num (opCode (Instruction_Decode w))"
  have n: "?n \<le> 63" using Decode_opcode [of w] by (intro op_num_le) auto
  obtain fmt args where e: "opStrings ! ?n = (fmt, args)" by fastforce
  have "opStrings ! ?n \<in> set opStrings" using n opStrings_table(1) by simp
  with opStrings_table(2) e have t: "length args = 3" "conversions fmt = length (takeWhile (\<lambda>t. t \<noteq> NONE) args)" by auto
  have "set (take (conversions fmt) args) \<subseteq> {t. t \<noteq> NONE}"
    unfolding t(2) takeWhile_eq_take [symmetric] by (auto dest: set_takeWhileD)
  moreover have "conversions fmt \<le> 3" using t length_takeWhile_le [of "\<lambda>t. t \<noteq> NONE" args] by simp
  ultimately show ?thesis using n e t(1) opStrings_table(1) by (auto simp: print_instr_def MaxOpcode_def)
qed

end
