(* ===== verification/Host.thy ===== *)
theory Host
  imports Bytes
begin

text \<open>
  The host interface of \<^verbatim>\<open>lib/sysdep.cc\<close> and the stub file system built on it (\<^verbatim>\<open>FILESYS_STUB\<close>: the first
  halves of \<^verbatim>\<open>filesys/openfile.h\<close> and \<^verbatim>\<open>filesys/filesys.h\<close>), which is the file system the build uses.

  The Unix calls themselves are parameters: a record of functions on a host state of any type.  What a
  property needs of them is a named hypothesis on that record, stated as the manual pages do.
\<close>

section \<open>The calls of the host\<close>

record 'h unix =
  u_open :: "byte list \<Rightarrow> int \<Rightarrow> 'h \<Rightarrow> int \<times> 'h"            \<comment> \<open>name, flags\<close>
  u_close :: "int \<Rightarrow> 'h \<Rightarrow> int \<times> 'h"
  u_lseek :: "int \<Rightarrow> int \<Rightarrow> int \<Rightarrow> 'h \<Rightarrow> int \<times> 'h"        \<comment> \<open>descriptor, offset, whence\<close>
  u_read :: "int \<Rightarrow> int \<Rightarrow> 'h \<Rightarrow> (int \<times> byte list) \<times> 'h" \<comment> \<open>descriptor, count\<close>
  u_write :: "int \<Rightarrow> byte list \<Rightarrow> 'h \<Rightarrow> int \<times> 'h"
  u_unlink :: "byte list \<Rightarrow> 'h \<Rightarrow> int \<times> 'h"
  u_socket :: "'h \<Rightarrow> int \<times> 'h"                            \<comment> \<open>\<^verbatim>\<open>AF_INET, SOCK_STREAM\<close>\<close>
  u_connect :: "int \<Rightarrow> byte list \<Rightarrow> int \<Rightarrow> 'h \<Rightarrow> int \<times> 'h"  \<comment> \<open>socket, address, port\<close>
  u_send :: "int \<Rightarrow> byte list \<Rightarrow> 'h \<Rightarrow> int \<times> 'h"
  u_bind :: "int \<Rightarrow> int \<Rightarrow> 'h \<Rightarrow> int \<times> 'h"               \<comment> \<open>socket, port; any address\<close>
  u_listen :: "int \<Rightarrow> int \<Rightarrow> 'h \<Rightarrow> int \<times> 'h"
  u_accept :: "int \<Rightarrow> 'h \<Rightarrow> int \<times> 'h"

definition O_RDWR :: int where "O_RDWR = 2"
definition O_CREAT_TRUNC :: int where "O_CREAT_TRUNC = 0x240"

section \<open>\<^verbatim>\<open>sysdep.cc\<close>\<close>

definition OpenForWrite :: "'h unix \<Rightarrow> byte list \<Rightarrow> 'h \<Rightarrow> (int \<times> 'h) res" where
  "OpenForWrite U nm h =
     (let (fd, h) = u_open U nm (O_RDWR + O_CREAT_TRUNC) h in
      rbind (assert (fd \<ge> 0)) (\<lambda>_. Inr (fd, h)))"

definition OpenForReadWrite :: "'h unix \<Rightarrow> byte list \<Rightarrow> bool \<Rightarrow> 'h \<Rightarrow> (int \<times> 'h) res" where
  "OpenForReadWrite U nm crashOnError h =
     (let (fd, h) = u_open U nm O_RDWR h in
      rbind (assert (\<not> crashOnError \<or> fd \<ge> 0)) (\<lambda>_. Inr (fd, h)))"

text \<open>The bytes the host stores through a buffer pointer must fit the buffer.\<close>

definition fill :: "byte list \<Rightarrow> byte list \<Rightarrow> byte list res" where
  "fill buf data = (if length data \<le> length buf then Inr (splice_at 0 data buf) else Inl BadIndex)"

definition ReadPartial :: "'h unix \<Rightarrow> int \<Rightarrow> byte list \<Rightarrow> int \<Rightarrow> 'h \<Rightarrow> (int \<times> byte list \<times> 'h) res" where
  "ReadPartial U fd buf nBytes h =
     (let ((r, data), h) = u_read U fd nBytes h in
      rbind (fill buf data) (\<lambda>buf. Inr (r, buf, h)))"

definition Read_all :: "'h unix \<Rightarrow> int \<Rightarrow> byte list \<Rightarrow> int \<Rightarrow> 'h \<Rightarrow> (byte list \<times> 'h) res" where
  "Read_all U fd buf nBytes h =
     rbind (ReadPartial U fd buf nBytes h) (\<lambda>(r, buf, h).
     rbind (assert (r = nBytes)) (\<lambda>_. Inr (buf, h)))"

definition WriteFile :: "'h unix \<Rightarrow> int \<Rightarrow> byte list \<Rightarrow> int \<Rightarrow> 'h \<Rightarrow> 'h res" where
  "WriteFile U fd buf nBytes h =
     (if nBytes > int (length buf) then Inl BadIndex
      else
        let (r, h) = u_write U fd (take (nat nBytes) buf) h in
        rbind (assert (r = nBytes)) (\<lambda>_. Inr h))"

definition Lseek :: "'h unix \<Rightarrow> int \<Rightarrow> int \<Rightarrow> int \<Rightarrow> 'h \<Rightarrow> 'h res" where
  "Lseek U fd offset whence h =
     (let (r, h) = u_lseek U fd offset whence h in
      rbind (assert (r \<ge> 0)) (\<lambda>_. Inr h))"

definition Tell :: "'h unix \<Rightarrow> int \<Rightarrow> 'h \<Rightarrow> int \<times> 'h" where
  "Tell U fd h = u_lseek U fd 0 1 h"

definition Close :: "'h unix \<Rightarrow> int \<Rightarrow> 'h \<Rightarrow> (int \<times> 'h) res" where
  "Close U fd h =
     (let (r, h) = u_close U fd h in
      rbind (assert (r \<ge> 0)) (\<lambda>_. Inr (r, h)))"

text \<open>\<^verbatim>\<open>bool Unlink\<close>: the integer result of \<^verbatim>\<open>unlink\<close> becomes a boolean.\<close>

definition Unlink :: "'h unix \<Rightarrow> byte list \<Rightarrow> 'h \<Rightarrow> bool \<times> 'h" where
  "Unlink U nm h = (let (r, h) = u_unlink U nm h in (r \<noteq> 0, h))"

section \<open>Open files of the stub\<close>

text \<open>
  \<open>sf_name\<close> is the pointer \<^verbatim>\<open>filename\<close>: \<open>None\<close> when it does not point to live memory.  \<open>sf_type\<close> is
  \<open>None\<close> when the constructor left it uninitialised.
\<close>

record stubfile =
  sf_type :: "int option"
  sf_name :: "byte list option"
  sf_file :: int
  currentOffset :: int

definition StubFile_new :: "int \<Rightarrow> stubfile" where
  "StubFile_new f = \<lparr>sf_type = None, sf_name = None, sf_file = f, currentOffset = 0\<rparr>"

definition StubFile_new3 :: "int \<Rightarrow> int \<Rightarrow> byte list \<Rightarrow> stubfile" where
  "StubFile_new3 f t nm = \<lparr>sf_type = Some t, sf_name = Some nm, sf_file = f, currentOffset = 0\<rparr>"

definition StubFile_delete :: "'h unix \<Rightarrow> stubfile \<Rightarrow> 'h \<Rightarrow> 'h res" where
  "StubFile_delete U f h = rbind (Close U (sf_file f) h) (\<lambda>(_, h). Inr h)"

definition StubFile_ReadAt :: "'h unix \<Rightarrow> stubfile \<Rightarrow> byte list \<Rightarrow> int \<Rightarrow> int \<Rightarrow> 'h \<Rightarrow> (int \<times> byte list \<times> 'h) res" where
  "StubFile_ReadAt U f into num pos h =
     rbind (Lseek U (sf_file f) pos 0 h) (\<lambda>h. ReadPartial U (sf_file f) into num h)"

definition StubFile_WriteAt :: "'h unix \<Rightarrow> stubfile \<Rightarrow> byte list \<Rightarrow> int \<Rightarrow> int \<Rightarrow> 'h \<Rightarrow> (int \<times> 'h) res" where
  "StubFile_WriteAt U f src num pos h =
     rbind (Lseek U (sf_file f) pos 0 h) (\<lambda>h.
     rbind (WriteFile U (sf_file f) src num h) (\<lambda>h. Inr (num, h)))"

definition StubFile_Read :: "'h unix \<Rightarrow> stubfile \<Rightarrow> byte list \<Rightarrow> int \<Rightarrow> 'h \<Rightarrow> (int \<times> byte list \<times> stubfile \<times> 'h) res" where
  "StubFile_Read U f into num h =
     rbind (StubFile_ReadAt U f into num (currentOffset f) h) (\<lambda>(numRead, into, h).
     rbind (chk (currentOffset f + numRead)) (\<lambda>off.
     Inr (numRead, into, f\<lparr>currentOffset := off\<rparr>, h)))"

definition StubFile_Write :: "'h unix \<Rightarrow> stubfile \<Rightarrow> byte list \<Rightarrow> int \<Rightarrow> 'h \<Rightarrow> (int \<times> stubfile \<times> 'h) res" where
  "StubFile_Write U f src num h =
     rbind (StubFile_WriteAt U f src num (currentOffset f) h) (\<lambda>(numWritten, h).
     rbind (chk (currentOffset f + numWritten)) (\<lambda>off.
     Inr (numWritten, f\<lparr>currentOffset := off\<rparr>, h)))"

definition StubFile_Length :: "'h unix \<Rightarrow> stubfile \<Rightarrow> 'h \<Rightarrow> (int \<times> 'h) res" where
  "StubFile_Length U f h = rbind (Lseek U (sf_file f) 0 2 h) (\<lambda>h. Inr (Tell U (sf_file f) h))"

definition StubFile_Seek :: "'h unix \<Rightarrow> stubfile \<Rightarrow> int \<Rightarrow> 'h \<Rightarrow> (int \<times> stubfile \<times> 'h) res" where
  "StubFile_Seek U f pos h =
     rbind (Lseek U (sf_file f) pos 0 h) (\<lambda>h.
     let (off, h) = Tell U (sf_file f) h in
     Inr (off, f\<lparr>currentOffset := off\<rparr>, h))"

section \<open>The stub file system\<close>

definition StubMaxFile :: int where "StubMaxFile = 20"
definition StubMaxSocket :: int where "StubMaxSocket = 20"

record stubfs =
  fs_openfile :: "stubfile option list"
  fs_socket :: "int list"

definition StubFS_new :: stubfs where
  "StubFS_new = \<lparr>fs_openfile = replicate (nat StubMaxFile) None, fs_socket = replicate (nat StubMaxSocket) (-1)\<rparr>"

definition StubFS_Create :: "'h unix \<Rightarrow> byte list \<Rightarrow> int \<Rightarrow> 'h \<Rightarrow> (bool \<times> 'h) res" where
  "StubFS_Create U nm initialSize h =
     rbind (OpenForWrite U nm h) (\<lambda>(fd, h).
     if fd = -1 then Inr (False, h)
     else rbind (Close U fd h) (\<lambda>(_, h). Inr (True, h)))"

definition StubFS_Open :: "'h unix \<Rightarrow> byte list \<Rightarrow> 'h \<Rightarrow> (stubfile option \<times> 'h) res" where
  "StubFS_Open U nm h =
     rbind (OpenForReadWrite U nm False h) (\<lambda>(fd, h).
     if fd = -1 then Inr (None, h) else Inr (Some (StubFile_new fd), h))"

definition StubFS_Open_t :: "'h unix \<Rightarrow> byte list \<Rightarrow> int \<Rightarrow> 'h \<Rightarrow> (stubfile option \<times> 'h) res" where
  "StubFS_Open_t U nm t h =
     rbind (OpenForReadWrite U nm False h) (\<lambda>(fd, h).
     if fd = -1 then Inr (None, h) else Inr (Some (StubFile_new3 fd t nm), h))"

definition StubFS_findIndexFree :: "stubfs \<Rightarrow> int res" where
  "StubFS_findIndexFree fs =
     rbind (search 2 StubMaxFile (\<lambda>i. rbind (aget (fs_openfile fs) i) (\<lambda>f. Inr (f = None)))) (\<lambda>r.
     Inr (case r of Some i \<Rightarrow> i | None \<Rightarrow> -1))"

definition StubFS_findIndexSocketFree :: "stubfs \<Rightarrow> int res" where
  "StubFS_findIndexSocketFree fs =
     rbind (search 0 StubMaxSocket (\<lambda>i. rbind (aget (fs_socket fs) i) (\<lambda>s. Inr (s = -1)))) (\<lambda>r.
     Inr (case r of Some i \<Rightarrow> i | None \<Rightarrow> -1))"

definition StubFS_findIndexSocket :: "stubfs \<Rightarrow> int \<Rightarrow> int res" where
  "StubFS_findIndexSocket fs ident =
     rbind (search 0 StubMaxSocket (\<lambda>i. rbind (aget (fs_socket fs) i) (\<lambda>s. Inr (s = ident)))) (\<lambda>r.
     Inr (case r of Some i \<Rightarrow> ident | None \<Rightarrow> -1))"

definition StubFS_Remove :: "'h unix \<Rightarrow> byte list \<Rightarrow> 'h \<Rightarrow> bool \<times> 'h" where
  "StubFS_Remove U nm h = (let (b, h) = Unlink U nm h in (b = False, h))"

section \<open>What the kernel relies on\<close>

definition fs_tables_ok :: "stubfs \<Rightarrow> bool" where
  "fs_tables_ok fs \<longleftrightarrow> length (fs_openfile fs) = 20 \<and> length (fs_socket fs) = 20"

lemma index_cases:
  assumes "hi \<le> int (length xs)" "0 \<le> lo"
  obtains (found) i where "search lo hi (\<lambda>i. rbind (aget xs i) (\<lambda>x. Inr (P x))) = Inr (Some i)" "lo \<le> i" "i < hi"
      "P (xs ! nat i)" "\<And>j. lo \<le> j \<Longrightarrow> j < i \<Longrightarrow> \<not> P (xs ! nat j)"
  | (missing) "search lo hi (\<lambda>i. rbind (aget xs i) (\<lambda>x. Inr (P x))) = Inr None"
      "\<And>j. lo \<le> j \<Longrightarrow> j < hi \<Longrightarrow> \<not> P (xs ! nat j)"
  by (rule search_cases [of lo hi "\<lambda>i. rbind (aget xs i) (\<lambda>x. Inr (P x))" "\<lambda>i. P (xs ! nat i)"])
    (use assms in auto)

lemma findIndexFree_cases:
  assumes "fs_tables_ok fs"
  obtains (slot) i where "StubFS_findIndexFree fs = Inr i" "2 \<le> i" "i < 20" "fs_openfile fs ! nat i = None"
      "\<And>j. 2 \<le> j \<Longrightarrow> j < i \<Longrightarrow> fs_openfile fs ! nat j \<noteq> None"
  | (full) "StubFS_findIndexFree fs = Inr (-1)" "\<And>j. 2 \<le> j \<Longrightarrow> j < 20 \<Longrightarrow> fs_openfile fs ! nat j \<noteq> None"
  by (rule index_cases [of 20 "fs_openfile fs" 2 "\<lambda>f. f = None"])
    (use assms in \<open>auto simp: StubFS_findIndexFree_def StubMaxFile_def fs_tables_ok_def\<close>)

lemma findIndexSocketFree_cases:
  assumes "fs_tables_ok fs"
  obtains (slot) i where "StubFS_findIndexSocketFree fs = Inr i" "0 \<le> i" "i < 20" "fs_socket fs ! nat i = -1"
  | (full) "StubFS_findIndexSocketFree fs = Inr (-1)" "\<And>j. 0 \<le> j \<Longrightarrow> j < 20 \<Longrightarrow> fs_socket fs ! nat j \<noteq> -1"
  by (rule index_cases [of 20 "fs_socket fs" 0 "\<lambda>s. s = -1"])
    (use assms in \<open>auto simp: StubFS_findIndexSocketFree_def StubMaxSocket_def fs_tables_ok_def\<close>)

lemma findIndexSocket_eq:
  assumes "fs_tables_ok fs"
  shows "StubFS_findIndexSocket fs ident = Inr (if ident \<in> set (fs_socket fs) then ident else -1)"
proof (rule index_cases [of 20 "fs_socket fs" 0 "\<lambda>s. s = ident"])
  fix i assume "search 0 20 (\<lambda>i. rbind (aget (fs_socket fs) i) (\<lambda>x. Inr (x = ident))) = Inr (Some i)"
    "0 \<le> i" "i < 20" "fs_socket fs ! nat i = ident"
  then show ?thesis using assms nth_mem [of "nat i" "fs_socket fs"]
    by (auto simp: StubFS_findIndexSocket_def StubMaxSocket_def fs_tables_ok_def)
next
  assume a: "search 0 20 (\<lambda>i. rbind (aget (fs_socket fs) i) (\<lambda>x. Inr (x = ident))) = Inr None"
    "\<And>j. 0 \<le> j \<Longrightarrow> j < 20 \<Longrightarrow> fs_socket fs ! nat j \<noteq> ident"
  have "ident \<notin> set (fs_socket fs)"
    using a(2) [of "int k" for k] assms by (auto simp: in_set_conv_nth fs_tables_ok_def)
  then show ?thesis using a(1) by (simp add: StubFS_findIndexSocket_def StubMaxSocket_def)
qed (use assms in \<open>auto simp: fs_tables_ok_def\<close>)

end
