(* ===== verification/AddrSpace.thy ===== *)
theory AddrSpace
  imports Machine Host
begin

text \<open>
  Address spaces (\<^verbatim>\<open>userprog/addrspace.cc\<close>, \<^verbatim>\<open>userprog/noff.h\<close>): the identity page table, loading a NOFF
  executable, the initial registers, and the second translation routine.  Sizes and addresses of the
  header are 32-bit words; the executable is read through the stub file system.
\<close>

definition NOFFMAGIC :: "32 word" where "NOFFMAGIC = 0xbadfad"
definition UserStackSize :: "32 word" where "UserStackSize = 1024"

record segment =
  virtualAddr :: "32 word"
  inFileAddr :: "32 word"
  sg_size :: "32 word"

record noffHeader =
  noffMagic :: "32 word"
  code :: segment
  initData :: segment
  readonlyData :: segment
  uninitData :: segment

text \<open>The layout of the header in memory: thirteen words.\<close>

definition word_at :: "byte list \<Rightarrow> nat \<Rightarrow> 32 word" where
  "word_at bs i = load_word bs (4 * i)"

definition bytes_segment :: "byte list \<Rightarrow> nat \<Rightarrow> segment" where
  "bytes_segment bs i = \<lparr>virtualAddr = word_at bs i, inFileAddr = word_at bs (i + 1), sg_size = word_at bs (i + 2)\<rparr>"

definition bytes_noff :: "byte list \<Rightarrow> noffHeader" where
  "bytes_noff bs = \<lparr>noffMagic = word_at bs 0, code = bytes_segment bs 1, initData = bytes_segment bs 4,
     readonlyData = bytes_segment bs 7, uninitData = bytes_segment bs 10\<rparr>"

definition swap_segment :: "segment \<Rightarrow> segment" where
  "swap_segment s = \<lparr>virtualAddr = WordToHost (virtualAddr s), inFileAddr = WordToHost (inFileAddr s),
     sg_size = WordToHost (sg_size s)\<rparr>"

definition SwapHeader :: "noffHeader \<Rightarrow> noffHeader" where
  "SwapHeader n = \<lparr>noffMagic = WordToHost (noffMagic n), code = swap_segment (code n), initData = swap_segment (initData n),
     readonlyData = swap_segment (readonlyData n), uninitData = swap_segment (uninitData n)\<rparr>"

record addrspace =
  as_pageTable :: "tentry list"
  numPages :: "32 word"

text \<open>The constructor; \<^verbatim>\<open>numPages\<close> is left uninitialised (the argument \<open>np\<close>).\<close>

definition AddrSpace_new :: "32 word \<Rightarrow> machine \<Rightarrow> addrspace \<times> machine" where
  "AddrSpace_new np m =
     (\<lparr>as_pageTable = map (\<lambda>i. \<lparr>virtualPage = word_of_nat i, physicalPage = word_of_nat i, valid = True, readOnly = False,
         use = False, dirty = False\<rparr>) [0..<unat NumPhysPages], numPages = np\<rparr>,
      m\<lparr>mainMemory := replicate (nat MemorySize) 0\<rparr>)"

text \<open>\<^verbatim>\<open>ReadAt(&mainMemory[virtualAddr], size, inFileAddr)\<close>: the transfer must stay inside memory.\<close>

definition load_segment :: "'h unix \<Rightarrow> stubfile \<Rightarrow> segment \<Rightarrow> machine \<times> 'h \<Rightarrow> (machine \<times> 'h) res" where
  "load_segment U f s = (\<lambda>(m, h).
     if 0 <s sg_size s then
       (if 0 \<le> sint (virtualAddr s) \<and> sint (virtualAddr s) < MemorySize then
          (let off = nat (sint (virtualAddr s)) in
           rbind (StubFile_ReadAt U f (drop off (mainMemory m)) (sint (sg_size s)) (sint (inFileAddr s)) h) (\<lambda>(_, mem, h).
           Inr (m\<lparr>mainMemory := take off (mainMemory m) @ mem\<rparr>, h)))
        else Inl BadIndex)
     else Inr (m, h))"

definition AddrSpace_Load :: "'h unix \<Rightarrow> byte list \<Rightarrow> byte list \<Rightarrow> addrspace \<Rightarrow> machine \<Rightarrow> 'h \<Rightarrow>
    (bool \<times> addrspace \<times> machine \<times> 'h) res" where
  "AddrSpace_Load U garbage fileName as m h =
     rbind (StubFS_Open U fileName h) (\<lambda>(executable, h).
     case executable of
       None \<Rightarrow> Inr (False, as, m, h)
     | Some f \<Rightarrow>
         rbind (StubFile_ReadAt U f garbage 52 0 h) (\<lambda>(_, buf, h).
         let noffH = bytes_noff buf;
             noffH = (if noffMagic noffH \<noteq> NOFFMAGIC \<and> WordToHost (noffMagic noffH) = NOFFMAGIC then SwapHeader noffH else noffH) in
         rbind (assert (noffMagic noffH = NOFFMAGIC)) (\<lambda>_.
         let size = sg_size (code noffH) + sg_size (readonlyData noffH) + sg_size (initData noffH) +
               sg_size (uninitData noffH) + UserStackSize;
             np = size div PageSize + (if size mod PageSize > 0 then 1 else 0);
             as = as\<lparr>numPages := np\<rparr> in
         rbind (assert (np \<le> NumPhysPages)) (\<lambda>_.
         rbind (load_segment U f (code noffH) (m, h)) (\<lambda>mh.
         rbind (load_segment U f (initData noffH) mh) (\<lambda>mh.
         rbind (load_segment U f (readonlyData noffH) mh) (\<lambda>(m, h).
         rbind (StubFile_delete U f h) (\<lambda>h.
         Inr (True, as, m, h)))))))))"

definition AddrSpace_InitRegisters :: "addrspace \<Rightarrow> machine \<Rightarrow> machine res" where
  "AddrSpace_InitRegisters as m =
     rbind (for_range 0 (int NumTotalRegs) (\<lambda>i m. Machine_WriteRegister i 0 m) m) (\<lambda>m.
     rbind (Machine_WriteRegister (int PCReg) 0 m) (\<lambda>m.
     rbind (Machine_WriteRegister (int NextPCReg) 4 m) (\<lambda>m.
     Machine_WriteRegister (int StackReg) (numPages as * PageSize - 16) m)))"

definition AddrSpace_SaveState :: "addrspace \<Rightarrow> machine \<Rightarrow> machine" where
  "AddrSpace_SaveState as m = m"

definition AddrSpace_RestoreState :: "addrspace \<Rightarrow> machine \<Rightarrow> machine" where
  "AddrSpace_RestoreState as m = m\<lparr>pageTable := Some (as_pageTable as), pageTableSize := numPages as\<rparr>"

text \<open>\<^verbatim>\<open>Execute\<close> up to the call of \<^verbatim>\<open>Run\<close>, which does not return.\<close>

definition AddrSpace_Execute :: "addrspace \<Rightarrow> machine \<Rightarrow> machine res" where
  "AddrSpace_Execute as m =
     rbind (AddrSpace_InitRegisters as m) (\<lambda>m. Inr (AddrSpace_RestoreState as m))"

definition AddrSpace_Translate :: "32 word \<Rightarrow> bool \<Rightarrow> addrspace \<Rightarrow> ((ExceptionType + 32 word) \<times> addrspace) res" where
  "AddrSpace_Translate vaddr isReadWrite as =
     (let vpn = vaddr div PageSize; offset = vaddr mod PageSize in
      if vpn \<ge> numPages as then Inr (Inl AddressErrorException, as)
      else
        rbind (aget (as_pageTable as) (uint vpn)) (\<lambda>pte.
        if isReadWrite \<and> readOnly pte then Inr (Inl ReadOnlyException, as)
        else if sint (physicalPage pte) \<ge> sint NumPhysPages then Inr (Inl BusErrorException, as)
        else
          let as = as\<lparr>as_pageTable := (as_pageTable as)[unat vpn := pte\<lparr>use := True, dirty := dirty pte \<or> isReadWrite\<rparr>]\<rparr>;
              paddr = physicalPage pte * PageSize + offset in
          rbind (assert (uint paddr < MemorySize)) (\<lambda>_. Inr (Inr paddr, as))))"

section \<open>The identity mapping\<close>

definition identity_space :: "addrspace \<Rightarrow> bool" where
  "identity_space as \<longleftrightarrow> length (as_pageTable as) = 128 \<and> unat (numPages as) \<le> 128 \<and>
     (\<forall>i < 128. unat (physicalPage (as_pageTable as ! i)) = i \<and> valid (as_pageTable as ! i) \<and> \<not> readOnly (as_pageTable as ! i))"

lemma identity_touch:
  assumes "identity_space as" "v < 128"
  shows "identity_space (as\<lparr>as_pageTable := (as_pageTable as)[v := (as_pageTable as ! v)\<lparr>use := u, dirty := d\<rparr>]\<rparr>)"
proof -
  have nth: "(as_pageTable as)[v := (as_pageTable as ! v)\<lparr>use := u, dirty := d\<rparr>] ! i =
      (if i = v then (as_pageTable as ! v)\<lparr>use := u, dirty := d\<rparr> else as_pageTable as ! i)" if "i < 128" for i
    using assms that by (simp add: identity_space_def nth_list_update)
  show ?thesis using assms unfolding identity_space_def by (auto simp: nth)
qed

lemma AddrSpace_new_identity:
  "unat np \<le> 128 \<Longrightarrow> identity_space (fst (AddrSpace_new np m))"
  by (simp add: AddrSpace_new_def identity_space_def NumPhysPages_def unat_of_nat)

lemma restored_va_phys:
  assumes "identity_space as"
  shows "va_phys (AddrSpace_RestoreState as m) w va =
    (if unat va < unat (numPages as) * 128 then Inr (unat va) else Inl AddressErrorException)"
proof -
  have "unat va div 128 < unat (numPages as) \<longleftrightarrow> unat va < unat (numPages as) * 128"
    by (simp add: div_less_iff_less_mult)
  with assms show ?thesis
    by (auto simp: va_phys_def AddrSpace_RestoreState_def identity_space_def Let_def not_le)
qed

lemma WriteRegister_in: "0 \<le> i \<Longrightarrow> i < 40 \<Longrightarrow> length (registers m) = 40 \<Longrightarrow>
    Machine_WriteRegister i v m = Inr (set_reg (nat i) v m)"
  by (simp add: Machine_WriteRegister_def set_reg_def NumTotalRegs_def)

lemma clear_registers:
  assumes "length (registers m) = 40"
  shows "for_range 0 (int NumTotalRegs) (\<lambda>i m. Machine_WriteRegister i 0 m) m = Inr (m\<lparr>registers := replicate 40 0\<rparr>)"
proof -
  let ?I = "\<lambda>i s. s = m\<lparr>registers := replicate (nat i) 0 @ drop (nat i) (registers m)\<rparr>"
  have "\<exists>t. for_range 0 40 (\<lambda>i m. Machine_WriteRegister i 0 m) m = Inr t \<and> ?I 40 t"
  proof (rule for_range_rule [where I = ?I])
    fix i s assume i: "0 \<le> i" "i < (40 :: int)" and s: "?I i s"
    have "(replicate (nat i) 0 @ drop (nat i) (registers m))[nat i := 0] = replicate (nat (i + 1)) 0 @ drop (nat (i + 1)) (registers m)"
      using i assms by (simp add: list_update_append nat_add_distrib Cons_nth_drop_Suc [symmetric] replicate_append_same [symmetric])
    with i s assms show "\<exists>s'. Machine_WriteRegister i 0 s = Inr s' \<and> ?I (i + 1) s'"
      by (simp add: WriteRegister_in set_reg_def)
  qed simp_all
  with assms show ?thesis by (simp add: NumTotalRegs_def)
qed

lemma Execute_regs:
  assumes "length (registers m) = 40"
  shows "AddrSpace_Execute as m = Inr (AddrSpace_RestoreState as (m\<lparr>registers :=
    (replicate 40 0)[PCReg := 0, NextPCReg := 4, StackReg := numPages as * 128 - 16]\<rparr>))"
  unfolding AddrSpace_Execute_def AddrSpace_InitRegisters_def clear_registers [OF assms]
  by (simp add: WriteRegister_in set_reg_def reg_numbers PageSize_def)

text \<open>
  A program starts in a sound machine: after \<^verbatim>\<open>Execute\<close> has set up registers and page table for a space
  of at most 128 pages, the machine invariant holds, execution is at address 0 with 4 next, the stack
  pointer is 16 below the end of the space, and every address below the end is mapped to itself for
  reading and writing while every other address is an address error.
\<close>

lemma Execute_starts_sound:
  assumes "length (registers m) = 40" "length (mainMemory m) = 16384" "tlb m = None" "unat np \<le> 128"
  shows "\<exists>m'. AddrSpace_Execute (fst (AddrSpace_new np m)) m = Inr m' \<and> mach_ok m' \<and>
    reg m' PCReg = 0 \<and> reg m' NextPCReg = 4 \<and> reg m' StackReg = np * PageSize - 16 \<and>
    (\<forall>w va. va_phys m' w va = (if unat va < unat np * 128 then Inr (unat va) else Inl AddressErrorException))"
proof -
  let ?as = "fst (AddrSpace_new np m)"
  let ?m = "m\<lparr>registers := (replicate 40 0)[PCReg := 0, NextPCReg := 4, StackReg := numPages ?as * 128 - 16]\<rparr>"
  have np: "numPages ?as = np" by (simp add: AddrSpace_new_def)
  note id = AddrSpace_new_identity [OF assms(4), of m]
  have "mach_ok (AddrSpace_RestoreState ?as ?m)"
    using id assms by (simp add: mach_ok_def AddrSpace_RestoreState_def identity_space_def reg_numbers np)
  moreover have "reg (AddrSpace_RestoreState ?as ?m) PCReg = 0" "reg (AddrSpace_RestoreState ?as ?m) NextPCReg = 4"
      "reg (AddrSpace_RestoreState ?as ?m) StackReg = np * PageSize - 16"
    by (simp_all add: AddrSpace_RestoreState_def reg_numbers np PageSize_def)
  ultimately show ?thesis
    using Execute_regs [OF assms(1), of ?as] restored_va_phys [OF id, of ?m] np by auto
qed



section \<open>Loading\<close>

text \<open>
  What \<^verbatim>\<open>lseek(2)\<close>, \<^verbatim>\<open>read(2)\<close> and \<^verbatim>\<open>close(2)\<close> promise for a descriptor of a regular file with the given
  contents; \<open>at off h\<close> says that in host state \<open>h\<close> the file offset is \<open>off\<close>.
\<close>

definition serves :: "'h unix \<Rightarrow> int \<Rightarrow> byte list \<Rightarrow> (nat \<Rightarrow> 'h \<Rightarrow> bool) \<Rightarrow> bool" where
  "serves U fd contents at \<longleftrightarrow>
     (\<forall>off pos h. at off h \<and> 0 \<le> pos \<longrightarrow> (\<exists>h'. u_lseek U fd pos 0 h = (pos, h') \<and> at (nat pos) h')) \<and>
     (\<forall>off n h. at off h \<and> 0 \<le> n \<longrightarrow> (\<exists>h'. u_read U fd n h =
        ((int (length (take (nat n) (drop off contents))), take (nat n) (drop off contents)), h') \<and>
        at (off + length (take (nat n) (drop off contents))) h')) \<and>
     (\<forall>off h. at off h \<longrightarrow> (\<exists>h'. u_close U fd h = (0, h')))"

lemma serves_ReadAt:
  assumes s: "serves U (sf_file f) contents at" and h: "at off h" and n: "0 \<le> n" "0 \<le> pos"
    and buf: "length (take (nat n) (drop (nat pos) contents)) \<le> length buf"
  shows "\<exists>h' off'. StubFile_ReadAt U f buf n pos h = Inr (int (length (take (nat n) (drop (nat pos) contents))),
    splice_at 0 (take (nat n) (drop (nat pos) contents)) buf, h') \<and> at off' h'"
proof -
  obtain h1 where h1: "u_lseek U (sf_file f) pos 0 h = (pos, h1)" "at (nat pos) h1"
    using s h n unfolding serves_def by blast
  obtain h2 where h2: "u_read U (sf_file f) n h1 = ((int (length (take (nat n) (drop (nat pos) contents))),
      take (nat n) (drop (nat pos) contents)), h2)" "at (nat pos + length (take (nat n) (drop (nat pos) contents))) h2"
    using s h1(2) n(1) unfolding serves_def by blast
  with h1(1) n(2) buf show ?thesis
    by (auto simp: StubFile_ReadAt_def Lseek_def ReadPartial_def fill_def simp del: length_take length_drop)
qed

definition segment_ok :: "byte list \<Rightarrow> segment \<Rightarrow> bool" where
  "segment_ok contents s \<longleftrightarrow> (0 <s sg_size s \<longrightarrow> 0 \<le> sint (virtualAddr s) \<and> 0 \<le> sint (inFileAddr s) \<and>
     sint (virtualAddr s) + sint (sg_size s) \<le> 16384)"

definition put_segment :: "byte list \<Rightarrow> segment \<Rightarrow> byte list \<Rightarrow> byte list" where
  "put_segment contents s mem = (if 0 <s sg_size s
     then splice_at (nat (sint (virtualAddr s))) (take (nat (sint (sg_size s))) (drop (nat (sint (inFileAddr s))) contents)) mem
     else mem)"

lemma length_put_segment:
  assumes "segment_ok contents s" "length mem = 16384"
  shows "length (put_segment contents s mem) = 16384"
  using assms by (auto simp: put_segment_def segment_ok_def word_sless_alt)

lemma load_segment_ok:
  assumes s: "serves U (sf_file f) contents at" and h: "at off h" and sg: "segment_ok contents sg"
    and mem: "length (mainMemory m) = 16384"
  shows "\<exists>h' off'. load_segment U f sg (m, h) = Inr (m\<lparr>mainMemory := put_segment contents sg (mainMemory m)\<rparr>, h') \<and> at off' h'"
proof (cases "0 <s sg_size sg")
  case True
  let ?v = "nat (sint (virtualAddr sg))" and ?d = "take (nat (sint (sg_size sg))) (drop (nat (sint (inFileAddr sg))) contents)"
  have b: "0 \<le> sint (virtualAddr sg)" "0 \<le> sint (inFileAddr sg)" "sint (virtualAddr sg) + sint (sg_size sg) \<le> 16384"
    "0 < sint (sg_size sg)" using sg True by (auto simp: segment_ok_def word_sless_alt)
  have le: "length ?d \<le> length (drop ?v (mainMemory m))" using b mem by simp
  obtain h' off' where r: "StubFile_ReadAt U f (drop ?v (mainMemory m)) (sint (sg_size sg)) (sint (inFileAddr sg)) h =
      Inr (int (length ?d), splice_at 0 ?d (drop ?v (mainMemory m)), h')" "at off' h'"
    using serves_ReadAt [OF s h less_imp_le [OF b(4)] b(2) le] by blast
  have "take ?v (mainMemory m) @ splice_at 0 ?d (drop ?v (mainMemory m)) = splice_at ?v ?d (mainMemory m)"
    by (simp add: splice_at_def add.commute)
  with r b True show ?thesis by (auto simp: load_segment_def put_segment_def MemorySize_def)
next
  case False
  with h show ?thesis by (auto simp: load_segment_def put_segment_def)
qed

definition noff_pages :: "noffHeader \<Rightarrow> 32 word" where
  "noff_pages n = (let size = sg_size (code n) + sg_size (readonlyData n) + sg_size (initData n) + sg_size (uninitData n) + UserStackSize
     in size div PageSize + (if size mod PageSize > 0 then 1 else 0))"

lemma bytes_noff_prefix: "52 \<le> length bs \<Longrightarrow> bytes_noff (take 52 bs) = bytes_noff bs"
  by (simp add: bytes_noff_def bytes_segment_def word_at_def load_word_def)

text \<open>
  C34. Loading puts the segments where the header says: for a readable NOFF file whose header has the magic
  number, whose sizes need at most 128 pages and whose segments lie inside memory, \<^verbatim>\<open>Load\<close> succeeds, the
  space gets the number of pages the sizes and the stack need, and memory holds the code, initialised
  and read-only segments of the file at their addresses and is otherwise unchanged.  A file that
  cannot be opened makes it answer false and changes nothing.
\<close>

theorem Load_places_segments:
  assumes op: "u_open U nm O_RDWR h = (fd, h1)"
    and readable: "fd \<noteq> - 1 \<Longrightarrow> serves U fd contents at \<and> at 0 h1 \<and> 52 \<le> length contents \<and> noffMagic n = NOFFMAGIC \<and>
      noff_pages n \<le> NumPhysPages \<and> (\<forall>s \<in> {code n, initData n, readonlyData n}. segment_ok contents s)"
    and n: "n = bytes_noff contents" and mem: "length (mainMemory m) = 16384" and g: "length garbage = 52"
  shows "if fd = - 1 then AddrSpace_Load U garbage nm as m h = Inr (False, as, m, h1)
    else \<exists>h'. AddrSpace_Load U garbage nm as m h = Inr (True, as\<lparr>numPages := noff_pages n\<rparr>,
      m\<lparr>mainMemory := put_segment contents (readonlyData n) (put_segment contents (initData n)
        (put_segment contents (code n) (mainMemory m)))\<rparr>, h')"
proof (cases "fd = - 1")
  case True
  then show ?thesis using op by (simp add: AddrSpace_Load_def StubFS_Open_def OpenForReadWrite_def)
next
  case False
  note F = readable [OF False]
  let ?f = "StubFile_new fd"
  have f: "sf_file ?f = fd" by (simp add: StubFile_new_def)
  have s: "serves U (sf_file ?f) contents at" using F f by simp
  have "splice_at 0 (take 52 contents) garbage = take 52 contents" using F g by (simp add: splice_at_def)
  then obtain h2 o2 where h2: "StubFile_ReadAt U ?f garbage 52 0 h1 = Inr (52, take 52 contents, h2)" "at o2 h2"
    using serves_ReadAt [OF s, of 0 h1 52 0 garbage] F g by auto
  let ?m1 = "m\<lparr>mainMemory := put_segment contents (code n) (mainMemory m)\<rparr>"
  let ?m2 = "?m1\<lparr>mainMemory := put_segment contents (initData n) (mainMemory ?m1)\<rparr>"
  have l1: "length (mainMemory ?m1) = 16384" using length_put_segment F mem by simp
  then have l2: "length (mainMemory ?m2) = 16384" using length_put_segment [of contents "initData n" "mainMemory ?m1"] F by simp
  obtain h3 o3 where h3: "load_segment U ?f (code n) (m, h2) = Inr (?m1, h3)" "at o3 h3"
    using load_segment_ok [OF s h2(2), of "code n" m] F mem by auto
  obtain h4 o4 where h4: "load_segment U ?f (initData n) (?m1, h3) = Inr (?m2, h4)" "at o4 h4"
    using load_segment_ok [OF s h3(2), of "initData n" ?m1] F l1 by auto
  obtain h5 o5 where h5: "load_segment U ?f (readonlyData n) (?m2, h4) =
      Inr (?m2\<lparr>mainMemory := put_segment contents (readonlyData n) (mainMemory ?m2)\<rparr>, h5)" "at o5 h5"
    using load_segment_ok [OF s h4(2), of "readonlyData n" ?m2] F l2 by auto
  obtain h6 where h6: "u_close U fd h5 = (0, h6)" using F h5(2) unfolding serves_def by blast
  have hd: "bytes_noff (take 52 contents) = n" using bytes_noff_prefix F n by simp
  have "AddrSpace_Load U garbage nm as m h = Inr (True, as\<lparr>numPages := noff_pages n\<rparr>,
      ?m2\<lparr>mainMemory := put_segment contents (readonlyData n) (mainMemory ?m2)\<rparr>, h6)"
    using op False h2(1) h3(1) h4(1) h5(1) h6 F
    by (simp add: AddrSpace_Load_def StubFS_Open_def OpenForReadWrite_def hd noff_pages_def Let_def StubFile_delete_def Close_def f)
  with False show ?thesis by simp
qed

text \<open>A host that serves one file; its state is the file offset.\<close>

definition example_exe :: "byte list" where
  "example_exe = [0xad, 0xdf, 0xba, 0, 0, 0, 0, 0, 52, 0, 0, 0, 4, 0, 0, 0] @ replicate 36 0 @ [1, 2, 3, 4]"

definition example_host :: "byte list \<Rightarrow> nat unix" where
  "example_host c = \<lparr>u_open = \<lambda>nm fl h. (3, 0), u_close = \<lambda>fd h. (0, h), u_lseek = \<lambda>fd pos w h. (pos, nat pos),
     u_read = \<lambda>fd n h. ((int (length (take (nat n) (drop h c))), take (nat n) (drop h c)), h + length (take (nat n) (drop h c))),
     u_write = \<lambda>fd d h. (int (length d), h), u_unlink = \<lambda>nm h. (0, h), u_socket = \<lambda>h. (4, h), u_connect = \<lambda>s a p h. (0, h),
     u_send = \<lambda>s d h. (int (length d), h), u_bind = \<lambda>s p h. (0, h), u_listen = \<lambda>s n h. (0, h), u_accept = \<lambda>s h. (5, h)\<rparr>"

lemma example_serves: "serves (example_host c) 3 c (=)"
  by (auto simp: serves_def example_host_def)

lemma example_exe_header:
  "bytes_noff example_exe = \<lparr>noffMagic = NOFFMAGIC, code = \<lparr>virtualAddr = 0, inFileAddr = 52, sg_size = 4\<rparr>,
     initData = \<lparr>virtualAddr = 0, inFileAddr = 0, sg_size = 0\<rparr>, readonlyData = \<lparr>virtualAddr = 0, inFileAddr = 0, sg_size = 0\<rparr>,
     uninitData = \<lparr>virtualAddr = 0, inFileAddr = 0, sg_size = 0\<rparr>\<rparr>"
  by (simp add: bytes_noff_def bytes_segment_def word_at_def load_word_def example_exe_def bytes_word_def NOFFMAGIC_def nth_append)

theorem Load_places_segments_witness:
  "\<exists>as h'. AddrSpace_Load (example_host example_exe) (replicate 52 0) [97] as example_machine 0 =
     Inr (True, as\<lparr>numPages := 9\<rparr>, example_machine\<lparr>mainMemory := splice_at 0 [1, 2, 3, 4] (mainMemory example_machine)\<rparr>, h')"
proof -
  note H = example_exe_header
  have pages: "noff_pages (bytes_noff example_exe) = 9" by (simp add: H noff_pages_def UserStackSize_def PageSize_def)
  have op: "u_open (example_host example_exe) [97] O_RDWR 0 = (3, 0)" by (simp add: example_host_def)
  have cd: "take 4 (drop 52 example_exe) = [1, 2, 3, 4]" by (simp add: example_exe_def)
  have len: "52 \<le> length example_exe" by (simp add: example_exe_def)
  have ok: "\<forall>s \<in> {code (bytes_noff example_exe), initData (bytes_noff example_exe), readonlyData (bytes_noff example_exe)}.
      segment_ok example_exe s"
    by (simp add: H segment_ok_def)
  have mem: "length (mainMemory example_machine) = 16384" by (simp add: example_machine_def)
  from Load_places_segments [OF op _ refl mem, of example_exe "(=)" "replicate 52 0"] example_serves [of example_exe] ok len pages cd
  show ?thesis by (simp add: H put_segment_def NumPhysPages_def word_sless_alt)
qed

end
