(* ===== verification/Threads.thy ===== *)
theory Threads
  imports NList AddrSpace
begin

text \<open>
  Kernel threads: the interrupt simulation (\<^verbatim>\<open>machine/interrupt.cc\<close>), the timer and the software alarm
  (\<^verbatim>\<open>machine/timer.cc\<close>, \<^verbatim>\<open>threads/alarm.cc\<close>), the scheduler and threads (\<^verbatim>\<open>threads/scheduler.cc\<close>,
  \<^verbatim>\<open>threads/thread.cc\<close>), semaphores, locks and condition variables (\<^verbatim>\<open>threads/synch.cc\<close>), synchronized lists
  (\<^verbatim>\<open>threads/synchlist.cc\<close>) and the devices a thread waits for (\<^verbatim>\<open>machine/console.cc\<close>, the request and
  completion of \<^verbatim>\<open>machine/disk.cc\<close>, \<^verbatim>\<open>userprog/synchconsole.cc\<close>, \<^verbatim>\<open>filesys/synchdisk.cc\<close>).

  A context switch happens inside a call, so a thread that is not running keeps a stack of activation
  records.  \<open>frame\<close> has one constructor per call the kernel makes and one per point at which a call
  can be suspended (the code after \<^verbatim>\<open>SWITCH\<close>, the loop of \<^verbatim>\<open>P\<close>, the loop of \<^verbatim>\<open>Sleep\<close>, the assignment to
  \<^verbatim>\<open>lockHolder\<close> after \<^verbatim>\<open>P\<close>, and so on); \<open>exec_frame\<close> runs the code from that point to the next one, pushing
  the frames of what is left, and \<open>kstep\<close> pops the top frame of the current thread and runs it.  What a
  thread runs is any list of calls; \<^verbatim>\<open>Fork\<close> takes a number, the function pointer, into a table of such lists.
  Interrupt handlers run to completion inside \<^verbatim>\<open>CheckIfDue\<close>, on the stack of the interrupted thread.

  Objects are numbered in the order they are made: threads, semaphores, locks, conditions and lists are
  never mistaken for one another through a reused address.
\<close>

section \<open>State\<close>

datatype IntStatus = IntOff | IntOn
datatype MachineStatus = IdleMode | SystemMode | UserMode
datatype ThreadStatus = JUST_CREATED | RUNNING | READY | BLOCKED

text \<open>The devices that interrupt: the timer, the keyboard, and the numbered devices that complete requests.\<close>

datatype device = TimerDev | KeyboardDev | RequestDev nat

record pint =
  p_when :: int
  p_dev :: device
  p_serial :: nat     \<comment> \<open>which object: every interrupt is a new one\<close>

datatype frame =
    SetLevel IntStatus | Ticked MachineStatus | Switched | DoYield | DoSleep bool | SleepLoop bool
  | DoBegin | DoFinish | DoFork nat
  | DoP nat | PLoop nat IntStatus | DoV nat
  | DoAcquire nat | SetHolder nat | DoRelease nat
  | DoWait nat nat | DeleteSem nat | DoSignal nat nat | DoBroadcast nat nat
  | ListAppend nat int | RemoveLoop nat | AppendResult nat | AssertResult int
  | Request nat int | KeyGet
  | DoExecute addrspace | UserRun

record thread =
  t_status :: ThreadStatus
  t_code :: "frame list"
  t_space :: "addrspace option"
  t_userRegisters :: "32 word list"
  t_result :: int                   \<comment> \<open>what the last call returned to the thread's function\<close>

record semaphore =
  s_value :: int
  s_queue :: "nat list"

record lock =
  lockHolder :: "nat option"
  l_semaphore :: nat

record synchlist =
  sl_list :: "int list"
  sl_lock :: nat
  sl_cond :: nat

record reqdev =
  rd_busy :: bool
  rd_sem :: nat
  rd_lock :: nat

datatype poll = Nothing | Key byte | NoMoreKeys

record kst =
  level :: IntStatus
  pending :: "pint list"
  inHandler :: bool
  yieldOnReturn :: bool
  mstatus :: MachineStatus
  now :: int
  idleTicks :: int
  systemTicks :: int
  userTicks :: int
  serial :: nat
  readyList :: "nat list"
  toBeDestroyed :: "nat option"
  currentThread :: nat
  threads :: "thread option list"
  sems :: "semaphore list"
  locks :: "lock list"
  conds :: "nat list list"
  lists :: "synchlist list"
  devs :: "reqdev list"
  randomize :: bool
  timerDisable :: bool
  randoms :: "nat \<Rightarrow> nat"           \<comment> \<open>what \<^verbatim>\<open>RandomNumber\<close> will return\<close>
  drawn :: nat
  keyboard :: "poll list"
  incoming :: byte                  \<comment> \<open>255 is \<^verbatim>\<open>EOF\<close>: nothing buffered\<close>
  keySem :: nat
  keyLock :: nat
  kmach :: machine
  halted :: bool

definition UserTick :: int where "UserTick = 1"
definition SystemTick :: int where "SystemTick = 10"
definition ConsoleTime :: int where "ConsoleTime = 100"
definition TimerTicks :: int where "TimerTicks = 100"

definition get_thread :: "nat \<Rightarrow> kst \<Rightarrow> thread res" where
  "get_thread t k = (if t < length (threads k) then (case threads k ! t of None \<Rightarrow> Inl NullDeref | Some th \<Rightarrow> Inr th) else Inl NullDeref)"

definition put_thread :: "nat \<Rightarrow> thread \<Rightarrow> kst \<Rightarrow> kst" where
  "put_thread t th k = k\<lparr>threads := (threads k)[t := Some th]\<rparr>"

definition with_thread :: "nat \<Rightarrow> (thread \<Rightarrow> thread) \<Rightarrow> kst \<Rightarrow> kst res" where
  "with_thread t f k = rbind (get_thread t k) (\<lambda>th. Inr (put_thread t (f th) k))"

text \<open>Frames go on top of the current thread's stack.\<close>

definition push :: "frame list \<Rightarrow> kst \<Rightarrow> kst res" where
  "push fs k = with_thread (currentThread k) (\<lambda>th. th\<lparr>t_code := fs @ t_code th\<rparr>) k"

definition get_sem :: "nat \<Rightarrow> kst \<Rightarrow> semaphore res" where
  "get_sem s k = (if s < length (sems k) then Inr (sems k ! s) else Inl NullDeref)"

definition put_sem :: "nat \<Rightarrow> semaphore \<Rightarrow> kst \<Rightarrow> kst" where
  "put_sem s x k = k\<lparr>sems := (sems k)[s := x]\<rparr>"

definition get_lock :: "nat \<Rightarrow> kst \<Rightarrow> lock res" where
  "get_lock l k = (if l < length (locks k) then Inr (locks k ! l) else Inl NullDeref)"

section \<open>The scheduler's queue and the atomic part of \<^verbatim>\<open>V\<close>\<close>

definition Scheduler_ReadyToRun :: "nat \<Rightarrow> kst \<Rightarrow> kst res" where
  "Scheduler_ReadyToRun t k =
     rbind (assert (level k = IntOff)) (\<lambda>_.
     rbind (with_thread t (\<lambda>th. th\<lparr>t_status := READY\<rparr>) k) (\<lambda>k.
     rbind (List_Append (readyList k) t) (\<lambda>r. Inr (k\<lparr>readyList := r\<rparr>))))"

definition Scheduler_FindNextToRun :: "kst \<Rightarrow> (nat option \<times> kst) res" where
  "Scheduler_FindNextToRun k =
     rbind (assert (level k = IntOff)) (\<lambda>_.
     if readyList k = [] then Inr (None, k)
     else rbind (List_RemoveFront (readyList k)) (\<lambda>(t, r). Inr (Some t, k\<lparr>readyList := r\<rparr>)))"

definition V_body :: "nat \<Rightarrow> kst \<Rightarrow> kst res" where
  "V_body s k =
     rbind (get_sem s k) (\<lambda>x.
     rbind (if s_queue x \<noteq> [] then
              rbind (List_RemoveFront (s_queue x)) (\<lambda>(t, q). Scheduler_ReadyToRun t (put_sem s (x\<lparr>s_queue := q\<rparr>) k))
            else Inr k) (\<lambda>k.
     rbind (get_sem s k) (\<lambda>x. Inr (put_sem s (x\<lparr>s_value := s_value x + 1\<rparr>) k))))"

section \<open>Interrupts and devices\<close>

definition PendingCompare :: "pint \<Rightarrow> pint \<Rightarrow> int" where
  "PendingCompare x y = (if p_when x < p_when y then -1 else if p_when x > p_when y then 1 else 0)"

definition Interrupt_Schedule :: "device \<Rightarrow> int \<Rightarrow> kst \<Rightarrow> kst res" where
  "Interrupt_Schedule toCall fromNow k =
     (let toOccur = \<lparr>p_when = now k + fromNow, p_dev = toCall, p_serial = serial k\<rparr> in
      rbind (assert (fromNow > 0)) (\<lambda>_.
      rbind (Sorted_Insert PendingCompare (pending k) toOccur) (\<lambda>p.
      Inr (k\<lparr>pending := p, serial := Suc (serial k)\<rparr>))))"

definition Interrupt_YieldOnReturn :: "kst \<Rightarrow> kst res" where
  "Interrupt_YieldOnReturn k = rbind (assert (inHandler k)) (\<lambda>_. Inr (k\<lparr>yieldOnReturn := True\<rparr>))"

definition Alarm_CallBack :: "kst \<Rightarrow> kst res" where
  "Alarm_CallBack k = (if mstatus k \<noteq> IdleMode then Interrupt_YieldOnReturn k else Inr k)"

definition Timer_SetInterrupt :: "kst \<Rightarrow> kst res" where
  "Timer_SetInterrupt k =
     (if \<not> timerDisable k then
        if randomize k then
          Interrupt_Schedule TimerDev (1 + int (randoms k (drawn k)) mod (TimerTicks * 2)) (k\<lparr>drawn := Suc (drawn k)\<rparr>)
        else Interrupt_Schedule TimerDev TimerTicks k
      else Inr k)"

definition Timer_CallBack :: "kst \<Rightarrow> kst res" where
  "Timer_CallBack k = rbind (Alarm_CallBack k) Timer_SetInterrupt"

text \<open>A semaphore's \<^verbatim>\<open>V\<close> inside a handler: interrupts are off before and after.\<close>

definition handler_V :: "nat \<Rightarrow> kst \<Rightarrow> kst res" where
  "handler_V s k =
     rbind (V_body s (k\<lparr>level := IntOff\<rparr>)) (\<lambda>k'. Inr (k'\<lparr>level := level k\<rparr>))"

text \<open>
  \<^verbatim>\<open>ConsoleInput::CallBack\<close>, and \<^verbatim>\<open>SynchConsoleInput::CallBack\<close> that it calls.  \<open>keyboard\<close> is what the polls of
  the input file will find.
\<close>

definition ConsoleInput_CallBack :: "kst \<Rightarrow> kst res" where
  "ConsoleInput_CallBack k =
     rbind (assert (incoming k = 255)) (\<lambda>_.
     case keyboard k of
       [] \<Rightarrow> Interrupt_Schedule KeyboardDev ConsoleTime k
     | Nothing # ks \<Rightarrow> Interrupt_Schedule KeyboardDev ConsoleTime (k\<lparr>keyboard := ks\<rparr>)
     | NoMoreKeys # ks \<Rightarrow> handler_V (keySem k) (k\<lparr>keyboard := ks\<rparr>)
     | Key c # ks \<Rightarrow> handler_V (keySem k) (k\<lparr>keyboard := ks, incoming := c\<rparr>))"

definition ConsoleInput_GetChar :: "kst \<Rightarrow> (byte \<times> kst) res" where
  "ConsoleInput_GetChar k =
     (let ch = incoming k in
      rbind (if incoming k \<noteq> 255 then Interrupt_Schedule KeyboardDev ConsoleTime k else Inr k) (\<lambda>k.
      Inr (ch, k\<lparr>incoming := 255\<rparr>)))"

text \<open>
  A request to the disk or the display: the device must be idle, is busy from now on, and interrupts
  after \<open>delay\<close>; the completion makes it idle and wakes the thread that waits.
\<close>

definition Device_Request :: "nat \<Rightarrow> int \<Rightarrow> kst \<Rightarrow> kst res" where
  "Device_Request d delay k =
     rbind (if d < length (devs k) then Inr (devs k ! d) else Inl NullDeref) (\<lambda>x.
     rbind (assert (\<not> rd_busy x)) (\<lambda>_.
     Interrupt_Schedule (RequestDev d) delay (k\<lparr>devs := (devs k)[d := x\<lparr>rd_busy := True\<rparr>]\<rparr>)))"

definition Device_CallBack :: "nat \<Rightarrow> kst \<Rightarrow> kst res" where
  "Device_CallBack d k =
     rbind (if d < length (devs k) then Inr (devs k ! d) else Inl NullDeref) (\<lambda>x.
     handler_V (rd_sem x) (k\<lparr>devs := (devs k)[d := x\<lparr>rd_busy := False\<rparr>]\<rparr>))"

primrec CallBack :: "device \<Rightarrow> kst \<Rightarrow> kst res" where
  "CallBack TimerDev = Timer_CallBack"
| "CallBack KeyboardDev = ConsoleInput_CallBack"
| "CallBack (RequestDev d) = Device_CallBack d"

text \<open>What is due: the measure of the loop of \<^verbatim>\<open>CheckIfDue\<close>.\<close>

definition due :: "kst \<Rightarrow> nat" where
  "due k = length (filter (\<lambda>p. p_when p \<le> now k) (pending k))"

lemma Schedule_due:
  assumes "Interrupt_Schedule d n k = Inr k'"
  shows "now k' = now k" "filter (\<lambda>p. p_when p \<le> now k) (pending k') = filter (\<lambda>p. p_when p \<le> now k) (pending k)"
proof -
  from assms show "now k' = now k"
    by (auto simp: Interrupt_Schedule_def Let_def Sorted_Insert_def split: if_splits)
  let ?c = "\<lambda>y. 0 \<le> PendingCompare \<lparr>p_when = now k + n, p_dev = d, p_serial = serial k\<rparr> y"
  from assms have "n > 0" "pending k' = takeWhile ?c (pending k) @ \<lparr>p_when = now k + n, p_dev = d, p_serial = serial k\<rparr> # dropWhile ?c (pending k)"
    by (auto simp: Interrupt_Schedule_def Let_def Sorted_Insert_def split: if_splits)
  then show "filter (\<lambda>p. p_when p \<le> now k) (pending k') = filter (\<lambda>p. p_when p \<le> now k) (pending k)"
    by simp (metis filter_append takeWhile_dropWhile_id)
qed

lemma ReadyToRun_due:
  assumes "Scheduler_ReadyToRun t k = Inr k'"
  shows "now k' = now k \<and> pending k' = pending k"
  using assms by (auto simp: Scheduler_ReadyToRun_def with_thread_def put_thread_def split: if_splits elim!: rbindE)

lemma handler_V_due:
  assumes "handler_V s k = Inr k'"
  shows "now k' = now k \<and> pending k' = pending k"
  using assms
  by (auto simp: handler_V_def V_body_def put_sem_def get_sem_def split: if_splits elim!: rbindE dest: ReadyToRun_due)

lemma Alarm_due:
  assumes "Alarm_CallBack k = Inr k'"
  shows "now k' = now k \<and> pending k' = pending k"
  using assms by (auto simp: Alarm_CallBack_def Interrupt_YieldOnReturn_def split: if_splits)

lemma CallBack_due:
  assumes "CallBack d k = Inr k'"
  shows "now k' = now k \<and> filter (\<lambda>p. p_when p \<le> now k) (pending k') = filter (\<lambda>p. p_when p \<le> now k) (pending k)"
proof (cases d)
  case TimerDev
  then obtain k1 where k1: "Alarm_CallBack k = Inr k1" "Timer_SetInterrupt k1 = Inr k'"
    using assms by (auto simp: Timer_CallBack_def elim!: rbindE)
  then show ?thesis using Alarm_due [OF k1(1)] Schedule_due [of TimerDev _ k1 k'] Schedule_due [of TimerDev _ "k1\<lparr>drawn := Suc (drawn k1)\<rparr>" k']
    by (auto simp: Timer_SetInterrupt_def split: if_splits)
next
  case KeyboardDev
  then show ?thesis using assms Schedule_due [of KeyboardDev ConsoleTime k k'] Schedule_due [of KeyboardDev ConsoleTime "k\<lparr>keyboard := ks\<rparr>" k' for ks]
    by (auto simp: ConsoleInput_CallBack_def split: if_splits list.splits poll.splits dest!: handler_V_due)
next
  case (RequestDev n)
  then show ?thesis using assms by (auto simp: Device_CallBack_def split: if_splits elim!: rbindE dest!: handler_V_due)
qed

text \<open>The \<^verbatim>\<open>do\<close>-\<^verbatim>\<open>while\<close> loop: call the handlers of everything that is due.\<close>

function fire :: "kst \<Rightarrow> kst res" where
  "fire k =
     rbind (List_RemoveFront (pending k)) (\<lambda>(p, ps).
     rbind (CallBack (p_dev p) (k\<lparr>pending := ps\<rparr>)) (\<lambda>k.
     if pending k \<noteq> [] \<and> p_when (hd (pending k)) \<le> now k then fire k else Inr k))"
  by pat_completeness auto
termination
proof (relation "measure (\<lambda>k. 2 * due k + (if pending k \<noteq> [] \<and> p_when (hd (pending k)) \<le> now k then 0 else 1))", goal_cases)
  case (2 k x p ps k')
  then have k: "pending k = p # ps" by (auto simp: List_RemoveFront_def split: list.splits)
  have "due k' = length (filter (\<lambda>p. p_when p \<le> now k) ps)" "now k' = now k"
    using CallBack_due [OF 2(3)] by (simp_all add: due_def)
  with 2(4) k show ?case by (auto simp: due_def)
qed simp

declare fire.simps [simp del]

definition Interrupt_CheckIfDue :: "bool \<Rightarrow> kst \<Rightarrow> (bool \<times> kst) res" where
  "Interrupt_CheckIfDue advanceClock k =
     rbind (assert (level k = IntOff)) (\<lambda>_.
     if pending k = [] then Inr (False, k)
     else
       let nxt = hd (pending k) in
       if p_when nxt > now k \<and> \<not> advanceClock then Inr (False, k)
       else
         let k = (if p_when nxt > now k
                  then k\<lparr>idleTicks := idleTicks k + (p_when nxt - now k), now := p_when nxt\<rparr> else k) in
         rbind (Machine_DelayedLoad 0 0 (kmach k)) (\<lambda>m.
         rbind (fire (k\<lparr>kmach := m, inHandler := True\<rparr>)) (\<lambda>k.
         Inr (True, k\<lparr>inHandler := False\<rparr>))))"

definition Interrupt_OneTick :: "kst \<Rightarrow> kst res" where
  "Interrupt_OneTick k =
     (let oldStatus = mstatus k;
          k = (if mstatus k = SystemMode
               then k\<lparr>now := now k + SystemTick, systemTicks := systemTicks k + SystemTick\<rparr>
               else k\<lparr>now := now k + UserTick, userTicks := userTicks k + UserTick\<rparr>) in
      rbind (Interrupt_CheckIfDue False (k\<lparr>level := IntOff\<rparr>)) (\<lambda>(_, k).
      let k = k\<lparr>level := IntOn\<rparr> in
      if yieldOnReturn k
      then push [DoYield, Ticked oldStatus] (k\<lparr>yieldOnReturn := False, mstatus := SystemMode\<rparr>)
      else Inr k))"

definition Interrupt_SetLevel :: "IntStatus \<Rightarrow> kst \<Rightarrow> kst res" where
  "Interrupt_SetLevel nw k =
     rbind (assert (nw = IntOff \<or> \<not> inHandler k)) (\<lambda>_.
     let old = level k; k = k\<lparr>level := nw\<rparr> in
     if nw = IntOn \<and> old = IntOff then Interrupt_OneTick k else Inr k)"

definition Interrupt_Halt :: "kst \<Rightarrow> kst" where
  "Interrupt_Halt k = k\<lparr>halted := True\<rparr>"

definition Interrupt_Idle :: "kst \<Rightarrow> kst res" where
  "Interrupt_Idle k =
     rbind (Interrupt_CheckIfDue True (k\<lparr>mstatus := IdleMode\<rparr>)) (\<lambda>(fired, k).
     if fired then Inr (k\<lparr>mstatus := SystemMode\<rparr>) else Inr (Interrupt_Halt k))"

section \<open>Threads\<close>

definition Thread_SaveUserState :: "machine \<Rightarrow> 32 word list \<Rightarrow> 32 word list res" where
  "Thread_SaveUserState m rs =
     for_range 0 (int NumTotalRegs) (\<lambda>i rs. rbind (Machine_ReadRegister i m) (\<lambda>v. aput rs i v)) rs"

definition Thread_RestoreUserState :: "32 word list \<Rightarrow> machine \<Rightarrow> machine res" where
  "Thread_RestoreUserState rs m =
     for_range 0 (int NumTotalRegs) (\<lambda>i m. rbind (aget rs i) (\<lambda>v. Machine_WriteRegister i v m)) m"

definition Thread_delete :: "nat \<Rightarrow> kst \<Rightarrow> kst res" where
  "Thread_delete t k = rbind (assert (t \<noteq> currentThread k)) (\<lambda>_. Inr (k\<lparr>threads := (threads k)[t := None]\<rparr>))"

definition Scheduler_CheckToBeDestroyed :: "kst \<Rightarrow> kst res" where
  "Scheduler_CheckToBeDestroyed k = (case toBeDestroyed k of
     None \<Rightarrow> Inr k
   | Some t \<Rightarrow> rbind (Thread_delete t k) (\<lambda>k. Inr (k\<lparr>toBeDestroyed := None\<rparr>)))"

text \<open>\<^verbatim>\<open>Scheduler::Run\<close> up to \<^verbatim>\<open>SWITCH\<close>; the old thread continues with \<open>Switched\<close> when it is switched to again.\<close>

definition Scheduler_Run :: "nat \<Rightarrow> bool \<Rightarrow> kst \<Rightarrow> kst res" where
  "Scheduler_Run nextThread finishing k =
     (let oldThread = currentThread k in
      rbind (assert (level k = IntOff)) (\<lambda>_.
      rbind (if finishing then rbind (assert (toBeDestroyed k = None)) (\<lambda>_. Inr (k\<lparr>toBeDestroyed := Some oldThread\<rparr>))
             else Inr k) (\<lambda>k.
      rbind (get_thread oldThread k) (\<lambda>th.
      rbind (case t_space th of
               None \<Rightarrow> Inr k
             | Some sp \<Rightarrow>
                 rbind (Thread_SaveUserState (kmach k) (t_userRegisters th)) (\<lambda>rs.
                 Inr (put_thread oldThread (th\<lparr>t_userRegisters := rs\<rparr>) (k\<lparr>kmach := AddrSpace_SaveState sp (kmach k)\<rparr>)))) (\<lambda>k.
      rbind (push [Switched] k) (\<lambda>k.
      with_thread nextThread (\<lambda>th. th\<lparr>t_status := RUNNING\<rparr>) (k\<lparr>currentThread := nextThread\<rparr>)))))))"

definition Switched_back :: "kst \<Rightarrow> kst res" where
  "Switched_back k =
     rbind (assert (level k = IntOff)) (\<lambda>_.
     rbind (Scheduler_CheckToBeDestroyed k) (\<lambda>k.
     rbind (get_thread (currentThread k) k) (\<lambda>th.
     case t_space th of
       None \<Rightarrow> Inr k
     | Some sp \<Rightarrow>
         rbind (Thread_RestoreUserState (t_userRegisters th) (kmach k)) (\<lambda>m.
         Inr (k\<lparr>kmach := AddrSpace_RestoreState sp m\<rparr>)))))"

definition Thread_Begin :: "kst \<Rightarrow> kst res" where
  "Thread_Begin k = rbind (Scheduler_CheckToBeDestroyed k) (Interrupt_SetLevel IntOn)"

definition Thread_Yield :: "kst \<Rightarrow> kst res" where
  "Thread_Yield k =
     (let oldLevel = level k in
      rbind (Interrupt_SetLevel IntOff k) (\<lambda>k.
      rbind (push [SetLevel oldLevel] k) (\<lambda>k.
      rbind (Scheduler_FindNextToRun k) (\<lambda>(nextThread, k).
      case nextThread of
        None \<Rightarrow> Inr k
      | Some t \<Rightarrow> rbind (Scheduler_ReadyToRun (currentThread k) k) (Scheduler_Run t False)))))"

definition Thread_Sleep :: "bool \<Rightarrow> kst \<Rightarrow> kst res" where
  "Thread_Sleep finishing k =
     rbind (assert (level k = IntOff)) (\<lambda>_.
     rbind (with_thread (currentThread k) (\<lambda>th. th\<lparr>t_status := BLOCKED\<rparr>) k) (push [SleepLoop finishing]))"

text \<open>\<^verbatim>\<open>while ((nextThread = FindNextToRun()) == NULL) Idle();\<close> and then \<^verbatim>\<open>Run\<close>: one test of the loop.\<close>

definition Sleep_loop :: "bool \<Rightarrow> kst \<Rightarrow> kst res" where
  "Sleep_loop finishing k =
     rbind (Scheduler_FindNextToRun k) (\<lambda>(nextThread, k).
     case nextThread of
       None \<Rightarrow> rbind (push [SleepLoop finishing] k) Interrupt_Idle
     | Some t \<Rightarrow> Scheduler_Run t finishing k)"

definition Thread_Finish :: "kst \<Rightarrow> kst res" where
  "Thread_Finish k = rbind (Interrupt_SetLevel IntOff k) (push [DoSleep True])"

text \<open>
  \<^verbatim>\<open>new Thread\<close> and \<^verbatim>\<open>Fork\<close>: the stack of the new thread starts in \<^verbatim>\<open>ThreadRoot\<close>, which calls \<^verbatim>\<open>ThreadBegin\<close>, the
  function and \<^verbatim>\<open>ThreadFinish\<close>.  \<^verbatim>\<open>Fork\<close> is called once, on a thread that was just created, so
  the model makes the thread and its stack together.
\<close>

definition StackAllocate :: "frame list \<Rightarrow> frame list" where
  [simp]: "StackAllocate func = DoBegin # func @ [DoFinish]"

definition Thread_new :: "frame list \<Rightarrow> thread" where
  "Thread_new func = \<lparr>t_status = JUST_CREATED, t_code = StackAllocate func, t_space = None,
     t_userRegisters = replicate NumTotalRegs 0, t_result = 0\<rparr>"

definition Thread_Fork :: "frame list \<Rightarrow> kst \<Rightarrow> kst res" where
  "Thread_Fork func k =
     (let t = length (threads k);
          oldLevel = level k;
          k = k\<lparr>threads := threads k @ [Some (Thread_new func)]\<rparr> in
      rbind (Interrupt_SetLevel IntOff k) (\<lambda>k.
      rbind (Scheduler_ReadyToRun t k) (Interrupt_SetLevel oldLevel)))"

section \<open>Semaphores, locks, conditions\<close>

definition Semaphore_P :: "nat \<Rightarrow> kst \<Rightarrow> kst res" where
  "Semaphore_P s k = rbind (Interrupt_SetLevel IntOff k) (push [PLoop s (level k)])"

text \<open>\<^verbatim>\<open>while (value == 0) { queue->Append(currentThread); currentThread->Sleep(FALSE); } value--;\<close>\<close>

definition P_loop :: "nat \<Rightarrow> IntStatus \<Rightarrow> kst \<Rightarrow> kst res" where
  "P_loop s oldLevel k =
     rbind (get_sem s k) (\<lambda>x.
     if s_value x = 0 then
       rbind (List_Append (s_queue x) (currentThread k)) (\<lambda>q.
       push [DoSleep False, PLoop s oldLevel] (put_sem s (x\<lparr>s_queue := q\<rparr>) k))
     else push [SetLevel oldLevel] (put_sem s (x\<lparr>s_value := s_value x - 1\<rparr>) k))"

definition Semaphore_V :: "nat \<Rightarrow> kst \<Rightarrow> kst res" where
  "Semaphore_V s k =
     rbind (Interrupt_SetLevel IntOff k) (\<lambda>k'.
     rbind (V_body s k') (Interrupt_SetLevel (level k)))"

definition Lock_Acquire :: "nat \<Rightarrow> kst \<Rightarrow> kst res" where
  "Lock_Acquire l k = rbind (get_lock l k) (\<lambda>x. push [DoP (l_semaphore x), SetHolder l] k)"

definition Lock_setHolder :: "nat \<Rightarrow> kst \<Rightarrow> kst res" where
  "Lock_setHolder l k =
     rbind (get_lock l k) (\<lambda>x. Inr (k\<lparr>locks := (locks k)[l := x\<lparr>lockHolder := Some (currentThread k)\<rparr>]\<rparr>))"

definition Lock_IsHeldByCurrentThread :: "lock \<Rightarrow> kst \<Rightarrow> bool" where
  "Lock_IsHeldByCurrentThread x k = (lockHolder x = Some (currentThread k))"

definition Lock_Release :: "nat \<Rightarrow> kst \<Rightarrow> kst res" where
  "Lock_Release l k =
     rbind (get_lock l k) (\<lambda>x.
     rbind (assert (Lock_IsHeldByCurrentThread x k)) (\<lambda>_.
     push [DoV (l_semaphore x)] (k\<lparr>locks := (locks k)[l := x\<lparr>lockHolder := None\<rparr>]\<rparr>)))"

definition get_cond :: "nat \<Rightarrow> kst \<Rightarrow> (nat list) res" where
  "get_cond c k = (if c < length (conds k) then Inr (conds k ! c) else Inl NullDeref)"

text \<open>\<^verbatim>\<open>delete waiter\<close> at the end of \<^verbatim>\<open>Wait\<close> is the frame \<open>DeleteSem\<close>; the number is not used again.\<close>

definition Condition_Wait :: "nat \<Rightarrow> nat \<Rightarrow> kst \<Rightarrow> kst res" where
  "Condition_Wait c l k =
     rbind (get_lock l k) (\<lambda>x.
     rbind (assert (Lock_IsHeldByCurrentThread x k)) (\<lambda>_.
     let waiter = length (sems k);
         k = k\<lparr>sems := sems k @ [\<lparr>s_value = 0, s_queue = []\<rparr>]\<rparr> in
     rbind (get_cond c k) (\<lambda>w.
     rbind (List_Append w waiter) (\<lambda>w.
     push [DoRelease l, DoP waiter, DoAcquire l, DeleteSem waiter] (k\<lparr>conds := (conds k)[c := w]\<rparr>)))))"

definition Condition_Signal :: "nat \<Rightarrow> nat \<Rightarrow> kst \<Rightarrow> kst res" where
  "Condition_Signal c l k =
     rbind (get_lock l k) (\<lambda>x.
     rbind (assert (Lock_IsHeldByCurrentThread x k)) (\<lambda>_.
     rbind (get_cond c k) (\<lambda>w.
     if w \<noteq> [] then
       rbind (List_RemoveFront w) (\<lambda>(waiter, w). push [DoV waiter] (k\<lparr>conds := (conds k)[c := w]\<rparr>))
     else Inr k)))"

definition Condition_Broadcast :: "nat \<Rightarrow> nat \<Rightarrow> kst \<Rightarrow> kst res" where
  "Condition_Broadcast c l k =
     rbind (get_cond c k) (\<lambda>w. if w \<noteq> [] then push [DoSignal c l, DoBroadcast c l] k else Inr k)"

section \<open>Synchronized lists and devices\<close>

definition get_list :: "nat \<Rightarrow> kst \<Rightarrow> synchlist res" where
  "get_list i k = (if i < length (lists k) then Inr (lists k ! i) else Inl NullDeref)"

text \<open>The calls of the two operations on the list \<open>i\<close>, whose lock and condition are \<open>l\<close> and \<open>c\<close>.\<close>

definition SynchList_Append :: "synchlist \<Rightarrow> nat \<Rightarrow> int \<Rightarrow> frame list" where
  "SynchList_Append x i it = [DoAcquire (sl_lock x), ListAppend i it, DoSignal (sl_cond x) (sl_lock x), DoRelease (sl_lock x)]"

definition SynchList_RemoveFront :: "synchlist \<Rightarrow> nat \<Rightarrow> frame list" where
  "SynchList_RemoveFront x i = [DoAcquire (sl_lock x), RemoveLoop i, DoRelease (sl_lock x)]"

definition list_append :: "nat \<Rightarrow> int \<Rightarrow> kst \<Rightarrow> kst res" where
  "list_append i it k =
     rbind (get_list i k) (\<lambda>x.
     rbind (List_Append (sl_list x) it) (\<lambda>xs. Inr (k\<lparr>lists := (lists k)[i := x\<lparr>sl_list := xs\<rparr>]\<rparr>)))"

text \<open>
  Two uses of what the last call returned: appending it to a list, \<^verbatim>\<open>list->Append(other->RemoveFront())\<close>, and checking
  it, \<^verbatim>\<open>ASSERT(val == list->RemoveFront())\<close>.
\<close>

definition SynchList_AppendResult :: "synchlist \<Rightarrow> nat \<Rightarrow> frame list" where
  "SynchList_AppendResult x i = [DoAcquire (sl_lock x), AppendResult i, DoSignal (sl_cond x) (sl_lock x), DoRelease (sl_lock x)]"

definition append_result :: "nat \<Rightarrow> kst \<Rightarrow> kst res" where
  "append_result i k = rbind (get_thread (currentThread k) k) (\<lambda>th. list_append i (t_result th) k)"

definition assert_result :: "int \<Rightarrow> kst \<Rightarrow> kst res" where
  "assert_result v k =
     rbind (get_thread (currentThread k) k) (\<lambda>th. rbind (assert (t_result th = v)) (\<lambda>_. Inr k))"

text \<open>\<^verbatim>\<open>while (list->IsEmpty()) listEmpty->Wait(lock); item = list->RemoveFront();\<close>\<close>

definition remove_loop :: "nat \<Rightarrow> kst \<Rightarrow> kst res" where
  "remove_loop i k =
     rbind (get_list i k) (\<lambda>x.
     if sl_list x = [] then push [DoWait (sl_cond x) (sl_lock x), RemoveLoop i] k
     else
       rbind (List_RemoveFront (sl_list x)) (\<lambda>(it, xs).
       with_thread (currentThread k) (\<lambda>th. th\<lparr>t_result := it\<rparr>) (k\<lparr>lists := (lists k)[i := x\<lparr>sl_list := xs\<rparr>]\<rparr>)))"

text \<open>
  \<^verbatim>\<open>SynchDisk::ReadSector\<close>, \<^verbatim>\<open>SynchDisk::WriteSector\<close> and \<^verbatim>\<open>SynchConsoleOutput::PutChar\<close>: one request at a time, and
  wait for its completion; \<^verbatim>\<open>SynchConsoleInput::GetChar\<close>: wait for a key, and take it.
\<close>

definition Synch_Request :: "reqdev \<Rightarrow> nat \<Rightarrow> int \<Rightarrow> frame list" where
  "Synch_Request x d delay = [DoAcquire (rd_lock x), Request d delay, DoP (rd_sem x), DoRelease (rd_lock x)]"

definition SynchConsole_GetChar :: "kst \<Rightarrow> frame list" where
  "SynchConsole_GetChar k = [DoAcquire (keyLock k), DoP (keySem k), KeyGet, DoRelease (keyLock k)]"

definition key_get :: "kst \<Rightarrow> kst res" where
  "key_get k =
     rbind (ConsoleInput_GetChar k) (\<lambda>(ch, k).
     with_thread (currentThread k) (\<lambda>th. th\<lparr>t_result := sint ch\<rparr>) k)"

section \<open>User programs\<close>

text \<open>
  \<^verbatim>\<open>Machine::Run\<close> never returns: the frame \<open>UserRun\<close> is a round of its loop.  Here is what the round does after the
  instruction, \<^verbatim>\<open>OneTick\<close>; the instruction, with the system call it may make, is in theory \<open>Multi\<close>, since a system call
  needs the rest of the kernel.  \<^verbatim>\<open>AddrSpace::Execute\<close> makes the thread run the program in an address space.
\<close>

definition Machine_Run :: "kst \<Rightarrow> kst res" where
  "Machine_Run k = push [UserRun] (k\<lparr>mstatus := UserMode\<rparr>)"

definition Run_tick :: "kst \<Rightarrow> kst res" where
  "Run_tick k = rbind (push [UserRun] k) Interrupt_OneTick"

definition Execute_thread :: "addrspace \<Rightarrow> kst \<Rightarrow> kst res" where
  "Execute_thread sp k =
     rbind (with_thread (currentThread k) (\<lambda>th. th\<lparr>t_space := Some sp\<rparr>) k) (\<lambda>k.
     rbind (AddrSpace_Execute sp (kmach k)) (\<lambda>m. Machine_Run (k\<lparr>kmach := m\<rparr>)))"

section \<open>The machine of frames\<close>

primrec exec_frame :: "frame \<Rightarrow> (nat \<Rightarrow> frame list) \<Rightarrow> kst \<Rightarrow> kst res" where
  "exec_frame (SetLevel l) F k = Interrupt_SetLevel l k"
| "exec_frame (Ticked st) F k = Inr (k\<lparr>mstatus := st\<rparr>)"
| "exec_frame Switched F k = Switched_back k"
| "exec_frame DoYield F k = Thread_Yield k"
| "exec_frame (DoSleep fin) F k = Thread_Sleep fin k"
| "exec_frame (SleepLoop fin) F k = Sleep_loop fin k"
| "exec_frame DoBegin F k = Thread_Begin k"
| "exec_frame DoFinish F k = Thread_Finish k"
| "exec_frame (DoFork f) F k = Thread_Fork (F f) k"
| "exec_frame (DoP s) F k = Semaphore_P s k"
| "exec_frame (PLoop s l) F k = P_loop s l k"
| "exec_frame (DoV s) F k = Semaphore_V s k"
| "exec_frame (DoAcquire l) F k = Lock_Acquire l k"
| "exec_frame (SetHolder l) F k = Lock_setHolder l k"
| "exec_frame (DoRelease l) F k = Lock_Release l k"
| "exec_frame (DoWait c l) F k = Condition_Wait c l k"
| "exec_frame (DeleteSem s) F k = Inr k"
| "exec_frame (DoSignal c l) F k = Condition_Signal c l k"
| "exec_frame (DoBroadcast c l) F k = Condition_Broadcast c l k"
| "exec_frame (ListAppend i x) F k = list_append i x k"
| "exec_frame (RemoveLoop i) F k = remove_loop i k"
| "exec_frame (AppendResult i) F k = append_result i k"
| "exec_frame (AssertResult v) F k = assert_result v k"
| "exec_frame (Request d delay) F k = Device_Request d delay k"
| "exec_frame KeyGet F k = key_get k"
| "exec_frame (DoExecute sp) F k = Execute_thread sp k"
| "exec_frame UserRun F k = Run_tick k"

definition top :: "kst \<Rightarrow> frame option" where
  "top k = (case get_thread (currentThread k) k of
     Inl _ \<Rightarrow> None
   | Inr th \<Rightarrow> (case t_code th of [] \<Rightarrow> None | f # _ \<Rightarrow> Some f))"

definition kstep :: "(nat \<Rightarrow> frame list) \<Rightarrow> kst \<Rightarrow> kst res" where
  "kstep F k =
     rbind (get_thread (currentThread k) k) (\<lambda>th.
     case t_code th of
       [] \<Rightarrow> Inl NullDeref
     | f # fs \<Rightarrow> exec_frame f F (put_thread (currentThread k) (th\<lparr>t_code := fs\<rparr>) k))"

end
