(* ===== verification/ThreadsInv.thy ===== *)
theory ThreadsInv
  imports Threads
begin

text \<open>
  The invariant of the thread system and that every step keeps it: who is ready, who waits where, what the
  stacks of suspended threads look like, and which interrupt level each program point expects.
\<close>

section \<open>Reading the state\<close>

definition alive :: "kst \<Rightarrow> nat \<Rightarrow> bool" where
  "alive k t \<longleftrightarrow> t < length (threads k) \<and> threads k ! t \<noteq> None"

abbreviation th :: "kst \<Rightarrow> nat \<Rightarrow> thread" where
  "th k t \<equiv> the (threads k ! t)"

abbreviation code :: "kst \<Rightarrow> nat \<Rightarrow> frame list" where
  "code k t \<equiv> t_code (th k t)"

abbreviation queue :: "kst \<Rightarrow> nat \<Rightarrow> nat list" where
  "queue k s \<equiv> s_queue (sems k ! s)"

abbreviation cur :: "kst \<Rightarrow> nat" where
  "cur k \<equiv> currentThread k"

text \<open>The level at which a frame runs and the level it leaves when it returns.\<close>

fun lvl :: "frame \<Rightarrow> IntStatus" where
  "lvl (SetLevel _) = IntOff"
| "lvl Switched = IntOff"
| "lvl (DoSleep _) = IntOff"
| "lvl (SleepLoop _) = IntOff"
| "lvl (PLoop _ _) = IntOff"
| "lvl DoBegin = IntOff"
| "lvl _ = IntOn"

fun leaves :: "frame \<Rightarrow> IntStatus" where
  "leaves Switched = IntOff"
| "leaves (DoSleep _) = IntOff"
| "leaves (SleepLoop _) = IntOff"
| "leaves _ = IntOn"

fun final :: "frame \<Rightarrow> bool" where
  "final DoFinish = True"
| "final (DoSleep fin) = fin"
| "final (SleepLoop fin) = fin"
| "final _ = False"

fun fine :: "frame \<Rightarrow> frame list \<Rightarrow> bool" where
  "fine (SetLevel l) fs = (l = IntOn)"
| "fine (PLoop s l) fs = (l = IntOn)"
| "fine (DoSleep False) fs = (case fs of PLoop _ _ # _ \<Rightarrow> True | _ \<Rightarrow> False)"
| "fine (SleepLoop False) fs = (case fs of PLoop _ _ # _ \<Rightarrow> True | _ \<Rightarrow> False)"
| "fine f fs = True"

text \<open>A well-formed stack: levels match from frame to frame, and at the bottom the thread finishes.\<close>

primrec wfc :: "frame list \<Rightarrow> bool" where
  "wfc [] = False"
| "wfc (f # fs) = (fine f fs \<and> (if final f then fs = [] else wfc fs \<and> lvl (hd fs) = leaves f))"

text \<open>What a thread's function may call.\<close>

fun is_call :: "frame \<Rightarrow> bool" where
  "is_call (SetLevel _) = False"
| "is_call (Ticked _) = False"
| "is_call Switched = False"
| "is_call (DoSleep _) = False"
| "is_call (SleepLoop _) = False"
| "is_call DoBegin = False"
| "is_call DoFinish = False"
| "is_call (PLoop _ _) = False"
| "is_call (SetHolder _) = False"
| "is_call (DeleteSem _) = False"
| "is_call UserRun = False"
| "is_call _ = True"

text \<open>Numbers in frames name objects that exist.\<close>

fun refs_ok :: "kst \<Rightarrow> frame \<Rightarrow> bool" where
  "refs_ok k (DoP s) = (s < length (sems k))"
| "refs_ok k (PLoop s _) = (s < length (sems k))"
| "refs_ok k (DoV s) = (s < length (sems k))"
| "refs_ok k (DoAcquire l) = (l < length (locks k))"
| "refs_ok k (SetHolder l) = (l < length (locks k))"
| "refs_ok k (DoRelease l) = (l < length (locks k))"
| "refs_ok k (DoWait c l) = (c < length (conds k) \<and> l < length (locks k))"
| "refs_ok k (DoSignal c l) = (c < length (conds k) \<and> l < length (locks k))"
| "refs_ok k (DoBroadcast c l) = (c < length (conds k) \<and> l < length (locks k))"
| "refs_ok k (ListAppend i _) = (i < length (lists k))"
| "refs_ok k (RemoveLoop i) = (i < length (lists k))"
| "refs_ok k (AppendResult i) = (i < length (lists k))"
| "refs_ok k (Request d delay) = (d < length (devs k) \<and> 0 < delay)"
| "refs_ok k _ = True"

definition progs_ok :: "(nat \<Rightarrow> frame list) \<Rightarrow> kst \<Rightarrow> bool" where
  "progs_ok F k \<longleftrightarrow> (\<forall>n. \<forall>f \<in> set (F n). is_call f \<and> refs_ok k f)"

definition sleeping :: "frame list \<Rightarrow> bool" where
  "sleeping c \<longleftrightarrow> (\<exists>s fs. c = SleepLoop False # PLoop s IntOn # fs)"

definition waiting :: "kst \<Rightarrow> nat \<Rightarrow> nat \<Rightarrow> bool" where
  "waiting k s t \<longleftrightarrow> alive k t \<and> (\<exists>f fs. code k t = f # PLoop s IntOn # fs \<and>
     (if t = cur k then f = DoSleep False \<or> f = SleepLoop False else f = Switched))"

definition parked :: "frame list \<Rightarrow> bool" where
  "parked c \<longleftrightarrow> wfc c \<and> (hd c = Switched \<or> hd c = DoBegin)"

definition regs_ok :: "32 word list \<Rightarrow> bool" where
  "regs_ok rs \<longleftrightarrow> length rs = 40 \<and> unat (rs ! 37) < 32 \<and> rs ! 0 = 0"

section \<open>The invariant\<close>

definition sched_ok :: "kst \<Rightarrow> bool" where
  "sched_ok k \<longleftrightarrow> alive k (cur k) \<and> distinct (readyList k) \<and>
     (\<forall>t \<in> set (readyList k). alive k t \<and> t_status (th k t) = READY \<and> (\<forall>s < length (sems k). t \<notin> set (queue k s)) \<and>
        (t = cur k \<longrightarrow> sleeping (code k t))) \<and>
     (\<forall>s < length (sems k). distinct (queue k s) \<and> 0 \<le> s_value (sems k ! s) \<and> (\<forall>t \<in> set (queue k s). waiting k s t)) \<and>
     (\<forall>t. alive k t \<and> t \<noteq> cur k \<and> toBeDestroyed k \<noteq> Some t \<longrightarrow> parked (code k t)) \<and>
     (\<forall>t. toBeDestroyed k = Some t \<longrightarrow> t \<noteq> cur k \<and> alive k t \<and> t \<notin> set (readyList k) \<and> (\<forall>s < length (sems k). t \<notin> set (queue k s)))"

definition refs_inv :: "kst \<Rightarrow> bool" where
  "refs_inv k \<longleftrightarrow> (\<forall>x \<in> set (locks k). l_semaphore x < length (sems k)) \<and>
     (\<forall>w \<in> set (conds k). \<forall>s \<in> set w. s < length (sems k)) \<and> (\<forall>w \<in> set (conds k). distinct w) \<and>
     (\<forall>x \<in> set (lists k). sl_lock x < length (locks k) \<and> sl_cond x < length (conds k)) \<and>
     (\<forall>x \<in> set (devs k). rd_sem x < length (sems k)) \<and> keySem k < length (sems k) \<and>
     (\<forall>t. alive k t \<longrightarrow> (\<forall>f \<in> set (code k t). refs_ok k f))"

interpretation pc: comparator PendingCompare
  by unfold_locales (auto simp: PendingCompare_def split: if_splits)

definition dev_ok :: "kst \<Rightarrow> bool" where
  "dev_ok k \<longleftrightarrow> pc.ordered (pending k) \<and> (\<forall>p \<in> set (pending k). p_serial p < serial k \<and> (\<forall>d. p_dev p = RequestDev d \<longrightarrow> d < length (devs k))) \<and>
     (length (filter (\<lambda>p. p_dev p = KeyboardDev) (pending k)) \<le> (if incoming k = 255 then 1 else 0)) \<and>
     regs_ok (registers (kmach k)) \<and> (\<forall>t. alive k t \<longrightarrow> regs_ok (t_userRegisters (th k t)))"

definition kinv :: "kst \<Rightarrow> bool" where
  "kinv k \<longleftrightarrow> sched_ok k \<and> refs_inv k \<and> dev_ok k \<and> wfc (code k (cur k)) \<and> level k = lvl (hd (code k (cur k))) \<and>
     (toBeDestroyed k \<noteq> None \<longrightarrow> hd (code k (cur k)) = Switched \<or> hd (code k (cur k)) = DoBegin) \<and>
     \<not> inHandler k \<and> \<not> yieldOnReturn k"

section \<open>Effects of the basic operations\<close>

text \<open>The threads up to their status: what interrupt handlers leave alone.\<close>

definition frozen :: "kst \<Rightarrow> thread option list" where
  "frozen k = map (map_option (\<lambda>x. x\<lparr>t_status := READY\<rparr>)) (threads k)"

text \<open>The running thread is on no list.\<close>

definition free :: "kst \<Rightarrow> bool" where
  "free k \<longleftrightarrow> cur k \<notin> set (readyList k) \<and> (\<forall>s < length (sems k). cur k \<notin> set (queue k s))"

lemma free_fields [simp]:
  "free (k\<lparr>level := l\<rparr>) = free k" "free (k\<lparr>pending := p\<rparr>) = free k" "free (k\<lparr>devs := d\<rparr>) = free k"
  "free (k\<lparr>incoming := c\<rparr>) = free k" "free (k\<lparr>serial := n\<rparr>) = free k" "free (k\<lparr>keyboard := ks\<rparr>) = free k"
  "free (k\<lparr>inHandler := b\<rparr>) = free k" "free (k\<lparr>yieldOnReturn := b\<rparr>) = free k" "free (k\<lparr>drawn := n\<rparr>) = free k"
  "free (k\<lparr>kmach := m\<rparr>) = free k" "free (k\<lparr>now := i\<rparr>) = free k" "free (k\<lparr>idleTicks := i\<rparr>) = free k"
  "free (k\<lparr>mstatus := st\<rparr>) = free k" "free (k\<lparr>systemTicks := i\<rparr>) = free k" "free (k\<lparr>userTicks := i\<rparr>) = free k"
  "free (k\<lparr>halted := b\<rparr>) = free k" "free (k\<lparr>locks := ls\<rparr>) = free k" "free (k\<lparr>conds := cs\<rparr>) = free k"
  "free (k\<lparr>lists := xs\<rparr>) = free k" "free (k\<lparr>threads := ts\<rparr>) = free k" "free (k\<lparr>toBeDestroyed := tb\<rparr>) = free k"
  by (simp_all add: free_def)

definition quiet :: "kst \<Rightarrow> kst \<Rightarrow> bool" where
  "quiet k k' \<longleftrightarrow> frozen k' = frozen k \<and> cur k' = cur k \<and> toBeDestroyed k' = toBeDestroyed k \<and> level k' = level k \<and>
     locks k' = locks k \<and> conds k' = conds k \<and> lists k' = lists k \<and> length (sems k') = length (sems k) \<and>
     map (\<lambda>x. (rd_sem x, rd_lock x)) (devs k') = map (\<lambda>x. (rd_sem x, rd_lock x)) (devs k) \<and>
     keySem k' = keySem k \<and> keyLock k' = keyLock k \<and> halted k' = halted k \<and> mstatus k' = mstatus k \<and> inHandler k' = inHandler k \<and> (free k \<longrightarrow> free k')"

lemma quiet_refl [simp]: "quiet k k"
  by (simp add: quiet_def)

lemma quiet_trans: "quiet k k1 \<Longrightarrow> quiet k1 k2 \<Longrightarrow> quiet k k2"
  by (simp add: quiet_def)

lemma frozen_nth:
  assumes "frozen k' = frozen k"
  shows "alive k' t = alive k t" "alive k t \<Longrightarrow> (th k' t)\<lparr>t_status := READY\<rparr> = (th k t)\<lparr>t_status := READY\<rparr>"
proof -
  have len: "length (threads k') = length (threads k)" using assms by (metis frozen_def length_map)
  have nth: "map_option (\<lambda>x. x\<lparr>t_status := READY\<rparr>) (threads k' ! t) = map_option (\<lambda>x. x\<lparr>t_status := READY\<rparr>) (threads k ! t)"
    if "t < length (threads k)" using assms that len by (metis frozen_def nth_map)
  show "alive k' t = alive k t" using nth len by (cases "threads k ! t"; cases "threads k' ! t") (auto simp: alive_def)
  show "(th k' t)\<lparr>t_status := READY\<rparr> = (th k t)\<lparr>t_status := READY\<rparr>" if "alive k t"
    using nth that by (auto simp: alive_def)
qed

lemma same_but_status:
  assumes "(x :: thread)\<lparr>t_status := READY\<rparr> = y\<lparr>t_status := READY\<rparr>"
  shows "t_code x = t_code y" "t_userRegisters x = t_userRegisters y" "t_space x = t_space y"
  using arg_cong [OF assms, of t_code] arg_cong [OF assms, of t_userRegisters] arg_cong [OF assms, of t_space] by simp_all

lemma quiet_thread:
  assumes "quiet k k'"
  shows "alive k' t = alive k t" "alive k t \<Longrightarrow> code k' t = code k t" "alive k t \<Longrightarrow> t_userRegisters (th k' t) = t_userRegisters (th k t)"
    "alive k t \<Longrightarrow> t_space (th k' t) = t_space (th k t)"
proof -
  have f: "frozen k' = frozen k" using assms by (simp add: quiet_def)
  show "alive k' t = alive k t" by (rule frozen_nth [OF f])
  show "code k' t = code k t" "t_userRegisters (th k' t) = t_userRegisters (th k t)" "t_space (th k' t) = t_space (th k t)" if "alive k t"
    by (rule same_but_status [OF frozen_nth(2) [OF f that]])+
qed

lemma quiet_refs_ok: "quiet k k' \<Longrightarrow> refs_ok k' f = refs_ok k f"
  by (cases f) (auto simp: quiet_def dest: map_eq_imp_length_eq)

lemma quiet_refs_inv: "quiet k k' \<Longrightarrow> refs_inv k \<Longrightarrow> refs_inv k'"
proof -
  assume q: "quiet k k'" and r: "refs_inv k"
  have "rd_sem x < length (sems k)" if "x \<in> set (devs k')" for x
  proof -
    from that q have "(rd_sem x, rd_lock x) \<in> set (map (\<lambda>x. (rd_sem x, rd_lock x)) (devs k))"
      by (metis (no_types, lifting) image_eqI list.set_map quiet_def)
    with r show ?thesis by (auto simp: refs_inv_def)
  qed
  with q r quiet_thread [OF q] quiet_refs_ok [OF q] show ?thesis by (auto simp: refs_inv_def quiet_def)
qed

lemma get_thread_alive [simp]: "alive k t \<Longrightarrow> get_thread t k = Inr (th k t)"
  by (auto simp: get_thread_def alive_def)

lemma alive_put [simp]: "alive k t \<Longrightarrow> alive (put_thread t x k) u = alive k u"
  by (auto simp: alive_def put_thread_def nth_list_update)

lemma th_put [simp]: "alive k t \<Longrightarrow> th (put_thread t x k) u = (if u = t then x else th k u)"
  by (auto simp: alive_def put_thread_def nth_list_update)

lemma push_alive: "alive k (cur k) \<Longrightarrow> push fs k = Inr (put_thread (cur k) ((th k (cur k))\<lparr>t_code := fs @ code k (cur k)\<rparr>) k)"
  by (simp add: push_def with_thread_def)

lemma get_sem_in [simp]: "s < length (sems k) \<Longrightarrow> get_sem s k = Inr (sems k ! s)"
  by (simp add: get_sem_def)

lemma frozen_status: "alive k t \<Longrightarrow> frozen (put_thread t ((th k t)\<lparr>t_status := st\<rparr>) k) = frozen k"
  by (auto simp: frozen_def put_thread_def alive_def list_eq_iff_nth_eq nth_list_update)

lemma put_thread_fields [simp]:
  "cur (put_thread t x k) = cur k" "sems (put_thread t x k) = sems k" "readyList (put_thread t x k) = readyList k"
  "toBeDestroyed (put_thread t x k) = toBeDestroyed k" "level (put_thread t x k) = level k" "locks (put_thread t x k) = locks k"
  "conds (put_thread t x k) = conds k" "lists (put_thread t x k) = lists k" "devs (put_thread t x k) = devs k"
  "keySem (put_thread t x k) = keySem k" "keyLock (put_thread t x k) = keyLock k" "halted (put_thread t x k) = halted k"
  "mstatus (put_thread t x k) = mstatus k" "inHandler (put_thread t x k) = inHandler k" "pending (put_thread t x k) = pending k"
  "serial (put_thread t x k) = serial k" "incoming (put_thread t x k) = incoming k" "kmach (put_thread t x k) = kmach k"
  "yieldOnReturn (put_thread t x k) = yieldOnReturn k" "now (put_thread t x k) = now k" "keyboard (put_thread t x k) = keyboard k"
  by (simp_all add: put_thread_def)

lemma put_sem_fields [simp]:
  "cur (put_sem s x k) = cur k" "threads (put_sem s x k) = threads k" "readyList (put_sem s x k) = readyList k"
  "toBeDestroyed (put_sem s x k) = toBeDestroyed k" "level (put_sem s x k) = level k" "locks (put_sem s x k) = locks k"
  "conds (put_sem s x k) = conds k" "lists (put_sem s x k) = lists k" "devs (put_sem s x k) = devs k"
  "keySem (put_sem s x k) = keySem k" "keyLock (put_sem s x k) = keyLock k" "halted (put_sem s x k) = halted k"
  "mstatus (put_sem s x k) = mstatus k" "inHandler (put_sem s x k) = inHandler k" "pending (put_sem s x k) = pending k"
  "serial (put_sem s x k) = serial k" "incoming (put_sem s x k) = incoming k" "kmach (put_sem s x k) = kmach k"
  "yieldOnReturn (put_sem s x k) = yieldOnReturn k" "now (put_sem s x k) = now k" "keyboard (put_sem s x k) = keyboard k"
  "sems (put_sem s x k) = (sems k)[s := x]"
  by (simp_all add: put_sem_def)

lemma alive_fields [simp]:
  "alive (put_sem s x k) t = alive k t" "alive (k\<lparr>readyList := r\<rparr>) t = alive k t" "alive (k\<lparr>level := l\<rparr>) t = alive k t"
  "alive (k\<lparr>pending := p\<rparr>) t = alive k t" "alive (k\<lparr>devs := d\<rparr>) t = alive k t" "alive (k\<lparr>incoming := c\<rparr>) t = alive k t"
  "alive (k\<lparr>serial := n\<rparr>) t = alive k t" "alive (k\<lparr>keyboard := ks\<rparr>) t = alive k t" "alive (k\<lparr>inHandler := b\<rparr>) t = alive k t"
  "alive (k\<lparr>yieldOnReturn := b\<rparr>) t = alive k t" "alive (k\<lparr>drawn := n\<rparr>) t = alive k t" "alive (k\<lparr>kmach := m\<rparr>) t = alive k t"
  "alive (k\<lparr>now := i\<rparr>) t = alive k t" "alive (k\<lparr>idleTicks := i\<rparr>) t = alive k t" "alive (k\<lparr>mstatus := st\<rparr>) t = alive k t"
  "alive (k\<lparr>systemTicks := i\<rparr>) t = alive k t" "alive (k\<lparr>userTicks := i\<rparr>) t = alive k t" "alive (k\<lparr>halted := b\<rparr>) t = alive k t"
  "alive (k\<lparr>locks := ls\<rparr>) t = alive k t" "alive (k\<lparr>conds := cs\<rparr>) t = alive k t" "alive (k\<lparr>lists := xs\<rparr>) t = alive k t"
  "alive (k\<lparr>sems := ss\<rparr>) t = alive k t" "alive (k\<lparr>currentThread := u\<rparr>) t = alive k t" "alive (k\<lparr>toBeDestroyed := d'\<rparr>) t = alive k t"
  by (simp_all add: alive_def)

lemma ReadyToRun_eq:
  assumes "alive k t" "level k = IntOff" "t \<notin> set (readyList k)"
  shows "Scheduler_ReadyToRun t k = Inr (put_thread t ((th k t)\<lparr>t_status := READY\<rparr>) k\<lparr>readyList := readyList k @ [t]\<rparr>)"
  using assms by (simp add: Scheduler_ReadyToRun_def with_thread_def List_Append_def)

section \<open>Using the invariant\<close>

lemma sched_okD:
  assumes "sched_ok k"
  shows "alive k (cur k)" "distinct (readyList k)"
    "t \<in> set (readyList k) \<Longrightarrow> alive k t" "t \<in> set (readyList k) \<Longrightarrow> t_status (th k t) = READY"
    "t \<in> set (readyList k) \<Longrightarrow> s < length (sems k) \<Longrightarrow> t \<notin> set (queue k s)"
    "cur k \<in> set (readyList k) \<Longrightarrow> sleeping (code k (cur k))"
    "s < length (sems k) \<Longrightarrow> distinct (queue k s)" "s < length (sems k) \<Longrightarrow> 0 \<le> s_value (sems k ! s)"
    "s < length (sems k) \<Longrightarrow> t \<in> set (queue k s) \<Longrightarrow> waiting k s t"
    "alive k t \<Longrightarrow> t \<noteq> cur k \<Longrightarrow> toBeDestroyed k \<noteq> Some t \<Longrightarrow> parked (code k t)"
    "toBeDestroyed k = Some t \<Longrightarrow> t \<noteq> cur k" "toBeDestroyed k = Some t \<Longrightarrow> alive k t"
    "toBeDestroyed k = Some t \<Longrightarrow> t \<notin> set (readyList k)"
    "toBeDestroyed k = Some t \<Longrightarrow> s < length (sems k) \<Longrightarrow> t \<notin> set (queue k s)"
  using assms unfolding sched_ok_def by blast+

lemma sched_okI:
  assumes "alive k (cur k)" "distinct (readyList k)"
    "\<And>t. t \<in> set (readyList k) \<Longrightarrow> alive k t \<and> t_status (th k t) = READY"
    "\<And>t s. t \<in> set (readyList k) \<Longrightarrow> s < length (sems k) \<Longrightarrow> t \<notin> set (queue k s)"
    "cur k \<in> set (readyList k) \<Longrightarrow> sleeping (code k (cur k))"
    "\<And>s. s < length (sems k) \<Longrightarrow> distinct (queue k s) \<and> 0 \<le> s_value (sems k ! s)"
    "\<And>s t. s < length (sems k) \<Longrightarrow> t \<in> set (queue k s) \<Longrightarrow> waiting k s t"
    "\<And>t. alive k t \<Longrightarrow> t \<noteq> cur k \<Longrightarrow> toBeDestroyed k \<noteq> Some t \<Longrightarrow> parked (code k t)"
    "\<And>t. toBeDestroyed k = Some t \<Longrightarrow> t \<noteq> cur k \<and> alive k t \<and> t \<notin> set (readyList k)"
    "\<And>t s. toBeDestroyed k = Some t \<Longrightarrow> s < length (sems k) \<Longrightarrow> t \<notin> set (queue k s)"
  shows "sched_ok k"
  using assms unfolding sched_ok_def by blast

text \<open>The parts of the state it looks at.\<close>

lemma waiting_cong: "threads k' = threads k \<Longrightarrow> cur k' = cur k \<Longrightarrow> waiting k' s t = waiting k s t"
  by (simp add: waiting_def alive_def)

lemma sched_ok_cong:
  assumes "sched_ok k" "threads k' = threads k" "readyList k' = readyList k" "cur k' = cur k" "toBeDestroyed k' = toBeDestroyed k"
    "length (sems k') = length (sems k)"
    "\<And>s. s < length (sems k) \<Longrightarrow> queue k' s = queue k s \<and> 0 \<le> s_value (sems k' ! s)"
  shows "sched_ok k'"
proof -
  have a: "alive k' t = alive k t" for t using assms(2) by (simp add: alive_def)
  show ?thesis
    by (rule sched_okI; unfold assms(2-6) a waiting_cong [OF assms(2,4)]; use sched_okD [OF assms(1)] assms(7) in simp)
qed

lemma sched_ok_fields [simp]:
  "sched_ok (k\<lparr>level := l\<rparr>) = sched_ok k" "sched_ok (k\<lparr>pending := p\<rparr>) = sched_ok k" "sched_ok (k\<lparr>devs := d\<rparr>) = sched_ok k"
  "sched_ok (k\<lparr>incoming := c\<rparr>) = sched_ok k" "sched_ok (k\<lparr>serial := n\<rparr>) = sched_ok k" "sched_ok (k\<lparr>keyboard := ks\<rparr>) = sched_ok k"
  "sched_ok (k\<lparr>inHandler := b\<rparr>) = sched_ok k" "sched_ok (k\<lparr>yieldOnReturn := b\<rparr>) = sched_ok k" "sched_ok (k\<lparr>drawn := n\<rparr>) = sched_ok k"
  "sched_ok (k\<lparr>kmach := m\<rparr>) = sched_ok k" "sched_ok (k\<lparr>now := i\<rparr>) = sched_ok k" "sched_ok (k\<lparr>idleTicks := i\<rparr>) = sched_ok k"
  "sched_ok (k\<lparr>mstatus := st\<rparr>) = sched_ok k" "sched_ok (k\<lparr>systemTicks := i\<rparr>) = sched_ok k" "sched_ok (k\<lparr>userTicks := i\<rparr>) = sched_ok k"
  "sched_ok (k\<lparr>halted := b\<rparr>) = sched_ok k" "sched_ok (k\<lparr>locks := ls\<rparr>) = sched_ok k" "sched_ok (k\<lparr>conds := cs\<rparr>) = sched_ok k"
  "sched_ok (k\<lparr>lists := xs\<rparr>) = sched_ok k"
  by (simp_all add: sched_ok_def waiting_def)

lemma queue_unique:
  assumes "sched_ok k" "s < length (sems k)" "s' < length (sems k)" "t \<in> set (queue k s)" "t \<in> set (queue k s')"
  shows "s = s'"
  using sched_okD(9) [OF assms(1,2,4)] sched_okD(9) [OF assms(1,3,5)] by (auto simp: waiting_def)

section \<open>\<^verbatim>\<open>V\<close>\<close>

text \<open>The running thread is in a queue only while it sleeps.\<close>

definition awake :: "kst \<Rightarrow> bool" where
  "awake k \<longleftrightarrow> (\<forall>s < length (sems k). cur k \<in> set (queue k s) \<longrightarrow> sleeping (code k (cur k)))"

lemma wake_ok:
  assumes S: "sched_ok k" and A: "awake k" and s: "s < length (sems k)" and q: "queue k s = t # q"
  shows "sched_ok (put_sem s ((sems k ! s)\<lparr>s_queue := q, s_value := s_value (sems k ! s) + 1\<rparr>)
    (put_thread t ((th k t)\<lparr>t_status := READY\<rparr>) k\<lparr>readyList := readyList k @ [t]\<rparr>))" (is "sched_ok ?k")
proof -
  have w: "waiting k s t" "distinct (t # q)" "t \<notin> set (readyList k)" "toBeDestroyed k \<noteq> Some t"
    using sched_okD(9) [OF S s, of t] sched_okD(7) [OF S s] sched_okD(5) [OF S _ s, of t] sched_okD(14) [OF S _ s, of t] q
    by auto
  then have t: "alive k t" by (simp add: waiting_def)
  have qs: "queue ?k s' = (if s' = s then q else queue k s')" "s_value (sems ?k ! s') = (if s' = s then s_value (sems k ! s) + 1 else s_value (sems k ! s'))"
    if "s' < length (sems k)" for s' using that by (auto simp: nth_list_update)
  have sub: "set (queue ?k s') \<subseteq> set (queue k s') - {t}" if "s' < length (sems k)" for s'
    using that qs(1) [OF that] queue_unique [OF S s that, of t] q w(2) by (cases "s' = s") auto
  have c: "code ?k u = code k u" "alive ?k u = alive k u" for u using t by simp_all
  show ?thesis
  proof (rule sched_okI)
    fix s' u assume "s' < length (sems ?k)" "u \<in> set (queue ?k s')"
    then have "waiting k s' u" using sub sched_okD(9) [OF S, of s' u] by auto
    then show "waiting ?k s' u" unfolding waiting_def c by simp
  next
    assume "cur ?k \<in> set (readyList ?k)"
    then show "sleeping (code ?k (cur ?k))" unfolding c
      using A s q sched_okD(6) [OF S] by (auto simp: awake_def)
  next
    fix s' assume "s' < length (sems ?k)"
    then show "distinct (queue ?k s') \<and> 0 \<le> s_value (sems ?k ! s')"
      using qs [of s'] sched_okD(7,8) [OF S, of s'] w(2) by auto
  next
    fix u s' assume u: "u \<in> set (readyList ?k)" "s' < length (sems ?k)"
    then show "u \<notin> set (queue ?k s')" using sub [of s'] sched_okD(5) [OF S, of u s'] by auto
  next
    fix u s' assume "toBeDestroyed ?k = Some u" "s' < length (sems ?k)"
    then show "u \<notin> set (queue ?k s')" using sub [of s'] sched_okD(14) [OF S, of u s'] by auto
  next
    fix u assume "alive ?k u" "u \<noteq> cur ?k" "toBeDestroyed ?k \<noteq> Some u"
    then show "parked (code ?k u)" unfolding c using sched_okD(10) [OF S, of u] by simp
  qed (use S t w in \<open>auto simp: sched_okD(1-4) sched_okD(11-13)\<close>)
qed

lemma V_body_ok:
  assumes S: "sched_ok k" and A: "awake k" and off: "level k = IntOff" and s: "s < length (sems k)"
  shows "\<exists>k'. V_body s k = Inr k' \<and> sched_ok k' \<and> awake k' \<and> quiet k k' \<and> pending k' = pending k \<and> serial k' = serial k \<and>
    incoming k' = incoming k \<and> kmach k' = kmach k \<and> devs k' = devs k \<and> yieldOnReturn k' = yieldOnReturn k \<and> now k' = now k"
proof (cases "queue k s")
  case Nil
  let ?k = "put_sem s ((sems k ! s)\<lparr>s_value := s_value (sems k ! s) + 1\<rparr>) k"
  have qs: "queue ?k s' = queue k s'" if "s' < length (sems k)" for s' using that by (cases "s' = s") simp_all
  have "0 \<le> s_value (sems ?k ! s')" if "s' < length (sems k)" for s'
    using sched_okD(8) [OF S that] s that by (cases "s' = s") simp_all
  with qs have "sched_ok ?k" by (intro sched_ok_cong [OF S]) simp_all
  moreover have "quiet k ?k" "awake ?k" using A qs by (simp_all add: quiet_def frozen_def awake_def free_def)
  ultimately show ?thesis using Nil s by (simp add: V_body_def)
next
  case (Cons t q)
  let ?k = "put_sem s ((sems k ! s)\<lparr>s_queue := q, s_value := s_value (sems k ! s) + 1\<rparr>)
    (put_thread t ((th k t)\<lparr>t_status := READY\<rparr>) k\<lparr>readyList := readyList k @ [t]\<rparr>)"
  have w: "alive k t" "t \<notin> set (readyList k)"
    using sched_okD(9) [OF S s, of t] sched_okD(5) [OF S _ s, of t] Cons by (auto simp: waiting_def)
  have "V_body s k = Inr ?k"
    using Cons s off w ReadyToRun_eq [of "put_sem s ((sems k ! s)\<lparr>s_queue := q\<rparr>) k" t]
    by (simp add: V_body_def List_RemoveFront_def put_sem_def put_thread_def)
  moreover have "free k \<Longrightarrow> free ?k" using s Cons by (auto simp: free_def nth_list_update)
  then have "quiet k ?k" using frozen_status [OF w(1), of READY] by (simp add: quiet_def frozen_def)
  moreover have "awake ?k" using A s Cons w(1) by (auto simp: awake_def nth_list_update)
  ultimately show ?thesis using wake_ok [OF S A s Cons] by simp
qed

section \<open>Interrupt handlers\<close>

lemma dev_ok_quiet:
  assumes "dev_ok k" "quiet k k'" "pending k' = pending k" "serial k' = serial k" "incoming k' = incoming k" "kmach k' = kmach k"
  shows "dev_ok k'"
proof -
  have "length (devs k') = length (devs k)" using assms(2) by (metis quiet_def map_eq_imp_length_eq)
  with assms quiet_thread [OF assms(2)] show ?thesis by (simp add: dev_ok_def)
qed

lemma dev_ok_fields [simp]:
  "dev_ok (k\<lparr>level := l\<rparr>) = dev_ok k" "dev_ok (k\<lparr>inHandler := b\<rparr>) = dev_ok k" "dev_ok (k\<lparr>yieldOnReturn := b\<rparr>) = dev_ok k"
  "dev_ok (k\<lparr>now := i\<rparr>) = dev_ok k" "dev_ok (k\<lparr>idleTicks := i\<rparr>) = dev_ok k" "dev_ok (k\<lparr>mstatus := st\<rparr>) = dev_ok k"
  "dev_ok (k\<lparr>systemTicks := i\<rparr>) = dev_ok k" "dev_ok (k\<lparr>userTicks := i\<rparr>) = dev_ok k" "dev_ok (k\<lparr>halted := b\<rparr>) = dev_ok k"
  "dev_ok (k\<lparr>drawn := n\<rparr>) = dev_ok k" "dev_ok (k\<lparr>keyboard := ks\<rparr>) = dev_ok k" "dev_ok (k\<lparr>locks := ls\<rparr>) = dev_ok k"
  "dev_ok (k\<lparr>conds := cs\<rparr>) = dev_ok k" "dev_ok (k\<lparr>lists := xs\<rparr>) = dev_ok k" "dev_ok (k\<lparr>sems := ss\<rparr>) = dev_ok k"
  "dev_ok (k\<lparr>readyList := r\<rparr>) = dev_ok k" "dev_ok (put_sem s x k) = dev_ok k" "dev_ok (k\<lparr>toBeDestroyed := d'\<rparr>) = dev_ok k"
  "dev_ok (k\<lparr>currentThread := u\<rparr>) = dev_ok k"
  by (simp_all add: dev_ok_def)

lemma awake_fields [simp]:
  "awake (k\<lparr>level := l\<rparr>) = awake k" "awake (k\<lparr>inHandler := b\<rparr>) = awake k" "awake (k\<lparr>yieldOnReturn := b\<rparr>) = awake k"
  "awake (k\<lparr>now := i\<rparr>) = awake k" "awake (k\<lparr>idleTicks := i\<rparr>) = awake k" "awake (k\<lparr>mstatus := st\<rparr>) = awake k"
  "awake (k\<lparr>systemTicks := i\<rparr>) = awake k" "awake (k\<lparr>userTicks := i\<rparr>) = awake k" "awake (k\<lparr>halted := b\<rparr>) = awake k"
  "awake (k\<lparr>drawn := n\<rparr>) = awake k" "awake (k\<lparr>keyboard := ks\<rparr>) = awake k" "awake (k\<lparr>incoming := c\<rparr>) = awake k"
  "awake (k\<lparr>pending := p\<rparr>) = awake k" "awake (k\<lparr>serial := n\<rparr>) = awake k" "awake (k\<lparr>devs := d\<rparr>) = awake k" "awake (k\<lparr>kmach := m\<rparr>) = awake k"
  by (simp_all add: awake_def)

text \<open>What the handlers rely on and keep.\<close>

definition hinv :: "kst \<Rightarrow> bool" where
  "hinv k \<longleftrightarrow> sched_ok k \<and> awake k \<and> refs_inv k \<and> dev_ok k \<and> level k = IntOff \<and> inHandler k"

definition valid_dev :: "device \<Rightarrow> kst \<Rightarrow> bool" where
  "valid_dev d k \<longleftrightarrow> (\<forall>n. d = RequestDev n \<longrightarrow> n < length (devs k)) \<and>
     (d = KeyboardDev \<longrightarrow> incoming k = 255 \<and> (\<forall>p \<in> set (pending k). p_dev p \<noteq> KeyboardDev))"

lemma Schedule_ok:
  assumes D: "dev_ok k" and n: "0 < n" and v: "valid_dev d k"
  shows "\<exists>p. Interrupt_Schedule d n k = Inr (k\<lparr>pending := p, serial := Suc (serial k)\<rparr>) \<and>
    dev_ok (k\<lparr>pending := p, serial := Suc (serial k)\<rparr>) \<and>
    set p = insert \<lparr>p_when = now k + n, p_dev = d, p_serial = serial k\<rparr> (set (pending k))"
proof -
  define x where "x = \<lparr>p_when = now k + n, p_dev = d, p_serial = serial k\<rparr>"
  have fresh: "x \<notin> set (pending k)" using D by (auto simp: dev_ok_def x_def)
  obtain low high where lh: "Sorted_Insert PendingCompare (pending k) x = Inr (low @ x # high)" "pending k = low @ high"
    "pc.ordered (low @ x # high)" using D fresh by (auto simp: dev_ok_def elim: pc.insert_split)
  have none: "filter (\<lambda>p. p_dev p = KeyboardDev) (pending k) = []" if "d = KeyboardDev"
    using v that by (auto simp: valid_dev_def filter_empty_conv)
  have "length (filter (\<lambda>p. p_dev p = KeyboardDev) (low @ x # high)) \<le> (if incoming k = 255 then 1 else 0)"
    using none D v lh(2) by (cases "d = KeyboardDev") (auto simp: dev_ok_def valid_dev_def x_def)
  moreover have "p_serial q < Suc (serial k) \<and> (\<forall>e. p_dev q = RequestDev e \<longrightarrow> e < length (devs k))" if "q \<in> set (low @ x # high)" for q
    using that D v lh(2) by (auto simp: dev_ok_def valid_dev_def x_def less_Suc_eq)
  ultimately have "dev_ok (k\<lparr>pending := low @ x # high, serial := Suc (serial k)\<rparr>)"
    using D lh(3) unfolding dev_ok_def by (simp del: set_append filter_append)
  moreover have "Interrupt_Schedule d n k = Inr (k\<lparr>pending := low @ x # high, serial := Suc (serial k)\<rparr>)"
    using n lh(1) by (simp add: Interrupt_Schedule_def Let_def x_def)
  moreover have "set (low @ x # high) = insert x (set (pending k))" using lh(2) by auto
  ultimately show ?thesis unfolding x_def by blast
qed

lemma hinv_quiet:
  assumes "hinv k" "sched_ok k'" "awake k'" "dev_ok k'" "quiet k k'"
  shows "hinv k'"
  using assms quiet_refs_inv [OF assms(5)] by (simp add: hinv_def) (simp add: quiet_def)

lemma handler_V_ok:
  assumes "hinv k" "s < length (sems k)"
  shows "\<exists>k'. handler_V s k = Inr k' \<and> hinv k' \<and> quiet k k' \<and> yieldOnReturn k' = yieldOnReturn k \<and> pending k' = pending k \<and>
    incoming k' = incoming k"
proof -
  have k: "k\<lparr>level := IntOff\<rparr> = k" using assms(1) by (simp add: hinv_def)
  obtain k' where k': "V_body s k = Inr k'" "sched_ok k'" "awake k'" "quiet k k'" "pending k' = pending k" "serial k' = serial k"
    "incoming k' = incoming k" "kmach k' = kmach k" "yieldOnReturn k' = yieldOnReturn k"
    using V_body_ok [of k s] assms by (auto simp: hinv_def)
  moreover have "k'\<lparr>level := level k\<rparr> = k'" using k'(4) by (simp add: quiet_def)
  moreover have "hinv k'"
    using hinv_quiet [OF assms(1) k'(2,3) _ k'(4)] dev_ok_quiet [OF _ k'(4-8)] assms(1) by (simp add: hinv_def)
  ultimately show ?thesis by (simp add: handler_V_def k)
qed

lemma hinv_schedule:
  assumes "hinv k" "0 < n" "valid_dev d k"
  shows "\<exists>k'. Interrupt_Schedule d n k = Inr k' \<and> hinv k' \<and> quiet k k' \<and> yieldOnReturn k' = yieldOnReturn k"
proof -
  obtain p where p: "Interrupt_Schedule d n k = Inr (k\<lparr>pending := p, serial := Suc (serial k)\<rparr>)"
    "dev_ok (k\<lparr>pending := p, serial := Suc (serial k)\<rparr>)" using Schedule_ok [OF _ assms(2,3)] assms(1) by (auto simp: hinv_def)
  moreover have q: "quiet k (k\<lparr>pending := p, serial := Suc (serial k)\<rparr>)" by (simp add: quiet_def frozen_def)
  moreover have "hinv (k\<lparr>pending := p, serial := Suc (serial k)\<rparr>)"
    using hinv_quiet [OF assms(1) _ _ p(2) q] assms(1) by (simp add: hinv_def)
  ultimately show ?thesis by simp
qed

lemma Timer_SetInterrupt_ok:
  assumes "hinv k"
  shows "\<exists>k'. Timer_SetInterrupt k = Inr k' \<and> hinv k' \<and> quiet k k' \<and> yieldOnReturn k' = yieldOnReturn k"
proof -
  have d: "hinv (k\<lparr>drawn := n\<rparr>)" "quiet (k\<lparr>drawn := n\<rparr>) k' = quiet k k'" for n k'
  proof -
    have q: "quiet k (k\<lparr>drawn := n\<rparr>)" by (simp add: quiet_def frozen_def)
    show "hinv (k\<lparr>drawn := n\<rparr>)" using hinv_quiet [OF assms _ _ _ q] assms by (simp add: hinv_def)
    show "quiet (k\<lparr>drawn := n\<rparr>) k' = quiet k k'" by (simp add: quiet_def frozen_def)
  qed
  have v: "valid_dev TimerDev k'" for k' by (simp add: valid_dev_def)
  have "0 < 1 + int i mod (TimerTicks * 2)" for i by (simp add: TimerTicks_def add_pos_nonneg)
  then show ?thesis
    using hinv_schedule [OF d(1) _ v, of "1 + int i mod (TimerTicks * 2)" "Suc (drawn k)" for i] hinv_schedule [OF assms _ v, of TimerTicks] assms
    by (auto simp: Timer_SetInterrupt_def d(2) TimerTicks_def)
qed

lemma CallBack_ok:
  assumes H: "hinv k" and v: "valid_dev d k"
  shows "\<exists>k'. CallBack d k = Inr k' \<and> hinv k' \<and> quiet k k' \<and> (yieldOnReturn k' \<longrightarrow> yieldOnReturn k \<or> mstatus k \<noteq> IdleMode)"
proof (cases d)
  case TimerDev
  let ?k = "if mstatus k \<noteq> IdleMode then k\<lparr>yieldOnReturn := True\<rparr> else k"
  have a: "Alarm_CallBack k = Inr ?k" using H by (simp add: Alarm_CallBack_def Interrupt_YieldOnReturn_def hinv_def)
  have q: "quiet k ?k" by (simp add: quiet_def frozen_def)
  have "hinv ?k" using hinv_quiet [OF H _ _ _ q] H by (simp add: hinv_def)
  from Timer_SetInterrupt_ok [OF this] obtain k' where "Timer_SetInterrupt ?k = Inr k'" "hinv k'" "quiet ?k k'"
    "yieldOnReturn k' = yieldOnReturn ?k" by blast
  with TimerDev a quiet_trans [OF q] show ?thesis by (auto simp: Timer_CallBack_def split: if_splits)
next
  case KeyboardDev
  with v have inc: "incoming k = 255" "\<forall>p \<in> set (pending k). p_dev p \<noteq> KeyboardDev" by (simp_all add: valid_dev_def)
  have none: "filter (\<lambda>p. p_dev p = KeyboardDev) (pending k) = []" using inc(2) by (simp add: filter_empty_conv)
  have q: "quiet k (k\<lparr>keyboard := ks\<rparr>)" "quiet k (k\<lparr>keyboard := ks, incoming := c\<rparr>)" for ks c by (simp_all add: quiet_def frozen_def)
  have "dev_ok (k\<lparr>keyboard := ks, incoming := c\<rparr>)" for ks c using H none by (simp add: hinv_def dev_ok_def)
  then have h: "hinv (k\<lparr>keyboard := ks\<rparr>)" "hinv (k\<lparr>keyboard := ks, incoming := c\<rparr>)" for ks c
    using hinv_quiet [OF H _ _ _ q(1)] hinv_quiet [OF H _ _ _ q(2)] H by (simp_all add: hinv_def)
  have s: "keySem k < length (sems k)" using H by (simp add: hinv_def refs_inv_def)
  have vk: "valid_dev KeyboardDev (k\<lparr>keyboard := ks\<rparr>)" for ks using inc by (simp add: valid_dev_def)
  have t: "0 < ConsoleTime" by (simp add: ConsoleTime_def)
  show ?thesis
  proof (cases "keyboard k")
    case Nil
    with hinv_schedule [OF H t v] KeyboardDev inc show ?thesis by (auto simp: ConsoleInput_CallBack_def)
  next
    case (Cons p ks)
    have "\<exists>k'. handler_V (keySem k) (k\<lparr>keyboard := ks\<rparr>) = Inr k' \<and> hinv k' \<and> quiet k k' \<and> yieldOnReturn k' = yieldOnReturn k"
      "\<exists>k'. handler_V (keySem k) (k\<lparr>keyboard := ks, incoming := c\<rparr>) = Inr k' \<and> hinv k' \<and> quiet k k' \<and> yieldOnReturn k' = yieldOnReturn k" for c
      using handler_V_ok [OF h(1) [where ks = ks], of "keySem k"] handler_V_ok [OF h(2) [where ks = ks and c = c], of "keySem k"] s quiet_trans [OF q(1)] quiet_trans [OF q(2)]
      by fastforce+
    moreover have "\<exists>k'. Interrupt_Schedule KeyboardDev ConsoleTime (k\<lparr>keyboard := ks\<rparr>) = Inr k' \<and> hinv k' \<and> quiet k k' \<and> yieldOnReturn k' = yieldOnReturn k"
      using hinv_schedule [OF h(1) t vk, of ks] quiet_trans [OF q(1)] by fastforce
    ultimately show ?thesis using Cons KeyboardDev inc by (cases p) (auto simp: ConsoleInput_CallBack_def)
  qed
next
  case (RequestDev n)
  with v have n: "n < length (devs k)" by (simp add: valid_dev_def)
  let ?k = "k\<lparr>devs := (devs k)[n := (devs k ! n)\<lparr>rd_busy := False\<rparr>]\<rparr>"
  have q: "quiet k ?k"
    using n by (simp add: quiet_def frozen_def list_eq_iff_nth_eq nth_list_update)
  have "hinv ?k" using hinv_quiet [OF H _ _ _ q] dev_ok_quiet [OF _ q] H by (simp add: hinv_def)
  moreover have "rd_sem (devs k ! n) < length (sems ?k)" using H n by (simp add: hinv_def refs_inv_def)
  ultimately show ?thesis
    using handler_V_ok [of ?k "rd_sem (devs k ! n)"] RequestDev n quiet_trans [OF q] by (fastforce simp: Device_CallBack_def)
qed

text \<open>Taking the first interrupt off the list makes its device valid.\<close>

lemma hinv_pop:
  assumes "hinv k" "pending k = p # ps"
  shows "hinv (k\<lparr>pending := ps\<rparr>)" "valid_dev (p_dev p) (k\<lparr>pending := ps\<rparr>)"
proof -
  have q: "quiet k (k\<lparr>pending := ps\<rparr>)" by (simp add: quiet_def frozen_def)
  have D: "dev_ok k" using assms(1) by (simp add: hinv_def)
  have "dev_ok (k\<lparr>pending := ps\<rparr>)" using D assms(2) by (auto simp: dev_ok_def pc.ordered_def split: if_splits)
  then show "hinv (k\<lparr>pending := ps\<rparr>)" using hinv_quiet [OF assms(1) _ _ _ q] assms(1) by (simp add: hinv_def)
  show "valid_dev (p_dev p) (k\<lparr>pending := ps\<rparr>)"
    using D assms(2) by (auto simp: dev_ok_def valid_dev_def filter_empty_conv split: if_splits)
qed

lemma fire_ok:
  "hinv k \<Longrightarrow> pending k \<noteq> [] \<Longrightarrow>
   \<exists>k'. fire k = Inr k' \<and> hinv k' \<and> quiet k k' \<and> now k' = now k \<and> (\<forall>p \<in> set (pending k'). now k' < p_when p) \<and>
     (yieldOnReturn k' \<longrightarrow> yieldOnReturn k \<or> mstatus k \<noteq> IdleMode)"
proof (induction k rule: fire.induct)
  case (1 k)
  then obtain p ps where ps: "pending k = p # ps" by (cases "pending k") auto
  then have rf: "List_RemoveFront (pending k) = Inr (p, ps)" by (simp add: List_RemoveFront_def)
  obtain k1 where k1: "CallBack (p_dev p) (k\<lparr>pending := ps\<rparr>) = Inr k1" "hinv k1" "quiet (k\<lparr>pending := ps\<rparr>) k1"
    "yieldOnReturn k1 \<longrightarrow> yieldOnReturn k \<or> mstatus k \<noteq> IdleMode"
    using CallBack_ok [OF hinv_pop [OF "1.prems"(1) ps]] by auto
  have n: "now k1 = now k" using CallBack_due [OF k1(1)] by simp
  have q: "quiet k k1" using k1(3) by (simp add: quiet_def frozen_def)
  show ?case
  proof (cases "pending k1 \<noteq> [] \<and> p_when (hd (pending k1)) \<le> now k1")
    case True
    with "1.IH" [OF rf refl k1(1) True k1(2)] obtain k' where "fire k1 = Inr k'" "hinv k'" "quiet k1 k'" "now k' = now k1"
      "\<forall>p \<in> set (pending k'). now k' < p_when p" "yieldOnReturn k' \<longrightarrow> yieldOnReturn k1 \<or> mstatus k1 \<noteq> IdleMode" by auto
    moreover have "mstatus k1 = mstatus k" using q by (simp add: quiet_def)
    ultimately show ?thesis using True k1(1,4) n quiet_trans [OF q] by (subst fire.simps) (auto simp: rf)
  next
    case False
    have o: "pc.ordered (pending k1)" using k1(2) by (simp add: hinv_def dev_ok_def)
    have "\<forall>p \<in> set (pending k1). now k1 < p_when p"
      using False o by (cases "pending k1") (auto simp: pc.ordered_def PendingCompare_def split: if_splits)
    with False k1 n q show ?thesis by (subst fire.simps) (auto simp: rf)
  qed
qed

section \<open>The clock\<close>

lemma refs_ok_cong:
  "length (sems k') = length (sems k) \<Longrightarrow> length (locks k') = length (locks k) \<Longrightarrow> length (conds k') = length (conds k) \<Longrightarrow>
   length (lists k') = length (lists k) \<Longrightarrow> length (devs k') = length (devs k) \<Longrightarrow> refs_ok k' f = refs_ok k f"
  by (cases f) simp_all

lemma refs_inv_eq:
  assumes "threads k' = threads k" "length (sems k') = length (sems k)" "locks k' = locks k" "conds k' = conds k"
    "lists k' = lists k" "devs k' = devs k" "keySem k' = keySem k"
  shows "refs_inv k' = refs_inv k"
proof -
  have "refs_ok k' f = refs_ok k f" for f using assms by (intro refs_ok_cong) simp_all
  with assms show ?thesis by (simp add: refs_inv_def alive_def)
qed

lemma refs_inv_fields [simp]:
  "refs_inv (k\<lparr>level := l\<rparr>) = refs_inv k" "refs_inv (k\<lparr>yieldOnReturn := b\<rparr>) = refs_inv k" "refs_inv (k\<lparr>mstatus := st\<rparr>) = refs_inv k"
  "refs_inv (k\<lparr>now := i\<rparr>) = refs_inv k" "refs_inv (k\<lparr>systemTicks := i\<rparr>) = refs_inv k" "refs_inv (k\<lparr>userTicks := i\<rparr>) = refs_inv k"
  "refs_inv (k\<lparr>halted := b\<rparr>) = refs_inv k" "refs_inv (k\<lparr>kmach := m\<rparr>) = refs_inv k" "refs_inv (k\<lparr>inHandler := b\<rparr>) = refs_inv k"
  "refs_inv (k\<lparr>readyList := r\<rparr>) = refs_inv k" "refs_inv (k\<lparr>currentThread := t\<rparr>) = refs_inv k" "refs_inv (k\<lparr>toBeDestroyed := tb\<rparr>) = refs_inv k"
  "refs_inv (k\<lparr>pending := p\<rparr>) = refs_inv k" "refs_inv (k\<lparr>serial := n\<rparr>) = refs_inv k" "refs_inv (k\<lparr>incoming := c\<rparr>) = refs_inv k"
  "refs_inv (put_sem s x k) = refs_inv k"
  by (rule refs_inv_eq; simp; fail)+

definition base :: "kst \<Rightarrow> bool" where
  "base k \<longleftrightarrow> sched_ok k \<and> awake k \<and> refs_inv k \<and> dev_ok k \<and> \<not> inHandler k"

lemma free_awake: "free k \<Longrightarrow> awake k"
  by (simp add: free_def awake_def)

lemma base_quiet:
  assumes "base k" "quiet k k'" "sched_ok k'" "awake k'" "dev_ok k'"
  shows "base k'"
  using assms quiet_refs_inv [OF assms(2)] by (simp add: base_def) (simp add: quiet_def)

lemma DelayedLoad_regs_ok:
  assumes "regs_ok (registers m)"
  shows "\<exists>m'. Machine_DelayedLoad 0 0 m = Inr m' \<and> regs_ok (registers m')"
proof -
  define n where "n = unat (reg m 37)"
  have n: "sint (reg m 37) = int n" "n < 40" "length (registers m) = 40"
    using assms sint_small [of "reg m 37"] by (simp_all add: regs_ok_def n_def)
  then show ?thesis by (simp add: Machine_DelayedLoad_def aput_def reg_numbers regs_ok_def)
qed

lemma CheckIfDue_ok:
  assumes B: "base k" and off: "level k = IntOff"
  shows "\<exists>b k'. Interrupt_CheckIfDue adv k = Inr (b, k') \<and> base k' \<and> quiet k k' \<and>
    (yieldOnReturn k' \<longrightarrow> yieldOnReturn k \<or> mstatus k \<noteq> IdleMode) \<and> now k \<le> now k' \<and>
    (\<forall>p \<in> set (pending k'). now k' < p_when p) \<and>
    (adv \<longrightarrow> (b \<longleftrightarrow> pending k \<noteq> [])) \<and> (\<not> adv \<longrightarrow> now k' = now k)"
proof (cases "pending k = [] \<or> (p_when (hd (pending k)) > now k \<and> \<not> adv)")
  case True
  have o: "pc.ordered (pending k)" using B by (simp add: base_def dev_ok_def)
  have "\<forall>p \<in> set (pending k). now k < p_when p"
    using True o by (cases "pending k") (auto simp: pc.ordered_def PendingCompare_def split: if_splits)
  then have "Interrupt_CheckIfDue adv k = Inr (False, k)" "adv \<longrightarrow> pending k = []" "\<forall>p \<in> set (pending k). now k < p_when p"
    using True off by (auto simp: Interrupt_CheckIfDue_def Let_def)
  then show ?thesis using B by auto
next
  case False
  define n where "n = p_when (hd (pending k))"
  define k1 where "k1 = (if n > now k then k\<lparr>idleTicks := idleTicks k + (n - now k), now := n\<rparr> else k)"
  obtain m where m: "Machine_DelayedLoad 0 0 (kmach k) = Inr m" "regs_ok (registers m)"
    using DelayedLoad_regs_ok [of "kmach k"] B by (auto simp: base_def dev_ok_def)
  let ?k2 = "k1\<lparr>kmach := m, inHandler := True\<rparr>"
  have f: "pending k1 = pending k" "mstatus k1 = mstatus k" "yieldOnReturn k1 = yieldOnReturn k" "now k1 = max n (now k)" "kmach k1 = kmach k"
    "quiet k k1" "base k1" "level k1 = IntOff" "sched_ok k1 = sched_ok k" "refs_inv k1 = refs_inv k"
    using B off quiet_refs_inv [of k k1] by (auto simp: k1_def quiet_def frozen_def base_def)
  have "dev_ok ?k2" using f(7) m(2) by (simp add: base_def dev_ok_def)
  moreover have "refs_inv ?k2" using f(7) by (simp add: base_def)
  ultimately have "hinv ?k2" using f(7,8) by (simp add: hinv_def base_def)
  from fire_ok [OF this] False obtain k' where k': "fire ?k2 = Inr k'" "hinv k'" "quiet ?k2 k'" "now k' = max n (now k)"
    "\<forall>p \<in> set (pending k'). now k' < p_when p" "yieldOnReturn k' \<longrightarrow> yieldOnReturn k \<or> mstatus k \<noteq> IdleMode" by (auto simp: f(1-4))
  have run: "Interrupt_CheckIfDue adv k = Inr (True, k'\<lparr>inHandler := False\<rparr>)"
    using False off m(1) k'(1) f(5) by (auto simp: Interrupt_CheckIfDue_def Let_def n_def [symmetric] k1_def)
  have "quiet k1 (k'\<lparr>inHandler := False\<rparr>)" using k'(3) f(7) by (simp add: quiet_def frozen_def base_def)
  then have q: "quiet k (k'\<lparr>inHandler := False\<rparr>)" by (rule quiet_trans [OF f(6)])
  have "base (k'\<lparr>inHandler := False\<rparr>)" using base_quiet [OF B q] k'(2) by (simp add: hinv_def)
  then show ?thesis using run q k'(4-6) False by (auto simp: n_def max_def)
qed

section \<open>Running one frame\<close>

text \<open>The running thread's stack may change freely while it is on no list.\<close>

lemma sched_ok_code:
  assumes S: "sched_ok k" and "free k"
  shows "sched_ok (put_thread (cur k) x k)" "free (put_thread (cur k) x k)"
proof -
  have c: "alive k (cur k)" by (rule sched_okD(1) [OF S])
  show "free (put_thread (cur k) x k)" using assms(2) by (simp add: free_def)
  have w: "waiting (put_thread (cur k) x k) s t" if "waiting k s t" "t \<noteq> cur k" for s t
    using that c by (simp add: waiting_def)
  have "t \<noteq> cur k" if "t \<in> set (readyList k) \<or> (\<exists>s < length (sems k). t \<in> set (queue k s))" for t
    using that assms(2) by (auto simp: free_def)
  moreover from this have "waiting (put_thread (cur k) x k) s t" if "s < length (sems k)" "t \<in> set (queue k s)" for s t
    using that w sched_okD(9) [OF S] by blast
  ultimately show "sched_ok (put_thread (cur k) x k)"
    using c sched_okD [OF S] by (intro sched_okI) auto
qed

lemma refs_inv_code:
  assumes "refs_inv k" "alive k t" "\<forall>f \<in> set (t_code x). refs_ok k f"
  shows "refs_inv (put_thread t x k)"
proof -
  have "refs_ok (put_thread t x k) f = refs_ok k f" for f by (rule refs_ok_cong) simp_all
  with assms show ?thesis by (simp add: refs_inv_def)
qed

lemma dev_ok_code:
  "dev_ok k \<Longrightarrow> alive k t \<Longrightarrow> regs_ok (t_userRegisters x) \<Longrightarrow> dev_ok (put_thread t x k)"
  by (simp add: dev_ok_def)

text \<open>\<open>calm pre k k'\<close>: the step pushed \<open>pre\<close> on the running thread's stack and left the other stacks and the objects alone.\<close>

definition calm :: "frame list \<Rightarrow> kst \<Rightarrow> kst \<Rightarrow> bool" where
  "calm pre k k' \<longleftrightarrow> base k' \<and> free k' \<and> cur k' = cur k \<and> toBeDestroyed k' = toBeDestroyed k \<and>
     code k' (cur k) = pre @ code k (cur k) \<and> \<not> yieldOnReturn k'"

lemma base_alive: "base k \<Longrightarrow> alive k (cur k)"
  by (simp add: base_def sched_okD(1))

lemma calm_refl: "base k \<Longrightarrow> free k \<Longrightarrow> \<not> yieldOnReturn k \<Longrightarrow> calm [] k k"
  by (simp add: calm_def)

lemma push_ok:
  assumes B: "base k" and "free k" "\<not> yieldOnReturn k" "\<forall>f \<in> set fs. refs_ok k f"
  shows "\<exists>k'. push fs k = Inr k' \<and> calm fs k k' \<and> level k' = level k"
proof -
  let ?x = "(th k (cur k))\<lparr>t_code := fs @ code k (cur k)\<rparr>"
  have a: "alive k (cur k)" using B by (rule base_alive)
  have "regs_ok (t_userRegisters ?x)" "\<forall>f \<in> set (t_code ?x). refs_ok k f"
    using B a assms(4) by (auto simp: base_def dev_ok_def refs_inv_def)
  then have "base (put_thread (cur k) ?x k)"
    using B a sched_ok_code [OF _ assms(2), of ?x] refs_inv_code dev_ok_code by (auto simp: base_def intro: free_awake)
  then show ?thesis
    using push_alive [OF a, of fs] a assms sched_ok_code(2) [OF _ assms(2), of ?x] B by (simp add: calm_def base_def)
qed

lemma calm_step:
  assumes "base k" "quiet k k'" "free k" "base k'" "calm pre k' k''"
  shows "calm pre k k''"
  using assms quiet_thread(2) [OF assms(2), of "cur k"] base_alive [OF assms(1)] by (simp add: calm_def quiet_def)

lemma base_fields [simp]:
  "base (k\<lparr>level := l\<rparr>) = base k" "base (k\<lparr>yieldOnReturn := b\<rparr>) = base k" "base (k\<lparr>mstatus := st\<rparr>) = base k"
  "base (k\<lparr>now := i\<rparr>) = base k" "base (k\<lparr>systemTicks := i\<rparr>) = base k" "base (k\<lparr>userTicks := i\<rparr>) = base k"
  "base (k\<lparr>halted := h\<rparr>) = base k"
  by (simp_all add: base_def)

text \<open>Enabling interrupts: time passes, due interrupts fire, and the thread may have to yield.\<close>

lemma OneTick_ok:
  assumes B: "base k" and F: "free k" and Y: "\<not> yieldOnReturn k"
  shows "\<exists>pre k'. Interrupt_OneTick k = Inr k' \<and> calm pre k k' \<and> level k' = IntOn \<and> (pre = [] \<or> (\<exists>st. pre = [DoYield, Ticked st]))"
proof -
  define k1 where "k1 = (if mstatus k = SystemMode then k\<lparr>now := now k + SystemTick, systemTicks := systemTicks k + SystemTick\<rparr>
    else k\<lparr>now := now k + UserTick, userTicks := userTicks k + UserTick\<rparr>)\<lparr>level := IntOff\<rparr>"
  have B1: "base k1" "free k1" "\<not> yieldOnReturn k1" "level k1 = IntOff" "code k1 (cur k1) = code k (cur k)" "cur k1 = cur k"
    "toBeDestroyed k1 = toBeDestroyed k" using B F Y by (simp_all add: k1_def)
  obtain b k2 where k2: "Interrupt_CheckIfDue False k1 = Inr (b, k2)" "base k2" "quiet k1 k2"
    using CheckIfDue_ok [OF B1(1,4), of False] by blast
  have F2: "free k2" using k2(3) B1(2) by (simp add: quiet_def)
  have c2: "code k2 (cur k2) = code k (cur k)" "cur k2 = cur k" "toBeDestroyed k2 = toBeDestroyed k"
    using k2(3) quiet_thread(2) [OF k2(3), of "cur k"] B1 base_alive [OF B1(1)] by (simp_all add: quiet_def)
  let ?k3 = "k2\<lparr>level := IntOn, yieldOnReturn := False, mstatus := SystemMode\<rparr>"
  obtain k' where k': "push [DoYield, Ticked (mstatus k)] ?k3 = Inr k'" "calm [DoYield, Ticked (mstatus k)] ?k3 k'" "level k' = IntOn"
    using push_ok [of ?k3 "[DoYield, Ticked (mstatus k)]"] k2(2) F2 by auto
  have "Interrupt_OneTick k = (if yieldOnReturn k2 then Inr k' else Inr (k2\<lparr>level := IntOn\<rparr>))"
    using k2(1) k'(1) by (simp add: Interrupt_OneTick_def Let_def k1_def)
  moreover have "calm [DoYield, Ticked (mstatus k)] k k'" using k'(2) c2 by (simp add: calm_def)
  moreover have "calm [] k (k2\<lparr>level := IntOn\<rparr>)" if "\<not> yieldOnReturn k2" using that k2(2) F2 c2 by (simp add: calm_def)
  ultimately show ?thesis using k'(3) by (cases "yieldOnReturn k2") auto
qed

lemma SetLevel_ok:
  assumes "base k" "free k" "\<not> yieldOnReturn k" "l = IntOn \<Longrightarrow> level k = IntOff"
  shows "\<exists>pre k'. Interrupt_SetLevel l k = Inr k' \<and> calm pre k k' \<and> level k' = l \<and>
    (pre = [] \<or> l = IntOn \<and> (\<exists>st. pre = [DoYield, Ticked st]))"
proof (cases l)
  case IntOff
  then show ?thesis using assms by (auto simp: Interrupt_SetLevel_def base_def calm_def)
next
  case IntOn
  have n: "\<not> inHandler k" using assms(1) by (simp add: base_def)
  obtain pre k' where "Interrupt_OneTick (k\<lparr>level := IntOn\<rparr>) = Inr k'" "calm pre (k\<lparr>level := IntOn\<rparr>) k'" "level k' = IntOn"
    "pre = [] \<or> (\<exists>st. pre = [DoYield, Ticked st])"
    using OneTick_ok [of "k\<lparr>level := IntOn\<rparr>"] assms by auto
  then show ?thesis using IntOn n assms(4) by (auto simp: Interrupt_SetLevel_def calm_def)
qed

end
