(* ===== verification/ThreadsStep.thy ===== *)
theory ThreadsStep
  imports ThreadsInv
begin

text \<open>
  Every step of the thread system keeps its invariant, and the only assertions that can fail are those a
  thread's own function is responsible for.
\<close>

section \<open>Saving and restoring the user registers\<close>

lemma SaveUserState_eq:
  assumes "length rs = 40" "length (registers m) = 40"
  shows "Thread_SaveUserState m rs = Inr (registers m)"
proof -
  let ?body = "\<lambda>i rs. rbind (Machine_ReadRegister i m) (\<lambda>v. aput rs i v)"
  have "\<exists>rs'. for_range 0 40 ?body rs = Inr rs' \<and> length rs' = 40 \<and> (\<forall>j < nat 40. rs' ! j = registers m ! j)"
  proof (rule for_range_rule [where I = "\<lambda>i rs'. length rs' = 40 \<and> (\<forall>j < nat i. rs' ! j = registers m ! j)"])
    fix i :: int and rs' assume i: "0 \<le> i" "i < 40" "length rs' = 40 \<and> (\<forall>j < nat i. rs' ! j = registers m ! j)"
    then show "\<exists>s'. ?body i rs' = Inr s' \<and> length s' = 40 \<and> (\<forall>j < nat (i + 1). s' ! j = registers m ! j)"
      using assms(2) by (auto simp: Machine_ReadRegister_def NumTotalRegs_def nth_list_update less_Suc_eq nat_add_distrib)
  qed (use assms in auto)
  then obtain rs' where "for_range 0 40 ?body rs = Inr rs'" "length rs' = 40" "\<forall>j < 40. rs' ! j = registers m ! j" by auto
  then show ?thesis
    using assms(2) by (simp add: Thread_SaveUserState_def NumTotalRegs_def list_eq_iff_nth_eq)
qed

lemma RestoreUserState_eq:
  assumes "length rs = 40" "length (registers m) = 40"
  shows "Thread_RestoreUserState rs m = Inr (m\<lparr>registers := rs\<rparr>)"
proof -
  let ?body = "\<lambda>i m. rbind (aget rs i) (\<lambda>v. Machine_WriteRegister i v m)"
  have "\<exists>m'. for_range 0 40 ?body m = Inr m' \<and>
    (\<exists>xs. m' = m\<lparr>registers := xs\<rparr> \<and> length xs = 40 \<and> (\<forall>j < nat 40. xs ! j = rs ! j))"
  proof (rule for_range_rule [where I = "\<lambda>i m'. \<exists>xs. m' = m\<lparr>registers := xs\<rparr> \<and> length xs = 40 \<and> (\<forall>j < nat i. xs ! j = rs ! j)"])
    show "\<exists>xs. m = m\<lparr>registers := xs\<rparr> \<and> length xs = 40 \<and> (\<forall>j < nat 0. xs ! j = rs ! j)"
      using assms(2) by (intro exI [of _ "registers m"]) simp
  next
    fix i :: int and m' assume i: "0 \<le> i" "i < 40" "\<exists>xs. m' = m\<lparr>registers := xs\<rparr> \<and> length xs = 40 \<and> (\<forall>j < nat i. xs ! j = rs ! j)"
    then obtain xs where xs: "m' = m\<lparr>registers := xs\<rparr>" "length xs = 40" "\<forall>j < nat i. xs ! j = rs ! j" by blast
    have "?body i m' = Inr (m\<lparr>registers := xs[nat i := rs ! nat i]\<rparr>)"
      using i xs assms by (simp add: Machine_WriteRegister_def NumTotalRegs_def)
    moreover have "\<forall>j < nat (i + 1). xs[nat i := rs ! nat i] ! j = rs ! j"
      using xs i by (auto simp: nth_list_update less_Suc_eq nat_add_distrib)
    ultimately show "\<exists>s'. ?body i m' = Inr s' \<and> (\<exists>xs. s' = m\<lparr>registers := xs\<rparr> \<and> length xs = 40 \<and> (\<forall>j < nat (i + 1). xs ! j = rs ! j))"
      using xs(2) by (intro exI [of _ "m\<lparr>registers := xs[nat i := rs ! nat i]\<rparr>"] conjI) auto
  qed simp
  then obtain xs where "for_range 0 40 ?body m = Inr (m\<lparr>registers := xs\<rparr>)" "length xs = 40" "\<forall>j < 40. xs ! j = rs ! j" by auto
  moreover from this have "xs = rs" using assms(1) by (simp add: list_eq_iff_nth_eq)
  ultimately show ?thesis by (simp add: Thread_RestoreUserState_def NumTotalRegs_def)
qed

section \<open>Popping the top frame\<close>

lemma refs_ok_put [simp]: "refs_ok (put_sem s x k) f = refs_ok k f" "refs_ok (put_thread t y k) f = refs_ok k f"
  by (rule refs_ok_cong; simp; fail)+

lemma refs_ok_fields [simp]:
  "refs_ok (k\<lparr>readyList := r\<rparr>) f = refs_ok k f" "refs_ok (k\<lparr>threads := ts\<rparr>) f = refs_ok k f" "refs_ok (k\<lparr>kmach := m\<rparr>) f = refs_ok k f"
  "refs_ok (k\<lparr>level := l\<rparr>) f = refs_ok k f" "refs_ok (k\<lparr>toBeDestroyed := tb\<rparr>) f = refs_ok k f"
  by (rule refs_ok_cong; simp; fail)+

lemma put_put [simp]: "put_thread t y (put_thread t x k) = put_thread t y k"
  by (simp add: put_thread_def)

definition popped :: "kst \<Rightarrow> kst" where
  "popped k = put_thread (cur k) ((th k (cur k))\<lparr>t_code := tl (code k (cur k))\<rparr>) k"

lemma kinvD:
  assumes "kinv k"
  shows "sched_ok k" "refs_inv k" "dev_ok k" "wfc (code k (cur k))" "level k = lvl (hd (code k (cur k)))" "\<not> inHandler k" "\<not> yieldOnReturn k"
    "toBeDestroyed k \<noteq> None \<Longrightarrow> hd (code k (cur k)) = Switched \<or> hd (code k (cur k)) = DoBegin" "alive k (cur k)"
  using assms sched_okD(1) by (auto simp: kinv_def)

lemma popped_facts:
  assumes K: "kinv k" and c: "code k (cur k) = f # fs"
  shows "code (popped k) (cur k) = fs" "level (popped k) = lvl f" "toBeDestroyed (popped k) = toBeDestroyed k"
    "cur (popped k) = cur k" "\<forall>g \<in> set (f # fs). refs_ok (popped k) g" "fine f fs" "final f \<Longrightarrow> fs = []"
    "\<not> final f \<Longrightarrow> wfc fs \<and> lvl (hd fs) = leaves f" "f \<noteq> Switched \<Longrightarrow> f \<noteq> DoBegin \<Longrightarrow> toBeDestroyed k = None"
    "\<And>t. alive (popped k) t = alive k t" "\<And>t. t \<noteq> cur k \<Longrightarrow> th (popped k) t = th k t"
proof -
  have a: "alive k (cur k)" by (rule kinvD(9) [OF K])
  show "code (popped k) (cur k) = fs" "\<And>t. alive (popped k) t = alive k t" "\<And>t. t \<noteq> cur k \<Longrightarrow> th (popped k) t = th k t"
    using a c by (simp_all add: popped_def)
  show "level (popped k) = lvl f" "toBeDestroyed (popped k) = toBeDestroyed k" "cur (popped k) = cur k"
    using kinvD(5) [OF K] c by (simp_all add: popped_def)
  have "refs_ok (popped k) g = refs_ok k g" for g by (rule refs_ok_cong) (simp_all add: popped_def)
  then show "\<forall>g \<in> set (f # fs). refs_ok (popped k) g" using kinvD(2) [OF K] a c by (simp add: refs_inv_def)
  show "fine f fs" "final f \<Longrightarrow> fs = []" "\<not> final f \<Longrightarrow> wfc fs \<and> lvl (hd fs) = leaves f"
    using kinvD(4) [OF K] c by auto
  show "f \<noteq> Switched \<Longrightarrow> f \<noteq> DoBegin \<Longrightarrow> toBeDestroyed k = None" using kinvD(8) [OF K] c by (cases "toBeDestroyed k") auto
qed

text \<open>Only a sleeping thread is on a list while it runs.\<close>

lemma kinv_free:
  assumes K: "kinv k" and c: "code k (cur k) = f # fs" and f: "f \<noteq> DoSleep False" "f \<noteq> SleepLoop False"
  shows "free k"
proof -
  have "cur k \<notin> set (readyList k)" using sched_okD(6) [OF kinvD(1) [OF K]] c f(2) by (auto simp: sleeping_def)
  moreover have "cur k \<notin> set (queue k s)" if "s < length (sems k)" for s
    using sched_okD(9) [OF kinvD(1) [OF K] that, of "cur k"] c f by (auto simp: waiting_def)
  ultimately show ?thesis by (simp add: free_def)
qed

lemma popped_base:
  assumes K: "kinv k" and c: "code k (cur k) = f # fs" and f: "f \<noteq> DoSleep False" "f \<noteq> SleepLoop False"
  shows "base (popped k)" "free (popped k)" "\<not> yieldOnReturn (popped k)"
proof -
  have F: "free k" by (rule kinv_free [OF assms])
  have a: "alive k (cur k)" by (rule kinvD(9) [OF K])
  show fr: "free (popped k)" unfolding popped_def by (rule sched_ok_code(2) [OF kinvD(1) [OF K] F])
  have "sched_ok (popped k)" unfolding popped_def by (rule sched_ok_code(1) [OF kinvD(1) [OF K] F])
  moreover have "refs_inv (popped k)" unfolding popped_def
    by (rule refs_inv_code [OF kinvD(2) [OF K] a]) (use kinvD(2) [OF K] a c in \<open>simp add: refs_inv_def\<close>)
  moreover have "dev_ok (popped k)" unfolding popped_def
    by (rule dev_ok_code [OF kinvD(3) [OF K] a]) (use kinvD(3) [OF K] a in \<open>simp add: dev_ok_def\<close>)
  ultimately show "base (popped k)" using kinvD(6) [OF K] free_awake [OF fr] by (simp add: base_def) (simp add: popped_def)
  show "\<not> yieldOnReturn (popped k)" using kinvD(7) [OF K] by (simp add: popped_def)
qed

lemma kinv_calm:
  assumes "calm pre k k'" "wfc (pre @ code k (cur k))" "level k' = lvl (hd (pre @ code k (cur k)))" "toBeDestroyed k = None"
  shows "kinv k'"
  using assms by (simp add: calm_def kinv_def base_def)

lemma kstep_top:
  assumes "alive k (cur k)" "code k (cur k) = f # fs"
  shows "kstep F k = exec_frame f F (popped k)"
  using assms by (simp add: kstep_def popped_def)

section \<open>Frames that do not switch\<close>

lemma push_kinv:
  assumes "base k" "free k" "\<not> yieldOnReturn k" "toBeDestroyed k = None" "\<forall>f \<in> set fs. refs_ok k f"
    "wfc (fs @ code k (cur k))" "level k = lvl (hd (fs @ code k (cur k)))"
  shows "\<exists>k'. push fs k = Inr k' \<and> kinv k'"
  using push_ok [OF assms(1-3,5)] kinv_calm [OF _ assms(6)] assms(4,7) by auto

lemma SetLevel_On_kinv:
  assumes "base k" "free k" "\<not> yieldOnReturn k" "toBeDestroyed k = None" "level k = IntOff"
    "wfc (code k (cur k))" "lvl (hd (code k (cur k))) = IntOn"
  shows "\<exists>k'. Interrupt_SetLevel IntOn k = Inr k' \<and> kinv k'"
proof -
  obtain pre k' where k': "Interrupt_SetLevel IntOn k = Inr k'" "calm pre k k'" "level k' = IntOn"
    "pre = [] \<or> (\<exists>st. pre = [DoYield, Ticked st])" using SetLevel_ok [OF assms(1-3), of IntOn] assms(5) by auto
  have "kinv k'" by (rule kinv_calm [OF k'(2) _ _ assms(4)]) (use k'(3,4) assms(6,7) in auto)
  with k'(1) show ?thesis by blast
qed

lemma SetLevel_Off_eq: "Interrupt_SetLevel IntOff k = Inr (k\<lparr>level := IntOff\<rparr>)"
  by (simp add: Interrupt_SetLevel_def)

lemma base_locks:
  assumes "base k" "l < length (locks k)" "l_semaphore x = l_semaphore (locks k ! l)"
  shows "base (k\<lparr>locks := (locks k)[l := x]\<rparr>)"
proof -
  let ?k = "k\<lparr>locks := (locks k)[l := x]\<rparr>"
  have "refs_ok ?k f = refs_ok k f" for f by (rule refs_ok_cong) simp_all
  moreover have "l_semaphore y < length (sems k)" if "y \<in> set (locks ?k)" for y
    using that assms set_update_subset_insert [of "locks k" l x] by (auto simp: base_def refs_inv_def)
  ultimately have "refs_inv ?k" using assms(1) by (simp add: base_def refs_inv_def)
  then show ?thesis using assms(1) by (simp add: base_def awake_def)
qed

lemma base_conds:
  assumes "base k" "c < length (conds k)" "distinct w" "\<forall>s \<in> set w. s < length (sems k)"
  shows "base (k\<lparr>conds := (conds k)[c := w]\<rparr>)"
proof -
  let ?k = "k\<lparr>conds := (conds k)[c := w]\<rparr>"
  have "refs_ok ?k f = refs_ok k f" for f by (rule refs_ok_cong) simp_all
  moreover have "distinct y \<and> (\<forall>s \<in> set y. s < length (sems k))" if "y \<in> set (conds ?k)" for y
    using that assms set_update_subset_insert [of "conds k" c w] by (auto simp: base_def refs_inv_def)
  ultimately have "refs_inv ?k" using assms(1) by (simp add: base_def refs_inv_def)
  then show ?thesis using assms(1) by (simp add: base_def awake_def)
qed

lemma base_lists:
  assumes "base k" "i < length (lists k)" "sl_lock x = sl_lock (lists k ! i)" "sl_cond x = sl_cond (lists k ! i)"
  shows "base (k\<lparr>lists := (lists k)[i := x]\<rparr>)"
proof -
  let ?k = "k\<lparr>lists := (lists k)[i := x]\<rparr>"
  have "refs_ok ?k f = refs_ok k f" for f by (rule refs_ok_cong) simp_all
  moreover have "sl_lock y < length (locks k) \<and> sl_cond y < length (conds k)" if "y \<in> set (lists ?k)" for y
    using that assms set_update_subset_insert [of "lists k" i x] by (auto simp: base_def refs_inv_def)
  ultimately have "refs_inv ?k" using assms(1) by (simp add: base_def refs_inv_def)
  then show ?thesis using assms(1) by (simp add: base_def awake_def)
qed

text \<open>A new semaphore.\<close>

lemma base_new_sem:
  assumes B: "base k" and F: "free k"
  shows "base (k\<lparr>sems := sems k @ [\<lparr>s_value = 0, s_queue = []\<rparr>]\<rparr>)" "free (k\<lparr>sems := sems k @ [\<lparr>s_value = 0, s_queue = []\<rparr>]\<rparr>)"
proof -
  let ?k = "k\<lparr>sems := sems k @ [\<lparr>s_value = 0, s_queue = []\<rparr>]\<rparr>"
  have S: "sched_ok k" using B by (simp add: base_def)
  have q: "queue ?k s = (if s < length (sems k) then queue k s else [])" "s_value (sems ?k ! s) = (if s < length (sems k) then s_value (sems k ! s) else 0)"
    if "s < length (sems ?k)" for s using that by (auto simp: nth_append less_Suc_eq)
  show fr: "free ?k" using F q by (simp add: free_def)
  have w: "waiting ?k s t = waiting k s t" for s t by (rule waiting_cong) simp_all
  have "sched_ok ?k"
  proof (rule sched_okI)
    fix s t assume "s < length (sems ?k)" "t \<in> set (queue ?k s)"
    then show "waiting ?k s t" unfolding w using q [of s] sched_okD(9) [OF S] by (auto split: if_splits)
  next
    fix s t assume "t \<in> set (readyList ?k)" "s < length (sems ?k)"
    then show "t \<notin> set (queue ?k s)" using q [of s] sched_okD(5) [OF S] by simp
  next
    fix s assume "s < length (sems ?k)"
    then show "distinct (queue ?k s) \<and> 0 \<le> s_value (sems ?k ! s)" using q [of s] sched_okD(7,8) [OF S] by simp
  next
    fix t s assume "toBeDestroyed ?k = Some t" "s < length (sems ?k)"
    then show "t \<notin> set (queue ?k s)" using q [of s] sched_okD(14) [OF S] by simp
  qed (use sched_okD [OF S] in simp_all)
  moreover have r: "refs_ok k f \<Longrightarrow> refs_ok ?k f" for f by (cases f) simp_all
  have "refs_inv ?k"
    using B r unfolding base_def refs_inv_def by (simp add: less_Suc_eq)
  ultimately show "base ?k" using B free_awake [OF fr] by (simp add: base_def)
qed

text \<open>The frames, one by one.  \<open>ran\<close> is what each of them must achieve.\<close>

definition ran :: "(nat \<Rightarrow> frame list) \<Rightarrow> frame \<Rightarrow> kst \<Rightarrow> bool" where
  "ran F f k \<longleftrightarrow> (\<exists>k'. exec_frame f F (popped k) = Inr k' \<and> kinv k')"

lemma ran_SetLevel: "kinv k \<Longrightarrow> code k (cur k) = SetLevel l # fs \<Longrightarrow> ran F (SetLevel l) k"
  using SetLevel_On_kinv [OF popped_base [of k "SetLevel l" fs]] popped_facts [of k "SetLevel l" fs] by (simp add: ran_def)

lemma calm_none:
  assumes "base k" "free k" "\<not> yieldOnReturn k" "toBeDestroyed k = None" "wfc (code k (cur k))" "level k = lvl (hd (code k (cur k)))"
  shows "kinv k"
  by (rule kinv_calm [OF calm_refl [OF assms(1-3)]]) (use assms in simp_all)

lemma ran_Ticked: "kinv k \<Longrightarrow> code k (cur k) = Ticked st # fs \<Longrightarrow> ran F (Ticked st) k"
proof -
  assume K: "kinv k" and c: "code k (cur k) = Ticked st # fs"
  note P = popped_facts [OF K c] and B = popped_base [OF K c]
  have "kinv (popped k\<lparr>mstatus := st\<rparr>)" by (rule calm_none) (use P B in simp_all)
  then show ?thesis by (simp add: ran_def)
qed

lemma ran_DoP: "kinv k \<Longrightarrow> code k (cur k) = DoP s # fs \<Longrightarrow> ran F (DoP s) k"
proof -
  assume K: "kinv k" and c: "code k (cur k) = DoP s # fs"
  note P = popped_facts [OF K c] and B = popped_base [OF K c]
  have "\<exists>k'. push [PLoop s IntOn] (popped k\<lparr>level := IntOff\<rparr>) = Inr k' \<and> kinv k'"
    by (rule push_kinv) (use P B in simp_all)
  then show ?thesis using P by (simp add: ran_def Semaphore_P_def SetLevel_Off_eq)
qed

lemma ran_DoFinish: "kinv k \<Longrightarrow> code k (cur k) = DoFinish # fs \<Longrightarrow> ran F DoFinish k"
proof -
  assume K: "kinv k" and c: "code k (cur k) = DoFinish # fs"
  note P = popped_facts [OF K c] and B = popped_base [OF K c]
  have "\<exists>k'. push [DoSleep True] (popped k\<lparr>level := IntOff\<rparr>) = Inr k' \<and> kinv k'"
    by (rule push_kinv) (use P B in simp_all)
  then show ?thesis by (simp add: ran_def Thread_Finish_def SetLevel_Off_eq)
qed

lemma ran_DoV: "kinv k \<Longrightarrow> code k (cur k) = DoV s # fs \<Longrightarrow> ran F (DoV s) k"
proof -
  assume K: "kinv k" and c: "code k (cur k) = DoV s # fs"
  note P = popped_facts [OF K c] and B = popped_base [OF K c]
  let ?k = "popped k\<lparr>level := IntOff\<rparr>"
  have B1: "base ?k" "free ?k" "s < length (sems ?k)" using P B by simp_all
  then obtain k1 where k1: "V_body s ?k = Inr k1" "sched_ok k1" "awake k1" "quiet ?k k1" "pending k1 = pending ?k" "serial k1 = serial ?k"
    "incoming k1 = incoming ?k" "kmach k1 = kmach ?k" "yieldOnReturn k1 = yieldOnReturn ?k"
    using V_body_ok [of ?k s] by (auto simp: base_def)
  have "base k1" using base_quiet [OF B1(1) k1(4) k1(2,3)] dev_ok_quiet [OF _ k1(4-8)] B1(1) by (simp add: base_def)
  moreover have "free k1" "level k1 = IntOff" "toBeDestroyed k1 = None" "cur k1 = cur k" "code k1 (cur k) = fs"
    using k1(4) B1 P quiet_thread(2) [OF k1(4), of "cur k"] base_alive [OF B1(1)] by (simp_all add: quiet_def)
  ultimately have "\<exists>k'. Interrupt_SetLevel IntOn k1 = Inr k' \<and> kinv k'"
    by (intro SetLevel_On_kinv) (use k1(9) B P in simp_all)
  then show ?thesis using P k1(1) by (simp add: ran_def Semaphore_V_def SetLevel_Off_eq)
qed

lemma get_lock_in [simp]: "l < length (locks k) \<Longrightarrow> get_lock l k = Inr (locks k ! l)"
  by (simp add: get_lock_def)

lemma get_cond_in [simp]: "c < length (conds k) \<Longrightarrow> get_cond c k = Inr (conds k ! c)"
  by (simp add: get_cond_def)

lemma get_list_in [simp]: "i < length (lists k) \<Longrightarrow> get_list i k = Inr (lists k ! i)"
  by (simp add: get_list_def)

lemma ran_DoAcquire: "kinv k \<Longrightarrow> code k (cur k) = DoAcquire l # fs \<Longrightarrow> ran F (DoAcquire l) k"
proof -
  assume K: "kinv k" and c: "code k (cur k) = DoAcquire l # fs"
  note P = popped_facts [OF K c] and B = popped_base [OF K c]
  have l: "l < length (locks (popped k))" using P(5) by simp
  then have s: "l_semaphore (locks (popped k) ! l) < length (sems (popped k))" using B(1) by (simp add: base_def refs_inv_def)
  have "\<exists>k'. push [DoP (l_semaphore (locks (popped k) ! l)), SetHolder l] (popped k) = Inr k' \<and> kinv k'"
    by (rule push_kinv) (use P B l s in simp_all)
  then show ?thesis using l by (simp add: ran_def Lock_Acquire_def)
qed

lemma ran_SetHolder: "kinv k \<Longrightarrow> code k (cur k) = SetHolder l # fs \<Longrightarrow> ran F (SetHolder l) k"
proof -
  assume K: "kinv k" and c: "code k (cur k) = SetHolder l # fs"
  note P = popped_facts [OF K c] and B = popped_base [OF K c]
  let ?k = "popped k\<lparr>locks := (locks (popped k))[l := (locks (popped k) ! l)\<lparr>lockHolder := Some (cur k)\<rparr>]\<rparr>"
  have "kinv ?k" by (rule calm_none) (use P B base_locks [OF B(1)] in simp_all)
  then show ?thesis using P by (simp add: ran_def Lock_setHolder_def)
qed

text \<open>The assertions a thread's function has to answer for.\<close>

fun client_error :: "frame \<Rightarrow> kst \<Rightarrow> bool" where
  "client_error (DoRelease l) k = (lockHolder (locks k ! l) \<noteq> Some (cur k))"
| "client_error (DoWait c l) k = (lockHolder (locks k ! l) \<noteq> Some (cur k))"
| "client_error (DoSignal c l) k = (lockHolder (locks k ! l) \<noteq> Some (cur k))"
| "client_error (ListAppend i x) k = (x \<in> set (sl_list (lists k ! i)))"
| "client_error (AppendResult i) k = (t_result (th k (cur k)) \<in> set (sl_list (lists k ! i)))"
| "client_error (AssertResult v) k = (t_result (th k (cur k)) \<noteq> v)"
| "client_error (Request d delay) k = rd_busy (devs k ! d)"
| "client_error f k = False"

lemma popped_objects [simp]:
  "locks (popped k) = locks k" "lists (popped k) = lists k" "devs (popped k) = devs k" "conds (popped k) = conds k" "sems (popped k) = sems k"
  "readyList (popped k) = readyList k" "pending (popped k) = pending k" "incoming (popped k) = incoming k" "kmach (popped k) = kmach k"
  by (simp_all add: popped_def)

lemma ran_DoRelease:
  assumes K: "kinv k" and c: "code k (cur k) = DoRelease l # fs" and h: "\<not> client_error (DoRelease l) k"
  shows "ran F (DoRelease l) k"
proof -
  note P = popped_facts [OF K c] and B = popped_base [OF K c]
  let ?k = "popped k\<lparr>locks := (locks k)[l := (locks k ! l)\<lparr>lockHolder := None\<rparr>]\<rparr>"
  have l: "l < length (locks k)" using P(5) by simp
  have B1: "base ?k" using base_locks [OF B(1), of l "(locks k ! l)\<lparr>lockHolder := None\<rparr>"] l by simp
  have s: "l_semaphore (locks k ! l) < length (sems k)" using B(1) l by (simp add: base_def refs_inv_def)
  have "\<exists>k'. push [DoV (l_semaphore (locks k ! l))] ?k = Inr k' \<and> kinv k'"
    by (rule push_kinv [OF B1]) (use P B s in simp_all)
  then show ?thesis using l h P by (simp add: ran_def Lock_Release_def Lock_IsHeldByCurrentThread_def)
qed

lemma base_cond:
  assumes "base k" "c < length (conds k)"
  shows "distinct (conds k ! c)" "\<forall>s \<in> set (conds k ! c). s < length (sems k)"
  using assms nth_mem [OF assms(2)] unfolding base_def refs_inv_def by blast+

lemma ran_DoWait:
  assumes K: "kinv k" and c: "code k (cur k) = DoWait c l # fs" and h: "\<not> client_error (DoWait c l) k"
  shows "ran F (DoWait c l) k"
proof -
  note P = popped_facts [OF K c] and B = popped_base [OF K c]
  have l: "l < length (locks k)" "c < length (conds k)" using P(5) by simp_all
  let ?w = "conds k ! c @ [length (sems k)]"
  let ?k = "popped k\<lparr>sems := sems k @ [\<lparr>s_value = 0, s_queue = []\<rparr>]\<rparr>"
  have w: "distinct (conds k ! c)" "\<forall>s \<in> set (conds k ! c). s < length (sems k)"
    using base_cond [OF B(1), of c] l(2) by simp_all
  have B1: "base ?k" "free ?k" using base_new_sem [OF B(1,2)] by simp_all
  have B2: "base (?k\<lparr>conds := (conds k)[c := ?w]\<rparr>)"
    using base_conds [OF B1(1), of c ?w] w l(2) by (auto simp: less_Suc_eq)
  have f: "length (sems k) \<notin> set (conds k ! c)" using w(2) by auto
  have "\<exists>k'. push [DoRelease l, DoP (length (sems k)), DoAcquire l, DeleteSem (length (sems k))] (?k\<lparr>conds := (conds k)[c := ?w]\<rparr>) = Inr k' \<and> kinv k'"
    by (rule push_kinv [OF B2]) (use P B B1 l in simp_all)
  then show ?thesis using l h P f
    by (simp add: ran_def Condition_Wait_def Lock_IsHeldByCurrentThread_def List_Append_def Let_def)
qed

lemma ran_DoSignal:
  assumes K: "kinv k" and c: "code k (cur k) = DoSignal c l # fs" and h: "\<not> client_error (DoSignal c l) k"
  shows "ran F (DoSignal c l) k"
proof -
  note P = popped_facts [OF K c] and B = popped_base [OF K c]
  have l: "l < length (locks k)" "c < length (conds k)" using P(5) by simp_all
  have w: "distinct (conds k ! c)" "\<forall>s \<in> set (conds k ! c). s < length (sems k)"
    using base_cond [OF B(1), of c] l(2) by simp_all
  show ?thesis
  proof (cases "conds k ! c")
    case Nil
    have "kinv (popped k)" by (rule calm_none) (use P B in simp_all)
    then show ?thesis using Nil l h P by (simp add: ran_def Condition_Signal_def Lock_IsHeldByCurrentThread_def)
  next
    case (Cons s ws)
    let ?k = "popped k\<lparr>conds := (conds k)[c := ws]\<rparr>"
    have B1: "base ?k" using base_conds [OF B(1), of c ws] w l(2) Cons by simp
    have "\<exists>k'. push [DoV s] ?k = Inr k' \<and> kinv k'" by (rule push_kinv [OF B1]) (use P B w Cons in simp_all)
    then show ?thesis using Cons l h P
      by (simp add: ran_def Condition_Signal_def Lock_IsHeldByCurrentThread_def List_RemoveFront_def)
  qed
qed

lemma ran_DoBroadcast:
  assumes K: "kinv k" and c: "code k (cur k) = DoBroadcast c l # fs"
  shows "ran F (DoBroadcast c l) k"
proof -
  note P = popped_facts [OF K c] and B = popped_base [OF K c]
  have l: "l < length (locks k)" "c < length (conds k)" using P(5) by simp_all
  have "kinv (popped k)" by (rule calm_none) (use P B in simp_all)
  moreover have "\<exists>k'. push [DoSignal c l, DoBroadcast c l] (popped k) = Inr k' \<and> kinv k'"
    by (rule push_kinv) (use P B l in simp_all)
  ultimately show ?thesis using l by (simp add: ran_def Condition_Broadcast_def)
qed

lemma append_popped:
  assumes K: "kinv k" and c: "code k (cur k) = f # fs" and f: "f = ListAppend i x \<or> f = AppendResult i"
    and h: "x \<notin> set (sl_list (lists k ! i))"
  shows "\<exists>k'. list_append i x (popped k) = Inr k' \<and> kinv k'"
proof -
  note P = popped_facts [OF K c] and B = popped_base [OF K c]
  have i: "i < length (lists k)" using P(5) f by auto
  let ?x = "(lists k ! i)\<lparr>sl_list := sl_list (lists k ! i) @ [x]\<rparr>"
  have "base (popped k\<lparr>lists := (lists k)[i := ?x]\<rparr>)" using base_lists [OF B(1), of i ?x] i f by auto
  then have "kinv (popped k\<lparr>lists := (lists k)[i := ?x]\<rparr>)" by (rule calm_none) (use P B f in auto)
  then show ?thesis using i h by (simp add: list_append_def List_Append_def)
qed

lemma ran_ListAppend:
  assumes "kinv k" "code k (cur k) = ListAppend i x # fs" "\<not> client_error (ListAppend i x) k"
  shows "ran F (ListAppend i x) k"
  using append_popped [OF assms(1,2)] assms(3) by (auto simp: ran_def)

lemma popped_result:
  assumes "kinv k"
  shows "get_thread (cur k) (popped k) = Inr (th (popped k) (cur k))" "t_result (th (popped k) (cur k)) = t_result (th k (cur k))"
  using kinvD(9) [OF assms] by (simp_all add: popped_def)

lemma ran_AppendResult:
  assumes "kinv k" "code k (cur k) = AppendResult i # fs" "\<not> client_error (AppendResult i) k"
  shows "ran F (AppendResult i) k"
  using append_popped [OF assms(1,2)] assms(3) popped_result [OF assms(1)] popped_facts(4) [OF assms(1,2)]
  by (auto simp: ran_def append_result_def)

lemma ran_AssertResult:
  assumes K: "kinv k" and c: "code k (cur k) = AssertResult v # fs" and h: "\<not> client_error (AssertResult v) k"
  shows "ran F (AssertResult v) k"
proof -
  note P = popped_facts [OF K c] and B = popped_base [OF K c]
  have "kinv (popped k)" by (rule calm_none) (use P B in simp_all)
  then show ?thesis using h popped_result [OF K] P(4) by (simp add: ran_def assert_result_def)
qed

lemma base_result:
  assumes "base k" "free k"
  shows "base (put_thread (cur k) ((th k (cur k))\<lparr>t_result := r\<rparr>) k)" "free (put_thread (cur k) ((th k (cur k))\<lparr>t_result := r\<rparr>) k)"
proof -
  let ?x = "(th k (cur k))\<lparr>t_result := r\<rparr>"
  have a: "alive k (cur k)" by (rule base_alive [OF assms(1)])
  have "sched_ok k" using assms(1) by (simp add: base_def)
  from sched_ok_code [OF this assms(2)] show "free (put_thread (cur k) ?x k)" by blast
  have "regs_ok (t_userRegisters ?x)" "\<forall>f \<in> set (t_code ?x). refs_ok k f"
    using assms(1) a by (auto simp: base_def dev_ok_def refs_inv_def)
  then show "base (put_thread (cur k) ?x k)"
    using assms a sched_ok_code [OF \<open>sched_ok k\<close> assms(2), of ?x] refs_inv_code dev_ok_code by (auto simp: base_def intro: free_awake)
qed

lemma OneTick_SetLevel: "\<not> inHandler k \<Longrightarrow> Interrupt_OneTick k = Interrupt_SetLevel IntOn (k\<lparr>level := IntOff\<rparr>)"
  by (simp add: Interrupt_SetLevel_def Interrupt_OneTick_def Let_def)

lemma ran_UserRun:
  assumes K: "kinv k" and c: "code k (cur k) = UserRun # fs"
  shows "ran F UserRun k"
proof -
  note P = popped_facts [OF K c] and B = popped_base [OF K c]
  obtain k1 where k1: "push [UserRun] (popped k) = Inr k1" "calm [UserRun] (popped k) k1" "level k1 = level (popped k)"
    using push_ok [OF B, of "[UserRun]"] P(5) by auto
  then have k1': "base k1" "free k1" "\<not> yieldOnReturn k1" "toBeDestroyed k1 = None" "code k1 (cur k1) = UserRun # fs"
    using P by (simp_all add: calm_def)
  have "\<exists>k'. Interrupt_SetLevel IntOn (k1\<lparr>level := IntOff\<rparr>) = Inr k' \<and> kinv k'"
    by (rule SetLevel_On_kinv) (use k1' P(8) in simp_all)
  moreover have "\<not> inHandler k1" using k1'(1) by (simp add: base_def)
  ultimately show ?thesis using k1(1) OneTick_SetLevel by (simp add: ran_def Run_tick_def)
qed

lemma ran_DoExecute:
  assumes K: "kinv k" and c: "code k (cur k) = DoExecute sp # fs"
  shows "ran F (DoExecute sp) k"
proof -
  note P = popped_facts [OF K c] and B = popped_base [OF K c]
  let ?x = "(th (popped k) (cur k))\<lparr>t_space := Some sp\<rparr>"
  let ?k = "put_thread (cur k) ?x (popped k)"
  have a: "alive (popped k) (cur k)" using base_alive [OF B(1)] P(4) by simp
  have S: "sched_ok (popped k)" "refs_inv (popped k)" "dev_ok (popped k)" using B(1) by (simp_all add: base_def)
  have r: "regs_ok (t_userRegisters ?x)" "\<forall>f \<in> set (t_code ?x). refs_ok (popped k) f" "length (registers (kmach (popped k))) = 40"
    using S a by (auto simp: dev_ok_def refs_inv_def regs_ok_def)
  have k: "base ?k" "free ?k"
    using B a sched_ok_code [OF S(1) B(2), of ?x] refs_inv_code [OF S(2) a r(2)] dev_ok_code [OF S(3) a r(1)] P(4)
    by (auto simp: base_def intro: free_awake)
  define rs where "rs = (replicate 40 0)[PCReg := 0, NextPCReg := 4, StackReg := numPages sp * 128 - 16]"
  have e: "AddrSpace_Execute sp (kmach ?k) = Inr (AddrSpace_RestoreState sp (kmach (popped k)\<lparr>registers := rs\<rparr>))"
    using Execute_regs [OF r(3)] by (simp add: rs_def)
  let ?k' = "?k\<lparr>kmach := AddrSpace_RestoreState sp (kmach (popped k)\<lparr>registers := rs\<rparr>), mstatus := UserMode\<rparr>"
  have "regs_ok rs" by (simp add: rs_def regs_ok_def reg_numbers)
  then have "dev_ok ?k'" using k(1) by (simp add: base_def dev_ok_def AddrSpace_RestoreState_def)
  then have k': "base ?k'" "free ?k'" using k by (simp_all add: base_def)
  have "\<exists>k2. push [UserRun] ?k' = Inr k2 \<and> kinv k2"
    by (rule push_kinv [OF k']) (use P B a in simp_all)
  then show ?thesis using e a P(4) by (simp add: ran_def Execute_thread_def Machine_Run_def with_thread_def)
qed

lemma ran_RemoveLoop:
  assumes K: "kinv k" and c: "code k (cur k) = RemoveLoop i # fs"
  shows "ran F (RemoveLoop i) k"
proof -
  note P = popped_facts [OF K c] and B = popped_base [OF K c]
  have i: "i < length (lists k)" using P(5) by simp
  have r: "sl_lock (lists k ! i) < length (locks k)" "sl_cond (lists k ! i) < length (conds k)"
    using B(1) i nth_mem [OF i] by (simp_all add: base_def refs_inv_def)
  show ?thesis
  proof (cases "sl_list (lists k ! i)")
    case Nil
    have "\<exists>k'. push [DoWait (sl_cond (lists k ! i)) (sl_lock (lists k ! i)), RemoveLoop i] (popped k) = Inr k' \<and> kinv k'"
      by (rule push_kinv) (use P B r i in simp_all)
    then show ?thesis using Nil i by (simp add: ran_def remove_loop_def)
  next
    case (Cons y ys)
    let ?x = "(lists k ! i)\<lparr>sl_list := ys\<rparr>"
    let ?k = "popped k\<lparr>lists := (lists k)[i := ?x]\<rparr>"
    have B1: "base ?k" "free ?k" using base_lists [OF B(1), of i ?x] i B(2) by simp_all
    have a: "alive ?k (cur ?k)" by (rule base_alive [OF B1(1)])
    let ?k' = "put_thread (cur ?k) ((th ?k (cur ?k))\<lparr>t_result := y\<rparr>) ?k"
    have "kinv ?k'" by (rule calm_none [OF base_result [OF B1]]) (use P B a in simp_all)
    then show ?thesis using Cons i a by (simp add: ran_def remove_loop_def List_RemoveFront_def with_thread_def)
  qed
qed

lemma base_Schedule:
  assumes "base k" "0 < n" "valid_dev d k"
  shows "\<exists>p. Interrupt_Schedule d n k = Inr (k\<lparr>pending := p, serial := Suc (serial k)\<rparr>) \<and>
    base (k\<lparr>pending := p, serial := Suc (serial k)\<rparr>)"
  using Schedule_ok [OF _ assms(2,3)] assms(1) by (auto simp: base_def)

lemma ran_Request:
  assumes K: "kinv k" and c: "code k (cur k) = Request d delay # fs" and h: "\<not> client_error (Request d delay) k"
  shows "ran F (Request d delay) k"
proof -
  note P = popped_facts [OF K c] and B = popped_base [OF K c]
  have d: "d < length (devs k)" "0 < delay" using P(5) by simp_all
  let ?k = "popped k\<lparr>devs := (devs k)[d := (devs k ! d)\<lparr>rd_busy := True\<rparr>]\<rparr>"
  have q: "quiet (popped k) ?k"
    using d by (simp add: quiet_def frozen_def list_eq_iff_nth_eq nth_list_update)
  have B1: "base ?k" using base_quiet [OF B(1) q] dev_ok_quiet [OF _ q] B(1) by (simp add: base_def)
  have "valid_dev (RequestDev d) ?k" using d by (simp add: valid_dev_def)
  then obtain p where p: "Interrupt_Schedule (RequestDev d) delay ?k = Inr (?k\<lparr>pending := p, serial := Suc (serial ?k)\<rparr>)"
    "base (?k\<lparr>pending := p, serial := Suc (serial ?k)\<rparr>)" using base_Schedule [OF B1 d(2)] by blast
  have "kinv (?k\<lparr>pending := p, serial := Suc (serial ?k)\<rparr>)" by (rule calm_none [OF p(2)]) (use P B in simp_all)
  then show ?thesis using p(1) d h by (simp add: ran_def Device_Request_def)
qed

lemma Schedule_iff:
  "Interrupt_Schedule d n k = Inr (k\<lparr>pending := p, serial := Suc (serial k)\<rparr>) \<longleftrightarrow>
   0 < n \<and> Sorted_Insert PendingCompare (pending k) \<lparr>p_when = now k + n, p_dev = d, p_serial = serial k\<rparr> = Inr p"
  by (cases "Sorted_Insert PendingCompare (pending k) \<lparr>p_when = now k + n, p_dev = d, p_serial = serial k\<rparr>")
    (auto simp: Interrupt_Schedule_def Let_def dest: arg_cong [where f = pending])

lemma ran_KeyGet:
  assumes K: "kinv k" and c: "code k (cur k) = KeyGet # fs"
  shows "ran F KeyGet k"
proof -
  note P = popped_facts [OF K c] and B = popped_base [OF K c]
  have D: "dev_ok (popped k)" using B(1) by (simp add: base_def)
  obtain k1 where k1: "(if incoming k \<noteq> 255 then Interrupt_Schedule KeyboardDev ConsoleTime (popped k) else Inr (popped k)) = Inr k1"
    "base (k1\<lparr>incoming := 255\<rparr>)" "cur k1 = cur k" "free k1" "\<not> yieldOnReturn k1" "toBeDestroyed k1 = toBeDestroyed k" "code k1 (cur k) = fs"
    "level k1 = level (popped k)"
  proof (cases "incoming k = 255")
    case True
    then have e: "popped k\<lparr>incoming := 255\<rparr> = popped k" by (intro kst.equality) simp_all
    have "base (popped k\<lparr>incoming := 255\<rparr>)" unfolding e by (rule B(1)) simp_all
    then show thesis using True that [of "popped k"] P B by simp
  next
    case False
    let ?k = "popped k\<lparr>incoming := 255\<rparr>"
    have none: "filter (\<lambda>p. p_dev p = KeyboardDev) (pending k) = []" using D False by (simp add: dev_ok_def)
    then have "dev_ok ?k" using D by (simp add: dev_ok_def)
    then have B1: "base ?k" using B(1) by (simp add: base_def)
    have v: "valid_dev KeyboardDev ?k" using none by (auto simp: valid_dev_def filter_empty_conv)
    obtain p where p: "Interrupt_Schedule KeyboardDev ConsoleTime ?k = Inr (?k\<lparr>pending := p, serial := Suc (serial ?k)\<rparr>)"
      "base (?k\<lparr>pending := p, serial := Suc (serial ?k)\<rparr>)"
      using base_Schedule [OF B1 _ v, of ConsoleTime] by (auto simp: ConsoleTime_def)
    have "Interrupt_Schedule KeyboardDev ConsoleTime (popped k) = Inr (popped k\<lparr>pending := p, serial := Suc (serial (popped k))\<rparr>)"
      using p(1) unfolding Schedule_iff by simp
    moreover have e: "popped k\<lparr>pending := p, serial := Suc (serial (popped k)), incoming := 255\<rparr> = ?k\<lparr>pending := p, serial := Suc (serial ?k)\<rparr>"
      by (intro kst.equality) simp_all
    have "base (popped k\<lparr>pending := p, serial := Suc (serial (popped k)), incoming := 255\<rparr>)" unfolding e by (rule p(2))
    ultimately show thesis using False that [of "popped k\<lparr>pending := p, serial := Suc (serial (popped k))\<rparr>"] P B by simp
  qed
  let ?k = "k1\<lparr>incoming := 255\<rparr>"
  have a: "alive ?k (cur ?k)" by (rule base_alive [OF k1(2)])
  let ?k' = "put_thread (cur ?k) ((th ?k (cur ?k))\<lparr>t_result := sint (incoming k)\<rparr>) ?k"
  have "kinv ?k'" by (rule calm_none [OF base_result [OF k1(2)]]) (use P k1 a in simp_all)
  then show ?thesis using k1(1) a
    by (simp add: ran_def key_get_def ConsoleInput_GetChar_def Let_def with_thread_def split: if_splits)
qed

section \<open>Frames that wait, fork and switch\<close>

lemma ran_PLoop:
  assumes K: "kinv k" and c: "code k (cur k) = PLoop s l # fs"
  shows "ran F (PLoop s l) k"
proof -
  note P = popped_facts [OF K c] and B = popped_base [OF K c]
  have s: "s < length (sems k)" "l = IntOn" using P(5,6) by simp_all
  have S: "sched_ok (popped k)" using B(1) by (simp add: base_def)
  have a: "alive (popped k) (cur k)" using base_alive [OF B(1)] P(4) by simp
  show ?thesis
  proof (cases "s_value (sems k ! s) = 0")
    case False
    let ?k = "put_sem s ((sems k ! s)\<lparr>s_value := s_value (sems k ! s) - 1\<rparr>) (popped k)"
    have q: "queue ?k s' = queue k s'" "0 \<le> s_value (sems ?k ! s')" if "s' < length (sems k)" for s'
      using that False s sched_okD(8) [OF S, of s'] by (cases "s' = s"; simp)+
    have "sched_ok ?k" by (rule sched_ok_cong [OF S]) (use q in simp_all)
    moreover have fr: "free ?k" using B(2) q(1) by (simp add: free_def)
    ultimately have B1: "base ?k" using B(1) free_awake [OF fr] by (simp add: base_def)
    have "\<exists>k'. push [SetLevel IntOn] ?k = Inr k' \<and> kinv k'"
      by (rule push_kinv [OF B1 fr]) (use P B in simp_all)
    then show ?thesis using False s by (simp add: ran_def P_loop_def)
  next
    case True
    let ?q = "queue k s @ [cur k]"
    let ?k = "put_sem s ((sems k ! s)\<lparr>s_queue := ?q\<rparr>) (popped k)"
    let ?x = "(th (popped k) (cur k))\<lparr>t_code := [DoSleep False, PLoop s IntOn] @ fs\<rparr>"
    let ?k' = "put_thread (cur k) ?x ?k"
    have fr: "cur k \<notin> set (readyList k)" "\<And>s'. s' < length (sems k) \<Longrightarrow> cur k \<notin> set (queue k s')"
      using B(2) P(4) by (simp_all add: free_def)
    have run: "P_loop s l (popped k) = Inr ?k'"
      using True s fr(2) [of s] P(1,4) a push_alive [of ?k "[DoSleep False, PLoop s IntOn]"]
      by (simp add: P_loop_def List_Append_def)
    have qs: "queue ?k' s' = (if s' = s then ?q else queue k s')" "s_value (sems ?k' ! s') = s_value (sems k ! s')" if "s' < length (sems k)" for s'
      using that s by (cases "s' = s"; simp)+
    have al: "alive ?k' t = alive k t" for t using a P(10) by simp
    have th: "th ?k' t = (if t = cur k then ?x else th k t)" for t using a P(11) by simp
    have "sched_ok ?k'"
    proof (rule sched_okI)
      fix s' t assume s': "s' < length (sems ?k')" and t: "t \<in> set (queue ?k' s')"
      show "waiting ?k' s' t"
      proof (cases "t = cur k")
        case True
        then have "s' = s" using t s' fr(2) [of s'] qs(1) [of s'] by (auto split: if_splits)
        then show ?thesis using True a al P(4,10) unfolding waiting_def by (simp add: th)
      next
        case False
        then have "waiting (popped k) s' t" using t s' qs(1) [of s'] sched_okD(9) [OF S, of s' t] by (auto split: if_splits)
        then show ?thesis using False P(4,10,11) unfolding waiting_def al th by simp
      qed
    next
      fix s' assume "s' < length (sems ?k')"
      then show "distinct (queue ?k' s') \<and> 0 \<le> s_value (sems ?k' ! s')"
        using qs [of s'] sched_okD(7,8) [OF S, of s'] fr(2) [of s] s by auto
    next
      fix t s' assume "t \<in> set (readyList ?k')" "s' < length (sems ?k')"
      then show "t \<notin> set (queue ?k' s')" using qs(1) [of s'] sched_okD(5) [OF S, of t s'] fr(1) by auto
    next
      fix t assume t: "alive ?k' t" "t \<noteq> cur ?k'" "toBeDestroyed ?k' \<noteq> Some t"
      then have "parked (code (popped k) t)" using sched_okD(10) [OF S, of t] P(4) unfolding al P(10) by simp
      then show "parked (code ?k' t)" unfolding th using t(2) P(4,11) by simp
    next
      fix t assume t: "t \<in> set (readyList ?k')"
      then have "t \<noteq> cur k" "alive k t" "t_status (th (popped k) t) = READY"
        using fr(1) sched_okD(3,4) [OF S, of t] P(10) by auto
      then show "alive ?k' t \<and> t_status (th ?k' t) = READY" unfolding al th using P(11) by simp
    qed (use fr a al P(3,4,9) sched_okD(2) [OF S] in \<open>simp_all add: P(10)\<close>)
    moreover have "refs_inv ?k'"
      by (rule refs_inv_code) (use B(1) P(5) s a in \<open>simp_all add: base_def\<close>)
    moreover have "dev_ok ?k'"
      by (rule dev_ok_code) (use B(1) a in \<open>simp_all add: base_def dev_ok_def\<close>)
    moreover have "code ?k' (cur k) = DoSleep False # PLoop s IntOn # fs" unfolding th by simp
    moreover have "level ?k' = IntOff" "toBeDestroyed ?k' = None" "\<not> inHandler ?k'" "\<not> yieldOnReturn ?k'" "cur ?k' = cur k"
      using P(2,3,4,9) B(1,3) by (simp_all add: base_def)
    ultimately show ?thesis using run P(6,8) s unfolding ran_def kinv_def by simp
  qed
qed

lemma ran_DoSleep:
  assumes K: "kinv k" and c: "code k (cur k) = DoSleep fin # fs"
  shows "ran F (DoSleep fin) k"
proof -
  note P = popped_facts [OF K c]
  have S: "sched_ok k" and a: "alive k (cur k)" using kinvD(1,9) [OF K] by simp_all
  let ?y = "(th k (cur k))\<lparr>t_code := fs, t_status := BLOCKED\<rparr>"
  let ?x = "?y\<lparr>t_code := SleepLoop fin # fs\<rparr>"
  let ?k' = "put_thread (cur k) ?x k"
  have run: "Thread_Sleep fin (popped k) = Inr ?k'"
  proof -
    have "with_thread (cur k) (\<lambda>th. th\<lparr>t_status := BLOCKED\<rparr>) (popped k) = Inr (put_thread (cur k) ?y k)"
      using a c by (simp add: with_thread_def P(10) popped_def)
    then show ?thesis using a P(2,4) push_alive [of "put_thread (cur k) ?y k" "[SleepLoop fin]"]
      by (simp add: Thread_Sleep_def)
  qed
  have r: "cur k \<notin> set (readyList k)" using sched_okD(6) [OF S] c by (auto simp: sleeping_def)
  have "sched_ok ?k'"
  proof (rule sched_okI)
    fix s t assume "s < length (sems ?k')" "t \<in> set (queue ?k' s)"
    then have w: "waiting k s t" using sched_okD(9) [OF S, of s t] by simp
    then show "waiting ?k' s t" using a c by (auto simp: waiting_def split: if_splits)
  next
    fix t assume "t \<in> set (readyList ?k')"
    then show "alive ?k' t \<and> t_status (th ?k' t) = READY" using r a sched_okD(3,4) [OF S, of t] by auto
  qed (use a r sched_okD [OF S] in simp_all)
  moreover have "refs_inv ?k'"
    by (rule refs_inv_code) (use kinvD(2) [OF K] P(5) c a in \<open>auto simp: refs_inv_def\<close>)
  moreover have "dev_ok ?k'"
    by (rule dev_ok_code) (use kinvD(3) [OF K] a in \<open>simp_all add: dev_ok_def\<close>)
  moreover have "wfc (SleepLoop fin # fs)" using kinvD(4) [OF K] c by (cases fin) simp_all
  ultimately have "kinv ?k'"
    using kinvD(5,6,7) [OF K] P(9) a c unfolding kinv_def by simp
  then show ?thesis using run by (simp add: ran_def)
qed

text \<open>What \<^verbatim>\<open>Run\<close> does up to the switch.\<close>

lemma Run_eff:
  assumes "alive k (cur k)" "alive k n" "level k = IntOff" "fin \<Longrightarrow> toBeDestroyed k = None" "dev_ok k"
  shows "\<exists>k'. Scheduler_Run n fin k = Inr k' \<and> (\<forall>t. alive k' t = alive k t) \<and>
    (\<forall>t. alive k t \<longrightarrow> code k' t = (if t = cur k then Switched # code k t else code k t) \<and>
       t_status (th k' t) = (if t = n then RUNNING else t_status (th k t))) \<and>
    cur k' = n \<and> readyList k' = readyList k \<and> sems k' = sems k \<and> locks k' = locks k \<and> conds k' = conds k \<and> lists k' = lists k \<and>
    devs k' = devs k \<and> keySem k' = keySem k \<and> level k' = level k \<and> inHandler k' = inHandler k \<and> yieldOnReturn k' = yieldOnReturn k \<and>
    toBeDestroyed k' = (if fin then Some (cur k) else toBeDestroyed k) \<and> dev_ok k'"
proof -
  let ?c = "cur k"
  define k1 where "k1 = (if fin then k\<lparr>toBeDestroyed := Some ?c\<rparr> else k)"
  have k1: "threads k1 = threads k" "cur k1 = ?c" "kmach k1 = kmach k" "alive k1 t = alive k t" for t by (auto simp: k1_def)
  define rs where "rs = (case t_space (th k ?c) of None \<Rightarrow> t_userRegisters (th k ?c) | Some _ \<Rightarrow> registers (kmach k))"
  have R: "regs_ok (registers (kmach k))" "regs_ok (t_userRegisters (th k ?c))" using assms(1,5) by (auto simp: dev_ok_def)
  define x where "x = (th k ?c)\<lparr>t_userRegisters := rs, t_code := Switched # code k ?c\<rparr>"
  define k2 where "k2 = put_thread ?c x k1"
  have save: "(case t_space (th k ?c) of None \<Rightarrow> Inr k1
      | Some sp \<Rightarrow> rbind (Thread_SaveUserState (kmach k1) (t_userRegisters (th k ?c))) (\<lambda>rs.
          Inr (put_thread ?c ((th k ?c)\<lparr>t_userRegisters := rs\<rparr>) (k1\<lparr>kmach := AddrSpace_SaveState sp (kmach k1)\<rparr>)))) =
     Inr (put_thread ?c ((th k ?c)\<lparr>t_userRegisters := rs\<rparr>) k1)"
  proof (cases "t_space (th k ?c)")
    case None
    have "k1 = put_thread ?c (th k ?c) k1" using assms(1) k1(1) by (simp add: put_thread_def alive_def list_update_same_conv)
    then show ?thesis using None by (simp add: rs_def)
  next
    case (Some sp)
    have e: "k1\<lparr>kmach := kmach k\<rparr> = k1" by (intro kst.equality) (simp_all add: k1(3))
    then show ?thesis using R Some SaveUserState_eq [of "t_userRegisters (th k ?c)" "kmach k"]
      by (simp add: rs_def regs_ok_def AddrSpace_SaveState_def k1(3) e)
  qed
  have push: "push [Switched] (put_thread ?c ((th k ?c)\<lparr>t_userRegisters := rs\<rparr>) k1) = Inr k2"
    using assms(1) push_alive [of "put_thread ?c ((th k ?c)\<lparr>t_userRegisters := rs\<rparr>) k1" "[Switched]"] k1(2,4)
    by (simp add: k2_def x_def)
  have a2: "alive k2 t = alive k t" "th k2 t = (if t = ?c then x else th k t)" for t
    using assms(1) k1 by (simp_all add: k2_def)
  define k3 where "k3 = put_thread n ((th k2 n)\<lparr>t_status := RUNNING\<rparr>) (k2\<lparr>currentThread := n\<rparr>)"
  have run: "Scheduler_Run n fin k = Inr k3"
  proof -
    have g: "get_thread ?c k1 = Inr (th k ?c)" using assms(1) k1(1,4) by simp
    have w: "with_thread n (\<lambda>th. th\<lparr>t_status := RUNNING\<rparr>) (k2\<lparr>currentThread := n\<rparr>) = Inr k3"
      using assms(2) a2 by (simp add: with_thread_def k3_def)
    have "(if fin then rbind (assert (toBeDestroyed k = None)) (\<lambda>_. Inr (k\<lparr>toBeDestroyed := Some ?c\<rparr>)) else Inr k) = Inr k1"
      using assms(4) by (simp add: k1_def)
    then show ?thesis using assms(3) by (simp add: Scheduler_Run_def Let_def g save push w)
  qed
  have a3: "alive k3 t = alive k t" "th k3 t = (if t = n then (th k2 n)\<lparr>t_status := RUNNING\<rparr> else th k2 t)" for t
    using assms(2) a2 by (simp_all add: k3_def)
  have regs: "regs_ok (t_userRegisters (th k3 t))" if "alive k t" for t
    using that assms(5) R by (auto simp: a3 a2 x_def rs_def dev_ok_def split: option.splits)
  have "pending k3 = pending k" "serial k3 = serial k" "devs k3 = devs k" "incoming k3 = incoming k" "kmach k3 = kmach k"
    by (simp_all add: k3_def k2_def k1_def)
  then have "dev_ok k3" using assms(5) regs a3(1) by (simp add: dev_ok_def)
  moreover have "code k3 t = (if t = ?c then Switched # code k t else code k t) \<and>
      t_status (th k3 t) = (if t = n then RUNNING else t_status (th k t))" for t
    by (auto simp: a3 a2 x_def)
  ultimately show ?thesis using run a3(1) by (intro exI [of _ k3]) (simp add: k3_def k2_def k1_def)
qed

text \<open>A switch: the state before \<^verbatim>\<open>Run\<close>, with the next thread already off the list.\<close>

definition ready_to_switch :: "nat \<Rightarrow> bool \<Rightarrow> kst \<Rightarrow> bool" where
  "ready_to_switch n fin k \<longleftrightarrow> alive k (cur k) \<and> alive k n \<and> level k = IntOff \<and> toBeDestroyed k = None \<and> refs_inv k \<and> dev_ok k \<and>
     distinct (readyList k) \<and> n \<notin> set (readyList k) \<and>
     (\<forall>t \<in> set (readyList k). alive k t \<and> t_status (th k t) = READY \<and> (\<forall>s < length (sems k). t \<notin> set (queue k s))) \<and>
     (\<forall>s < length (sems k). n \<notin> set (queue k s) \<and> distinct (queue k s) \<and> 0 \<le> s_value (sems k ! s)) \<and>
     (\<forall>s < length (sems k). \<forall>t \<in> set (queue k s). alive k t \<and>
        (\<exists>fs. code k t = (if t = cur k then PLoop s IntOn # fs else Switched # PLoop s IntOn # fs))) \<and>
     (\<forall>t. alive k t \<and> t \<noteq> cur k \<longrightarrow> parked (code k t)) \<and>
     (if fin then n \<noteq> cur k \<and> cur k \<notin> set (readyList k) \<and> (\<forall>s < length (sems k). cur k \<notin> set (queue k s))
      else wfc (Switched # code k (cur k))) \<and> \<not> inHandler k \<and> \<not> yieldOnReturn k"

lemma ready_to_switchD:
  assumes "ready_to_switch n fin k"
  shows "alive k (cur k)" "alive k n" "level k = IntOff" "toBeDestroyed k = None" "refs_inv k" "dev_ok k" "distinct (readyList k)"
    "n \<notin> set (readyList k)" "t \<in> set (readyList k) \<Longrightarrow> alive k t" "t \<in> set (readyList k) \<Longrightarrow> t_status (th k t) = READY"
    "t \<in> set (readyList k) \<Longrightarrow> s < length (sems k) \<Longrightarrow> t \<notin> set (queue k s)"
    "s < length (sems k) \<Longrightarrow> n \<notin> set (queue k s)" "s < length (sems k) \<Longrightarrow> distinct (queue k s) \<and> 0 \<le> s_value (sems k ! s)"
    "s < length (sems k) \<Longrightarrow> t \<in> set (queue k s) \<Longrightarrow> alive k t \<and> (\<exists>fs. code k t = (if t = cur k then PLoop s IntOn # fs else Switched # PLoop s IntOn # fs))"
    "alive k t \<Longrightarrow> t \<noteq> cur k \<Longrightarrow> parked (code k t)" "\<not> fin \<Longrightarrow> wfc (Switched # code k (cur k))"
    "fin \<Longrightarrow> n \<noteq> cur k \<and> cur k \<notin> set (readyList k)" "fin \<Longrightarrow> s < length (sems k) \<Longrightarrow> cur k \<notin> set (queue k s)"
    "\<not> inHandler k" "\<not> yieldOnReturn k"
  using assms unfolding ready_to_switch_def by (simp_all split: if_splits)

lemma Run_kinv:
  assumes R: "ready_to_switch n fin k"
  shows "\<exists>k'. Scheduler_Run n fin k = Inr k' \<and> kinv k'"
proof -
  note D = ready_to_switchD [OF R]
  obtain k' where run: "Scheduler_Run n fin k = Inr k'" and al: "\<And>t. alive k' t = alive k t"
    and th: "\<And>t. alive k t \<Longrightarrow> code k' t = (if t = cur k then Switched # code k t else code k t) \<and>
       t_status (th k' t) = (if t = n then RUNNING else t_status (th k t))"
    and obj: "cur k' = n" "readyList k' = readyList k" "sems k' = sems k" "locks k' = locks k" "conds k' = conds k" "lists k' = lists k"
    "devs k' = devs k" "keySem k' = keySem k" "level k' = level k" "inHandler k' = inHandler k" "yieldOnReturn k' = yieldOnReturn k"
    "toBeDestroyed k' = (if fin then Some (cur k) else toBeDestroyed k)" "dev_ok k'"
    using Run_eff [OF D(1,2,3) D(4) D(6)] by blast
  have parked: "parked (code k' t)" if "alive k t" "t \<noteq> cur k \<or> \<not> fin" for t
    using that th [OF that(1)] D(15) [of t] D(16) by (cases "t = cur k") (simp_all add: parked_def)
  have "sched_ok k'"
  proof (rule sched_okI)
    fix s t assume s: "s < length (sems k')" and t: "t \<in> set (queue k' s)"
    then have "alive k t" "t \<noteq> n" "\<exists>fs. code k t = (if t = cur k then PLoop s IntOn # fs else Switched # PLoop s IntOn # fs)"
      using D(12,14) [of s] obj(3) by auto
    then show "waiting k' s t" using th [of t] obj(1) al by (auto simp: waiting_def split: if_splits)
  next
    fix t assume t: "t \<in> set (readyList k')"
    then have "alive k t" "t \<noteq> n" using D(8,9) obj(2) by auto
    then show "alive k' t \<and> t_status (th k' t) = READY" using th [of t] al t D(10) obj(2) by simp
  next
    fix t assume "alive k' t" "t \<noteq> cur k'" "toBeDestroyed k' \<noteq> Some t"
    then show "parked (code k' t)" using parked [of t] al obj(12) by (auto split: if_splits)
  qed (use D(1,2,4,7,8,11,13,17,18) al obj(1-3,12) in \<open>auto split: if_splits\<close>)
  moreover have "refs_inv k'"
  proof -
    have r: "refs_ok k' f = refs_ok k f" for f by (rule refs_ok_cong) (simp_all add: obj)
    have "\<forall>f \<in> set (code k' t). refs_ok k' f" if "alive k' t" for t
      using that D(5) th [of t] al unfolding r by (auto simp: refs_inv_def)
    then show ?thesis using D(5) by (simp add: refs_inv_def obj)
  qed
  moreover have "parked (code k' n)" using parked [of n] D(2,17) by auto
  ultimately have "kinv k'" using obj D(3,19,20) by (auto simp: kinv_def parked_def)
  with run show ?thesis by blast
qed

text \<open>\<^verbatim>\<open>Yield\<close> with somebody to run.\<close>

lemma yield_switch:
  assumes B: "base k" and F: "free k" and off: "level k = IntOff" and t: "toBeDestroyed k = None" and y: "\<not> yieldOnReturn k"
    and r: "readyList k = n # r" and w: "wfc (Switched # code k (cur k))"
  shows "ready_to_switch n False (put_thread (cur k) ((th k (cur k))\<lparr>t_status := READY\<rparr>) (k\<lparr>readyList := r\<rparr>)\<lparr>readyList := r @ [cur k]\<rparr>)"
    (is "ready_to_switch n False ?k")
proof -
  have S: "sched_ok k" and a: "alive k (cur k)" using B by (simp_all add: base_def sched_okD(1))
  have fr: "cur k \<notin> set (readyList k)" "\<And>s. s < length (sems k) \<Longrightarrow> cur k \<notin> set (queue k s)" using F by (simp_all add: free_def)
  have al: "alive ?k t = alive k t" for t using a by simp
  have th: "th ?k t = (if t = cur k then (th k (cur k))\<lparr>t_status := READY\<rparr> else th k t)" for t using a by simp
  have rl: "u \<in> set (readyList ?k) \<Longrightarrow> alive ?k u \<and> t_status (th ?k u) = READY" for u
    unfolding al th using a r sched_okD(3,4) [OF S, of u] by auto
  have rq: "u \<in> set (readyList ?k) \<Longrightarrow> s < length (sems k) \<Longrightarrow> u \<notin> set (queue k s)" for u s
    using r fr sched_okD(5) [OF S, of u s] by auto
  have qw: "alive ?k u \<and> (\<exists>fs. code ?k u = (if u = cur k then PLoop s IntOn # fs else Switched # PLoop s IntOn # fs))"
    if "s < length (sems k)" "u \<in> set (queue k s)" for u s
  proof -
    have "u \<noteq> cur k" using fr(2) [OF that(1)] that(2) by auto
    then show ?thesis unfolding al th using sched_okD(9) [OF S that] by (auto simp: waiting_def)
  qed
  have pk: "alive ?k u \<Longrightarrow> u \<noteq> cur k \<Longrightarrow> parked (code ?k u)" for u
    unfolding al th using sched_okD(10) [OF S, of u] t by simp
  have "refs_inv ?k" using refs_inv_code [of "k\<lparr>readyList := r\<rparr>" "cur k" "(th k (cur k))\<lparr>t_status := READY\<rparr>"] B a
    by (simp add: base_def) (simp add: refs_inv_def)
  moreover have "dev_ok ?k" using B al th a by (simp add: base_def dev_ok_def)
  moreover have "n \<notin> set (readyList ?k)" "distinct (readyList ?k)" "alive ?k n" "\<And>s. s < length (sems k) \<Longrightarrow> n \<notin> set (queue k s)"
    using r fr(1) sched_okD(2) [OF S] sched_okD(3,5) [OF S, of n] a by auto
  moreover have "alive ?k (cur k)" "wfc (Switched # code ?k (cur k))" unfolding al th using a w by simp_all
  ultimately show ?thesis unfolding ready_to_switch_def
    using rl rq qw pk off t y B sched_okD(7,8) [OF S] by (simp add: base_def)
qed

lemma ran_DoYield:
  assumes K: "kinv k" and c: "code k (cur k) = DoYield # fs"
  shows "ran F DoYield k"
proof -
  note P = popped_facts [OF K c] and B = popped_base [OF K c]
  obtain k1 where k1: "push [SetLevel IntOn] (popped k\<lparr>level := IntOff\<rparr>) = Inr k1" "calm [SetLevel IntOn] (popped k\<lparr>level := IntOff\<rparr>) k1"
    "level k1 = IntOff" using push_ok [of "popped k\<lparr>level := IntOff\<rparr>" "[SetLevel IntOn]"] B by auto
  have C: "base k1" "free k1" "cur k1 = cur k" "toBeDestroyed k1 = None" "code k1 (cur k1) = SetLevel IntOn # fs" "\<not> yieldOnReturn k1"
    using k1(2) P B by (simp_all add: calm_def)
  have run: "exec_frame DoYield F (popped k) = rbind (Scheduler_FindNextToRun k1) (\<lambda>(nextThread, k).
      case nextThread of None \<Rightarrow> Inr k | Some t \<Rightarrow> rbind (Scheduler_ReadyToRun (cur k) k) (Scheduler_Run t False))"
    using P(2) k1(1) by (simp add: Thread_Yield_def SetLevel_Off_eq)
  show ?thesis
  proof (cases "readyList k1")
    case Nil
    have "kinv k1" by (rule calm_none) (use C P k1(3) in simp_all)
    then show ?thesis using run Nil k1(3) by (simp add: ran_def Scheduler_FindNextToRun_def)
  next
    case (Cons n r)
    have a: "alive k1 (cur k1)" "cur k1 \<notin> set r" using base_alive [OF C(1)] C(2) Cons by (simp_all add: free_def)
    let ?k = "put_thread (cur k1) ((th k1 (cur k1))\<lparr>t_status := READY\<rparr>) (k1\<lparr>readyList := r\<rparr>)\<lparr>readyList := r @ [cur k1]\<rparr>"
    have "Scheduler_ReadyToRun (cur k1) (k1\<lparr>readyList := r\<rparr>) = Inr ?k"
      using ReadyToRun_eq [of "k1\<lparr>readyList := r\<rparr>" "cur k1"] a k1(3) by simp
    moreover have "ready_to_switch n False ?k"
      by (rule yield_switch) (use C P k1(3) Cons in simp_all)
    ultimately show ?thesis using run Cons k1(3) Run_kinv by (simp add: ran_def Scheduler_FindNextToRun_def List_RemoveFront_def)
  qed
qed

text \<open>\<^verbatim>\<open>Sleep\<close>.\<close>

lemma Idle_kinv:
  assumes K: "kinv k" and c: "code k (cur k) = SleepLoop fin # fs"
  shows "\<exists>k'. Interrupt_Idle k = Inr k' \<and> kinv k'"
proof -
  let ?k = "k\<lparr>mstatus := IdleMode\<rparr>"
  have "awake k"
    using sched_okD(9) [OF kinvD(1) [OF K]] c unfolding awake_def waiting_def sleeping_def by fastforce
  then have "base ?k" using kinvD(1-3,6) [OF K] by (simp add: base_def)
  moreover have "level ?k = IntOff" using kinvD(5) [OF K] c by simp
  ultimately obtain b k' where k': "Interrupt_CheckIfDue True ?k = Inr (b, k')" "base k'" "quiet ?k k'" "yieldOnReturn k' \<longrightarrow> yieldOnReturn ?k \<or> mstatus ?k \<noteq> IdleMode"
    using CheckIfDue_ok [of ?k True] by blast
  have f: "cur k' = cur k" "toBeDestroyed k' = toBeDestroyed k" "level k' = level k" "code k' (cur k) = code k (cur k)"
    using k'(3) quiet_thread(2) [OF k'(3), of "cur k"] kinvD(9) [OF K] by (simp_all add: quiet_def)
  have "kinv (k'\<lparr>mstatus := SystemMode\<rparr>)" "kinv (k'\<lparr>halted := True\<rparr>)"
    using k'(2,4) kinvD(4,5,7,8) [OF K] f by (auto simp: kinv_def base_def)
  then show ?thesis using k'(1) by (simp add: Interrupt_Idle_def Interrupt_Halt_def)
qed

lemma sleep_switch:
  assumes K: "kinv k" and c: "code k (cur k) = SleepLoop fin # fs" and r: "readyList k = n # r"
  shows "ready_to_switch n fin (popped k\<lparr>readyList := r\<rparr>)" (is "ready_to_switch n fin ?k")
proof -
  note P = popped_facts [OF K c]
  have S: "sched_ok k" and a: "alive k (cur k)" using kinvD(1,9) [OF K] by simp_all
  have al: "alive ?k t = alive k t" for t using P(10) by simp
  have th: "code ?k t = (if t = cur k then fs else code k t)" "t_status (th ?k t) = t_status (th k t)"
    "t_userRegisters (th ?k t) = t_userRegisters (th k t)" for t using a c by (simp_all add: popped_def)
  have tb: "toBeDestroyed k = None" using P(9) by simp
  have rl: "u \<in> set r \<Longrightarrow> alive ?k u \<and> t_status (th ?k u) = READY" for u
    unfolding al th using r sched_okD(3,4) [OF S, of u] by auto
  have rq: "u \<in> set r \<Longrightarrow> s < length (sems k) \<Longrightarrow> u \<notin> set (queue k s)" for u s
    using r sched_okD(5) [OF S, of u s] by auto
  have qw: "alive ?k u \<and> (\<exists>fs. code ?k u = (if u = cur k then PLoop s IntOn # fs else Switched # PLoop s IntOn # fs))"
    if "s < length (sems k)" "u \<in> set (queue k s)" for u s
    unfolding al th using sched_okD(9) [OF S that] c by (auto simp: waiting_def split: if_splits)
  have pk: "alive ?k u \<Longrightarrow> u \<noteq> cur k \<Longrightarrow> parked (code ?k u)" for u
    unfolding al th using sched_okD(10) [OF S, of u] tb by simp
  have "refs_inv ?k" using refs_inv_code [of k "cur k" "(th k (cur k))\<lparr>t_code := tl (code k (cur k))\<rparr>"] kinvD(2) [OF K] a c
    by (simp add: popped_def) (simp add: refs_inv_def)
  moreover have "dev_ok ?k"
    using dev_ok_code [of k "cur k" "(th k (cur k))\<lparr>t_code := tl (code k (cur k))\<rparr>"] kinvD(3) [OF K] a
    by (simp add: popped_def dev_ok_def)
  moreover have "n \<notin> set r" "distinct r" "alive k n" "\<And>s. s < length (sems k) \<Longrightarrow> n \<notin> set (queue k s)"
    using r sched_okD(2) [OF S] sched_okD(3,5) [OF S, of n] by auto
  moreover have "n \<noteq> cur k \<and> cur k \<notin> set r \<and> (\<forall>s < length (sems k). cur k \<notin> set (queue k s))" if fin
    using kinv_free [OF K c] that r by (auto simp: free_def)
  moreover have "wfc (Switched # fs)" if "\<not> fin" using that P(8) by simp
  moreover have "\<not> inHandler ?k" "\<not> yieldOnReturn ?k" "level ?k = IntOff"
    using kinvD(5,6,7) [OF K] c by (simp_all add: popped_def)
  ultimately show ?thesis unfolding ready_to_switch_def
    using rl rq qw pk tb a P(3,4) al th sched_okD(7,8) [OF S] by simp
qed

lemma ran_SleepLoop:
  assumes K: "kinv k" and c: "code k (cur k) = SleepLoop fin # fs"
  shows "ran F (SleepLoop fin) k"
proof -
  note P = popped_facts [OF K c]
  have a: "alive k (cur k)" by (rule kinvD(9) [OF K])
  have again: "push [SleepLoop fin] (popped k) = Inr k"
  proof -
    have e: "(th k (cur k))\<lparr>t_code := SleepLoop fin # fs\<rparr> = th k (cur k)" using c by (intro thread.equality) simp_all
    have "put_thread (cur k) (th k (cur k)) k = k" using a by (simp add: put_thread_def alive_def list_update_same_conv)
    then show ?thesis using push_alive [of "popped k" "[SleepLoop fin]"] a c by (simp add: popped_def e)
  qed
  show ?thesis
  proof (cases "readyList k")
    case Nil
    then show ?thesis using Idle_kinv [OF K c] again P(2) by (simp add: ran_def Sleep_loop_def Scheduler_FindNextToRun_def)
  next
    case (Cons n r)
    then show ?thesis using Run_kinv [OF sleep_switch [OF K c Cons]] P(2)
      by (simp add: ran_def Sleep_loop_def Scheduler_FindNextToRun_def List_RemoveFront_def)
  qed
qed

text \<open>After a switch: the thread that finished before it is deleted.\<close>

lemma destroy_ok:
  assumes B: "base k" and F: "free k"
  shows "\<exists>k'. Scheduler_CheckToBeDestroyed k = Inr k' \<and> base k' \<and> free k' \<and> toBeDestroyed k' = None \<and> cur k' = cur k \<and>
    th k' (cur k) = th k (cur k) \<and> level k' = level k \<and> yieldOnReturn k' = yieldOnReturn k \<and> kmach k' = kmach k"
proof (cases "toBeDestroyed k")
  case None
  then show ?thesis using assms by (simp add: Scheduler_CheckToBeDestroyed_def)
next
  case (Some u)
  let ?k = "k\<lparr>threads := (threads k)[u := None], toBeDestroyed := None\<rparr>"
  have S: "sched_ok k" using B by (simp add: base_def)
  note u = sched_okD(11-13) [OF S Some] and uq = sched_okD(14) [OF S Some]
  have al: "alive ?k t \<longleftrightarrow> alive k t \<and> t \<noteq> u" for t using u by (auto simp: alive_def nth_list_update)
  have th: "th ?k t = th k t" if "t \<noteq> u" for t using that by simp
  have "sched_ok ?k"
  proof (rule sched_okI)
    fix s t assume "s < length (sems ?k)" "t \<in> set (queue ?k s)"
    then have "waiting k s t" "t \<noteq> u" using sched_okD(9) [OF S, of s t] uq [of s] by auto
    then show "waiting ?k s t" using th [of t] unfolding waiting_def al by simp
  next
    fix t assume t: "t \<in> set (readyList ?k)"
    then have "t \<noteq> u" using u by auto
    then show "alive ?k t \<and> t_status (th ?k t) = READY" unfolding al using t th sched_okD(3,4) [OF S, of t] by simp
  next
    fix t assume "alive ?k t" "t \<noteq> cur ?k" "toBeDestroyed ?k \<noteq> Some t"
    then show "parked (code ?k t)" unfolding al using th [of t] sched_okD(10) [OF S, of t] Some by simp
  qed (use F al u sched_okD(1,2) [OF S] sched_okD(5-8) [OF S] in \<open>auto simp: free_def\<close>)
  moreover have "refs_inv ?k"
  proof -
    have r: "refs_ok ?k f = refs_ok k f" for f by (rule refs_ok_cong) simp_all
    have "\<forall>f \<in> set (code ?k t). refs_ok ?k f" if "alive ?k t" for t
      using that B th [of t] unfolding al r by (auto simp: base_def refs_inv_def)
    then show ?thesis using B by (simp add: base_def refs_inv_def)
  qed
  moreover have "dev_ok ?k"
  proof -
    have "regs_ok (t_userRegisters (th ?k t))" if "alive ?k t" for t
      using that B th [of t] unfolding al by (auto simp: base_def dev_ok_def)
    then show ?thesis using B by (simp add: base_def dev_ok_def)
  qed
  moreover have fr: "free ?k" using F by simp
  ultimately have "base ?k" using B free_awake [OF fr] by (simp add: base_def)
  then show ?thesis using Some fr u th [of "cur k"]
    by (simp add: Scheduler_CheckToBeDestroyed_def Thread_delete_def)
qed

lemma base_regs:
  assumes "base k" "regs_ok (registers m)"
  shows "base (k\<lparr>kmach := m\<rparr>)"
  using assms by (simp add: base_def dev_ok_def awake_def)

lemma ran_Switched:
  assumes K: "kinv k" and c: "code k (cur k) = Switched # fs"
  shows "ran F Switched k"
proof -
  note P = popped_facts [OF K c] and B = popped_base [OF K c]
  obtain k1 where k1: "Scheduler_CheckToBeDestroyed (popped k) = Inr k1" "base k1" "free k1" "toBeDestroyed k1 = None" "cur k1 = cur k"
    "th k1 (cur k) = th (popped k) (cur k)" "level k1 = level (popped k)" "yieldOnReturn k1 = yieldOnReturn (popped k)"
    using destroy_ok [OF B(1,2)] P(4) by auto
  have a: "alive k1 (cur k1)" by (rule base_alive [OF k1(2)])
  have kk: "kinv k1" by (rule calm_none) (use P B k1 in simp_all)
  define m where "m = AddrSpace_RestoreState (the (t_space (th k1 (cur k1)))) (kmach k1\<lparr>registers := t_userRegisters (th k1 (cur k1))\<rparr>)"
  have R: "regs_ok (registers (kmach k1))" "regs_ok (t_userRegisters (th k1 (cur k1)))" using k1(2) a by (simp_all add: base_def dev_ok_def)
  then have "base (k1\<lparr>kmach := m\<rparr>)" by (intro base_regs [OF k1(2)]) (simp add: m_def AddrSpace_RestoreState_def)
  then have km: "kinv (k1\<lparr>kmach := m\<rparr>)" by (rule calm_none) (use P B k1 in simp_all)
  have run: "exec_frame Switched F (popped k) = (case t_space (th k1 (cur k1)) of None \<Rightarrow> Inr k1 | Some sp \<Rightarrow> Inr (k1\<lparr>kmach := m\<rparr>))"
    using P(2) k1(1) a R RestoreUserState_eq [of "t_userRegisters (th k1 (cur k1))" "kmach k1"]
    by (simp add: Switched_back_def m_def regs_ok_def split: option.splits)
  show ?thesis using run kk km by (cases "t_space (th k1 (cur k1))") (simp_all add: ran_def)
qed

lemma ran_DoBegin:
  assumes K: "kinv k" and c: "code k (cur k) = DoBegin # fs"
  shows "ran F DoBegin k"
proof -
  note P = popped_facts [OF K c] and B = popped_base [OF K c]
  obtain k1 where k1: "Scheduler_CheckToBeDestroyed (popped k) = Inr k1" "base k1" "free k1" "toBeDestroyed k1 = None" "cur k1 = cur k"
    "th k1 (cur k) = th (popped k) (cur k)" "level k1 = level (popped k)" "yieldOnReturn k1 = yieldOnReturn (popped k)"
    using destroy_ok [OF B(1,2)] P(4) by auto
  have "\<exists>k'. Interrupt_SetLevel IntOn k1 = Inr k' \<and> kinv k'" by (rule SetLevel_On_kinv) (use P B k1 in simp_all)
  then show ?thesis using k1(1) by (simp add: ran_def Thread_Begin_def)
qed

text \<open>\<^verbatim>\<open>Fork\<close>.\<close>

lemma wfc_calls: "\<forall>f \<in> set fs. is_call f \<Longrightarrow> wfc (fs @ [DoFinish]) \<and> lvl (hd (fs @ [DoFinish])) = IntOn"
proof (induction fs)
  case (Cons f fs)
  then have "fine f (fs @ [DoFinish]) \<and> \<not> final f \<and> lvl f = IntOn \<and> leaves f = IntOn" by (cases f) simp_all
  with Cons show ?case by simp
qed simp

lemma new_thread_ok:
  assumes B: "base k" and F: "free k" and off: "level k = IntOff"
    and p: "\<forall>f \<in> set p. is_call f \<and> refs_ok k f"
  shows "\<exists>k'. Scheduler_ReadyToRun (length (threads k)) (k\<lparr>threads := threads k @ [Some (Thread_new p)]\<rparr>) = Inr k' \<and>
    base k' \<and> free k' \<and> cur k' = cur k \<and> th k' (cur k) = th k (cur k) \<and> toBeDestroyed k' = toBeDestroyed k \<and> level k' = level k \<and>
    yieldOnReturn k' = yieldOnReturn k"
proof -
  let ?n = "length (threads k)"
  let ?t = "(Thread_new p)\<lparr>t_status := READY\<rparr>"
  let ?k1 = "k\<lparr>threads := threads k @ [Some (Thread_new p)]\<rparr>"
  let ?k = "k\<lparr>threads := threads k @ [Some ?t], readyList := readyList k @ [?n]\<rparr>"
  have S: "sched_ok k" using B by (simp add: base_def)
  have ne: "t \<noteq> ?n" if "alive k t" for t using that by (auto simp: alive_def)
  have r: "?n \<notin> set (readyList k)" using sched_okD(3) [OF S, of ?n] ne by auto
  have q: "?n \<notin> set (queue k s)" if "s < length (sems k)" for s using sched_okD(9) [OF S that, of ?n] ne by (auto simp: waiting_def)
  have "alive ?k1 ?n" by (simp add: alive_def)
  then have run: "Scheduler_ReadyToRun ?n ?k1 = Inr ?k"
    using ReadyToRun_eq [of ?k1 ?n] off r by (simp add: put_thread_def)
  have al: "alive ?k t \<longleftrightarrow> alive k t \<or> t = ?n" for t by (auto simp: alive_def nth_append less_Suc_eq)
  have th: "th ?k t = (if t = ?n then ?t else th k t)" if "alive k t \<or> t = ?n" for t using that by (auto simp: alive_def nth_append)
  have c: "alive k (cur k)" "cur k \<noteq> ?n" using sched_okD(1) [OF S] ne by auto
  have w: "wfc (t_code ?t)" "hd (t_code ?t) = DoBegin" using wfc_calls [of p] p by (simp_all add: Thread_new_def)
  have fr: "free ?k" using F c by (simp add: free_def)
  have "sched_ok ?k"
  proof (rule sched_okI)
    fix s t assume "s < length (sems ?k)" "t \<in> set (queue ?k s)"
    then have t: "waiting k s t" using sched_okD(9) [OF S, of s t] by simp
    then show "waiting ?k s t" using th [of t] ne [of t] unfolding waiting_def al by auto
  next
    fix t assume t: "t \<in> set (readyList ?k)"
    then show "alive ?k t \<and> t_status (th ?k t) = READY" unfolding al using th [of t] sched_okD(3,4) [OF S, of t] ne by auto
  next
    fix t assume "alive ?k t" "t \<noteq> cur ?k" "toBeDestroyed ?k \<noteq> Some t"
    then show "parked (code ?k t)" unfolding al using th [of t] w sched_okD(10) [OF S, of t] by (auto simp: parked_def)
  next
    fix t assume "toBeDestroyed ?k = Some t"
    then show "t \<noteq> cur ?k \<and> alive ?k t \<and> t \<notin> set (readyList ?k)" unfolding al using sched_okD(11-13) [OF S, of t] ne by auto
  qed (use c al r q F sched_okD(2) [OF S] sched_okD(5-8) [OF S] sched_okD(14) [OF S] in \<open>auto simp: free_def\<close>)
  moreover have "refs_inv ?k"
  proof -
    have ro: "refs_ok ?k f = refs_ok k f" for f by (rule refs_ok_cong) simp_all
    have "\<forall>f \<in> set (code ?k t). refs_ok ?k f" if "alive ?k t" for t
      using that B th [of t] p unfolding al ro by (auto simp: base_def refs_inv_def Thread_new_def)
    then show ?thesis using B by (simp add: base_def refs_inv_def)
  qed
  moreover have "dev_ok ?k"
  proof -
    have "regs_ok (t_userRegisters (th ?k t))" if "alive ?k t" for t
      using that B th [of t] unfolding al by (auto simp: base_def dev_ok_def Thread_new_def regs_ok_def NumTotalRegs_def)
    then show ?thesis using B by (simp add: base_def dev_ok_def)
  qed
  ultimately have "base ?k" using B free_awake [OF fr] by (simp add: base_def)
  then show ?thesis using run fr th [of "cur k"] c by simp
qed

lemma ran_DoFork:
  assumes K: "kinv k" and c: "code k (cur k) = DoFork n # fs" and p: "progs_ok F k"
  shows "ran F (DoFork n) k"
proof -
  note P = popped_facts [OF K c] and B = popped_base [OF K c]
  let ?k = "popped k\<lparr>level := IntOff\<rparr>"
  have "refs_ok ?k f = refs_ok k f" for f by (rule refs_ok_cong) (simp_all add: popped_def)
  then obtain k1 where k1: "Scheduler_ReadyToRun (length (threads ?k)) (?k\<lparr>threads := threads ?k @ [Some (Thread_new (F n))]\<rparr>) = Inr k1"
    "base k1" "free k1" "cur k1 = cur ?k" "th k1 (cur ?k) = th ?k (cur ?k)" "toBeDestroyed k1 = toBeDestroyed ?k" "level k1 = level ?k"
    "yieldOnReturn k1 = yieldOnReturn ?k"
    using new_thread_ok [of ?k "F n"] B p by (auto simp: progs_ok_def)
  have "\<exists>k'. Interrupt_SetLevel IntOn k1 = Inr k' \<and> kinv k'" by (rule SetLevel_On_kinv) (use P B k1 in simp_all)
  moreover have e: "popped k\<lparr>threads := ts, level := IntOff\<rparr> = popped k\<lparr>level := IntOff, threads := ts\<rparr>" for ts
    by (intro kst.equality) simp_all
  ultimately show ?thesis using k1(1) P by (simp add: ran_def Thread_Fork_def Let_def SetLevel_Off_eq e)
qed

section \<open>Objects are never lost\<close>

definition sizes :: "kst \<Rightarrow> nat \<times> nat \<times> nat \<times> nat" where
  "sizes k = (length (locks k), length (conds k), length (lists k), length (devs k))"

text \<open>Numbers that name an object before a step name it after the step.\<close>

definition grows :: "kst \<Rightarrow> kst \<Rightarrow> bool" where
  "grows k k' \<longleftrightarrow> length (sems k) \<le> length (sems k') \<and> sizes k' = sizes k"

lemma grows_refl [simp]: "grows k k"
  by (simp add: grows_def)

lemma grows_trans: "grows k k1 \<Longrightarrow> grows k1 k2 \<Longrightarrow> grows k k2"
  by (simp add: grows_def)

lemma grows_progs: "grows k k' \<Longrightarrow> progs_ok F k \<Longrightarrow> progs_ok F k'"
proof -
  assume g: "grows k k'" and p: "progs_ok F k"
  have "refs_ok k f \<Longrightarrow> refs_ok k' f" for f using g by (cases f) (auto simp: grows_def sizes_def)
  with p show ?thesis by (simp add: progs_ok_def)
qed

lemma with_thread_grows: "with_thread t f k = Inr k' \<Longrightarrow> grows k k'"
  by (auto simp: with_thread_def put_thread_def grows_def sizes_def elim!: rbindE)

lemma push_grows: "push fs k = Inr k' \<Longrightarrow> grows k k'"
  unfolding push_def by (rule with_thread_grows)

lemma ReadyToRun_grows: "Scheduler_ReadyToRun t k = Inr k' \<Longrightarrow> grows k k'"
  by (auto simp: Scheduler_ReadyToRun_def grows_def sizes_def split: if_splits elim!: rbindE dest!: with_thread_grows)

lemma V_body_grows: "V_body s k = Inr k' \<Longrightarrow> grows k k'"
  by (auto simp: V_body_def grows_def sizes_def split: if_splits elim!: rbindE dest!: ReadyToRun_grows)

lemma Schedule_grows: "Interrupt_Schedule d n k = Inr k' \<Longrightarrow> grows k k'"
  by (auto simp: Interrupt_Schedule_def Let_def grows_def sizes_def split: if_splits elim!: rbindE)

lemma handler_V_grows: "handler_V s k = Inr k' \<Longrightarrow> grows k k'"
  by (auto simp: handler_V_def grows_def sizes_def elim!: rbindE dest!: V_body_grows)

lemma CallBack_grows: "CallBack d k = Inr k' \<Longrightarrow> grows k k'"
proof (cases d)
  case TimerDev
  moreover assume "CallBack d k = Inr k'"
  ultimately show ?thesis
    by (auto simp: Timer_CallBack_def Alarm_CallBack_def Timer_SetInterrupt_def Interrupt_YieldOnReturn_def grows_def sizes_def
        split: if_splits elim!: rbindE dest!: Schedule_grows)
next
  case KeyboardDev
  moreover assume "CallBack d k = Inr k'"
  ultimately show ?thesis
    by (auto simp: ConsoleInput_CallBack_def grows_def sizes_def
        split: if_splits list.splits poll.splits elim!: rbindE dest!: Schedule_grows handler_V_grows)
next
  case (RequestDev n)
  moreover assume "CallBack d k = Inr k'"
  ultimately show ?thesis
    by (auto simp: Device_CallBack_def grows_def sizes_def split: if_splits elim!: rbindE dest!: handler_V_grows)
qed

lemma fire_grows: "fire k = Inr k' \<Longrightarrow> grows k k'"
proof (induction k rule: fire.induct)
  case (1 k)
  obtain p ps k1 where k1: "List_RemoveFront (pending k) = Inr (p, ps)" "CallBack (p_dev p) (k\<lparr>pending := ps\<rparr>) = Inr k1"
    "(if pending k1 \<noteq> [] \<and> p_when (hd (pending k1)) \<le> now k1 then fire k1 else Inr k1) = Inr k'"
    using "1.prems" by (subst (asm) fire.simps) (auto elim!: rbindE split: prod.splits)
  have "grows k k1" using CallBack_grows [OF k1(2)] by (simp add: grows_def sizes_def)
  moreover have "grows k1 k'" using "1.IH" [OF k1(1) refl k1(2)] k1(3) by (auto split: if_splits)
  ultimately show ?case by (rule grows_trans)
qed

lemma CheckIfDue_grows: "Interrupt_CheckIfDue adv k = Inr (b, k') \<Longrightarrow> grows k k'"
  by (auto simp: Interrupt_CheckIfDue_def Let_def grows_def sizes_def split: if_splits elim!: rbindE dest!: fire_grows)

lemma SetLevel_grows: "Interrupt_SetLevel l k = Inr k' \<Longrightarrow> grows k k'"
  by (auto simp: Interrupt_SetLevel_def Interrupt_OneTick_def Let_def grows_def sizes_def
      split: if_splits prod.splits elim!: rbindE dest!: CheckIfDue_grows push_grows)

lemma OneTick_grows: "Interrupt_OneTick k = Inr k' \<Longrightarrow> grows k k'"
  by (auto simp: Interrupt_OneTick_def Let_def grows_def sizes_def
      split: if_splits prod.splits elim!: rbindE dest!: CheckIfDue_grows push_grows)

lemma Idle_grows: "Interrupt_Idle k = Inr k' \<Longrightarrow> grows k k'"
  by (auto simp: Interrupt_Idle_def Interrupt_Halt_def grows_def sizes_def split: if_splits prod.splits elim!: rbindE dest!: CheckIfDue_grows)

lemma FindNext_grows: "Scheduler_FindNextToRun k = Inr (n, k') \<Longrightarrow> grows k k'"
  by (auto simp: Scheduler_FindNextToRun_def grows_def sizes_def split: if_splits prod.splits elim!: rbindE)

lemma Run_grows: "Scheduler_Run n fin k = Inr k' \<Longrightarrow> grows k k'"
  by (auto simp: Scheduler_Run_def Let_def grows_def sizes_def put_thread_def split: if_splits option.splits elim!: rbindE
      dest!: with_thread_grows push_grows)

lemma Destroy_grows: "Scheduler_CheckToBeDestroyed k = Inr k' \<Longrightarrow> grows k k'"
  by (auto simp: Scheduler_CheckToBeDestroyed_def Thread_delete_def grows_def sizes_def split: if_splits option.splits elim!: rbindE)

lemma Switched_back_grows: "Switched_back k = Inr k' \<Longrightarrow> grows k k'"
  by (auto simp: Switched_back_def grows_def sizes_def split: if_splits option.splits elim!: rbindE dest!: Destroy_grows)

lemmas op_grows = with_thread_grows push_grows ReadyToRun_grows V_body_grows Schedule_grows SetLevel_grows OneTick_grows Idle_grows
  FindNext_grows Run_grows Destroy_grows Switched_back_grows

lemmas op_defs = Thread_Yield_def Thread_Sleep_def Sleep_loop_def Thread_Begin_def Thread_Finish_def Thread_Fork_def Semaphore_P_def
  P_loop_def Semaphore_V_def Lock_Acquire_def Lock_setHolder_def Lock_Release_def Condition_Wait_def Condition_Signal_def
  Condition_Broadcast_def Run_tick_def Execute_thread_def Machine_Run_def list_append_def append_result_def assert_result_def remove_loop_def Device_Request_def key_get_def ConsoleInput_GetChar_def

lemma exec_frame_grows: "exec_frame f F k = Inr k' \<Longrightarrow> grows k k'"
  by (cases f; simp only: exec_frame.simps)
    (auto simp: op_defs Let_def grows_def sizes_def split: if_splits option.splits prod.splits elim!: rbindE dest!: op_grows)

lemma kstep_grows: "kstep F k = Inr k' \<Longrightarrow> grows k k'"
  by (auto simp: kstep_def grows_def sizes_def split: list.splits elim!: rbindE dest!: exec_frame_grows)

section \<open>Every step\<close>

text \<open>A frame with a client error fails its assertion.\<close>

lemma client_error_fails:
  assumes K: "kinv k" and c: "code k (cur k) = f # fs" and e: "client_error f k"
  shows "exec_frame f F (popped k) = Inl AssertFail"
proof -
  have P: "refs_ok (popped k) f" "cur (popped k) = cur k" using popped_facts(4,5) [OF K c] by simp_all
  from e P show ?thesis
  proof (cases f)
    case (ListAppend i x)
    then show ?thesis using P e by (simp add: list_append_def List_Append_def)
  next
    case (AppendResult i)
    then show ?thesis using P e popped_result [OF K] by (simp add: append_result_def list_append_def List_Append_def)
  next
    case (AssertResult v)
    then show ?thesis using P e popped_result [OF K] by (simp add: assert_result_def)
  qed (simp_all add: Lock_Release_def Condition_Wait_def Condition_Signal_def Lock_IsHeldByCurrentThread_def Device_Request_def)
qed

lemmas ran_rules = ran_SetLevel ran_Ticked ran_Switched ran_DoYield ran_DoSleep ran_SleepLoop ran_DoBegin ran_DoFinish ran_DoFork
  ran_DoP ran_PLoop ran_DoV ran_DoAcquire ran_SetHolder ran_DoRelease ran_DoWait ran_DoSignal ran_DoBroadcast ran_ListAppend
  ran_RemoveLoop ran_AppendResult ran_AssertResult ran_UserRun ran_DoExecute ran_Request ran_KeyGet

lemma ran_DeleteSem: "kinv k \<Longrightarrow> code k (cur k) = DeleteSem s # fs \<Longrightarrow> ran F (DeleteSem s) k"
proof -
  assume K: "kinv k" and c: "code k (cur k) = DeleteSem s # fs"
  note P = popped_facts [OF K c] and B = popped_base [OF K c]
  have "kinv (popped k)" by (rule calm_none) (use P B in simp_all)
  then show ?thesis by (simp add: ran_def)
qed

lemma ran_any:
  assumes "kinv k" "progs_ok F k" "code k (cur k) = f # fs" "\<not> client_error f k"
  shows "ran F f k"
  using assms by (cases f) (auto intro: ran_rules ran_DeleteSem simp del: client_error.simps)

lemma kstep_kinv:
  assumes K: "kinv k" and p: "progs_ok F k"
  shows "(\<exists>k'. kstep F k = Inr k' \<and> kinv k' \<and> progs_ok F k') \<or> (\<exists>f. top k = Some f \<and> client_error f k \<and> kstep F k = Inl AssertFail)"
proof -
  have a: "alive k (cur k)" by (rule kinvD(9) [OF K])
  obtain f fs where c: "code k (cur k) = f # fs" using kinvD(4) [OF K] by (cases "code k (cur k)") auto
  have s: "kstep F k = exec_frame f F (popped k)" by (rule kstep_top [OF a c])
  have t: "top k = Some f" using a c by (simp add: top_def)
  show ?thesis
  proof (cases "client_error f k")
    case True
    then show ?thesis using s t client_error_fails [OF K c True] by simp
  next
    case False
    obtain k' where k': "kstep F k = Inr k'" "kinv k'" using ran_any [OF K p c False] s by (auto simp: ran_def)
    then show ?thesis using grows_progs [OF kstep_grows [OF k'(1)] p] by blast
  qed
qed

end
