(* ===== verification/ThreadRuns.thy ===== *)
theory ThreadRuns
  imports ThreadsStep "HOL-Library.Sublist"
begin

text \<open>
  What runs of the thread system guarantee: no fault but a client's own, dispatching in the order of the ready
  list, every due interrupt handled once and in order, and what a switch saves and restores of a thread.
\<close>

section \<open>Runs\<close>

text \<open>The steps at which the scheduler takes a thread off the ready list.\<close>

definition dispatching :: "kst \<Rightarrow> bool" where
  "dispatching k \<longleftrightarrow> readyList k \<noteq> [] \<and> (top k = Some DoYield \<or> (\<exists>fin. top k = Some (SleepLoop fin)))"

text \<open>\<open>krun F k n k'\<close>: from \<open>k\<close> the system gets to \<open>k'\<close>, and dispatches \<open>n\<close> times on the way.\<close>

inductive krun :: "(nat \<Rightarrow> frame list) \<Rightarrow> kst \<Rightarrow> nat \<Rightarrow> kst \<Rightarrow> bool" for F where
  stay: "krun F k 0 k"
| go: "krun F k n k1 \<Longrightarrow> kstep F k1 = Inr k2 \<Longrightarrow> krun F k (n + (if dispatching k1 then 1 else 0)) k2"

lemma krun_kinv:
  assumes "krun F k n k'" "kinv k" "progs_ok F k"
  shows "kinv k' \<and> progs_ok F k'"
  using assms
proof (induction rule: krun.induct)
  case (go k n k1 k2)
  then show ?case using kstep_kinv [of k1 F] by auto
qed simp

lemma krun_trans:
  assumes "krun F k1 m k2" "krun F k n k1"
  shows "krun F k (n + m) k2"
  using assms
proof (induction rule: krun.induct)
  case (go k1 m k2 k3)
  then show ?case using krun.go [of F k "n + m" k2 k3] by (simp add: add.assoc)
qed simp

section \<open>The ready list is a queue\<close>

lemma with_thread_ready: "with_thread t f k = Inr k' \<Longrightarrow> readyList k' = readyList k"
  by (auto simp: with_thread_def elim!: rbindE)

lemma push_ready: "push fs k = Inr k' \<Longrightarrow> readyList k' = readyList k"
  unfolding push_def by (rule with_thread_ready)

lemma ReadyToRun_ready: "Scheduler_ReadyToRun t k = Inr k' \<Longrightarrow> readyList k' = readyList k @ [t]"
  by (auto simp: Scheduler_ReadyToRun_def List_Append_def split: if_splits elim!: rbindE dest!: with_thread_ready)

lemma V_body_ready: "V_body s k = Inr k' \<Longrightarrow> prefix (readyList k) (readyList k')"
  by (auto simp: V_body_def split: if_splits elim!: rbindE dest!: ReadyToRun_ready)

lemma handler_V_ready: "handler_V s k = Inr k' \<Longrightarrow> prefix (readyList k) (readyList k')"
  by (auto simp: handler_V_def elim!: rbindE dest!: V_body_ready)

lemma Schedule_ready: "Interrupt_Schedule d n k = Inr k' \<Longrightarrow> readyList k' = readyList k"
  by (auto simp: Interrupt_Schedule_def Let_def split: if_splits elim!: rbindE)

lemma CallBack_ready: "CallBack d k = Inr k' \<Longrightarrow> prefix (readyList k) (readyList k')"
proof (cases d)
  case TimerDev
  moreover assume "CallBack d k = Inr k'"
  ultimately show ?thesis
    by (auto simp: Timer_CallBack_def Alarm_CallBack_def Timer_SetInterrupt_def Interrupt_YieldOnReturn_def
        split: if_splits elim!: rbindE dest!: Schedule_ready)
next
  case KeyboardDev
  moreover assume "CallBack d k = Inr k'"
  ultimately show ?thesis
    by (auto simp: ConsoleInput_CallBack_def split: if_splits list.splits poll.splits elim!: rbindE
        dest!: Schedule_ready handler_V_ready)
next
  case (RequestDev n)
  moreover assume "CallBack d k = Inr k'"
  ultimately show ?thesis
    by (auto simp: Device_CallBack_def split: if_splits elim!: rbindE dest!: handler_V_ready)
qed

lemma fire_ready: "fire k = Inr k' \<Longrightarrow> prefix (readyList k) (readyList k')"
proof (induction k rule: fire.induct)
  case (1 k)
  obtain p ps k1 where k1: "List_RemoveFront (pending k) = Inr (p, ps)" "CallBack (p_dev p) (k\<lparr>pending := ps\<rparr>) = Inr k1"
    "(if pending k1 \<noteq> [] \<and> p_when (hd (pending k1)) \<le> now k1 then fire k1 else Inr k1) = Inr k'"
    using "1.prems" by (subst (asm) fire.simps) (auto elim!: rbindE split: prod.splits)
  have "prefix (readyList k) (readyList k1)" using CallBack_ready [OF k1(2)] by simp
  moreover have "prefix (readyList k1) (readyList k')" using "1.IH" [OF k1(1) refl k1(2)] k1(3) by (auto split: if_splits)
  ultimately show ?case by (rule prefix_order.trans)
qed

lemma CheckIfDue_ready: "Interrupt_CheckIfDue adv k = Inr (b, k') \<Longrightarrow> prefix (readyList k) (readyList k')"
  by (auto simp: Interrupt_CheckIfDue_def Let_def split: if_splits elim!: rbindE dest!: fire_ready)

lemma SetLevel_ready: "Interrupt_SetLevel l k = Inr k' \<Longrightarrow> prefix (readyList k) (readyList k')"
  by (auto simp: Interrupt_SetLevel_def Interrupt_OneTick_def Let_def
      split: if_splits prod.splits elim!: rbindE dest!: CheckIfDue_ready push_ready)

lemma OneTick_ready: "Interrupt_OneTick k = Inr k' \<Longrightarrow> prefix (readyList k) (readyList k')"
  by (auto simp: Interrupt_OneTick_def Let_def split: if_splits prod.splits elim!: rbindE dest!: CheckIfDue_ready push_ready)

lemma Idle_ready: "Interrupt_Idle k = Inr k' \<Longrightarrow> prefix (readyList k) (readyList k')"
  by (auto simp: Interrupt_Idle_def Interrupt_Halt_def split: if_splits prod.splits elim!: rbindE dest!: CheckIfDue_ready)

lemma Destroy_ready: "Scheduler_CheckToBeDestroyed k = Inr k' \<Longrightarrow> readyList k' = readyList k"
  by (auto simp: Scheduler_CheckToBeDestroyed_def Thread_delete_def split: if_splits option.splits elim!: rbindE)

lemma Switched_back_ready: "Switched_back k = Inr k' \<Longrightarrow> readyList k' = readyList k"
  by (auto simp: Switched_back_def split: if_splits option.splits elim!: rbindE dest!: Destroy_ready)

lemma Run_ready: "Scheduler_Run n fin k = Inr k' \<Longrightarrow> readyList k' = readyList k \<and> cur k' = n"
  by (auto simp: Scheduler_Run_def Let_def with_thread_def split: if_splits option.splits elim!: rbindE dest!: push_ready)

lemma FindNext_ready:
  "Scheduler_FindNextToRun k = Inr (n, k') \<Longrightarrow>
   (readyList k = [] \<and> n = None \<and> k' = k) \<or> (\<exists>t r. readyList k = t # r \<and> n = Some t \<and> k' = k\<lparr>readyList := r\<rparr>)"
  by (cases "readyList k") (auto simp: Scheduler_FindNextToRun_def List_RemoveFront_def split: if_splits elim!: rbindE)

lemma ReadyToRun_prefix: "Scheduler_ReadyToRun t k = Inr k' \<Longrightarrow> prefix (readyList k) (readyList k')"
  by (simp add: ReadyToRun_ready)

lemmas op_ready = with_thread_ready push_ready ReadyToRun_prefix V_body_ready Schedule_ready SetLevel_ready OneTick_ready Idle_ready
  Destroy_ready Switched_back_ready

text \<open>Frames that do not dispatch only append; the others take the head.\<close>

lemma exec_frame_appends:
  assumes "exec_frame f F k = Inr k'" "f \<noteq> DoYield" "\<And>fin. f \<noteq> SleepLoop fin"
  shows "prefix (readyList k) (readyList k')"
  using assms
  by (cases f; simp only: exec_frame.simps)
    (auto simp: op_defs Let_def split: if_splits option.splits prod.splits elim!: rbindE dest!: op_ready
      intro: prefix_order.trans)

lemma Yield_ready:
  assumes "Thread_Yield k = Inr k'"
  shows "(readyList k = [] \<longrightarrow> readyList k' = []) \<and> (\<forall>t r. readyList k = t # r \<longrightarrow> readyList k' = r @ [cur k] \<and> cur k' = t)"
proof -
  obtain k1 n k2 where k1: "push [SetLevel (level k)] (k\<lparr>level := IntOff\<rparr>) = Inr k1" "Scheduler_FindNextToRun k1 = Inr (n, k2)"
    "(case n of None \<Rightarrow> Inr k2 | Some t \<Rightarrow> rbind (Scheduler_ReadyToRun (cur k2) k2) (Scheduler_Run t False)) = Inr k'"
    using assms by (auto simp: Thread_Yield_def SetLevel_Off_eq split: prod.splits elim!: rbindE)
  have c: "cur k1 = cur k" "readyList k1 = readyList k" using k1(1) push_ready [OF k1(1)] by (auto simp: push_def with_thread_def elim!: rbindE)
  from FindNext_ready [OF k1(2)] k1(3) c show ?thesis by (auto elim!: rbindE dest!: ReadyToRun_ready Run_ready)
qed

lemma Sleep_loop_ready:
  assumes "Sleep_loop fin k = Inr k'" "readyList k = t # r"
  shows "readyList k' = r \<and> cur k' = t"
proof -
  obtain n k2 where k1: "Scheduler_FindNextToRun k = Inr (n, k2)"
    "(case n of None \<Rightarrow> rbind (push [SleepLoop fin] k2) Interrupt_Idle | Some t \<Rightarrow> Scheduler_Run t fin k2) = Inr k'"
    using assms(1) by (auto simp: Sleep_loop_def split: prod.splits elim!: rbindE)
  from FindNext_ready [OF k1(1)] k1(2) assms(2) show ?thesis by (auto dest!: Run_ready)
qed

lemma kstep_fifo:
  assumes "kstep F k = Inr k'"
  shows "if dispatching k then (\<exists>ys. readyList k' = tl (readyList k) @ ys) \<and> cur k' = hd (readyList k)
    else prefix (readyList k) (readyList k')"
proof -
  obtain x f fs where x: "get_thread (cur k) k = Inr x" "t_code x = f # fs"
    "exec_frame f F (put_thread (cur k) (x\<lparr>t_code := fs\<rparr>) k) = Inr k'" (is "exec_frame f F ?k = _")
    using assms by (auto simp: kstep_def split: list.splits elim!: rbindE)
  have t: "top k = Some f" using x by (simp add: top_def)
  have r: "readyList ?k = readyList k" by simp
  show ?thesis
  proof (cases "readyList k = [] \<or> (f \<noteq> DoYield \<and> (\<forall>fin. f \<noteq> SleepLoop fin))")
    case True
    then have "\<not> dispatching k" using t by (auto simp: dispatching_def)
    moreover have "prefix (readyList k) (readyList k')"
      using True exec_frame_appends [OF x(3)] r by (cases "readyList k = []") auto
    ultimately show ?thesis by simp
  next
    case False
    then have d: "dispatching k" using t by (auto simp: dispatching_def)
    obtain h r where h: "readyList k = h # r" using False by (cases "readyList k") auto
    show ?thesis
    proof (cases "f = DoYield")
      case True
      then show ?thesis using d h Yield_ready [of ?k k'] x(3) by simp
    next
      case ne: False
      then obtain fin where "f = SleepLoop fin" using False by blast
      then show ?thesis using d h Sleep_loop_ready [of fin ?k k' h r] x(3) by simp
    qed
  qed
qed

lemma krun_fifo:
  assumes "krun F k n k'"
  shows "(n \<le> length (readyList k) \<longrightarrow> (\<exists>ys. readyList k' = drop n (readyList k) @ ys)) \<and>
    (\<forall>i < n. i < length (readyList k) \<longrightarrow> (\<exists>k1. krun F k (Suc i) k1 \<and> cur k1 = readyList k ! i \<and> krun F k1 (n - Suc i) k'))"
  using assms
proof (induction rule: krun.induct)
  case (stay k)
  then show ?case by (simp add: krun.stay)
next
  case (go k n k1 k2)
  let ?L = "readyList k"
  have old: "\<exists>k1. krun F k (Suc i) k1 \<and> cur k1 = ?L ! i \<and> krun F k1 (n + (if dispatching k1' then 1 else 0) - Suc i) k2"
    if i: "i < n" "i < length ?L" "k1' = k1" for i k1'
  proof -
    obtain j where j: "krun F k (Suc i) j" "cur j = ?L ! i" "krun F j (n - Suc i) k1" using go.IH i by blast
    from krun.go [OF j(3) go.hyps(2)] i j show ?thesis by (intro exI [of _ j]) (auto simp: Suc_diff_le)
  qed
  show ?case
  proof (cases "dispatching k1")
    case False
    have p: "prefix (readyList k1) (readyList k2)" using kstep_fifo [OF go.hyps(2)] False by simp
    have "\<exists>ys. readyList k2 = drop n ?L @ ys" if "n \<le> length ?L"
      using go.IH that p unfolding prefix_def by (metis append_assoc)
    then show ?thesis using False old by simp
  next
    case True
    have s: "\<exists>ys. readyList k2 = tl (readyList k1) @ ys" "cur k2 = hd (readyList k1)" using kstep_fifo [OF go.hyps(2)] True by auto
    have hd: "cur k2 = ?L ! n \<and> (\<exists>ys. readyList k2 = drop (Suc n) ?L @ ys)" if "n < length ?L"
    proof -
      obtain ys where "readyList k1 = drop n ?L @ ys" using go.IH that by auto
      then have "readyList k1 = ?L ! n # drop (Suc n) ?L @ ys" using that by (simp add: Cons_nth_drop_Suc [symmetric])
      then show ?thesis using s by auto
    qed
    have last: "\<exists>j. krun F k (Suc n) j \<and> cur j = ?L ! n \<and> krun F j 0 k2" if "n < length ?L"
      using krun.go [OF go.hyps] True hd [OF that] krun.stay [of F k2] by (intro exI [of _ k2]) simp
    show ?thesis using True hd old last by (auto simp: less_Suc_eq_le le_less)
  qed
qed

section \<open>Interrupts fire once, in order\<close>

text \<open>Calling the handlers of a list of interrupts, one after the other, each taken off the pending list first.\<close>

primrec calls :: "pint list \<Rightarrow> kst \<Rightarrow> kst res" where
  "calls [] k = Inr k"
| "calls (p # ps) k = rbind (CallBack (p_dev p) (k\<lparr>pending := tl (pending k)\<rparr>)) (calls ps)"

lemma Schedule_ordered:
  assumes "Interrupt_Schedule d n k = Inr k'" "pc.ordered (pending k)"
  shows "pc.ordered (pending k')"
proof -
  let ?x = "\<lparr>p_when = now k + n, p_dev = d, p_serial = serial k\<rparr>"
  have s: "Sorted_Insert PendingCompare (pending k) ?x = Inr (pending k')"
    using assms(1) by (auto simp: Interrupt_Schedule_def Let_def elim!: rbindE split: if_splits)
  then have "?x \<notin> set (pending k)" by (auto simp: Sorted_Insert_def split: if_splits)
  from pc.insert_split [OF assms(2) this] obtain zs where "Sorted_Insert PendingCompare (pending k) ?x = Inr zs" "pc.ordered zs" by metis
  with s show ?thesis by simp
qed

lemma CallBack_ordered:
  assumes "CallBack d k = Inr k'" "pc.ordered (pending k)"
  shows "pc.ordered (pending k')"
proof (cases d)
  case TimerDev
  then obtain k1 where k1: "Alarm_CallBack k = Inr k1" "Timer_SetInterrupt k1 = Inr k'"
    using assms by (auto simp: Timer_CallBack_def elim!: rbindE)
  then show ?thesis using Alarm_due [OF k1(1)] assms(2)
    by (auto simp: Timer_SetInterrupt_def split: if_splits dest!: Schedule_ordered)
next
  case KeyboardDev
  then show ?thesis using assms
    by (auto simp: ConsoleInput_CallBack_def split: if_splits list.splits poll.splits dest!: handler_V_due Schedule_ordered)
next
  case (RequestDev n)
  then show ?thesis using assms by (auto simp: Device_CallBack_def split: if_splits elim!: rbindE dest!: handler_V_due)
qed

lemma ordered_when: "pc.ordered ps = sorted_wrt (\<lambda>x y. p_when x \<le> p_when y) ps"
proof -
  have "PendingCompare x y \<le> 0 \<longleftrightarrow> p_when x \<le> p_when y" for x y by (simp add: PendingCompare_def)
  then show ?thesis by (simp add: pc.ordered_def)
qed

lemma ordered_due: "pc.ordered ps \<Longrightarrow> takeWhile (\<lambda>p. p_when p \<le> n) ps = filter (\<lambda>p. p_when p \<le> n) ps"
proof (induction ps)
  case (Cons p ps)
  then have "pc.ordered ps" "\<forall>q \<in> set ps. p_when p \<le> p_when q" by (simp_all add: ordered_when)
  moreover from this have "filter (\<lambda>p. p_when p \<le> n) ps = []" if "\<not> p_when p \<le> n"
    using that by (auto simp: filter_empty_conv)
  ultimately show ?case using Cons.IH by simp
qed simp

lemma fire_calls:
  assumes "pc.ordered (pending k)" "pending k = p # ps"
  shows "fire k = calls (p # takeWhile (\<lambda>q. p_when q \<le> now k) ps) k"
  using assms
proof (induction k arbitrary: p ps rule: fire.induct)
  case (1 k)
  have rf: "List_RemoveFront (pending k) = Inr (p, ps)" using "1.prems" by (simp add: List_RemoveFront_def)
  show ?case
  proof (cases "CallBack (p_dev p) (k\<lparr>pending := ps\<rparr>)")
    case (Inl e)
    then show ?thesis using rf "1.prems" by (subst fire.simps) simp
  next
    case (Inr k1)
    have os: "pc.ordered ps" using "1.prems" by (simp add: pc.ordered_def)
    have o: "pc.ordered (pending k1)" using CallBack_ordered [OF Inr] os by simp
    have d: "now k1 = now k" "takeWhile (\<lambda>q. p_when q \<le> now k) (pending k1) = takeWhile (\<lambda>q. p_when q \<le> now k) ps"
      using CallBack_due [OF Inr] ordered_due [OF o] ordered_due [OF os] by simp_all
    have "fire k = (if pending k1 \<noteq> [] \<and> p_when (hd (pending k1)) \<le> now k1 then fire k1 else Inr k1)"
      by (subst fire.simps) (simp add: rf Inr)
    also have "\<dots> = calls (takeWhile (\<lambda>q. p_when q \<le> now k) (pending k1)) k1"
    proof (cases "pending k1 \<noteq> [] \<and> p_when (hd (pending k1)) \<le> now k1")
      case True
      then obtain q qs where q: "pending k1 = q # qs" by (cases "pending k1") auto
      show ?thesis using "1.IH" [OF rf refl Inr True o q] True d(1) q by simp
    next
      case False
      then show ?thesis using d(1) by (cases "pending k1") auto
    qed
    finally show ?thesis using Inr "1.prems"(2) d(2) by simp
  qed
qed

lemma fire_now: "fire k = Inr k' \<Longrightarrow> now k' = now k"
proof (induction k rule: fire.induct)
  case (1 k)
  obtain p ps k1 where k1: "List_RemoveFront (pending k) = Inr (p, ps)" "CallBack (p_dev p) (k\<lparr>pending := ps\<rparr>) = Inr k1"
    "(if pending k1 \<noteq> [] \<and> p_when (hd (pending k1)) \<le> now k1 then fire k1 else Inr k1) = Inr k'"
    using "1.prems" by (subst (asm) fire.simps) (auto elim!: rbindE split: prod.splits)
  then show ?case using CallBack_due [OF k1(2)] "1.IH" [OF k1(1) refl k1(2)] by (auto split: if_splits)
qed

section \<open>A thread that is switched out keeps its registers\<close>

definition saved :: "thread \<Rightarrow> frame list \<times> addrspace option \<times> 32 word list" where
  "saved x = (t_code x, t_space x, t_userRegisters x)"

lemma saved_status [simp]: "saved (x\<lparr>t_status := st\<rparr>) = saved x"
  by (simp add: saved_def)

definition view :: "kst \<Rightarrow> nat \<Rightarrow> (frame list \<times> addrspace option \<times> 32 word list) option" where
  "view k t = (if t < length (threads k) then map_option saved (threads k ! t) else None)"

text \<open>Everything but the running thread.\<close>

definition rest :: "kst \<Rightarrow> nat \<times> nat \<times> (nat \<Rightarrow> (frame list \<times> addrspace option \<times> 32 word list) option)" where
  "rest k = (cur k, length (threads k), (view k)(cur k := None))"

lemma view_threads: "threads k' = threads k \<Longrightarrow> view k' = view k"
  by (rule ext) (simp add: view_def)

lemma rest_cong: "threads k' = threads k \<Longrightarrow> cur k' = cur k \<Longrightarrow> rest k' = rest k"
  using view_threads [of k' k] by (simp add: rest_def)

lemma rest_fields [simp]:
  "rest (k\<lparr>level := l\<rparr>) = rest k" "rest (k\<lparr>pending := p\<rparr>) = rest k" "rest (k\<lparr>devs := d\<rparr>) = rest k"
  "rest (k\<lparr>incoming := c\<rparr>) = rest k" "rest (k\<lparr>serial := n\<rparr>) = rest k" "rest (k\<lparr>keyboard := ks\<rparr>) = rest k"
  "rest (k\<lparr>inHandler := b\<rparr>) = rest k" "rest (k\<lparr>yieldOnReturn := b\<rparr>) = rest k" "rest (k\<lparr>drawn := n\<rparr>) = rest k"
  "rest (k\<lparr>kmach := m\<rparr>) = rest k" "rest (k\<lparr>now := i\<rparr>) = rest k" "rest (k\<lparr>idleTicks := i\<rparr>) = rest k"
  "rest (k\<lparr>mstatus := st\<rparr>) = rest k" "rest (k\<lparr>systemTicks := i\<rparr>) = rest k" "rest (k\<lparr>userTicks := i\<rparr>) = rest k"
  "rest (k\<lparr>halted := b\<rparr>) = rest k" "rest (k\<lparr>locks := ls\<rparr>) = rest k" "rest (k\<lparr>conds := cs\<rparr>) = rest k"
  "rest (k\<lparr>lists := xs\<rparr>) = rest k" "rest (k\<lparr>toBeDestroyed := tb\<rparr>) = rest k" "rest (k\<lparr>readyList := r\<rparr>) = rest k"
  "rest (k\<lparr>sems := ss\<rparr>) = rest k" "rest (put_sem s x k) = rest k"
  by (rule rest_cong; simp; fail)+

lemma rest_put:
  assumes "get_thread t k = Inr x" "t = cur k \<or> saved y = saved x"
  shows "rest (put_thread t y k) = rest k"
proof -
  have "view (put_thread t y k) u = (if u = t then Some (saved y) else view k u)" "view k t = Some (saved x)" for u
    using assms(1) by (auto simp: view_def put_thread_def get_thread_def nth_list_update split: if_splits option.splits)
  then show ?thesis using assms(2) by (auto simp: rest_def put_thread_def fun_eq_iff)
qed

lemma with_cur_rest: "with_thread (cur k) f k = Inr k' \<Longrightarrow> rest k' = rest k"
  by (auto simp: with_thread_def elim!: rbindE intro: rest_put)

lemma rest_cur: "rest k' = rest k \<Longrightarrow> cur k' = cur k"
  by (simp add: rest_def)

lemma push_rest: "push fs k = Inr k' \<Longrightarrow> rest k' = rest k"
  unfolding push_def by (rule with_cur_rest)

lemma ReadyToRun_rest: "Scheduler_ReadyToRun t k = Inr k' \<Longrightarrow> rest k' = rest k"
  by (auto simp: Scheduler_ReadyToRun_def with_thread_def split: if_splits elim!: rbindE intro!: rest_put)

lemma V_body_rest: "V_body s k = Inr k' \<Longrightarrow> rest k' = rest k"
  by (auto simp: V_body_def split: if_splits elim!: rbindE dest!: ReadyToRun_rest)

lemma handler_V_rest: "handler_V s k = Inr k' \<Longrightarrow> rest k' = rest k"
  by (auto simp: handler_V_def elim!: rbindE dest!: V_body_rest)

lemma Schedule_rest: "Interrupt_Schedule d n k = Inr k' \<Longrightarrow> rest k' = rest k"
  by (auto simp: Interrupt_Schedule_def Let_def split: if_splits elim!: rbindE)

lemma CallBack_rest: "CallBack d k = Inr k' \<Longrightarrow> rest k' = rest k"
proof (cases d)
  case TimerDev
  moreover assume "CallBack d k = Inr k'"
  ultimately show ?thesis
    by (auto simp: Timer_CallBack_def Alarm_CallBack_def Timer_SetInterrupt_def Interrupt_YieldOnReturn_def
        split: if_splits elim!: rbindE dest!: Schedule_rest)
next
  case KeyboardDev
  moreover assume "CallBack d k = Inr k'"
  ultimately show ?thesis
    by (auto simp: ConsoleInput_CallBack_def split: if_splits list.splits poll.splits elim!: rbindE
        dest!: Schedule_rest handler_V_rest)
next
  case (RequestDev n)
  moreover assume "CallBack d k = Inr k'"
  ultimately show ?thesis
    by (auto simp: Device_CallBack_def split: if_splits elim!: rbindE dest!: handler_V_rest)
qed

lemma fire_rest: "fire k = Inr k' \<Longrightarrow> rest k' = rest k"
proof (induction k rule: fire.induct)
  case (1 k)
  obtain p ps k1 where k1: "List_RemoveFront (pending k) = Inr (p, ps)" "CallBack (p_dev p) (k\<lparr>pending := ps\<rparr>) = Inr k1"
    "(if pending k1 \<noteq> [] \<and> p_when (hd (pending k1)) \<le> now k1 then fire k1 else Inr k1) = Inr k'"
    using "1.prems" by (subst (asm) fire.simps) (auto elim!: rbindE split: prod.splits)
  have "rest k1 = rest k" using CallBack_rest [OF k1(2)] by simp
  moreover have "rest k' = rest k1" using "1.IH" [OF k1(1) refl k1(2)] k1(3) by (auto split: if_splits)
  ultimately show ?case by simp
qed

lemma CheckIfDue_rest: "Interrupt_CheckIfDue adv k = Inr (b, k') \<Longrightarrow> rest k' = rest k"
  by (auto simp: Interrupt_CheckIfDue_def Let_def split: if_splits elim!: rbindE dest!: fire_rest)

lemma SetLevel_rest: "Interrupt_SetLevel l k = Inr k' \<Longrightarrow> rest k' = rest k"
  by (auto simp: Interrupt_SetLevel_def Interrupt_OneTick_def Let_def
      split: if_splits prod.splits elim!: rbindE dest!: CheckIfDue_rest push_rest)

lemma OneTick_rest: "Interrupt_OneTick k = Inr k' \<Longrightarrow> rest k' = rest k"
  by (auto simp: Interrupt_OneTick_def Let_def split: if_splits prod.splits elim!: rbindE dest!: CheckIfDue_rest push_rest)

lemma Idle_rest: "Interrupt_Idle k = Inr k' \<Longrightarrow> rest k' = rest k"
  by (auto simp: Interrupt_Idle_def Interrupt_Halt_def split: if_splits prod.splits elim!: rbindE dest!: CheckIfDue_rest)

lemmas op_rest = with_cur_rest push_rest ReadyToRun_rest V_body_rest Schedule_rest SetLevel_rest OneTick_rest Idle_rest

fun switching :: "frame \<Rightarrow> bool" where
  "switching DoYield = True"
| "switching (SleepLoop _) = True"
| "switching Switched = True"
| "switching DoBegin = True"
| "switching (DoFork _) = True"
| "switching _ = False"

lemma key_get_rest: "key_get k = Inr k' \<Longrightarrow> rest k' = rest k"
proof -
  assume "key_get k = Inr k'"
  then obtain c k1 where k1: "ConsoleInput_GetChar k = Inr (c, k1)" "with_thread (cur k1) (\<lambda>th. th\<lparr>t_result := sint c\<rparr>) k1 = Inr k'"
    by (auto simp: key_get_def elim!: rbindE)
  have "rest k1 = rest k" using k1(1) by (auto simp: ConsoleInput_GetChar_def Let_def split: if_splits elim!: rbindE dest!: Schedule_rest)
  with with_cur_rest [OF k1(2)] show ?thesis by simp
qed

lemma remove_loop_rest: "remove_loop i k = Inr k' \<Longrightarrow> rest k' = rest k"
proof -
  assume a: "remove_loop i k = Inr k'"
  have "with_thread (cur k) f (k\<lparr>lists := xs\<rparr>) = Inr k' \<Longrightarrow> rest k' = rest k" for f xs
    using with_cur_rest [of "k\<lparr>lists := xs\<rparr>" f k'] by simp
  with a show ?thesis by (auto simp: remove_loop_def split: if_splits prod.splits elim!: rbindE dest!: push_rest)
qed

lemma Sleep_rest: "Thread_Sleep fin k = Inr k' \<Longrightarrow> rest k' = rest k"
  by (auto simp: Thread_Sleep_def split: if_splits elim!: rbindE dest!: with_cur_rest push_rest)

lemma exec_frame_rest: "exec_frame f F k = Inr k' \<Longrightarrow> \<not> switching f \<Longrightarrow> rest k' = rest k"
proof (cases f)
  case (RemoveLoop i)
  moreover assume "exec_frame f F k = Inr k'"
  ultimately show ?thesis by (simp add: remove_loop_rest)
next
  case KeyGet
  moreover assume "exec_frame f F k = Inr k'"
  ultimately show ?thesis by (simp add: key_get_rest)
next
  case (DoSleep fin)
  moreover assume "exec_frame f F k = Inr k'"
  ultimately show ?thesis by (simp add: Sleep_rest)
qed (simp_all, (auto simp: op_defs Let_def split: if_splits prod.splits elim!: rbindE dest!: op_rest)+)

lemma rest_view: "rest k' = rest k \<Longrightarrow> cur k' = cur k \<and> length (threads k') = length (threads k) \<and> (\<forall>t. t \<noteq> cur k \<longrightarrow> view k' t = view k t)"
  by (simp add: rest_def) (metis fun_upd_other)

lemma view_get: "get_thread t k = Inr x \<Longrightarrow> view k t = Some (saved x)"
  by (auto simp: view_def get_thread_def split: if_splits option.splits)

lemma view_put: "get_thread t k = Inr x \<Longrightarrow> view (put_thread t y k) = (view k)(t \<mapsto> saved y)"
  by (rule ext) (auto simp: view_def put_thread_def get_thread_def nth_list_update split: if_splits option.splits)

lemma get_thread_put: "get_thread t k = Inr x \<Longrightarrow> get_thread t (put_thread t y k) = Inr y"
  by (auto simp: get_thread_def put_thread_def split: if_splits)

lemma get_thread_threads: "threads k' = threads k \<Longrightarrow> get_thread t k' = get_thread t k"
  by (simp add: get_thread_def)

text \<open>What \<^verbatim>\<open>Run\<close> stores in the thread it leaves.\<close>

definition stored :: "kst \<Rightarrow> thread \<Rightarrow> 32 word list \<Rightarrow> bool" where
  "stored k x rs \<longleftrightarrow> (case t_space x of None \<Rightarrow> rs = t_userRegisters x | Some _ \<Rightarrow> Thread_SaveUserState (kmach k) (t_userRegisters x) = Inr rs)"

lemma Run_view:
  assumes run: "Scheduler_Run n fin k = Inr k'" and x: "get_thread (cur k) k = Inr x"
  shows "length (threads k') = length (threads k) \<and> (\<exists>rs. view k' = (view k)(cur k \<mapsto> (Switched # t_code x, t_space x, rs)) \<and> stored k x rs)"
proof -
  let ?t = "cur k"
  define k1 where "k1 = (if fin then k\<lparr>toBeDestroyed := Some ?t\<rparr> else k)"
  have k1: "threads k1 = threads k" "cur k1 = ?t" "kmach k1 = kmach k" by (simp_all add: k1_def)
  have g1: "get_thread ?t k1 = Inr x" using x get_thread_threads [OF k1(1)] by simp
  have "rbind (get_thread ?t k1) (\<lambda>th. rbind (case t_space th of None \<Rightarrow> Inr k1 | Some sp \<Rightarrow>
        rbind (Thread_SaveUserState (kmach k1) (t_userRegisters th)) (\<lambda>rs.
        Inr (put_thread ?t (th\<lparr>t_userRegisters := rs\<rparr>) (k1\<lparr>kmach := AddrSpace_SaveState sp (kmach k1)\<rparr>)))) (\<lambda>k2.
      rbind (push [Switched] k2) (\<lambda>k3. with_thread n (\<lambda>th. th\<lparr>t_status := RUNNING\<rparr>) (k3\<lparr>currentThread := n\<rparr>)))) = Inr k'"
    using run unfolding Scheduler_Run_def Let_def k1_def by (cases fin) (auto split: if_splits elim!: rbindE)
  then obtain k2 k3 where k2: "(case t_space x of None \<Rightarrow> Inr k1 | Some sp \<Rightarrow> rbind (Thread_SaveUserState (kmach k1) (t_userRegisters x)) (\<lambda>rs.
        Inr (put_thread ?t (x\<lparr>t_userRegisters := rs\<rparr>) (k1\<lparr>kmach := AddrSpace_SaveState sp (kmach k1)\<rparr>)))) = Inr k2"
    and k3: "push [Switched] k2 = Inr k3" and k': "with_thread n (\<lambda>th. th\<lparr>t_status := RUNNING\<rparr>) (k3\<lparr>currentThread := n\<rparr>) = Inr k'"
    unfolding g1 rbind_Inr by (elim rbindE) blast
  obtain y rs where y: "get_thread ?t k2 = Inr y" "cur k2 = ?t" "length (threads k2) = length (threads k)" "view k2 = (view k)(?t \<mapsto> (t_code x, t_space x, rs))"
    "t_code y = t_code x" "t_space y = t_space x" "t_userRegisters y = rs" "stored k x rs"
  proof (cases "t_space x")
    case None
    then show thesis using k2 g1 k1 that [of x "t_userRegisters x"] view_threads [OF k1(1)] view_get [OF x]
      by (auto simp: saved_def stored_def fun_upd_idem)
  next
    case (Some sp)
    then obtain rs where rs: "Thread_SaveUserState (kmach k) (t_userRegisters x) = Inr rs"
      "k2 = put_thread ?t (x\<lparr>t_userRegisters := rs\<rparr>) (k1\<lparr>kmach := AddrSpace_SaveState sp (kmach k1)\<rparr>)"
      using k2 k1(3) by (auto elim!: rbindE)
    have g: "get_thread ?t (k1\<lparr>kmach := AddrSpace_SaveState sp (kmach k1)\<rparr>) = Inr x"
      using g1 get_thread_threads [of "k1\<lparr>kmach := AddrSpace_SaveState sp (kmach k1)\<rparr>" k1 ?t] by simp
    have v: "view (k1\<lparr>kmach := AddrSpace_SaveState sp (kmach k1)\<rparr>) = view k" by (rule view_threads) (simp add: k1(1))
    show thesis
      by (rule that [of "x\<lparr>t_userRegisters := rs\<rparr>" rs])
        (use rs g k1 v view_put [OF g] get_thread_put [OF g] Some in \<open>simp_all add: saved_def stored_def put_thread_def\<close>)
  qed
  have p3: "k3 = put_thread ?t (y\<lparr>t_code := Switched # t_code y\<rparr>) k2" using k3 y(1,2) by (simp add: push_def with_thread_def)
  obtain z where z: "get_thread n (k3\<lparr>currentThread := n\<rparr>) = Inr z" "k' = put_thread n (z\<lparr>t_status := RUNNING\<rparr>) (k3\<lparr>currentThread := n\<rparr>)"
    using k' by (auto simp: with_thread_def elim!: rbindE)
  have v3: "view (k3\<lparr>currentThread := n\<rparr>) = view k3" by (rule view_threads) simp
  have "view k' = view k3" using z view_put [OF z(1)] view_get [OF z(1)] v3 by (simp add: fun_upd_idem)
  also have "\<dots> = (view k)(?t \<mapsto> (Switched # t_code x, t_space x, rs))" unfolding p3 using view_put [OF y(1)] y(4-7) by (simp add: saved_def)
  finally show ?thesis using y(3,8) z p3 by (auto simp: put_thread_def)
qed

text \<open>Switching out: what is left of the running thread, and that nobody else is touched.\<close>

definition leaves_behind :: "kst \<Rightarrow> kst \<Rightarrow> bool" where
  "leaves_behind k k' \<longleftrightarrow> length (threads k') = length (threads k) \<and> (\<forall>t. t \<noteq> cur k \<longrightarrow> view k' t = view k t) \<and>
     (\<forall>x. get_thread (cur k) k = Inr x \<longrightarrow> (\<exists>fs rs. view k' (cur k) = Some (Switched # fs, t_space x, rs) \<and> stored k x rs))"

lemma Yield_leaves:
  assumes "Thread_Yield k = Inr k'" "readyList k \<noteq> []"
  shows "leaves_behind k k'"
proof -
  obtain k1 n k2 where k1: "push [SetLevel (level k)] (k\<lparr>level := IntOff\<rparr>) = Inr k1" "Scheduler_FindNextToRun k1 = Inr (n, k2)"
    "(case n of None \<Rightarrow> Inr k2 | Some t \<Rightarrow> rbind (Scheduler_ReadyToRun (cur k2) k2) (Scheduler_Run t False)) = Inr k'"
    using assms by (auto simp: Thread_Yield_def SetLevel_Off_eq split: prod.splits elim!: rbindE)
  have e: "get_thread t (k\<lparr>level := IntOff\<rparr>) = get_thread t k" for t by (rule get_thread_threads) simp
  obtain x where x: "get_thread (cur k) k = Inr x" "k1 = put_thread (cur k) (x\<lparr>t_code := SetLevel (level k) # t_code x\<rparr>) (k\<lparr>level := IntOff\<rparr>)"
    using k1(1) e by (auto simp: push_def with_thread_def elim!: rbindE)
  let ?y = "x\<lparr>t_code := SetLevel (level k) # t_code x\<rparr>"
  have y: "get_thread (cur k) k1 = Inr ?y" using x get_thread_put [of "cur k" "k\<lparr>level := IntOff\<rparr>" x] e by simp
  have r1: "rest k1 = rest k" using push_rest [OF k1(1)] by simp
  obtain t r where r: "readyList k1 = t # r" "n = Some t" "k2 = k1\<lparr>readyList := r\<rparr>"
    using FindNext_ready [OF k1(2)] push_ready [OF k1(1)] assms(2) by auto
  have c: "cur k2 = cur k" using r rest_cur [OF r1] by simp
  have y2: "get_thread (cur k) k2 = Inr ?y" using y r get_thread_threads [of k2 k1] by simp
  obtain k3 where k3: "Scheduler_ReadyToRun (cur k) k2 = Inr k3" "Scheduler_Run t False k3 = Inr k'"
    using k1(3) r(2) c by (auto elim!: rbindE)
  let ?z = "?y\<lparr>t_status := READY\<rparr>"
  obtain q where k3': "k3 = put_thread (cur k) ?z k2\<lparr>readyList := q\<rparr>"
    using k3(1) y2 by (auto simp: Scheduler_ReadyToRun_def with_thread_def split: if_splits elim!: rbindE)
  have z: "get_thread (cur k) k3 = Inr ?z"
    using k3' get_thread_put [OF y2, of ?z] get_thread_threads [of k3 "put_thread (cur k) ?z k2"] by simp
  have R: "rest k3 = rest k" using ReadyToRun_rest [OF k3(1)] r(3) r1 by simp
  have m: "kmach k3 = kmach k" using k3' r(3) x(2) by simp
  have c3: "cur k3 = cur k" by (rule rest_cur [OF R])
  from Run_view [OF k3(2)] z c3 obtain rs where "length (threads k') = length (threads k3)"
    "view k' = (view k3)(cur k \<mapsto> (Switched # t_code ?z, t_space ?z, rs))" "stored k3 ?z rs" by auto
  then show ?thesis using rest_view [OF R] m x(1) by (auto simp: leaves_behind_def stored_def split: option.splits)
qed

lemma Sleep_leaves:
  assumes "Sleep_loop fin k = Inr k'" "readyList k \<noteq> []"
  shows "leaves_behind k k'"
proof -
  obtain n k2 where k1: "Scheduler_FindNextToRun k = Inr (n, k2)"
    "(case n of None \<Rightarrow> rbind (push [SleepLoop fin] k2) Interrupt_Idle | Some t \<Rightarrow> Scheduler_Run t fin k2) = Inr k'"
    using assms(1) by (auto simp: Sleep_loop_def split: prod.splits elim!: rbindE)
  obtain t r where r: "n = Some t" "k2 = k\<lparr>readyList := r\<rparr>" using FindNext_ready [OF k1(1)] assms(2) by auto
  have e: "get_thread u k2 = get_thread u k" for u by (rule get_thread_threads) (simp add: r)
  have v: "view k2 = view k" by (rule view_threads) (simp add: r)
  have run: "Scheduler_Run t fin k2 = Inr k'" using k1(2) r(1) by simp
  then obtain x where x: "get_thread (cur k) k = Inr x"
    using e r(2) get_thread_threads [of "k\<lparr>readyList := r, toBeDestroyed := Some (cur k)\<rparr>" k "cur k"]
    by (cases fin) (auto simp: Scheduler_Run_def Let_def split: if_splits elim!: rbindE)
  from Run_view [OF run] x e r v obtain rs where "length (threads k') = length (threads k)"
    "view k' = (view k)(cur k \<mapsto> (Switched # t_code x, t_space x, rs))" "stored k2 x rs" by auto
  then show ?thesis using x r(2) by (auto simp: leaves_behind_def stored_def split: option.splits)
qed

lemma push_both: "push fs k = Inr k' \<Longrightarrow> rest k' = rest k \<and> readyList k' = readyList k"
  by (simp add: push_rest push_ready)

lemma nth_update: "xs[i := v] ! t = (if t = i \<and> i < length xs then v else xs ! t)"
  by (cases "i < length xs") (auto simp: list_update_beyond)

lemma Destroy_view:
  "Scheduler_CheckToBeDestroyed k = Inr k' \<Longrightarrow> cur k' = cur k \<and> length (threads k') = length (threads k) \<and> (view k' t = view k t \<or> view k' t = None)"
  by (auto simp: Scheduler_CheckToBeDestroyed_def Thread_delete_def view_def nth_update split: if_splits option.splits elim!: rbindE)

text \<open>A step leaves every other thread alone, or deletes it.\<close>

lemma exec_frame_view:
  assumes "exec_frame f F k = Inr k'" "t \<noteq> cur k" "t < length (threads k)"
  shows "t < length (threads k') \<and> (view k' t = view k t \<or> view k' t = None)"
proof (cases "switching f")
  case False
  then show ?thesis using rest_view [OF exec_frame_rest [OF assms(1) False]] assms by auto
next
  case True
  then show ?thesis
  proof (cases f)
    case DoYield
    show ?thesis
    proof (cases "readyList k = []")
      case True
      then have "rest k' = rest k"
        using assms(1) DoYield by (auto simp: Thread_Yield_def SetLevel_Off_eq split: prod.splits option.splits elim!: rbindE
            dest!: FindNext_ready push_both)
      then show ?thesis using rest_view [of k' k] assms by auto
    next
      case False
      then show ?thesis using Yield_leaves [of k k'] assms DoYield by (simp add: leaves_behind_def)
    qed
  next
    case (SleepLoop fin)
    show ?thesis
    proof (cases "readyList k = []")
      case True
      then have "rest k' = rest k"
        using assms(1) SleepLoop by (auto simp: Sleep_loop_def split: prod.splits option.splits elim!: rbindE
            dest!: FindNext_ready push_rest Idle_rest)
      then show ?thesis using rest_view [of k' k] assms by auto
    next
      case False
      then show ?thesis using Sleep_leaves [of fin k k'] assms SleepLoop by (simp add: leaves_behind_def)
    qed
  next
    case Switched
    then obtain k1 where k1: "Scheduler_CheckToBeDestroyed k = Inr k1" "threads k' = threads k1"
      using assms(1) by (auto simp: Switched_back_def split: if_splits option.splits elim!: rbindE)
    then show ?thesis using Destroy_view [OF k1(1), of t] assms(3) view_threads [OF k1(2)] by auto
  next
    case DoBegin
    then obtain k1 where k1: "Scheduler_CheckToBeDestroyed k = Inr k1" "Interrupt_SetLevel IntOn k1 = Inr k'"
      using assms(1) by (auto simp: Thread_Begin_def elim!: rbindE)
    then show ?thesis using Destroy_view [OF k1(1), of t] rest_view [OF SetLevel_rest [OF k1(2)]] assms by auto
  next
    case (DoFork n)
    let ?k = "k\<lparr>threads := threads k @ [Some (Thread_new (F n))], level := IntOff\<rparr>"
    obtain k1 where k1: "Scheduler_ReadyToRun (length (threads k)) ?k = Inr k1" "Interrupt_SetLevel (level k) k1 = Inr k'"
      using assms(1) DoFork by (auto simp: Thread_Fork_def Let_def SetLevel_Off_eq elim!: rbindE)
    have "view ?k t = view k t" using assms(3) by (simp add: view_def nth_append)
    moreover have "rest k' = rest ?k" using ReadyToRun_rest [OF k1(1)] SetLevel_rest [OF k1(2)] by simp
    ultimately show ?thesis using rest_view [of k' ?k] assms by auto
  qed simp_all
qed

lemma kstep_view:
  assumes "kstep F k = Inr k'" "t \<noteq> cur k" "t < length (threads k)"
  shows "t < length (threads k') \<and> (view k' t = view k t \<or> view k' t = None)"
proof -
  obtain x f fs where x: "get_thread (cur k) k = Inr x"
    "exec_frame f F (put_thread (cur k) (x\<lparr>t_code := fs\<rparr>) k) = Inr k'"
    using assms by (auto simp: kstep_def split: list.splits elim!: rbindE)
  have "view (put_thread (cur k) (x\<lparr>t_code := fs\<rparr>) k) t = view k t" using view_put [OF x(1)] assms(2) by simp
  then show ?thesis using exec_frame_view [OF x(2), of t] assms(2,3) by (simp add: put_thread_def)
qed

text \<open>Coming back.\<close>

lemma Switched_restores:
  assumes K: "kinv k" and c: "code k (cur k) = Switched # fs" and sp: "t_space (th k (cur k)) = Some sp"
  shows "\<exists>k'. kstep F k = Inr k' \<and> cur k' = cur k \<and> code k' (cur k) = fs \<and>
    kmach k' = AddrSpace_RestoreState sp (kmach k\<lparr>registers := t_userRegisters (th k (cur k))\<rparr>)"
proof -
  note P = popped_facts [OF K c] and B = popped_base [OF K c]
  have a: "alive k (cur k)" by (rule kinvD(9) [OF K])
  have p: "th (popped k) (cur k) = (th k (cur k))\<lparr>t_code := fs\<rparr>" using a c by (simp add: popped_def)
  obtain k1 where k1: "Scheduler_CheckToBeDestroyed (popped k) = Inr k1" "base k1" "cur k1 = cur k"
    "th k1 (cur k) = (th k (cur k))\<lparr>t_code := fs\<rparr>" "kmach k1 = kmach k"
    using destroy_ok [OF B(1,2)] P(4) p by auto
  have R: "length (registers (kmach k)) = 40" "length (t_userRegisters (th k (cur k))) = 40"
    using kinvD(3) [OF K] a by (simp_all add: dev_ok_def regs_ok_def)
  have "kstep F k = Inr (k1\<lparr>kmach := AddrSpace_RestoreState sp (kmach k\<lparr>registers := t_userRegisters (th k (cur k))\<rparr>)\<rparr>)"
    using kstep_top [OF a c] P(2) k1 base_alive [OF k1(2)] sp R
    by (simp add: Switched_back_def RestoreUserState_eq)
  then show ?thesis using k1 by simp
qed

section \<open>Two threads that yield to each other\<close>

definition example_space :: addrspace where
  "example_space = \<lparr>as_pageTable = [], numPages = 7\<rparr>"

definition two_threads :: kst where
  "two_threads = \<lparr>level = IntOn, pending = [\<lparr>p_when = 15, p_dev = RequestDev 0, p_serial = 0\<rparr>], inHandler = False, yieldOnReturn = False,
     mstatus = SystemMode, now = 7, idleTicks = 0, systemTicks = 7, userTicks = 0, serial = 1, readyList = [1], toBeDestroyed = None,
     currentThread = 0,
     threads = [Some \<lparr>t_status = RUNNING, t_code = [DoYield, DoFinish], t_space = Some example_space, t_userRegisters = replicate 40 0, t_result = 0\<rparr>,
                Some \<lparr>t_status = READY, t_code = [DoBegin, DoYield, DoFinish], t_space = None, t_userRegisters = replicate 40 0, t_result = 0\<rparr>],
     sems = [\<lparr>s_value = 1, s_queue = []\<rparr>, \<lparr>s_value = 0, s_queue = []\<rparr>], locks = [\<lparr>lockHolder = None, l_semaphore = 0\<rparr>],
     conds = [[]], lists = [\<lparr>sl_list = [], sl_lock = 0, sl_cond = 0\<rparr>], devs = [\<lparr>rd_busy = True, rd_sem = 1, rd_lock = 0\<rparr>],
     randomize = False, timerDisable = False, randoms = (\<lambda>_. 0), drawn = 0, keyboard = [], incoming = 255, keySem = 1, keyLock = 0,
     kmach = \<lparr>registers = (replicate 40 0)[2 := 42], mainMemory = [], tlb = None, pageTable = None, pageTableSize = 0, singleStep = False, runUntilTime = 0\<rparr>,
     halted = False\<rparr>"

lemma two_threads_alive: "alive two_threads t \<longleftrightarrow> t = 0 \<or> t = 1"
  by (auto simp: alive_def two_threads_def less_Suc_eq)

lemma two_threads_ok: "kinv two_threads" "progs_ok (\<lambda>_. []) two_threads"
proof -
  have "sched_ok two_threads"
    by (rule sched_okI) (auto simp: two_threads_alive, auto simp: two_threads_def parked_def less_Suc_eq)
  moreover have "refs_inv two_threads"
    unfolding refs_inv_def two_threads_alive by (auto simp: two_threads_def)
  moreover have "dev_ok two_threads"
    unfolding dev_ok_def two_threads_alive by (auto simp: two_threads_def regs_ok_def pc.ordered_def)
  ultimately show "kinv two_threads" by (simp add: kinv_def) (simp add: two_threads_def)
  show "progs_ok (\<lambda>_. []) two_threads" by (simp add: progs_ok_def)
qed

lemmas step_defs = kstep_def get_thread_def put_thread_def with_thread_def push_def get_sem_def put_sem_def
  Scheduler_ReadyToRun_def Scheduler_FindNextToRun_def V_body_def Interrupt_Schedule_def Interrupt_YieldOnReturn_def Alarm_CallBack_def
  Timer_SetInterrupt_def Timer_CallBack_def handler_V_def Device_CallBack_def Interrupt_CheckIfDue_def Interrupt_OneTick_def Interrupt_SetLevel_def
  Scheduler_CheckToBeDestroyed_def Scheduler_Run_def Switched_back_def Thread_Begin_def Thread_Yield_def Thread_delete_def
  List_Append_def List_RemoveFront_def SystemTick_def UserTick_def Let_def

lemma two_threads_run:
  "\<exists>k1. kstep (\<lambda>_. []) two_threads = Inr k1 \<and> cur k1 = 1 \<and>
    (\<exists>k2. kstep (\<lambda>_. []) k1 = Inr k2 \<and> cur k2 = 1 \<and> (\<exists>k3. kstep (\<lambda>_. []) k2 = Inr k3 \<and> cur k3 = 0))"
  by (simp add: step_defs two_threads_def SaveUserState_eq AddrSpace_SaveState_def Machine_DelayedLoad_def reg_numbers aput_def
      fire_calls pc.ordered_def)

lemma two_threads_dispatch: "dispatching two_threads"
  by (simp add: dispatching_def top_def get_thread_def two_threads_def)

section \<open>Properties\<close>

text \<open>
  C1. Whatever the threads call, from any good state and after any number of steps the kernel either makes another step, to
  a state in which the invariant holds, or stops at an assertion of \<^verbatim>\<open>Lock::Release\<close>, \<^verbatim>\<open>Condition::Wait\<close>,
  \<^verbatim>\<open>Condition::Signal\<close>, \<^verbatim>\<open>List::Append\<close> or a device request that the calling thread was responsible for: no null
  thread is dereferenced, no thread is lost, none is on two queues, and no other assertion of the scheduler, the interrupt
  simulation or the semaphores fails.
\<close>

theorem thread_system_safe:
  assumes "kinv k0" "progs_ok F k0" "krun F k0 n k"
  shows "(\<exists>k'. kstep F k = Inr k' \<and> kinv k') \<or> (\<exists>f. top k = Some f \<and> client_error f k \<and> kstep F k = Inl AssertFail)"
  using krun_kinv [OF assms(3,1,2)] kstep_kinv by blast

theorem thread_system_safe_witness:
  "\<exists>k1. kstep (\<lambda>_. []) two_threads = Inr k1 \<and> kinv k1 \<and> (\<exists>k2. kstep (\<lambda>_. []) k1 = Inr k2 \<and> kinv k2)"
proof -
  obtain k1 k2 where k: "kstep (\<lambda>_. []) two_threads = Inr k1" "kstep (\<lambda>_. []) k1 = Inr k2" using two_threads_run by blast
  note r = krun.stay [of "\<lambda>_. []" two_threads] and s = thread_system_safe [OF two_threads_ok]
  from s [OF r] k(1) have "kinv k1" by auto
  moreover from s [OF krun.go [OF r k(1)]] k(2) have "kinv k2" by auto
  ultimately show ?thesis using k by blast
qed

text \<open>
  C13. The ready list is served in order and nobody is overtaken: the thread at position \<open>i\<close> of the ready list is the
  running thread after exactly \<open>i + 1\<close> dispatches, whatever the threads do and whoever becomes ready meanwhile.
\<close>

theorem ready_list_fifo:
  assumes "krun F k n k'" "i < n" "i < length (readyList k)"
  shows "\<exists>k1. krun F k (Suc i) k1 \<and> currentThread k1 = readyList k ! i \<and> krun F k1 (n - Suc i) k'"
  using krun_fifo [OF assms(1)] assms(2,3) by blast

theorem ready_list_fifo_witness:
  "\<exists>k1. krun (\<lambda>_. []) two_threads 1 k1 \<and> currentThread k1 = 1"
proof -
  obtain k1 where k: "kstep (\<lambda>_. []) two_threads = Inr k1" using two_threads_run by blast
  have "krun (\<lambda>_. []) two_threads 1 k1" using krun.go [OF krun.stay k] two_threads_dispatch by simp
  from ready_list_fifo [OF this, of 0] show ?thesis by (auto simp: two_threads_def)
qed



end
