(* ===== verification/ThreadsLock.thy ===== *)
theory ThreadsLock
  imports ThreadRuns
begin

text \<open>
  Mutual exclusion.  A lock is a semaphore with the value one and a holder; that only its holder can make it free rests on a count
  over the whole system: the value of the semaphore, the holder, the threads that have got through \<^verbatim>\<open>P\<close> and not yet
  written their name, and the threads that are about to do the \<^verbatim>\<open>V\<close> of a release are one in all.
\<close>

section \<open>Counting\<close>

fun wgt :: "nat \<Rightarrow> nat \<Rightarrow> frame \<Rightarrow> int" where
  "wgt l s (SetHolder l') = (if l' = l then 1 else 0)"
| "wgt l s (DoP s') = (if s' = s then -1 else 0)"
| "wgt l s (PLoop s' _) = (if s' = s then -1 else 0)"
| "wgt l s (DoV s') = (if s' = s then 1 else 0)"
| "wgt l s _ = 0"

definition weight :: "nat \<Rightarrow> nat \<Rightarrow> frame list \<Rightarrow> int" where
  "weight l s c = sum_list (map (wgt l s) c)"

fun entering :: "nat \<Rightarrow> frame \<Rightarrow> bool" where
  "entering s (DoP s') = (s' = s)"
| "entering s (PLoop s' _) = (s' = s)"
| "entering s _ = False"

text \<open>Only \<^verbatim>\<open>Acquire\<close> waits on the lock's semaphore.\<close>

primrec guarded :: "nat \<Rightarrow> nat \<Rightarrow> frame list \<Rightarrow> bool" where
  "guarded l s [] = True"
| "guarded l s (f # fs) = ((entering s f \<longrightarrow> fs \<noteq> [] \<and> hd fs = SetHolder l) \<and> guarded l s fs)"

lemma weight_simps [simp]: "weight l s [] = 0" "weight l s (f # fs) = wgt l s f + weight l s fs" "weight l s (a @ b) = weight l s a + weight l s b"
  by (simp_all add: weight_def)

lemma guarded_weight: "guarded l s c \<Longrightarrow> (if c \<noteq> [] \<and> hd c = SetHolder l then 1 else 0) \<le> weight l s c"
proof (induction c)
  case (Cons f fs)
  then have "guarded l s fs" by simp
  from Cons.IH [OF this] Cons.prems show ?case by (cases f) (auto split: if_splits)
qed simp

definition stacks :: "kst \<Rightarrow> frame list option list" where
  "stacks k = map (map_option t_code) (threads k)"

definition total_weight :: "nat \<Rightarrow> nat \<Rightarrow> frame list option list \<Rightarrow> int" where
  "total_weight l s ss = sum_list (map (case_option 0 (weight l s)) ss)"

lemma total_weight_nonneg: "\<forall>c. Some c \<in> set ss \<longrightarrow> guarded l s c \<Longrightarrow> 0 \<le> total_weight l s ss"
proof (induction ss)
  case (Cons a ss)
  have "0 \<le> (case a of None \<Rightarrow> 0 | Some c \<Rightarrow> weight l s c)"
    using Cons.prems guarded_weight [of l s "the a"] by (cases a) (auto split: if_splits)
  with Cons show ?case by (simp add: total_weight_def)
qed (simp add: total_weight_def)

lemma total_weight_update:
  assumes "t < length ss"
  shows "total_weight l s (ss[t := x]) = total_weight l s ss - case_option 0 (weight l s) (ss ! t) + case_option 0 (weight l s) x"
  using assms
proof (induction ss arbitrary: t)
  case (Cons a ss)
  then show ?case by (cases t) (auto simp: total_weight_def)
qed simp

definition held :: "lock \<Rightarrow> int" where
  "held x = (if lockHolder x = None then 0 else 1)"

section \<open>The invariant, up to a debt \<open>d\<close> of the running thread\<close>

definition linv :: "nat \<Rightarrow> nat \<Rightarrow> int \<Rightarrow> kst \<Rightarrow> bool" where
  "linv l s d k \<longleftrightarrow> l < length (locks k) \<and> l_semaphore (locks k ! l) = s \<and> s < length (sems k) \<and> 0 \<le> s_value (sems k ! s) \<and>
     (\<forall>l' < length (locks k). l' \<noteq> l \<longrightarrow> l_semaphore (locks k ! l') \<noteq> s) \<and> (\<forall>w \<in> set (conds k). s \<notin> set w) \<and>
     (\<forall>x \<in> set (devs k). rd_sem x \<noteq> s) \<and> keySem k \<noteq> s \<and> (\<forall>c. Some c \<in> set (stacks k) \<longrightarrow> guarded l s c) \<and>
     (\<forall>t. toBeDestroyed k = Some t \<longrightarrow> t < length (threads k) \<and> stacks k ! t = Some [Switched]) \<and>
     s_value (sems k ! s) + held (locks k ! l) + total_weight l s (stacks k) = 1 - d"

text \<open>What it looks at.\<close>

definition lview :: "nat \<Rightarrow> kst \<Rightarrow> (frame list option list \<times> nat option \<times> lock list) \<times> nat list list \<times> nat \<times> nat set \<times> int \<times> bool" where
  "lview s k = ((stacks k, toBeDestroyed k, locks k), conds k, keySem k, rd_sem ` set (devs k), s_value (sems k ! s), s < length (sems k))"

lemma linv_cong: "lview s k' = lview s k \<Longrightarrow> linv l s d k' = linv l s d k"
proof -
  assume a: "lview s k' = lview s k"
  then have e: "stacks k' = stacks k" "toBeDestroyed k' = toBeDestroyed k" "locks k' = locks k" "conds k' = conds k" "keySem k' = keySem k"
    "rd_sem ` set (devs k') = rd_sem ` set (devs k)" "s_value (sems k' ! s) = s_value (sems k ! s)" "s < length (sems k') \<longleftrightarrow> s < length (sems k)"
    by (simp_all add: lview_def)
  have "length (threads k') = length (threads k)" using e(1) by (metis stacks_def length_map)
  moreover have "(\<forall>x \<in> set (devs k'). rd_sem x \<noteq> s) \<longleftrightarrow> (\<forall>x \<in> set (devs k). rd_sem x \<noteq> s)" using e(6) by (metis imageE imageI)
  ultimately show ?thesis by (simp add: linv_def e(1-5,7,8))
qed

lemma lview_cong:
  assumes "threads k' = threads k" "toBeDestroyed k' = toBeDestroyed k" "locks k' = locks k" "conds k' = conds k" "keySem k' = keySem k"
    "devs k' = devs k" "sems k' = sems k"
  shows "lview s k' = lview s k"
  by (simp add: lview_def stacks_def assms)

lemma lview_fields [simp]:
  "lview s (k\<lparr>level := lv\<rparr>) = lview s k" "lview s (k\<lparr>pending := p\<rparr>) = lview s k" "lview s (k\<lparr>currentThread := n\<rparr>) = lview s k"
  "lview s (k\<lparr>incoming := c\<rparr>) = lview s k" "lview s (k\<lparr>serial := n\<rparr>) = lview s k" "lview s (k\<lparr>keyboard := ks\<rparr>) = lview s k"
  "lview s (k\<lparr>inHandler := b\<rparr>) = lview s k" "lview s (k\<lparr>yieldOnReturn := b\<rparr>) = lview s k" "lview s (k\<lparr>drawn := n\<rparr>) = lview s k"
  "lview s (k\<lparr>kmach := m\<rparr>) = lview s k" "lview s (k\<lparr>now := i\<rparr>) = lview s k" "lview s (k\<lparr>idleTicks := i\<rparr>) = lview s k"
  "lview s (k\<lparr>mstatus := st\<rparr>) = lview s k" "lview s (k\<lparr>systemTicks := i\<rparr>) = lview s k" "lview s (k\<lparr>userTicks := i\<rparr>) = lview s k"
  "lview s (k\<lparr>halted := b\<rparr>) = lview s k" "lview s (k\<lparr>readyList := r\<rparr>) = lview s k" "lview s (k\<lparr>lists := ls\<rparr>) = lview s k"
  by (rule lview_cong; simp; fail)+

lemma lview_put_sem: "(s' = s \<longrightarrow> s < length (sems k) \<longrightarrow> s_value x = s_value (sems k ! s)) \<Longrightarrow> lview s (put_sem s' x k) = lview s k"
  by (cases "s' < length (sems k)") (auto simp: lview_def stacks_def nth_list_update list_update_beyond)

lemma stacks_put: "get_thread t k = Inr x \<Longrightarrow> stacks (put_thread t y k) = (stacks k)[t := Some (t_code y)] \<and> stacks k ! t = Some (t_code x) \<and> t < length (stacks k)"
  by (auto simp: stacks_def put_thread_def get_thread_def map_update split: if_splits option.splits)

lemma lview_put_thread: "get_thread t k = Inr x \<Longrightarrow> t_code y = t_code x \<Longrightarrow> lview s (put_thread t y k) = lview s k"
  using stacks_put [of t k x y] by (simp add: lview_def list_update_same_conv)

section \<open>Operations that leave it alone\<close>

lemma status_lview: "with_thread t (\<lambda>th. th\<lparr>t_status := st\<rparr>) k = Inr k' \<Longrightarrow> lview s k' = lview s k"
  by (auto simp: with_thread_def elim!: rbindE intro!: lview_put_thread)

lemma result_lview: "with_thread t (\<lambda>th. th\<lparr>t_result := r\<rparr>) k = Inr k' \<Longrightarrow> lview s k' = lview s k"
  by (auto simp: with_thread_def elim!: rbindE intro!: lview_put_thread)

lemma space_lview: "with_thread t (\<lambda>th. th\<lparr>t_space := r\<rparr>) k = Inr k' \<Longrightarrow> lview s k' = lview s k"
  by (auto simp: with_thread_def elim!: rbindE intro!: lview_put_thread)

lemma ReadyToRun_lview: "Scheduler_ReadyToRun t k = Inr k' \<Longrightarrow> lview s k' = lview s k"
  by (auto simp: Scheduler_ReadyToRun_def split: if_splits elim!: rbindE dest!: status_lview)

lemma ReadyToRun_sems: "Scheduler_ReadyToRun t k = Inr k' \<Longrightarrow> sems k' = sems k"
  by (auto simp: Scheduler_ReadyToRun_def with_thread_def split: if_splits elim!: rbindE)

lemma V_body_eff:
  assumes "V_body s' k = Inr k'"
  shows "\<exists>k1 x. lview s k1 = lview s k \<and> s' < length (sems k1) \<and> s_value x = s_value (sems k1 ! s') + 1 \<and> k' = put_sem s' x k1"
proof -
  have s': "s' < length (sems k)" using assms by (auto simp: V_body_def get_sem_def split: if_splits elim!: rbindE)
  show ?thesis
  proof (cases "s_queue (sems k ! s')")
    case Nil
    then have "k' = put_sem s' ((sems k ! s')\<lparr>s_value := s_value (sems k ! s') + 1\<rparr>) k" using assms s' by (simp add: V_body_def)
    then show ?thesis using s' by (intro exI [of _ k] exI [of _ "(sems k ! s')\<lparr>s_value := s_value (sems k ! s') + 1\<rparr>"]) simp
  next
    case (Cons t q)
    let ?k = "put_sem s' ((sems k ! s')\<lparr>s_queue := q\<rparr>) k"
    obtain k1 where k1: "Scheduler_ReadyToRun t ?k = Inr k1" "k' = put_sem s' ((sems k1 ! s')\<lparr>s_value := s_value (sems k1 ! s') + 1\<rparr>) k1" "s' < length (sems k1)"
      using assms s' Cons by (auto simp: V_body_def List_RemoveFront_def get_sem_def split: if_splits elim!: rbindE)
    have "lview s ?k = lview s k" by (rule lview_put_sem) simp
    with ReadyToRun_lview [OF k1(1)] have "lview s k1 = lview s k" by simp
    then show ?thesis using k1(2,3) by (intro exI [of _ k1] exI [of _ "(sems k1 ! s')\<lparr>s_value := s_value (sems k1 ! s') + 1\<rparr>"]) simp
  qed
qed

lemma V_body_lview: "V_body s' k = Inr k' \<Longrightarrow> s' \<noteq> s \<Longrightarrow> lview s k' = lview s k"
  using V_body_eff [of s' k k' s] by (auto intro!: lview_put_sem [THEN trans])

lemma handler_V_lview: "handler_V s' k = Inr k' \<Longrightarrow> s' \<noteq> s \<Longrightarrow> lview s k' = lview s k"
proof -
  assume "handler_V s' k = Inr k'" "s' \<noteq> s"
  then obtain k1 where "V_body s' (k\<lparr>level := IntOff\<rparr>) = Inr k1" "k' = k1\<lparr>level := level k\<rparr>" by (auto simp: handler_V_def elim!: rbindE)
  then show ?thesis using V_body_lview [of s' "k\<lparr>level := IntOff\<rparr>" k1 s] \<open>s' \<noteq> s\<close> by simp
qed

lemma Schedule_lview: "Interrupt_Schedule d n k = Inr k' \<Longrightarrow> lview s k' = lview s k"
  by (auto simp: Interrupt_Schedule_def Let_def split: if_splits elim!: rbindE)

lemma lview_devs: "d < length (devs k) \<Longrightarrow> lview s (k\<lparr>devs := (devs k)[d := (devs k ! d)\<lparr>rd_busy := b\<rparr>]\<rparr>) = lview s k"
proof -
  assume d: "d < length (devs k)"
  have "map rd_sem ((devs k)[d := (devs k ! d)\<lparr>rd_busy := b\<rparr>]) = map rd_sem (devs k)"
    using d by (simp add: map_update list_update_same_conv)
  then have "rd_sem ` set ((devs k)[d := (devs k ! d)\<lparr>rd_busy := b\<rparr>]) = rd_sem ` set (devs k)" by (metis list.set_map)
  then show ?thesis by (simp add: lview_def stacks_def)
qed

text \<open>The semaphores of the devices are other semaphores.\<close>

definition apart :: "nat \<Rightarrow> kst \<Rightarrow> bool" where
  "apart s k \<longleftrightarrow> s \<notin> rd_sem ` set (devs k) \<and> keySem k \<noteq> s"

lemma apart_lview: "lview s k' = lview s k \<Longrightarrow> apart s k' = apart s k"
  by (simp add: apart_def lview_def)

lemma linv_apart: "linv l s d k \<Longrightarrow> apart s k"
  by (auto simp: linv_def apart_def)

lemma CallBack_lview:
  assumes "CallBack d k = Inr k'" "apart s k"
  shows "lview s k' = lview s k"
proof (cases d)
  case TimerDev
  then show ?thesis using assms
    by (auto simp: Timer_CallBack_def Alarm_CallBack_def Timer_SetInterrupt_def Interrupt_YieldOnReturn_def
        split: if_splits elim!: rbindE dest!: Schedule_lview [where s = s])
next
  case KeyboardDev
  then show ?thesis using assms handler_V_lview [of "keySem k" "k\<lparr>keyboard := ks\<rparr>" k' s for ks]
      handler_V_lview [of "keySem k" "k\<lparr>keyboard := ks, incoming := c\<rparr>" k' s for ks c]
    by (auto simp: ConsoleInput_CallBack_def apart_def split: if_splits list.splits poll.splits dest!: Schedule_lview [where s = s])
next
  case (RequestDev n)
  then have n: "n < length (devs k)" "handler_V (rd_sem (devs k ! n)) (k\<lparr>devs := (devs k)[n := (devs k ! n)\<lparr>rd_busy := False\<rparr>]\<rparr>) = Inr k'"
    using assms(1) by (auto simp: Device_CallBack_def split: if_splits)
  have "rd_sem (devs k ! n) \<noteq> s" using assms(2) n(1) by (auto simp: apart_def)
  from handler_V_lview [OF n(2) this] lview_devs [OF n(1)] show ?thesis by simp
qed

lemma fire_lview: "fire k = Inr k' \<Longrightarrow> apart s k \<Longrightarrow> lview s k' = lview s k"
proof (induction k rule: fire.induct)
  case (1 k)
  obtain p ps k1 where k1: "List_RemoveFront (pending k) = Inr (p, ps)" "CallBack (p_dev p) (k\<lparr>pending := ps\<rparr>) = Inr k1"
    "(if pending k1 \<noteq> [] \<and> p_when (hd (pending k1)) \<le> now k1 then fire k1 else Inr k1) = Inr k'"
    using "1.prems"(1) by (subst (asm) fire.simps) (auto elim!: rbindE split: prod.splits)
  have "lview s k1 = lview s k" using CallBack_lview [OF k1(2)] "1.prems"(2) by (simp add: apart_def)
  moreover from this have "lview s k' = lview s k1"
    using "1.IH" [OF k1(1) refl k1(2)] k1(3) apart_lview [of s k1 k] "1.prems"(2) by (auto split: if_splits)
  ultimately show ?case by simp
qed

lemma CheckIfDue_lview: "Interrupt_CheckIfDue adv k = Inr (b, k') \<Longrightarrow> apart s k \<Longrightarrow> lview s k' = lview s k"
proof -
  assume a: "Interrupt_CheckIfDue adv k = Inr (b, k')" "apart s k"
  have "lview s k' = lview s k" if "fire k2 = Inr k1" "lview s k2 = lview s k" "k' = k1\<lparr>inHandler := False\<rparr>" for k1 k2
    using fire_lview [OF that(1), of s] apart_lview [OF that(2)] that a(2) by simp
  then show ?thesis using a(1) by (auto simp: Interrupt_CheckIfDue_def Let_def split: if_splits elim!: rbindE)
qed

section \<open>Operations that change a stack\<close>

definition doomed_ok :: "kst \<Rightarrow> bool" where
  "doomed_ok k \<longleftrightarrow> (\<forall>t. toBeDestroyed k = Some t \<longrightarrow> t < length (threads k) \<and> stacks k ! t = Some [Switched])"

lemma stacks_length [simp]: "length (stacks k) = length (threads k)"
  by (simp add: stacks_def)

lemma linv_stack:
  assumes L: "linv l s d k" and "locks k' = locks k" "conds k' = conds k" "keySem k' = keySem k" "devs k' = devs k" "sems k' = sems k"
    and st: "stacks k' = (stacks k)[t := Some c']" "stacks k ! t = Some c" "t < length (threads k)"
    and g: "guarded l s c'" and tb: "doomed_ok k'"
  shows "linv l s (d + weight l s c - weight l s c') k'"
proof -
  have "guarded l s b" if "Some b \<in> set (stacks k')" for b
    using that L g set_update_subset_insert [of "stacks k" t "Some c'"] unfolding st(1) linv_def by auto
  moreover have "total_weight l s (stacks k') = total_weight l s (stacks k) - weight l s c + weight l s c'"
    using total_weight_update [of t "stacks k" l s "Some c'"] st by simp
  ultimately show ?thesis using L tb assms(2-6) by (simp add: linv_def doomed_ok_def)
qed

lemma linv_stackD: "linv l s d k \<Longrightarrow> stacks k ! t = Some c \<Longrightarrow> t < length (threads k) \<Longrightarrow> guarded l s c"
  unfolding linv_def by (metis nth_mem stacks_length)

lemma linv_doomed: "linv l s d k \<Longrightarrow> doomed_ok k"
  by (simp add: linv_def doomed_ok_def)

lemma stacks_get: "get_thread t k = Inr x \<Longrightarrow> stacks k ! t = Some (t_code x) \<and> t < length (threads k)"
  using stacks_put [of t k x x] by simp

lemma push_linv:
  assumes p: "push fs k = Inr k'" and L: "linv l s d k" and ne: "toBeDestroyed k \<noteq> Some (cur k)"
    and g: "\<And>c. stacks k ! cur k = Some c \<Longrightarrow> guarded l s c \<Longrightarrow> guarded l s (fs @ c)"
  shows "linv l s (d - weight l s fs) k' \<and> cur k' = cur k \<and> toBeDestroyed k' = toBeDestroyed k"
proof -
  obtain x where x: "get_thread (cur k) k = Inr x" "k' = put_thread (cur k) (x\<lparr>t_code := fs @ t_code x\<rparr>) k"
    using p by (auto simp: push_def with_thread_def elim!: rbindE)
  have st: "stacks k' = (stacks k)[cur k := Some (fs @ t_code x)]" "stacks k ! cur k = Some (t_code x)" "cur k < length (threads k)"
    using stacks_put [OF x(1), of "x\<lparr>t_code := fs @ t_code x\<rparr>"] x(2) by simp_all
  have "doomed_ok k'" using linv_doomed [OF L] ne unfolding doomed_ok_def st(1) by (auto simp: x(2) put_thread_def)
  from linv_stack [OF L _ _ _ _ _ st _ this] g [OF st(2) linv_stackD [OF L st(2,3)]] x(2)
  show ?thesis by (simp add: algebra_simps)
qed

lemma CheckIfDue_linv:
  "Interrupt_CheckIfDue adv k = Inr (b, k') \<Longrightarrow> linv l s d k \<Longrightarrow> linv l s d k' \<and> cur k' = cur k \<and> toBeDestroyed k' = toBeDestroyed k"
  using CheckIfDue_lview [of adv k b k' s] linv_apart [of l s d k] linv_cong [of s k' k l d] rest_cur [OF CheckIfDue_rest, of adv k b k']
  by (simp add: lview_def)

lemma linv_fields [simp]:
  "linv l s d (k\<lparr>level := lv\<rparr>) = linv l s d k" "linv l s d (k\<lparr>mstatus := st\<rparr>) = linv l s d k" "linv l s d (k\<lparr>yieldOnReturn := b\<rparr>) = linv l s d k"
  "linv l s d (k\<lparr>now := i\<rparr>) = linv l s d k" "linv l s d (k\<lparr>systemTicks := i\<rparr>) = linv l s d k" "linv l s d (k\<lparr>userTicks := i\<rparr>) = linv l s d k"
  "linv l s d (k\<lparr>readyList := r\<rparr>) = linv l s d k" "linv l s d (k\<lparr>halted := h\<rparr>) = linv l s d k" "linv l s d (k\<lparr>kmach := m\<rparr>) = linv l s d k"
  "linv l s d (k\<lparr>lists := ls\<rparr>) = linv l s d k" "linv l s d (k\<lparr>incoming := c\<rparr>) = linv l s d k"
  by (rule linv_cong; simp; fail)+

lemma OneTick_linv:
  assumes "Interrupt_OneTick k = Inr k'" "linv l s d k" "toBeDestroyed k \<noteq> Some (cur k)"
  shows "linv l s d k' \<and> cur k' = cur k \<and> toBeDestroyed k' = toBeDestroyed k"
proof -
  have p: "linv l s d k' \<and> cur k' = cur k2 \<and> toBeDestroyed k' = toBeDestroyed k2"
    if "push [DoYield, Ticked st] k2 = Inr k'" "linv l s d k2" "toBeDestroyed k2 \<noteq> Some (cur k2)" for st k2
    using push_linv [OF that] by simp
  show ?thesis using assms
    by (auto simp: Interrupt_OneTick_def Let_def split: if_splits elim!: rbindE dest!: CheckIfDue_linv [where l = l and s = s and d = d] p)
qed

lemma SetLevel_linv:
  assumes "Interrupt_SetLevel lv k = Inr k'" "linv l s d k" "toBeDestroyed k \<noteq> Some (cur k)"
  shows "linv l s d k' \<and> cur k' = cur k \<and> toBeDestroyed k' = toBeDestroyed k"
  using assms OneTick_linv [where l = l and s = s and d = d and k' = k']
  by (auto simp: Interrupt_SetLevel_def Let_def split: if_splits elim!: rbindE)

lemma Destroy_linv:
  assumes "Scheduler_CheckToBeDestroyed k = Inr k'" "linv l s d k"
  shows "linv l s d k' \<and> cur k' = cur k \<and> toBeDestroyed k' = None"
proof (cases "toBeDestroyed k")
  case None
  then show ?thesis using assms by (simp add: Scheduler_CheckToBeDestroyed_def)
next
  case (Some t)
  then have k': "k' = k\<lparr>threads := (threads k)[t := None], toBeDestroyed := None\<rparr>" "t < length (threads k)" "stacks k ! t = Some [Switched]"
    using assms by (auto simp: Scheduler_CheckToBeDestroyed_def Thread_delete_def linv_def split: if_splits elim!: rbindE)
  have st: "stacks k' = (stacks k)[t := None]" by (simp add: k'(1) stacks_def map_update)
  have "total_weight l s (stacks k') = total_weight l s (stacks k)" using total_weight_update [of t "stacks k" l s None] k'(2,3) st by simp
  moreover have "guarded l s b" if "Some b \<in> set (stacks k')" for b
    using that assms(2) set_update_subset_insert [of "stacks k" t None] unfolding st linv_def by auto
  ultimately show ?thesis using assms(2) k'(1) by (auto simp: linv_def)
qed

lemma Run_objects:
  "Scheduler_Run n fin k = Inr k' \<Longrightarrow> locks k' = locks k \<and> conds k' = conds k \<and> keySem k' = keySem k \<and> devs k' = devs k \<and> sems k' = sems k \<and>
    toBeDestroyed k' = (if fin then Some (cur k) else toBeDestroyed k)"
  by (auto simp: Scheduler_Run_def Let_def push_def with_thread_def split: if_splits option.splits elim!: rbindE)

lemma stacks_view: "t < length (threads k) \<Longrightarrow> stacks k ! t = map_option fst (view k t)"
  by (cases "threads k ! t") (simp_all add: stacks_def view_def saved_def)

lemma Run_linv:
  assumes run: "Scheduler_Run n fin k = Inr k'" and L: "linv l s d k" and x: "get_thread (cur k) k = Inr x"
    and fin: "fin \<Longrightarrow> t_code x = []" and ne: "toBeDestroyed k \<noteq> Some (cur k)"
  shows "linv l s d k'"
proof -
  note O = Run_objects [OF run] and S = stacks_get [OF x]
  obtain rs where v: "length (threads k') = length (threads k)" "view k' = (view k)(cur k \<mapsto> (Switched # t_code x, t_space x, rs))"
    using Run_view [OF run x] by auto
  have st: "stacks k' = (stacks k)[cur k := Some (Switched # t_code x)]"
  proof (rule nth_equalityI)
    fix t assume "t < length (stacks k')"
    then show "stacks k' ! t = (stacks k)[cur k := Some (Switched # t_code x)] ! t"
      using v S stacks_view [of t k] stacks_view [of t k'] by (simp add: nth_list_update)
  qed (simp add: v)
  have g: "guarded l s (Switched # t_code x)" using linv_stackD [OF L, of "cur k" "t_code x"] S by simp
  have "doomed_ok k'" using linv_doomed [OF L] ne O S v(1) fin unfolding doomed_ok_def st by (auto split: if_splits)
  from linv_stack [OF L _ _ _ _ _ st _ _ g this] O S show ?thesis by simp
qed

section \<open>Every frame\<close>

lemma popped_linv:
  assumes K: "kinv k" and L: "linv l s 0 k" and c: "code k (cur k) = f # fs"
  shows "linv l s (wgt l s f) (popped k)" "stacks (popped k) ! cur k = Some fs" "guarded l s (f # fs)"
    "toBeDestroyed (popped k) \<noteq> Some (cur (popped k))" "cur (popped k) = cur k" "\<exists>x. get_thread (cur k) (popped k) = Inr x \<and> t_code x = fs"
proof -
  have a: "alive k (cur k)" by (rule kinvD(9) [OF K])
  let ?x = "(th k (cur k))\<lparr>t_code := fs\<rparr>"
  have e: "popped k = put_thread (cur k) ?x k" using c by (simp add: popped_def)
  have g: "get_thread (cur k) k = Inr (th k (cur k))" using a by simp
  have st: "stacks (popped k) = (stacks k)[cur k := Some fs]" "stacks k ! cur k = Some (f # fs)" "cur k < length (threads k)"
    using stacks_put [OF g, of ?x] c e by simp_all
  show gd: "guarded l s (f # fs)" by (rule linv_stackD [OF L st(2,3)])
  have t: "toBeDestroyed k \<noteq> Some (cur k)" using sched_okD(11) [OF kinvD(1) [OF K]] by auto
  then show "toBeDestroyed (popped k) \<noteq> Some (cur (popped k))" by (simp add: e)
  have "doomed_ok (popped k)" using linv_doomed [OF L] t unfolding doomed_ok_def st(1) by (auto simp: e put_thread_def)
  from linv_stack [OF L _ _ _ _ _ st _ this] gd show "linv l s (wgt l s f) (popped k)" by (simp add: e)
  show "stacks (popped k) ! cur k = Some fs" using st by simp
  show "cur (popped k) = cur k" by (simp add: e)
  show "\<exists>x. get_thread (cur k) (popped k) = Inr x \<and> t_code x = fs" using get_thread_put [OF g, of ?x] e by auto
qed

lemma push_linv0:
  assumes "push fs k = Inr k'" "linv l s (weight l s fs) k" "toBeDestroyed k \<noteq> Some (cur k)" "stacks k ! cur k = Some c" "guarded l s c \<Longrightarrow> guarded l s (fs @ c)"
  shows "linv l s 0 k'"
  using push_linv [OF assms(1-3)] assms(4,5) by auto

lemma linv_DoYield:
  assumes "Thread_Yield k = Inr k'" "linv l s 0 k" "toBeDestroyed k \<noteq> Some (cur k)"
  shows "linv l s 0 k'"
proof -
  obtain k1 n k2 where k1: "push [SetLevel (level k)] (k\<lparr>level := IntOff\<rparr>) = Inr k1" "Scheduler_FindNextToRun k1 = Inr (n, k2)"
    "(case n of None \<Rightarrow> Inr k2 | Some t \<Rightarrow> rbind (Scheduler_ReadyToRun (cur k2) k2) (Scheduler_Run t False)) = Inr k'"
    using assms by (auto simp: Thread_Yield_def SetLevel_Off_eq split: prod.splits elim!: rbindE)
  have L1: "linv l s 0 k1" "cur k1 = cur k" "toBeDestroyed k1 = toBeDestroyed k"
    using push_linv [OF k1(1), of l s 0] assms by simp_all
  show ?thesis
  proof (cases n)
    case None
    then show ?thesis using k1(2,3) L1(1) FindNext_ready by fastforce
  next
    case (Some t)
    then obtain r where r: "k2 = k1\<lparr>readyList := r\<rparr>" using FindNext_ready [OF k1(2)] by auto
    obtain k3 where k3: "Scheduler_ReadyToRun (cur k2) k2 = Inr k3" "Scheduler_Run t False k3 = Inr k'" using k1(3) Some by (auto elim!: rbindE)
    have L3: "linv l s 0 k3" "cur k3 = cur k2" "toBeDestroyed k3 = toBeDestroyed k"
      using linv_cong [OF ReadyToRun_lview [OF k3(1), of s], of l 0] ReadyToRun_lview [OF k3(1), of s] L1 r rest_cur [OF ReadyToRun_rest [OF k3(1)]]
      by (simp_all add: lview_def)
    obtain x where "get_thread (cur k3) k3 = Inr x" using k3(2) by (auto simp: Scheduler_Run_def Let_def split: if_splits elim!: rbindE)
    from Run_linv [OF k3(2) L3(1) this] show ?thesis using L3 L1 r assms(3) by simp
  qed
qed

lemma linv_SleepLoop:
  assumes "Sleep_loop fin k = Inr k'" "linv l s 0 k" "toBeDestroyed k \<noteq> Some (cur k)" "get_thread (cur k) k = Inr x" "fin \<Longrightarrow> t_code x = []"
  shows "linv l s 0 k'"
proof -
  obtain n k2 where k1: "Scheduler_FindNextToRun k = Inr (n, k2)"
    "(case n of None \<Rightarrow> rbind (push [SleepLoop fin] k2) Interrupt_Idle | Some t \<Rightarrow> Scheduler_Run t fin k2) = Inr k'"
    using assms(1) by (auto simp: Sleep_loop_def split: prod.splits elim!: rbindE)
  show ?thesis
  proof (cases n)
    case None
    then obtain k3 where k3: "push [SleepLoop fin] k = Inr k3" "Interrupt_Idle k3 = Inr k'"
      using k1 FindNext_ready [OF k1(1)] by (auto elim!: rbindE)
    have "linv l s 0 k3" using push_linv [OF k3(1) assms(2,3)] by simp
    then show ?thesis using k3(2)
      by (auto simp: Interrupt_Idle_def Interrupt_Halt_def split: if_splits elim!: rbindE dest!: CheckIfDue_linv [where l = l and s = s and d = 0])
  next
    case (Some t)
    then obtain r where r: "k2 = k\<lparr>readyList := r\<rparr>" using FindNext_ready [OF k1(1)] by auto
    have "get_thread (cur k2) k2 = Inr x" using assms(4) get_thread_threads [of k2 k "cur k"] r by simp
    from Run_linv [OF _ _ this, of t fin k' l s 0] k1(2) Some assms r show ?thesis by simp
  qed
qed

lemma linv_new_thread:
  assumes "linv l s d k" "guarded l s (t_code x)" "weight l s (t_code x) = 0"
  shows "linv l s d (k\<lparr>threads := threads k @ [Some x]\<rparr>)"
proof -
  have st: "stacks (k\<lparr>threads := threads k @ [Some x]\<rparr>) = stacks k @ [Some (t_code x)]" by (simp add: stacks_def)
  then show ?thesis using assms unfolding linv_def st by (auto simp: total_weight_def nth_append)
qed

lemma calls_free:
  assumes "\<forall>f \<in> set fs. is_call f \<and> f \<noteq> DoP s \<and> f \<noteq> DoV s"
  shows "guarded l s (fs @ [DoFinish])" "weight l s (fs @ [DoFinish]) = 0"
proof -
  have "\<not> entering s f \<and> wgt l s f = 0" if "f \<in> set fs" for f using assms that by (cases f) auto
  then show "guarded l s (fs @ [DoFinish])" "weight l s (fs @ [DoFinish]) = 0" by (induction fs) simp_all
qed

lemma linv_value:
  assumes "linv l s d k" "s_value x = s_value (sems k ! s) + e" "0 \<le> s_value x"
  shows "linv l s (d - e) (put_sem s x k)"
proof -
  have st: "stacks (put_sem s x k) = stacks k" by (simp add: stacks_def)
  show ?thesis using assms unfolding linv_def st by simp
qed

lemma linv_lock:
  assumes "linv l s d k" "l' < length (locks k)" "l_semaphore y = l_semaphore (locks k ! l')"
  shows "linv l s (d - (if l' = l then held y - held (locks k ! l) else 0)) (k\<lparr>locks := (locks k)[l' := y]\<rparr>)"
proof -
  have "stacks (k\<lparr>locks := (locks k)[l' := y]\<rparr>) = stacks k" by (simp add: stacks_def)
  then show ?thesis using assms by (auto simp: linv_def nth_list_update)
qed

lemma linv_put_sem: "linv l s d k \<Longrightarrow> (s' = s \<longrightarrow> s_value x = s_value (sems k ! s)) \<Longrightarrow> linv l s d (put_sem s' x k)"
  using linv_cong [OF lview_put_sem [of s' s k x]] by blast

lemma linv_conds:
  assumes "linv l s d k" "s \<notin> set w"
  shows "linv l s d (k\<lparr>conds := (conds k)[c := w]\<rparr>)"
proof -
  have st: "stacks (k\<lparr>conds := (conds k)[c := w]\<rparr>) = stacks k" by (simp add: stacks_def)
  have "\<forall>w \<in> set ((conds k)[c := w]). s \<notin> set w" using assms set_update_subset_insert [of "conds k" c w] by (auto simp: linv_def)
  then show ?thesis using assms(1) unfolding linv_def st by simp
qed

lemma linv_new_sem:
  assumes "linv l s d k"
  shows "linv l s d (k\<lparr>sems := sems k @ [x]\<rparr>)"
proof -
  have st: "stacks (k\<lparr>sems := sems k @ [x]\<rparr>) = stacks k" by (simp add: stacks_def)
  show ?thesis using assms unfolding linv_def st by (simp add: nth_append)
qed

text \<open>Semaphores.\<close>

lemma linv_PLoop:
  assumes r: "P_loop s' lv k = Inr k'" and L: "linv l s (wgt l s (PLoop s' lv)) k" and G: "stacks k ! cur k = Some fs" "guarded l s (PLoop s' lv # fs)"
    and ne: "toBeDestroyed k \<noteq> Some (cur k)" and v: "0 \<le> s_value (sems k ! s')"
  shows "linv l s 0 k'"
proof -
  have s': "s' < length (sems k)" using r by (auto simp: P_loop_def get_sem_def split: if_splits elim!: rbindE)
  show ?thesis
  proof (cases "s_value (sems k ! s') = 0")
    case True
    then obtain q where q: "push [DoSleep False, PLoop s' lv] (put_sem s' ((sems k ! s')\<lparr>s_queue := q\<rparr>) k) = Inr k'"
      using r s' by (auto simp: P_loop_def elim!: rbindE)
    show ?thesis by (rule push_linv0 [OF q, where c = fs]) (use L G ne in \<open>auto simp: stacks_def intro: linv_put_sem\<close>)
  next
    case False
    let ?k = "put_sem s' ((sems k ! s')\<lparr>s_value := s_value (sems k ! s') - 1\<rparr>) k"
    have q: "push [SetLevel lv] ?k = Inr k'" using False r s' by (auto simp: P_loop_def)
    have "linv l s 0 ?k"
    proof (cases "s' = s")
      case True
      then show ?thesis using linv_value [of l s "-1" k _ "-1"] L v False by simp
    next
      case False
      then show ?thesis using L by (auto intro: linv_put_sem)
    qed
    then show ?thesis by (intro push_linv0 [OF q, where c = fs]) (use G ne in \<open>auto simp: stacks_def\<close>)
  qed
qed

lemma linv_DoV:
  assumes r: "Semaphore_V s' k = Inr k'" and L: "linv l s (wgt l s (DoV s')) k" and ne: "toBeDestroyed k \<noteq> Some (cur k)"
  shows "linv l s 0 k'"
proof -
  obtain k1 where k1: "V_body s' (k\<lparr>level := IntOff\<rparr>) = Inr k1" "Interrupt_SetLevel (level k) k1 = Inr k'"
    using r by (auto simp: Semaphore_V_def SetLevel_Off_eq elim!: rbindE)
  obtain k2 x where k2: "lview s k2 = lview s k" "s_value x = s_value (sems k2 ! s') + 1" "k1 = put_sem s' x k2"
    using V_body_eff [OF k1(1), of s] by auto
  have L2: "linv l s (wgt l s (DoV s')) k2" using L linv_cong [OF k2(1)] by simp
  have "linv l s 0 k1"
  proof (cases "s' = s")
    case True
    then show ?thesis using linv_value [of l s 1 k2 x 1] L2 k2 by (auto simp: linv_def)
  next
    case False
    then show ?thesis using L2 k2(3) by (auto intro: linv_put_sem)
  qed
  moreover have "toBeDestroyed k1 \<noteq> Some (cur k1)"
    using ne k2 rest_cur [OF V_body_rest [OF k1(1)]] by (simp add: lview_def)
  ultimately show ?thesis using SetLevel_linv [OF k1(2)] by blast
qed

text \<open>Locks and condition variables.\<close>

lemma linv_DoAcquire:
  assumes r: "Lock_Acquire l' k = Inr k'" and L: "linv l s 0 k" and G: "stacks k ! cur k = Some fs" and ne: "toBeDestroyed k \<noteq> Some (cur k)"
  shows "linv l s 0 k'"
proof -
  have p: "push [DoP (l_semaphore (locks k ! l')), SetHolder l'] k = Inr k'" "l' < length (locks k)"
    using r by (auto simp: Lock_Acquire_def get_lock_def split: if_splits elim!: rbindE)
  have "l_semaphore (locks k ! l') = s \<longleftrightarrow> l' = l" using L p(2) by (auto simp: linv_def)
  then show ?thesis by (intro push_linv0 [OF p(1) _ ne G]) (use L in auto)
qed

lemma linv_SetHolder:
  assumes r: "Lock_setHolder l' k = Inr k'" and L: "linv l s (wgt l s (SetHolder l')) k"
  shows "linv l s 0 k'" "l' = l \<Longrightarrow> lockHolder (locks k ! l) = None"
proof -
  have p: "k' = k\<lparr>locks := (locks k)[l' := (locks k ! l')\<lparr>lockHolder := Some (cur k)\<rparr>]\<rparr>" "l' < length (locks k)"
    using r by (auto simp: Lock_setHolder_def get_lock_def split: if_splits)
  show n: "lockHolder (locks k ! l) = None" if "l' = l"
  proof -
    have "0 \<le> total_weight l s (stacks k)" "s_value (sems k ! s) + held (locks k ! l) + total_weight l s (stacks k) = 0" "0 \<le> s_value (sems k ! s)"
      using L that total_weight_nonneg [of "stacks k" l s] by (auto simp: linv_def)
    then show ?thesis by (auto simp: held_def split: if_splits)
  qed
  show "linv l s 0 k'"
    using linv_lock [OF L p(2), of "(locks k ! l')\<lparr>lockHolder := Some (cur k)\<rparr>"] n p(1) by (cases "l' = l") (simp_all add: held_def)
qed

lemma linv_DoRelease:
  assumes r: "Lock_Release l' k = Inr k'" and L: "linv l s 0 k" and G: "stacks k ! cur k = Some fs" and ne: "toBeDestroyed k \<noteq> Some (cur k)"
  shows "linv l s 0 k'"
proof -
  let ?k = "k\<lparr>locks := (locks k)[l' := (locks k ! l')\<lparr>lockHolder := None\<rparr>]\<rparr>"
  have p: "push [DoV (l_semaphore (locks k ! l'))] ?k = Inr k'" "l' < length (locks k)" "lockHolder (locks k ! l') = Some (cur k)"
    using r by (auto simp: Lock_Release_def Lock_IsHeldByCurrentThread_def get_lock_def split: if_splits elim!: rbindE)
  have e: "l_semaphore (locks k ! l') = s \<longleftrightarrow> l' = l" using L p(2) by (auto simp: linv_def)
  have "linv l s (if l' = l then 1 else 0) ?k"
    using linv_lock [OF L p(2), of "(locks k ! l')\<lparr>lockHolder := None\<rparr>"] p(3) by (cases "l' = l") (simp_all add: held_def)
  then show ?thesis by (intro push_linv0 [OF p(1), where c = fs]) (use e ne G in \<open>auto simp: stacks_def\<close>)
qed

lemma linv_DoWait:
  assumes r: "Condition_Wait c l' k = Inr k'" and L: "linv l s 0 k" and G: "stacks k ! cur k = Some fs" and ne: "toBeDestroyed k \<noteq> Some (cur k)"
  shows "linv l s 0 k'"
proof -
  let ?w = "length (sems k)"
  let ?k = "k\<lparr>sems := sems k @ [\<lparr>s_value = 0, s_queue = []\<rparr>]\<rparr>"
  have p: "push [DoRelease l', DoP ?w, DoAcquire l', DeleteSem ?w] (?k\<lparr>conds := (conds k)[c := conds k ! c @ [?w]]\<rparr>) = Inr k'" "c < length (conds k)"
    using r by (auto simp: Condition_Wait_def get_cond_def List_Append_def Let_def split: if_splits elim!: rbindE)
  have s: "s \<noteq> ?w" "s \<notin> set (conds k ! c)" using L p(2) by (auto simp: linv_def)
  have "linv l s 0 (?k\<lparr>conds := (conds ?k)[c := conds k ! c @ [?w]]\<rparr>)" by (rule linv_conds [OF linv_new_sem [OF L]]) (use s in auto)
  then show ?thesis by (intro push_linv0 [OF p(1), where c = fs]) (use s ne G in \<open>auto simp: stacks_def\<close>)
qed

lemma linv_DoSignal:
  assumes r: "Condition_Signal c l' k = Inr k'" and L: "linv l s 0 k" and G: "stacks k ! cur k = Some fs" and ne: "toBeDestroyed k \<noteq> Some (cur k)"
  shows "linv l s 0 k'"
proof -
  have c: "c < length (conds k)" using r by (auto simp: Condition_Signal_def get_cond_def split: if_splits elim!: rbindE)
  show ?thesis
  proof (cases "conds k ! c")
    case Nil
    then show ?thesis using r L c by (auto simp: Condition_Signal_def split: if_splits elim!: rbindE)
  next
    case (Cons w ws)
    have s: "w \<noteq> s" "s \<notin> set ws" using L c Cons nth_mem [OF c] by (auto simp: linv_def)
    have p: "push [DoV w] (k\<lparr>conds := (conds k)[c := ws]\<rparr>) = Inr k'"
      using r c Cons by (auto simp: Condition_Signal_def List_RemoveFront_def split: if_splits elim!: rbindE)
    show ?thesis by (rule push_linv0 [OF p, where c = fs]) (use s ne G linv_conds [OF L s(2)] in \<open>auto simp: stacks_def\<close>)
  qed
qed

text \<open>Lists and devices.\<close>

lemma linv_RemoveLoop:
  assumes r: "remove_loop i k = Inr k'" and L: "linv l s 0 k" and G: "stacks k ! cur k = Some fs" and ne: "toBeDestroyed k \<noteq> Some (cur k)"
  shows "linv l s 0 k'"
proof -
  have p: "linv l s 0 k'" if "push [DoWait c l', RemoveLoop i] k = Inr k'" for c l'
    by (rule push_linv0 [OF that _ ne G]) (use L in auto)
  have q: "linv l s 0 k'" if "with_thread t (\<lambda>th. th\<lparr>t_result := it\<rparr>) (k\<lparr>lists := xs\<rparr>) = Inr k'" for t it xs
    using linv_cong [OF result_lview [OF that, of s]] L by simp
  show ?thesis using r by (auto simp: remove_loop_def split: if_splits prod.splits elim!: rbindE dest: p q)
qed

lemma linv_Request:
  assumes r: "Device_Request n delay k = Inr k'" and L: "linv l s 0 k"
  shows "linv l s 0 k'"
proof -
  have p: "n < length (devs k)" "Interrupt_Schedule (RequestDev n) delay (k\<lparr>devs := (devs k)[n := (devs k ! n)\<lparr>rd_busy := True\<rparr>]\<rparr>) = Inr k'"
    using r by (auto simp: Device_Request_def split: if_splits elim!: rbindE)
  then show ?thesis using linv_cong [of s k' k l 0] Schedule_lview [OF p(2), of s] lview_devs [OF p(1), of s True] L by simp
qed

lemma linv_UserRun:
  assumes r: "Run_tick k = Inr k'" and L: "linv l s 0 k" and G: "stacks k ! cur k = Some fs" and ne: "toBeDestroyed k \<noteq> Some (cur k)"
  shows "linv l s 0 k'"
proof -
  obtain k1 where k1: "push [UserRun] k = Inr k1" "Interrupt_OneTick k1 = Inr k'" using r by (auto simp: Run_tick_def elim!: rbindE)
  have "linv l s 0 k1" "cur k1 = cur k" "toBeDestroyed k1 = toBeDestroyed k" using push_linv [OF k1(1) L ne] by auto
  then show ?thesis using OneTick_linv [OF k1(2)] ne by auto
qed

lemma linv_Execute:
  assumes r: "Execute_thread sp k = Inr k'" and L: "linv l s 0 k" and ne: "toBeDestroyed k \<noteq> Some (cur k)"
  shows "linv l s 0 k'"
proof -
  obtain k1 m where k1: "with_thread (cur k) (\<lambda>th. th\<lparr>t_space := Some sp\<rparr>) k = Inr k1" "push [UserRun] (k1\<lparr>kmach := m, mstatus := UserMode\<rparr>) = Inr k'"
    using r by (auto simp: Execute_thread_def Machine_Run_def elim!: rbindE)
  let ?k = "k1\<lparr>kmach := m, mstatus := UserMode\<rparr>"
  have v: "lview s ?k = lview s k" using space_lview [OF k1(1), of s] by simp
  have c: "cur ?k = cur k" using rest_cur [OF with_cur_rest [OF k1(1)]] by simp
  have "linv l s 0 ?k" "toBeDestroyed ?k = toBeDestroyed k" using linv_cong [OF v, of l 0] L v by (auto simp: lview_def)
  then show ?thesis using push_linv [OF k1(2), of l s 0] ne c by auto
qed

lemma linv_KeyGet:
  assumes r: "key_get k = Inr k'" and L: "linv l s 0 k"
  shows "linv l s 0 k'"
proof -
  obtain c k1 where k1: "ConsoleInput_GetChar k = Inr (c, k1)" "with_thread (cur k1) (\<lambda>th. th\<lparr>t_result := sint c\<rparr>) k1 = Inr k'"
    using r by (auto simp: key_get_def elim!: rbindE)
  have "lview s k1 = lview s k" using k1(1) by (auto simp: ConsoleInput_GetChar_def Let_def split: if_splits elim!: rbindE dest!: Schedule_lview [where s = s])
  with result_lview [OF k1(2), of s] linv_cong [of s k' k l 0] L show ?thesis by simp
qed

text \<open>Threads.\<close>

lemma linv_DoSleep:
  assumes r: "Thread_Sleep fin k = Inr k'" and L: "linv l s 0 k" and ne: "toBeDestroyed k \<noteq> Some (cur k)"
  shows "linv l s 0 k'"
proof -
  obtain k1 where k1: "with_thread (cur k) (\<lambda>th. th\<lparr>t_status := BLOCKED\<rparr>) k = Inr k1" "push [SleepLoop fin] k1 = Inr k'"
    using r by (auto simp: Thread_Sleep_def split: if_splits elim!: rbindE)
  have "linv l s 0 k1" "cur k1 = cur k" "toBeDestroyed k1 = toBeDestroyed k"
    using linv_cong [OF status_lview [OF k1(1), of s], of l 0] status_lview [OF k1(1), of s] L rest_cur [OF with_cur_rest [OF k1(1)]]
    by (simp_all add: lview_def)
  then show ?thesis using push_linv [OF k1(2), of l s 0] ne by simp
qed

lemma linv_DoFork:
  assumes r: "Thread_Fork p k = Inr k'" and L: "linv l s 0 k" and ne: "toBeDestroyed k \<noteq> Some (cur k)"
    and p: "\<forall>f \<in> set p. is_call f \<and> f \<noteq> DoP s \<and> f \<noteq> DoV s"
  shows "linv l s 0 k'"
proof -
  let ?k = "k\<lparr>threads := threads k @ [Some (Thread_new p)], level := IntOff\<rparr>"
  obtain k1 where k1: "Scheduler_ReadyToRun (length (threads k)) ?k = Inr k1" "Interrupt_SetLevel (level k) k1 = Inr k'"
    using r by (auto simp: Thread_Fork_def Let_def SetLevel_Off_eq elim!: rbindE)
  have "guarded l s (t_code (Thread_new p))" "weight l s (t_code (Thread_new p)) = 0"
    using calls_free [OF p, of l] by (simp_all add: Thread_new_def)
  then have "linv l s 0 ?k" using linv_new_thread [OF L] by simp
  then have "linv l s 0 k1" "cur k1 = cur k" "toBeDestroyed k1 = toBeDestroyed k"
    using linv_cong [OF ReadyToRun_lview [OF k1(1), of s], of l 0] ReadyToRun_lview [OF k1(1), of s] rest_cur [OF ReadyToRun_rest [OF k1(1)]]
    by (simp_all add: lview_def)
  then show ?thesis using SetLevel_linv [OF k1(2)] ne by simp
qed

section \<open>Every step\<close>

text \<open>Nobody but \<^verbatim>\<open>Acquire\<close> and \<^verbatim>\<open>Release\<close> uses the semaphore of the lock.\<close>

definition private_sem :: "(nat \<Rightarrow> frame list) \<Rightarrow> nat \<Rightarrow> bool" where
  "private_sem F s \<longleftrightarrow> (\<forall>n. \<forall>f \<in> set (F n). f \<noteq> DoP s \<and> f \<noteq> DoV s)"

lemma frame_linv:
  assumes K: "kinv k" and P: "progs_ok F k" "private_sem F s" and L: "linv l s 0 k" and c: "code k (cur k) = f # fs"
    and e: "exec_frame f F (popped k) = Inr k'"
  shows "linv l s 0 k'"
proof -
  note Q = popped_linv [OF K L c]
  note ne = Q(4) and G = Q(2) [folded Q(5)]
  obtain x where x: "get_thread (cur (popped k)) (popped k) = Inr x" "t_code x = fs" using Q(5,6) by auto
  show ?thesis
  proof (cases f)
    case (SetLevel lv)
    then show ?thesis using e Q(1) ne SetLevel_linv by auto
  next
    case (Ticked st)
    then show ?thesis using e Q(1) by auto
  next
    case Switched
    then obtain k1 where k1: "Scheduler_CheckToBeDestroyed (popped k) = Inr k1" "lview s k' = lview s k1"
      using e by (auto simp: Switched_back_def split: if_splits option.splits elim!: rbindE)
    then show ?thesis using Destroy_linv [OF k1(1)] linv_cong [OF k1(2)] Q(1) Switched by auto
  next
    case DoYield
    then show ?thesis using e Q(1) ne linv_DoYield by simp
  next
    case (DoSleep fin)
    then show ?thesis using e Q(1) ne linv_DoSleep by simp
  next
    case (SleepLoop fin)
    have "fin \<Longrightarrow> t_code x = []" using popped_facts(7) [OF K c] SleepLoop x(2) by simp
    then show ?thesis using e Q(1) ne SleepLoop linv_SleepLoop [OF _ _ _ x(1)] by simp
  next
    case DoBegin
    then obtain k1 where k1: "Scheduler_CheckToBeDestroyed (popped k) = Inr k1" "Interrupt_SetLevel IntOn k1 = Inr k'"
      using e by (auto simp: Thread_Begin_def elim!: rbindE)
    then show ?thesis using Destroy_linv [OF k1(1)] Q(1) SetLevel_linv [OF k1(2)] DoBegin by auto
  next
    case DoFinish
    then have p: "push [DoSleep True] (popped k\<lparr>level := IntOff\<rparr>) = Inr k'" using e by (simp add: Thread_Finish_def SetLevel_Off_eq)
    show ?thesis by (rule push_linv0 [OF p, where c = fs]) (use Q(1) ne G DoFinish in \<open>auto simp: stacks_def\<close>)
  next
    case (DoFork n)
    then show ?thesis using e Q(1) ne P linv_DoFork [of "F n" "popped k"] by (simp add: progs_ok_def private_sem_def)
  next
    case (DoP s')
    then have p: "push [PLoop s' (level (popped k))] (popped k\<lparr>level := IntOff\<rparr>) = Inr k'" using e by (simp add: Semaphore_P_def SetLevel_Off_eq)
    show ?thesis by (rule push_linv0 [OF p, where c = fs]) (use Q(1,3) ne G DoP in \<open>auto simp: stacks_def\<close>)
  next
    case (PLoop s' lv)
    then have "s' < length (sems k)" using popped_facts(5) [OF K c] by simp
    then have "0 \<le> s_value (sems (popped k) ! s')" using sched_okD(8) [OF kinvD(1) [OF K]] by simp
    then show ?thesis using e Q(1,3) ne G PLoop linv_PLoop [of s' lv "popped k" k' l s fs] by simp
  next
    case (DoV s')
    then show ?thesis using e Q(1) ne linv_DoV [of s' "popped k" k' l s] by simp
  next
    case (DoAcquire l')
    then show ?thesis using e Q(1) ne G linv_DoAcquire [of l' "popped k"] by simp
  next
    case (SetHolder l')
    then show ?thesis using e Q(1) linv_SetHolder(1) [of l' "popped k"] by simp
  next
    case (DoRelease l')
    then show ?thesis using e Q(1) ne G linv_DoRelease [of l' "popped k"] by simp
  next
    case (DoWait cv l')
    then show ?thesis using e Q(1) ne G linv_DoWait [of cv l' "popped k"] by simp
  next
    case (DoSignal cv l')
    then show ?thesis using e Q(1) ne G linv_DoSignal [of cv l' "popped k"] by simp
  next
    case (DoBroadcast cv l')
    then have "k' = popped k \<or> push [DoSignal cv l', DoBroadcast cv l'] (popped k) = Inr k'"
      using e by (auto simp: Condition_Broadcast_def split: if_splits elim!: rbindE)
    then show ?thesis using Q(1) ne G DoBroadcast push_linv0 [of "[DoSignal cv l', DoBroadcast cv l']" "popped k"] by auto
  next
    case (RemoveLoop i)
    then show ?thesis using e Q(1) ne G linv_RemoveLoop [of i "popped k"] by simp
  next
    case (Request n delay)
    then show ?thesis using e Q(1) linv_Request by simp
  next
    case KeyGet
    then show ?thesis using e Q(1) linv_KeyGet by simp
  next
    case UserRun
    then show ?thesis using e Q(1) ne G linv_UserRun [of "popped k"] by simp
  next
    case (DoExecute sp)
    then show ?thesis using e Q(1) ne linv_Execute [of sp "popped k"] by simp
  next
    case (DeleteSem s')
    then show ?thesis using e Q(1) by simp
  next
    case (ListAppend i v)
    then show ?thesis using e Q(1) by (auto simp: list_append_def elim!: rbindE)
  next
    case (AppendResult i)
    then show ?thesis using e Q(1) by (auto simp: append_result_def list_append_def elim!: rbindE)
  next
    case (AssertResult v)
    then show ?thesis using e Q(1) by (auto simp: assert_result_def split: if_splits elim!: rbindE)
  qed
qed

lemma krun_linv:
  assumes "krun F k n k'" "kinv k" "progs_ok F k" "private_sem F s" "linv l s 0 k"
  shows "linv l s 0 k'"
  using assms
proof (induction rule: krun.induct)
  case (go k n k1 k2)
  have K: "kinv k1" "progs_ok F k1" using krun_kinv [OF go.hyps(1)] go.prems by auto
  have a: "alive k1 (cur k1)" by (rule kinvD(9) [OF K(1)])
  obtain f fs where c: "code k1 (cur k1) = f # fs" using kinvD(4) [OF K(1)] by (cases "code k1 (cur k1)") auto
  show ?case using frame_linv [OF K go.prems(3) _ c] go kstep_top [OF a c] by simp
qed simp

section \<open>Who changes the holder\<close>

lemma with_thread_locks: "with_thread t f k = Inr k' \<Longrightarrow> locks k' = locks k"
  by (auto simp: with_thread_def elim!: rbindE)

lemma push_locks: "push fs k = Inr k' \<Longrightarrow> locks k' = locks k"
  unfolding push_def by (rule with_thread_locks)

lemma lview_locks: "lview s k' = lview s k \<Longrightarrow> locks k' = locks k"
  by (simp add: lview_def)

lemma CheckIfDue_locks: "Interrupt_CheckIfDue adv k = Inr (b, k') \<Longrightarrow> locks k' = locks k"
proof -
  obtain s where "s \<notin> insert (keySem k) (rd_sem ` set (devs k))"
    using ex_new_if_finite [OF infinite_UNIV_nat, of "insert (keySem k) (rd_sem ` set (devs k))"] by auto
  then have "apart s k" by (auto simp: apart_def)
  moreover assume "Interrupt_CheckIfDue adv k = Inr (b, k')"
  ultimately show ?thesis using CheckIfDue_lview [of adv k b k' s] lview_locks by blast
qed

lemma SetLevel_locks: "Interrupt_SetLevel lv k = Inr k' \<Longrightarrow> locks k' = locks k"
  by (auto simp: Interrupt_SetLevel_def Interrupt_OneTick_def Let_def split: if_splits prod.splits elim!: rbindE dest!: CheckIfDue_locks push_locks)

lemma Idle_locks: "Interrupt_Idle k = Inr k' \<Longrightarrow> locks k' = locks k"
  by (auto simp: Interrupt_Idle_def Interrupt_Halt_def split: if_splits prod.splits elim!: rbindE dest!: CheckIfDue_locks)

lemma Run_locks: "Scheduler_Run n fin k = Inr k' \<Longrightarrow> locks k' = locks k"
  by (simp add: Run_objects)

lemma FindNext_locks: "Scheduler_FindNextToRun k = Inr (n, k') \<Longrightarrow> locks k' = locks k"
  by (auto dest!: FindNext_ready)

lemma ReadyToRun_locks: "Scheduler_ReadyToRun t k = Inr k' \<Longrightarrow> locks k' = locks k"
  by (rule lview_locks [OF ReadyToRun_lview])

lemma V_body_locks: "V_body s k = Inr k' \<Longrightarrow> locks k' = locks k"
  by (rule lview_locks [OF V_body_lview, of _ _ _ "Suc s"]) auto

lemma Schedule_locks: "Interrupt_Schedule d n k = Inr k' \<Longrightarrow> locks k' = locks k"
  by (rule lview_locks [OF Schedule_lview])

lemma OneTick_locks: "Interrupt_OneTick k = Inr k' \<Longrightarrow> locks k' = locks k"
  by (auto simp: Interrupt_OneTick_def Let_def split: if_splits prod.splits elim!: rbindE dest!: CheckIfDue_locks push_locks)

lemma Destroy_locks: "Scheduler_CheckToBeDestroyed k = Inr k' \<Longrightarrow> locks k' = locks k"
  by (auto simp: Scheduler_CheckToBeDestroyed_def Thread_delete_def split: if_splits option.splits elim!: rbindE)

lemma Switched_back_locks: "Switched_back k = Inr k' \<Longrightarrow> locks k' = locks k"
  by (auto simp: Switched_back_def split: if_splits option.splits elim!: rbindE dest!: Destroy_locks)

lemmas op_locks = with_thread_locks push_locks SetLevel_locks OneTick_locks Idle_locks Run_locks FindNext_locks ReadyToRun_locks V_body_locks
  Schedule_locks Destroy_locks Switched_back_locks

lemma exec_frame_locks:
  "exec_frame f F k = Inr k' \<Longrightarrow> (\<And>l. f \<noteq> SetHolder l) \<Longrightarrow> (\<And>l. f \<noteq> DoRelease l) \<Longrightarrow> locks k' = locks k"
  by (cases f; simp only: exec_frame.simps)
    (auto simp: op_defs Let_def split: if_splits option.splits prod.splits elim!: rbindE dest!: op_locks)

lemma frame_holder:
  assumes K: "kinv k" and L: "linv l s 0 k" and c: "code k (cur k) = f # fs" and e: "exec_frame f F (popped k) = Inr k'"
    and ch: "lockHolder (locks k' ! l) \<noteq> lockHolder (locks k ! l)"
  shows "(f = SetHolder l \<and> lockHolder (locks k ! l) = None \<and> lockHolder (locks k' ! l) = Some (cur k)) \<or>
    (f = DoRelease l \<and> lockHolder (locks k ! l) = Some (cur k) \<and> lockHolder (locks k' ! l) = None)"
proof -
  note Q = popped_linv [OF K L c]
  have "locks k' \<noteq> locks (popped k)" using ch by auto
  then consider (set) l' where "f = SetHolder l'" | (rel) l' where "f = DoRelease l'" using exec_frame_locks [OF e] by blast
  then show ?thesis
  proof cases
    case set
    then have p: "k' = popped k\<lparr>locks := (locks k)[l' := (locks k ! l')\<lparr>lockHolder := Some (cur k)\<rparr>]\<rparr>" "l' < length (locks k)" "Lock_setHolder l' (popped k) = Inr k'"
      using e Q(5) by (auto simp: Lock_setHolder_def get_lock_def split: if_splits)
    then have "l' = l" using ch by (cases "l' = l") auto
    then show ?thesis using linv_SetHolder(2) [OF p(3), of l s] Q(1) set p by simp
  next
    case rel
    then obtain k1 where p: "push [DoV (l_semaphore (locks k ! l'))] (popped k\<lparr>locks := (locks k)[l' := (locks k ! l')\<lparr>lockHolder := None\<rparr>]\<rparr>) = Inr k'"
      "l' < length (locks k)" "lockHolder (locks k ! l') = Some (cur k)"
      using e Q(5) by (auto simp: Lock_Release_def Lock_IsHeldByCurrentThread_def get_lock_def split: if_splits elim!: rbindE)
    have q: "locks k' = (locks k)[l' := (locks k ! l')\<lparr>lockHolder := None\<rparr>]" using push_locks [OF p(1)] by simp
    then have "l' = l" using ch by (cases "l' = l") auto
    then show ?thesis using rel p q by simp
  qed
qed

section \<open>Properties\<close>

text \<open>
  The example threads of the previous theory, with the first about to take the lock.
\<close>

definition lock_threads :: kst where
  "lock_threads = two_threads\<lparr>threads := (threads two_threads)[0 := Some (the (threads two_threads ! 0)\<lparr>t_code := [DoAcquire 0, DoRelease 0, DoFinish]\<rparr>)]\<rparr>"

lemma lock_threads_alive: "alive lock_threads t \<longleftrightarrow> t = 0 \<or> t = 1"
  by (auto simp: alive_def lock_threads_def two_threads_def less_Suc_eq)

lemma lock_threads_ok: "kinv lock_threads" "progs_ok (\<lambda>_. []) lock_threads" "private_sem (\<lambda>_. []) 0" "linv 0 0 0 lock_threads"
proof -
  have "sched_ok lock_threads"
    by (rule sched_okI) (auto simp: lock_threads_alive, auto simp: lock_threads_def two_threads_def parked_def less_Suc_eq)
  moreover have "refs_inv lock_threads"
    unfolding refs_inv_def lock_threads_alive by (auto simp: lock_threads_def two_threads_def)
  moreover have "dev_ok lock_threads"
    unfolding dev_ok_def lock_threads_alive by (auto simp: lock_threads_def two_threads_def regs_ok_def pc.ordered_def)
  ultimately show "kinv lock_threads" by (simp add: kinv_def) (simp add: lock_threads_def two_threads_def)
  show "progs_ok (\<lambda>_. []) lock_threads" by (simp add: progs_ok_def)
  show "private_sem (\<lambda>_. []) 0" by (simp add: private_sem_def)
  show "linv 0 0 0 lock_threads"
    by (auto simp: linv_def stacks_def total_weight_def held_def lock_threads_def two_threads_def)
qed

lemma lock_threads_run:
  "\<exists>k1. kstep (\<lambda>_. []) lock_threads = Inr k1 \<and> (\<exists>k2. kstep (\<lambda>_. []) k1 = Inr k2 \<and> (\<exists>k3. kstep (\<lambda>_. []) k2 = Inr k3 \<and>
     (\<exists>k4. kstep (\<lambda>_. []) k3 = Inr k4 \<and> (\<exists>k5. kstep (\<lambda>_. []) k4 = Inr k5 \<and>
      lockHolder (locks k4 ! 0) = None \<and> lockHolder (locks k5 ! 0) = Some 0 \<and> top k4 = Some (SetHolder 0)))))"
  by (simp add: step_defs op_defs lock_threads_def two_threads_def Machine_DelayedLoad_def reg_numbers aput_def
      fire_calls pc.ordered_def get_lock_def top_def)

text \<open>
  C3. Mutual exclusion: after any run of the system, whatever the threads do and however interrupts and switches interleave
  them, the holder of a lock changes in only two ways: the lock was free, and the thread whose \<^verbatim>\<open>Acquire\<close> is finishing becomes
  the holder; or the holder itself calls \<^verbatim>\<open>Release\<close>, and the lock is free.  In particular no \<^verbatim>\<open>Acquire\<close> returns while another thread
  holds the lock.
\<close>

theorem lock_mutual_exclusion:
  assumes "kinv k0" "progs_ok F k0" "private_sem F s" "linv l s 0 k0" "krun F k0 n k" "kstep F k = Inr k'"
    and "lockHolder (locks k' ! l) \<noteq> lockHolder (locks k ! l)"
  shows "(top k = Some (SetHolder l) \<and> lockHolder (locks k ! l) = None \<and> lockHolder (locks k' ! l) = Some (currentThread k)) \<or>
    (top k = Some (DoRelease l) \<and> lockHolder (locks k ! l) = Some (currentThread k) \<and> lockHolder (locks k' ! l) = None)"
proof -
  have K: "kinv k" using krun_kinv [OF assms(5,1,2)] by simp
  have L: "linv l s 0 k" by (rule krun_linv [OF assms(5,1-4)])
  have a: "alive k (cur k)" by (rule kinvD(9) [OF K])
  obtain f fs where c: "code k (cur k) = f # fs" using kinvD(4) [OF K] by (cases "code k (cur k)") auto
  have "exec_frame f F (popped k) = Inr k'" using assms(6) kstep_top [OF a c] by simp
  from frame_holder [OF K L c this assms(7)] a c show ?thesis by (simp add: top_def)
qed

theorem lock_mutual_exclusion_witness:
  "\<exists>k n k'. krun (\<lambda>_. []) lock_threads n k \<and> kstep (\<lambda>_. []) k = Inr k' \<and> top k = Some (SetHolder 0) \<and> lockHolder (locks k' ! 0) = Some (currentThread k)"
proof -
  obtain k1 k2 k3 k4 k5 where k: "kstep (\<lambda>_. []) lock_threads = Inr k1" "kstep (\<lambda>_. []) k1 = Inr k2" "kstep (\<lambda>_. []) k2 = Inr k3"
    "kstep (\<lambda>_. []) k3 = Inr k4" "kstep (\<lambda>_. []) k4 = Inr k5" "lockHolder (locks k5 ! 0) \<noteq> lockHolder (locks k4 ! 0)" "lockHolder (locks k5 ! 0) = Some 0"
    using lock_threads_run by fastforce
  obtain n where r: "krun (\<lambda>_. []) lock_threads n k4"
    using krun.go [OF krun.go [OF krun.go [OF krun.go [OF krun.stay k(1)] k(2)] k(3)] k(4)] by blast
  from lock_mutual_exclusion [OF lock_threads_ok r k(5,6)] k(5,7) r show ?thesis by auto
qed

end
