(* ===== verification/Wakeups.thy ===== *)
theory Wakeups
  imports ThreadsLock
begin

text \<open>
  Semaphores lose no thread and no wake-up.  Every live thread is the running one, or on the ready list, or on the queue of a semaphore, or
  finished and about to be deleted; and of a semaphore with threads on its queue the value is at most the number of threads that
  were woken from it and have not yet tested it again.  So the processor idles only when every thread waits on a
  semaphore whose value is zero.
\<close>

section \<open>Threads and where they are kept\<close>

text \<open>The stack of a thread, if it is alive; whether it is in the loop of \<^verbatim>\<open>P\<close> on \<open>s\<close>, about to test or asleep.\<close>

definition cod :: "kst \<Rightarrow> nat \<Rightarrow> frame list option" where
  "cod k t = map_option fst (view k t)"

definition tries :: "nat \<Rightarrow> frame list \<Rightarrow> bool" where
  "tries s c \<longleftrightarrow> (case c of PLoop s' _ # _ \<Rightarrow> s' = s | _ \<Rightarrow> False)"

definition blocked :: "nat \<Rightarrow> frame list \<Rightarrow> bool" where
  "blocked s c \<longleftrightarrow> tries s c \<or> (c \<noteq> [] \<and> hd c \<in> {Switched, DoSleep False, SleepLoop False} \<and> tries s (tl c))"

fun sleep_frame :: "frame \<Rightarrow> bool" where
  "sleep_frame (DoSleep _) = True"
| "sleep_frame (SleepLoop _) = True"
| "sleep_frame _ = False"

definition placed :: "kst \<Rightarrow> nat \<Rightarrow> bool" where
  "placed k t \<longleftrightarrow> t \<in> set (readyList k) \<or> (\<exists>s < length (sems k). t \<in> set (queue k s))"

text \<open>The threads in that loop that are not, or no longer, on the queue.\<close>

definition woken :: "kst \<Rightarrow> nat \<Rightarrow> nat set" where
  "woken k s = {t. (\<exists>c. cod k t = Some c \<and> blocked s c) \<and> t \<notin> set (queue k s)}"

definition counted :: "kst \<Rightarrow> nat \<Rightarrow> bool" where
  "counted k s \<longleftrightarrow> distinct (queue k s) \<and> (\<forall>t \<in> set (queue k s). \<exists>c. cod k t = Some c \<and> blocked s c) \<and>
     (queue k s \<noteq> [] \<longrightarrow> s_value (sems k ! s) \<le> int (card (woken k s)))"

definition waits_ok :: "kst \<Rightarrow> bool" where
  "waits_ok k \<longleftrightarrow> (\<forall>t. cod k t \<noteq> None \<and> t \<noteq> cur k \<and> toBeDestroyed k \<noteq> Some t \<longrightarrow> placed k t) \<and> (\<forall>s < length (sems k). counted k s) \<and>
     (\<forall>t. toBeDestroyed k = Some t \<longrightarrow> t \<noteq> cur k \<and> cod k t = Some [Switched])"

text \<open>Between the frames of a step no frame of \<^verbatim>\<open>Sleep\<close> is on a stack, and mostly the running thread is not in the loop of \<^verbatim>\<open>P\<close>.\<close>

definition settled :: "kst \<Rightarrow> bool" where
  "settled k \<longleftrightarrow> waits_ok k \<and> (\<forall>t c. cod k t = Some c \<longrightarrow> (\<forall>f \<in> set c. \<not> sleep_frame f))"

definition unblocked :: "kst \<Rightarrow> bool" where
  "unblocked k \<longleftrightarrow> settled k \<and> (\<forall>c s. cod k (cur k) = Some c \<longrightarrow> \<not> blocked s c)"

lemma cod_threads: "threads k' = threads k \<Longrightarrow> cod k' = cod k"
  using view_threads [of k' k] by (simp add: cod_def fun_eq_iff)

lemma cod_get: "get_thread t k = Inr x \<Longrightarrow> cod k t = Some (t_code x)"
  by (simp add: cod_def view_get saved_def)

lemma cod_alive: "alive k t \<Longrightarrow> cod k t = Some (code k t)"
  using cod_get [of t k "th k t"] by simp

lemma cod_put: "get_thread t k = Inr x \<Longrightarrow> cod (put_thread t y k) = (cod k)(t \<mapsto> t_code y)"
  by (auto simp: cod_def view_put saved_def fun_eq_iff)

lemma cod_bound: "cod k t = Some c \<Longrightarrow> t < length (threads k)"
  by (auto simp: cod_def view_def split: if_splits)

lemma finite_woken [simp]: "finite (woken k s)"
  by (rule finite_subset [of _ "{..<length (threads k)}"]) (auto simp: woken_def dest: cod_bound)

text \<open>What this looks at.\<close>

definition wview :: "kst \<Rightarrow> (nat \<times> nat option \<times> nat list) \<times> (nat \<Rightarrow> frame list option) \<times> semaphore list" where
  "wview k = ((cur k, toBeDestroyed k, readyList k), cod k, sems k)"

lemma waits_ok_wview: "wview k' = wview k \<Longrightarrow> waits_ok k' = waits_ok k" "wview k' = wview k \<Longrightarrow> settled k' = settled k" "wview k' = wview k \<Longrightarrow> unblocked k' = unblocked k"
  by (simp_all add: wview_def unblocked_def settled_def waits_ok_def placed_def counted_def woken_def)

lemma wview_cong: "threads k' = threads k \<Longrightarrow> cur k' = cur k \<Longrightarrow> toBeDestroyed k' = toBeDestroyed k \<Longrightarrow> readyList k' = readyList k \<Longrightarrow> sems k' = sems k \<Longrightarrow> wview k' = wview k"
  using cod_threads [of k' k] by (simp add: wview_def)

lemma wview_fields [simp]:
  "wview (k\<lparr>level := l\<rparr>) = wview k" "wview (k\<lparr>pending := p\<rparr>) = wview k" "wview (k\<lparr>devs := d\<rparr>) = wview k"
  "wview (k\<lparr>incoming := c\<rparr>) = wview k" "wview (k\<lparr>serial := n\<rparr>) = wview k" "wview (k\<lparr>keyboard := ks\<rparr>) = wview k"
  "wview (k\<lparr>inHandler := b\<rparr>) = wview k" "wview (k\<lparr>yieldOnReturn := b\<rparr>) = wview k" "wview (k\<lparr>drawn := n\<rparr>) = wview k"
  "wview (k\<lparr>kmach := m\<rparr>) = wview k" "wview (k\<lparr>now := i\<rparr>) = wview k" "wview (k\<lparr>idleTicks := i\<rparr>) = wview k"
  "wview (k\<lparr>mstatus := st\<rparr>) = wview k" "wview (k\<lparr>systemTicks := i\<rparr>) = wview k" "wview (k\<lparr>userTicks := i\<rparr>) = wview k"
  "wview (k\<lparr>halted := b\<rparr>) = wview k" "wview (k\<lparr>locks := ls\<rparr>) = wview k" "wview (k\<lparr>conds := cs\<rparr>) = wview k"
  "wview (k\<lparr>lists := xs\<rparr>) = wview k"
  by (rule wview_cong; simp; fail)+

lemma wview_put: "get_thread t k = Inr x \<Longrightarrow> t_code y = t_code x \<Longrightarrow> wview (put_thread t y k) = wview k"
  using cod_put [of t k x y] cod_get [of t k x] by (simp add: wview_def fun_upd_idem)

lemma status_wview: "with_thread t (\<lambda>th. th\<lparr>t_status := st\<rparr>) k = Inr k' \<Longrightarrow> wview k' = wview k"
  by (auto simp: with_thread_def elim!: rbindE intro!: wview_put)

lemma result_wview: "with_thread t (\<lambda>th. th\<lparr>t_result := r\<rparr>) k = Inr k' \<Longrightarrow> wview k' = wview k"
  by (auto simp: with_thread_def elim!: rbindE intro!: wview_put)

lemma space_wview: "with_thread t (\<lambda>th. th\<lparr>t_space := r\<rparr>) k = Inr k' \<Longrightarrow> wview k' = wview k"
  by (auto simp: with_thread_def elim!: rbindE intro!: wview_put)

lemma Schedule_wview: "Interrupt_Schedule d n k = Inr k' \<Longrightarrow> wview k' = wview k"
  by (auto simp: Interrupt_Schedule_def Let_def split: if_splits elim!: rbindE)

text \<open>Waking the first thread of a queue.\<close>

lemma ReadyToRun_wview:
  assumes "Scheduler_ReadyToRun t k = Inr k'"
  shows "wview k' = ((cur k, toBeDestroyed k, readyList k @ [t]), cod k, sems k)"
proof -
  obtain k1 q where "with_thread t (\<lambda>th. th\<lparr>t_status := READY\<rparr>) k = Inr k1" "k' = k1\<lparr>readyList := q\<rparr>"
    using assms by (auto simp: Scheduler_ReadyToRun_def elim!: rbindE split: if_splits)
  moreover from this have "wview k1 = wview k" by (simp add: status_wview)
  ultimately show ?thesis using ReadyToRun_ready [OF assms] cod_threads [of k' k1] by (simp add: wview_def)
qed

definition signalled :: "nat \<Rightarrow> kst \<Rightarrow> kst \<Rightarrow> bool" where
  "signalled s k k' \<longleftrightarrow> cur k' = cur k \<and> toBeDestroyed k' = toBeDestroyed k \<and> cod k' = cod k \<and> s < length (sems k) \<and>
     (case queue k s of
        [] \<Rightarrow> readyList k' = readyList k \<and> sems k' = (sems k)[s := (sems k ! s)\<lparr>s_value := s_value (sems k ! s) + 1\<rparr>]
      | t # q \<Rightarrow> readyList k' = readyList k @ [t] \<and> sems k' = (sems k)[s := (sems k ! s)\<lparr>s_queue := q, s_value := s_value (sems k ! s) + 1\<rparr>])"

lemma V_body_signalled:
  assumes "V_body s k = Inr k'"
  shows "signalled s k k'"
proof -
  have s: "s < length (sems k)" using assms by (auto simp: V_body_def get_sem_def split: if_splits elim!: rbindE)
  show ?thesis
  proof (cases "s_queue (sems k ! s)")
    case Nil
    then have "k' = put_sem s ((sems k ! s)\<lparr>s_value := s_value (sems k ! s) + 1\<rparr>) k" using assms s by (simp add: V_body_def)
    then show ?thesis using s Nil cod_threads [of k' k] by (simp add: signalled_def put_sem_def)
  next
    case (Cons t q)
    let ?k = "put_sem s ((sems k ! s)\<lparr>s_queue := q\<rparr>) k"
    obtain k1 where k1: "Scheduler_ReadyToRun t ?k = Inr k1" "k' = put_sem s ((sems k1 ! s)\<lparr>s_value := s_value (sems k1 ! s) + 1\<rparr>) k1"
      using assms s Cons by (auto simp: V_body_def List_RemoveFront_def get_sem_def split: if_splits elim!: rbindE)
    have "wview k1 = ((cur k, toBeDestroyed k, readyList k @ [t]), cod k, (sems k)[s := (sems k ! s)\<lparr>s_queue := q\<rparr>])"
      using ReadyToRun_wview [OF k1(1)] cod_threads [of ?k k] by (simp add: put_sem_def)
    then show ?thesis using s Cons k1(2) cod_threads [of k' k1] by (simp add: signalled_def put_sem_def wview_def)
  qed
qed

lemma signalled_waits_ok:
  assumes V: "signalled s k k'" and W: "waits_ok k"
  shows "waits_ok k'" "placed k t \<Longrightarrow> placed k' t"
proof -
  have e: "cur k' = cur k" "toBeDestroyed k' = toBeDestroyed k" "cod k' = cod k" "s < length (sems k)" using V by (simp_all add: signalled_def)
  have l: "length (sems k') = length (sems k)" "s' \<noteq> s \<Longrightarrow> sems k' ! s' = sems k ! s'" for s'
    using V by (auto simp: signalled_def split: list.splits)
  have q: "queue k' s' = (if s' = s then tl (queue k s) else queue k s')" for s'
    using V l(2) [of s'] by (auto simp: signalled_def split: list.splits)
  have "counted k' s'" if "s' < length (sems k)" "s' \<noteq> s" for s'
    using W that l(2) [of s'] e(3) by (simp add: waits_ok_def counted_def woken_def)
  moreover have "counted k' s"
  proof (cases "queue k s")
    case Nil
    then show ?thesis using q [of s] by (simp add: counted_def)
  next
    case (Cons t ts)
    have c: "counted k s" using W e(4) by (simp add: waits_ok_def)
    then have t: "t \<notin> woken k s" "\<exists>c. cod k t = Some c \<and> blocked s c" "t \<notin> set ts" using Cons by (simp_all add: counted_def woken_def)
    then have "woken k' s = insert t (woken k s)" using q [of s] Cons e(3) by (auto simp: woken_def)
    then have "int (card (woken k' s)) = int (card (woken k s)) + 1" using t(1) by simp
    moreover have "s_value (sems k' ! s) = s_value (sems k ! s) + 1" using V Cons e(4) by (simp add: signalled_def)
    ultimately show ?thesis using c q [of s] Cons e(3) by (simp add: counted_def)
  qed
  moreover show p': "placed k' t" if p: "placed k t" for t
  proof -
    have r: "set (readyList k) \<subseteq> set (readyList k')" "queue k s = u # ts \<Longrightarrow> u \<in> set (readyList k')" for u ts
      using V by (auto simp: signalled_def split: list.splits)
    from p consider "t \<in> set (readyList k)" | s' where "s' < length (sems k)" "t \<in> set (queue k s')" by (auto simp: placed_def)
    then show ?thesis
    proof cases
      case 1
      then show ?thesis using r(1) by (auto simp: placed_def)
    next
      case 2
      then have "t \<in> set (queue k' s') \<or> t \<in> set (readyList k')" using q [of s'] r(2) by (cases "queue k s") (auto split: if_splits)
      then show ?thesis using 2(1) l(1) by (auto simp: placed_def)
    qed
  qed
  ultimately show "waits_ok k'" using W e l(1) by (simp add: waits_ok_def) blast
qed


lemma unblocked_fields [simp]:
  "unblocked (k\<lparr>level := l\<rparr>) = unblocked k" "unblocked (k\<lparr>pending := p\<rparr>) = unblocked k" "unblocked (k\<lparr>devs := d\<rparr>) = unblocked k"
  "unblocked (k\<lparr>incoming := c\<rparr>) = unblocked k" "unblocked (k\<lparr>serial := n\<rparr>) = unblocked k" "unblocked (k\<lparr>keyboard := ks\<rparr>) = unblocked k"
  "unblocked (k\<lparr>inHandler := b\<rparr>) = unblocked k" "unblocked (k\<lparr>yieldOnReturn := b\<rparr>) = unblocked k" "unblocked (k\<lparr>drawn := n\<rparr>) = unblocked k"
  "unblocked (k\<lparr>kmach := m\<rparr>) = unblocked k" "unblocked (k\<lparr>now := i\<rparr>) = unblocked k" "unblocked (k\<lparr>idleTicks := i\<rparr>) = unblocked k"
  "unblocked (k\<lparr>mstatus := st\<rparr>) = unblocked k" "unblocked (k\<lparr>systemTicks := i\<rparr>) = unblocked k" "unblocked (k\<lparr>userTicks := i\<rparr>) = unblocked k"
  "unblocked (k\<lparr>halted := b\<rparr>) = unblocked k" "unblocked (k\<lparr>locks := ls\<rparr>) = unblocked k" "unblocked (k\<lparr>conds := cs\<rparr>) = unblocked k"
  "unblocked (k\<lparr>lists := xs\<rparr>) = unblocked k"
  by (rule waits_ok_wview; simp; fail)+

text \<open>Handlers keep the count, whatever the running thread is at.\<close>

definition handled :: "kst \<Rightarrow> kst \<Rightarrow> bool" where
  "handled k k' \<longleftrightarrow> cur k' = cur k \<and> toBeDestroyed k' = toBeDestroyed k \<and> cod k' = cod k \<and> length (sems k') = length (sems k) \<and>
     (waits_ok k \<longrightarrow> waits_ok k' \<and> (\<forall>t. placed k t \<longrightarrow> placed k' t))"

lemma handled_same: "wview k' = wview k \<Longrightarrow> handled k k'"
  using waits_ok_wview(1) [of k' k] by (simp add: handled_def wview_def placed_def)

lemma handled_trans: "handled k k1 \<Longrightarrow> handled k1 k2 \<Longrightarrow> handled k k2"
  by (simp add: handled_def)

lemma handled_left: "wview k1 = wview k \<Longrightarrow> handled k1 k2 \<Longrightarrow> handled k k2"
  using handled_trans [OF handled_same] by blast

lemma handled_right: "handled k k1 \<Longrightarrow> wview k2 = wview k1 \<Longrightarrow> handled k k2"
  using handled_trans handled_same by blast

lemma handled_unblocked: "handled k k' \<Longrightarrow> unblocked k \<Longrightarrow> unblocked k'" "handled k k' \<Longrightarrow> settled k \<Longrightarrow> settled k'"
  by (simp_all add: handled_def unblocked_def settled_def)

lemma V_body_handled: "V_body s k = Inr k' \<Longrightarrow> handled k k'"
proof -
  assume "V_body s k = Inr k'"
  then have V: "signalled s k k'" by (rule V_body_signalled)
  then have "length (sems k') = length (sems k)" by (auto simp: signalled_def split: list.splits)
  then show ?thesis using V signalled_waits_ok [OF V] by (simp add: handled_def) (simp add: signalled_def)
qed

lemma handler_V_handled: "handler_V s k = Inr k' \<Longrightarrow> handled k k'"
proof -
  assume "handler_V s k = Inr k'"
  then obtain k1 where k1: "V_body s (k\<lparr>level := IntOff\<rparr>) = Inr k1" "k' = k1\<lparr>level := level k\<rparr>" by (auto simp: handler_V_def elim!: rbindE)
  have "handled k k1" by (rule handled_left [OF _ V_body_handled [OF k1(1)]]) simp
  then show ?thesis using handled_right k1(2) by simp
qed

lemma CallBack_handled:
  assumes "CallBack d k = Inr k'"
  shows "handled k k'"
proof (cases d)
  case TimerDev
  then have "wview k' = wview k" using assms
    by (auto simp: Timer_CallBack_def Alarm_CallBack_def Timer_SetInterrupt_def Interrupt_YieldOnReturn_def
        split: if_splits elim!: rbindE dest!: Schedule_wview)
  then show ?thesis by (rule handled_same)
next
  case KeyboardDev
  then have "wview k' = wview k \<or> (\<exists>k1. wview k1 = wview k \<and> handler_V (keySem k) k1 = Inr k')" using assms
    by (auto simp: ConsoleInput_CallBack_def split: if_splits list.splits poll.splits elim!: rbindE dest!: Schedule_wview)
  then show ?thesis using handled_same handled_left [OF _ handler_V_handled] by blast
next
  case (RequestDev n)
  then have "handler_V (rd_sem (devs k ! n)) (k\<lparr>devs := (devs k)[n := (devs k ! n)\<lparr>rd_busy := False\<rparr>]\<rparr>) = Inr k'"
    using assms(1) by (auto simp: Device_CallBack_def split: if_splits)
  from handled_left [OF _ handler_V_handled [OF this]] show ?thesis by simp
qed

lemma fire_handled: "fire k = Inr k' \<Longrightarrow> handled k k'"
proof (induction k rule: fire.induct)
  case (1 k)
  obtain p ps k1 where k1: "List_RemoveFront (pending k) = Inr (p, ps)" "CallBack (p_dev p) (k\<lparr>pending := ps\<rparr>) = Inr k1"
    "(if pending k1 \<noteq> [] \<and> p_when (hd (pending k1)) \<le> now k1 then fire k1 else Inr k1) = Inr k'"
    using "1.prems" by (subst (asm) fire.simps) (auto elim!: rbindE split: prod.splits)
  have "handled k k1" using handled_left [OF _ CallBack_handled [OF k1(2)]] by simp
  moreover have "handled k1 k'" using "1.IH" [OF k1(1) refl k1(2)] k1(3) handled_same by (auto split: if_splits)
  ultimately show ?case by (rule handled_trans)
qed

lemma CheckIfDue_handled:
  assumes "Interrupt_CheckIfDue adv k = Inr (b, k')"
  shows "handled k k'"
proof -
  have "handled k k'" if "fire k2 = Inr k1" "wview k2 = wview k" "k' = k1\<lparr>inHandler := False\<rparr>" for k1 k2
    using handled_right [OF handled_left [OF that(2) fire_handled [OF that(1)]]] that(3) by simp
  then show ?thesis using assms by (auto simp: Interrupt_CheckIfDue_def Let_def split: if_splits elim!: rbindE intro: handled_same)
qed


lemma Idle_handled:
  assumes "Interrupt_Idle k = Inr k'"
  shows "handled k k'"
proof -
  have h: "handled k (k1\<lparr>mstatus := st\<rparr>) \<and> handled k (k1\<lparr>halted := h\<rparr>)" if "Interrupt_CheckIfDue True (k\<lparr>mstatus := IdleMode\<rparr>) = Inr (b, k1)" for b k1 st h
    using handled_right [OF handled_left [OF _ CheckIfDue_handled [OF that]]] by simp
  then show ?thesis using assms
    by (auto simp: Interrupt_Idle_def Interrupt_Halt_def split: if_splits prod.splits elim!: rbindE)
qed

section \<open>What the running thread does\<close>

lemma tries_simps [simp]: "\<not> tries s []" "tries s (f # fs) \<longleftrightarrow> (\<exists>l. f = PLoop s l)"
  by (cases f; auto simp: tries_def)+

lemma blocked_simps [simp]: "\<not> blocked s []" "blocked s (f # fs) \<longleftrightarrow> (\<exists>l. f = PLoop s l) \<or> (f \<in> {Switched, DoSleep False, SleepLoop False} \<and> tries s fs)"
  by (simp_all add: blocked_def)

text \<open>The stack of the running thread may change as long as it does not stop trying.\<close>

lemma waits_ok_code:
  assumes W: "waits_ok k" and c: "cod k (cur k) = Some c" and k': "wview k' = ((cur k, toBeDestroyed k, readyList k), (cod k)(cur k \<mapsto> c'), sems k)"
    and b: "\<And>s. blocked s c \<Longrightarrow> blocked s c'"
  shows "waits_ok k'"
proof -
  have e: "cur k' = cur k" "toBeDestroyed k' = toBeDestroyed k" "readyList k' = readyList k" "cod k' = (cod k)(cur k \<mapsto> c')" "sems k' = sems k"
    using k' by (simp_all add: wview_def)
  have "counted k' s" if "s < length (sems k)" for s
  proof -
    have w: "counted k s" using W that by (simp add: waits_ok_def)
    have "woken k s \<subseteq> woken k' s" using b c e by (auto simp: woken_def)
    then have "card (woken k s) \<le> card (woken k' s)" by (rule card_mono [OF finite_woken])
    then show ?thesis using w b [of s] c e by (auto simp: counted_def)
  qed
  moreover have "placed k' = placed k" by (simp add: placed_def fun_eq_iff e)
  ultimately show ?thesis using W e c by (auto simp: waits_ok_def)
qed

lemma push_wview:
  assumes "push fs k = Inr k'"
  obtains c where "cod k (cur k) = Some c" "wview k' = ((cur k, toBeDestroyed k, readyList k), (cod k)(cur k \<mapsto> fs @ c), sems k)"
proof -
  obtain x where x: "get_thread (cur k) k = Inr x" "k' = put_thread (cur k) (x\<lparr>t_code := fs @ t_code x\<rparr>) k"
    using assms by (auto simp: push_def with_thread_def elim!: rbindE)
  show thesis by (rule that [of "t_code x"]) (use cod_get [OF x(1)] cod_put [OF x(1)] x(2) in \<open>simp_all add: wview_def\<close>)
qed

lemma push_settled: "push fs k = Inr k' \<Longrightarrow> unblocked k \<Longrightarrow> \<forall>f \<in> set fs. \<not> sleep_frame f \<Longrightarrow> settled k'"
  by (erule push_wview) (auto simp: unblocked_def settled_def wview_def intro: waits_ok_code [of k])

definition busy :: "frame list \<Rightarrow> bool" where
  "busy fs \<longleftrightarrow> fs \<noteq> [] \<and> (\<forall>f \<in> set fs. \<not> sleep_frame f) \<and> (\<forall>s l. hd fs \<noteq> PLoop s l) \<and> hd fs \<noteq> Switched"

lemma push_unblocked:
  assumes p: "push fs k = Inr k'" and W: "unblocked k" and b: "busy fs"
  shows "unblocked k'"
proof -
  have n: "settled k'" using push_settled [OF p W] b by (simp add: busy_def)
  obtain c where "wview k' = ((cur k, toBeDestroyed k, readyList k), (cod k)(cur k \<mapsto> fs @ c), sems k)" using push_wview [OF p] by metis
  moreover obtain f gs where "fs = f # gs" "\<forall>s l. f \<noteq> PLoop s l" "f \<noteq> Switched" "\<not> sleep_frame f" using b by (cases fs) (auto simp: busy_def)
  ultimately show ?thesis using n by (auto simp: unblocked_def wview_def)
qed

lemma OneTick_unblocked: "Interrupt_OneTick k = Inr k' \<Longrightarrow> unblocked k \<Longrightarrow> unblocked k'"
proof -
  assume e: "Interrupt_OneTick k = Inr k'" and W: "unblocked k"
  have h: "unblocked k2" if "Interrupt_CheckIfDue adv k1 = Inr (b, k2)" "unblocked k1" for adv k1 b k2
    using handled_unblocked(1) [OF CheckIfDue_handled [OF that(1)] that(2)] .
  have p: "unblocked k2" if "push [DoYield, Ticked st] k1 = Inr k2" "unblocked k1" for st k1 k2 using push_unblocked [OF that] by (simp add: busy_def)
  show ?thesis using e W by (auto simp: Interrupt_OneTick_def Let_def split: if_splits elim!: rbindE dest!: h p)
qed

lemma SetLevel_unblocked: "Interrupt_SetLevel l k = Inr k' \<Longrightarrow> unblocked k \<Longrightarrow> unblocked k'"
  by (auto simp: Interrupt_SetLevel_def Let_def split: if_splits elim!: rbindE intro: OneTick_unblocked)

lemma V_body_unblocked: "V_body s k = Inr k' \<Longrightarrow> unblocked k \<Longrightarrow> unblocked k'"
  using handled_unblocked(1) [OF V_body_handled] by blast

lemma wview_unblocked: "wview k' = wview k \<Longrightarrow> unblocked k \<Longrightarrow> unblocked k'"
  using waits_ok_wview(3) by blast

lemma unblocked_settled: "unblocked k \<Longrightarrow> settled k"
  by (simp add: unblocked_def)

text \<open>A new semaphore.\<close>

lemma unblocked_new_sem: "unblocked k \<Longrightarrow> unblocked (k\<lparr>sems := sems k @ [\<lparr>s_value = v, s_queue = []\<rparr>]\<rparr>)"
proof -
  let ?k = "k\<lparr>sems := sems k @ [\<lparr>s_value = v, s_queue = []\<rparr>]\<rparr>"
  assume W: "unblocked k"
  have c: "cod ?k = cod k" by (rule cod_threads) simp
  have "counted ?k s" if "s < length (sems ?k)" for s
  proof (cases "s < length (sems k)")
    case True
    then have "counted k s" using W by (simp add: unblocked_def settled_def waits_ok_def)
    then show ?thesis using True c by (simp add: counted_def woken_def nth_append)
  next
    case False
    then show ?thesis using that by (simp add: counted_def nth_append)
  qed
  moreover have "placed k t \<Longrightarrow> placed ?k t" for t by (auto simp: placed_def nth_append)
  ultimately show ?thesis using W c by (simp add: unblocked_def settled_def waits_ok_def)
qed

text \<open>The same, as rules for what an operation did.\<close>

lemma op_unblocked:
  "Interrupt_SetLevel l k = Inr k' \<Longrightarrow> unblocked k \<longrightarrow> unblocked k'"
  "V_body s k = Inr k' \<Longrightarrow> unblocked k \<longrightarrow> unblocked k'"
  "push fs k = Inr k' \<Longrightarrow> unblocked k \<longrightarrow> busy fs \<longrightarrow> unblocked k'"
  "Interrupt_OneTick k = Inr k' \<Longrightarrow> unblocked k \<longrightarrow> unblocked k'"
  by ((rule impI)+, erule SetLevel_unblocked V_body_unblocked push_unblocked OneTick_unblocked; assumption)+

lemma same_unblocked:
  "Interrupt_Schedule d n k = Inr k' \<Longrightarrow> unblocked k' = unblocked k"
  "with_thread t (\<lambda>th. th\<lparr>t_result := r\<rparr>) k = Inr k' \<Longrightarrow> unblocked k' = unblocked k"
  "with_thread t (\<lambda>th. th\<lparr>t_space := sp\<rparr>) k = Inr k' \<Longrightarrow> unblocked k' = unblocked k"
  by (rule waits_ok_wview(3), erule Schedule_wview result_wview space_wview)+

definition plain :: "frame \<Rightarrow> bool" where
  "plain f \<longleftrightarrow> \<not> switching f \<and> \<not> sleep_frame f \<and> f \<noteq> DoFinish \<and> (\<forall>s l. f \<noteq> PLoop s l)"

lemma exec_plain:
  assumes e: "exec_frame f F k = Inr k'" and W: "unblocked k" and p: "plain f"
  shows "settled k'"
proof (cases "\<exists>s. f = DoP s")
  case True
  then obtain s k1 where "Interrupt_SetLevel IntOff k = Inr k1" "push [PLoop s (level k)] k1 = Inr k'" using e by (auto simp: Semaphore_P_def elim!: rbindE)
  then show ?thesis using push_settled SetLevel_unblocked W by auto
next
  case False
  have "unblocked k'" using e W p False
    by (cases f; simp only: exec_frame.simps)
      (auto simp: plain_def op_defs Let_def busy_def unblocked_new_sem split: if_splits elim!: rbindE dest!: op_unblocked same_unblocked)
  then show ?thesis by (rule unblocked_settled)
qed


section \<open>Every thread is accounted for\<close>

text \<open>The invariant between steps: a thread that sleeps is on the ready list or on a queue, also as long as it is the running one.\<close>

definition accounted :: "kst \<Rightarrow> bool" where
  "accounted k \<longleftrightarrow> waits_ok k \<and>
     (\<forall>t c. cod k t = Some c \<longrightarrow> (\<forall>f \<in> set (tl c). \<not> sleep_frame f) \<and> (t \<noteq> cur k \<longrightarrow> (\<forall>f \<in> set c. \<not> sleep_frame f))) \<and>
     (hd (code k (cur k)) \<in> {DoSleep False, SleepLoop False} \<longrightarrow> placed k (cur k))"

lemma kinv_cod: "kinv k \<Longrightarrow> cod k (cur k) = Some (code k (cur k)) \<and> code k (cur k) \<noteq> []"
  using kinvD(9) [of k] kinvD(4) [of k] cod_alive by auto

lemma settled_accounted:
  assumes "settled k" "kinv k"
  shows "accounted k"
proof -
  have a: "cod k (cur k) = Some (code k (cur k))" "code k (cur k) \<noteq> []" using kinv_cod [OF assms(2)] by simp_all
  have n: "\<not> sleep_frame f" if "cod k t = Some c" "f \<in> set c" for t c f using assms(1) that by (auto simp: settled_def)
  then have "\<not> sleep_frame (hd (code k (cur k)))" using a by simp
  then have "hd (code k (cur k)) \<notin> {DoSleep False, SleepLoop False}" by auto
  moreover have "\<not> sleep_frame f" if "cod k t = Some c" "f \<in> set (tl c)" for t c f using n [OF that(1)] that(2) by (cases c) auto
  ultimately show ?thesis using assms(1) n by (auto simp: accounted_def settled_def)
qed

lemma popped_wview:
  assumes K: "kinv k" and c: "code k (cur k) = f # fs"
  shows "wview (popped k) = ((cur k, toBeDestroyed k, readyList k), (cod k)(cur k \<mapsto> fs), sems k)"
  using cod_put [of "cur k" k "th k (cur k)"] kinvD(9) [OF K] c by (simp add: popped_def wview_def)

lemma popped_settled:
  assumes K: "kinv k" and A: "accounted k" and c: "code k (cur k) = f # fs" and b: "\<And>s. \<not> blocked s (f # fs)"
  shows "settled (popped k)"
proof -
  note v = popped_wview [OF K c]
  have I: "waits_ok k" "cod k (cur k) = Some (f # fs)" using A kinv_cod [OF K] c by (simp_all add: accounted_def)
  have "waits_ok (popped k)" using waits_ok_code [OF I v] b by blast
  moreover have "\<not> sleep_frame g" if "cod (popped k) t = Some d" "g \<in> set d" for t d g
    using that A v kinv_cod [OF K] c by (fastforce simp: accounted_def wview_def split: if_splits)
  ultimately show ?thesis by (auto simp: settled_def)
qed

lemma off_blocked: "blocked s c \<Longrightarrow> c \<noteq> [] \<and> lvl (hd c) = IntOff"
  by (cases c) auto

lemma popped_unblocked:
  assumes K: "kinv k" and A: "accounted k" and c: "code k (cur k) = f # fs" and b: "\<And>s. \<not> blocked s (f # fs)" and l: "leaves f = IntOn" "\<not> final f"
  shows "unblocked (popped k)"
proof -
  have "lvl (hd fs) = IntOn" using kinvD(4) [OF K] c l by simp
  then have "\<not> blocked s fs" for s using off_blocked [of s fs] by auto
  moreover have "cod (popped k) (cur (popped k)) = Some fs" using popped_wview [OF K c] by (simp add: wview_def)
  ultimately show ?thesis using popped_settled [OF K A c b] by (simp add: unblocked_def)
qed

text \<open>Giving up the processor.\<close>

lemma dispatched:
  assumes K: "kinv k" and A: "accounted k" and c: "code k (cur k) = f # fs" and r: "readyList k = n # rs" and tb: "toBeDestroyed k = None"
    and k': "wview k' = ((n, tb', rs'), (cod k)(cur k \<mapsto> Switched # gs), sems k)"
    and rs': "set rs \<subseteq> set rs'" and b: "\<And>s. blocked s (f # fs) \<Longrightarrow> blocked s (Switched # gs)" and g: "\<forall>g \<in> set gs. \<not> sleep_frame g"
    and old: "if tb' = None then cur k \<in> set rs' \<or> placed k (cur k) else tb' = Some (cur k) \<and> cur k \<notin> set (readyList k) \<and> gs = []"
  and K': "kinv k'"
  shows "accounted k'"
proof -
  have W: "waits_ok k" and o: "cod k (cur k) = Some (f # fs)" using A kinv_cod [OF K] c by (simp_all add: accounted_def)
  have e: "cur k' = n" "toBeDestroyed k' = tb'" "readyList k' = rs'" "cod k' = (cod k)(cur k \<mapsto> Switched # gs)" "sems k' = sems k"
    using k' by (simp_all add: wview_def)
  have "counted k' s" if "s < length (sems k)" for s
  proof -
    have w: "counted k s" using W that by (simp add: waits_ok_def)
    have "woken k s \<subseteq> woken k' s" using b o e by (auto simp: woken_def simp del: blocked_simps)
    then have "card (woken k s) \<le> card (woken k' s)" by (rule card_mono [OF finite_woken])
    then show ?thesis using w b [of s] o e by (auto simp: counted_def simp del: blocked_simps)
  qed
  moreover have "placed k' t" if "placed k t" "t \<noteq> n" for t using that r rs' e by (auto simp: placed_def)
  moreover have "placed k t" if "cod k t \<noteq> None" "t \<noteq> cur k" for t using W that tb by (simp add: waits_ok_def)
  moreover have "cur k \<in> set rs' \<Longrightarrow> placed k' (cur k)" using e by (simp add: placed_def)
  ultimately have "waits_ok k'" using e old r by (auto simp: waits_ok_def split: if_splits)
  moreover have s: "\<not> sleep_frame h" if "cod k' t = Some d" "h \<in> set d" for t d h
    using that A g e by (auto simp: accounted_def split: if_splits)
  ultimately have "settled k'" by (auto simp: settled_def)
  then show ?thesis using settled_accounted K' by blast
qed


lemma Run_wview:
  assumes run: "Scheduler_Run n b k = Inr k'" and c: "cod k (cur k) = Some c"
  shows "wview k' = ((n, if b then Some (cur k) else toBeDestroyed k, readyList k), (cod k)(cur k \<mapsto> Switched # c), sems k)"
proof -
  obtain x where x: "get_thread (cur k) k = Inr x" using run by (auto simp: Scheduler_Run_def Let_def get_thread_def split: if_splits elim!: rbindE)
  then have "c = t_code x" using c cod_get by simp
  then have "cod k' = (cod k)(cur k \<mapsto> Switched # c)" using Run_view [OF run x] by (auto simp: cod_def fun_eq_iff)
  then show ?thesis using Run_objects [OF run] Run_ready [OF run] by (simp add: wview_def)
qed

lemma yield_acc:
  assumes K: "kinv k" and A: "accounted k" and c: "code k (cur k) = DoYield # fs" and e: "Thread_Yield (popped k) = Inr k'" and K': "kinv k'"
  shows "accounted k'"
proof -
  have W: "unblocked (popped k)" by (rule popped_unblocked [OF K A c]) simp_all
  note v = popped_wview [OF K c]
  let ?l = "level (popped k)"
  obtain k1 n k2 where k1: "push [SetLevel ?l] (popped k\<lparr>level := IntOff\<rparr>) = Inr k1" "Scheduler_FindNextToRun k1 = Inr (n, k2)"
    "(case n of None \<Rightarrow> Inr k2 | Some t \<Rightarrow> rbind (Scheduler_ReadyToRun (cur k2) k2) (Scheduler_Run t False)) = Inr k'"
    using e by (auto simp: Thread_Yield_def SetLevel_Off_eq split: prod.splits elim!: rbindE)
  have v1: "wview k1 = ((cur k, toBeDestroyed k, readyList k), (cod k)(cur k \<mapsto> SetLevel ?l # fs), sems k)"
    by (rule push_wview [OF k1(1)]) (use v cod_threads [of "popped k\<lparr>level := IntOff\<rparr>" "popped k"] in \<open>auto simp: wview_def\<close>)
  show ?thesis using FindNext_ready [OF k1(2)]
  proof
    assume "readyList k1 = [] \<and> n = None \<and> k2 = k1"
    then have "k' = k1" using k1(3) by simp
    moreover have "unblocked k1" by (rule push_unblocked [OF k1(1)]) (use W in \<open>simp_all add: busy_def\<close>)
    ultimately show ?thesis using settled_accounted [OF unblocked_settled K'] by simp
  next
    assume "\<exists>t r. readyList k1 = t # r \<and> n = Some t \<and> k2 = k1\<lparr>readyList := r\<rparr>"
    then obtain t r k3 where t: "readyList k1 = t # r" "k2 = k1\<lparr>readyList := r\<rparr>" "Scheduler_ReadyToRun (cur k2) k2 = Inr k3" "Scheduler_Run t False k3 = Inr k'"
      using k1(3) by (auto elim!: rbindE)
    have v3: "wview k3 = ((cur k, toBeDestroyed k, r @ [cur k]), (cod k)(cur k \<mapsto> SetLevel ?l # fs), sems k)"
      using ReadyToRun_wview [OF t(3)] v1 t(2) cod_threads [of k2 k1] by (simp add: wview_def)
    then have v': "wview k' = ((t, toBeDestroyed k, r @ [cur k]), (cod k)(cur k \<mapsto> Switched # SetLevel ?l # fs), sems k)"
      using Run_wview [OF t(4), of "SetLevel ?l # fs"] by (simp add: wview_def)
    have r: "readyList k = t # r" "toBeDestroyed k = None" using popped_facts(9) [OF K c] v1 t(1) by (simp_all add: wview_def)
    have "\<forall>g \<in> set (SetLevel ?l # fs). \<not> sleep_frame g" using A kinv_cod [OF K] c by (auto simp: accounted_def)
    then show ?thesis using r(2) by (intro dispatched [OF K A c r v' _ _ _ _ K']) auto
  qed
qed

lemma sleep_acc:
  assumes K: "kinv k" and A: "accounted k" and c: "code k (cur k) = SleepLoop b # fs" and e: "Sleep_loop b (popped k) = Inr k'" and K': "kinv k'"
  shows "accounted k'"
proof -
  note v = popped_wview [OF K c]
  have o: "cod k (cur k) = Some (SleepLoop b # fs)" "waits_ok k" "\<forall>g \<in> set fs. \<not> sleep_frame g" using kinv_cod [OF K] c A by (auto simp: accounted_def)
  have p: "\<not> b \<Longrightarrow> placed k (cur k)" using A c by (simp add: accounted_def)
  obtain n k2 where k1: "Scheduler_FindNextToRun (popped k) = Inr (n, k2)"
    "(case n of None \<Rightarrow> rbind (push [SleepLoop b] k2) Interrupt_Idle | Some t \<Rightarrow> Scheduler_Run t b k2) = Inr k'"
    using e by (auto simp: Sleep_loop_def split: prod.splits elim!: rbindE)
  show ?thesis using FindNext_ready [OF k1(1)]
  proof
    assume "readyList (popped k) = [] \<and> n = None \<and> k2 = popped k"
    then obtain k3 where k3: "push [SleepLoop b] (popped k) = Inr k3" "Interrupt_Idle k3 = Inr k'" using k1(2) by (auto elim!: rbindE)
    have v3: "wview k3 = wview k"
      by (rule push_wview [OF k3(1)]) (use v o in \<open>auto simp: wview_def fun_upd_idem\<close>)
    have "handled k3 k'" by (rule Idle_handled [OF k3(2)])
    then have h: "handled k k'" using handled_left v3 by blast
    then have "waits_ok k'" "cur k' = cur k" "cod k' = cod k" "placed k (cur k) \<Longrightarrow> placed k' (cur k')" using o(2) by (simp_all add: handled_def)
    moreover have "code k' (cur k') = code k (cur k)" using kinv_cod [OF K] kinv_cod [OF K'] calculation by simp
    ultimately show ?thesis using A by (simp add: accounted_def)
  next
    assume "\<exists>t r. readyList (popped k) = t # r \<and> n = Some t \<and> k2 = popped k\<lparr>readyList := r\<rparr>"
    then obtain t r where t: "readyList (popped k) = t # r" "k2 = popped k\<lparr>readyList := r\<rparr>" "Scheduler_Run t b k2 = Inr k'" using k1(2) by auto
    have r: "readyList k = t # r" "toBeDestroyed k = None" using t(1) v popped_facts(9) [OF K c] by (simp_all add: wview_def)
    have v': "wview k' = ((t, if b then Some (cur k) else None, r), (cod k)(cur k \<mapsto> Switched # fs), sems k)"
      using Run_wview [OF t(3), of fs] v t(2) cod_threads [of k2 "popped k"] r(2) by (simp add: wview_def)
    have "b \<Longrightarrow> fs = []" using popped_facts(7) [OF K c] by simp
    moreover have "b \<Longrightarrow> cur k \<notin> set (readyList k)" using sched_okD(6) [OF kinvD(1) [OF K]] c by (auto simp: sleeping_def)
    ultimately show ?thesis using p o(3) by (intro dispatched [OF K A c r v' _ _ _ _ K']) auto
  qed
qed


lemma Destroy_waits_ok:
  assumes e: "Scheduler_CheckToBeDestroyed k = Inr k'" and W: "waits_ok k"
  shows "waits_ok k' \<and> cur k' = cur k \<and> cod k' (cur k) = cod k (cur k) \<and> (\<forall>t c. cod k' t = Some c \<longrightarrow> cod k t = Some c)"
proof (cases "toBeDestroyed k")
  case None
  then show ?thesis using e W by (simp add: Scheduler_CheckToBeDestroyed_def)
next
  case (Some t)
  have t: "t \<noteq> cur k" "cod k t = Some [Switched]" using W Some by (simp_all add: waits_ok_def)
  have k': "k' = k\<lparr>threads := (threads k)[t := None], toBeDestroyed := None\<rparr>"
    using e Some by (auto simp: Scheduler_CheckToBeDestroyed_def Thread_delete_def split: if_splits elim!: rbindE)
  have c: "cod k' = (cod k)(t := None)" by (auto simp: cod_def view_def k' fun_eq_iff nth_list_update)
  have f: "readyList k' = readyList k" "sems k' = sems k" "toBeDestroyed k' = None" "cur k' = cur k" by (simp_all add: k')
  have w: "woken k' s = woken k s" for s using t(2) by (auto simp: woken_def c f)
  have "counted k' s" if "counted k s" for s using that t(2) by (auto simp: counted_def w c f)
  then have "waits_ok k'" using W Some by (auto simp: waits_ok_def c f placed_def)
  then show ?thesis using t(1) c f by simp
qed

lemma Destroy_settled: "Scheduler_CheckToBeDestroyed k = Inr k' \<Longrightarrow> settled k \<Longrightarrow> settled k'" "Scheduler_CheckToBeDestroyed k = Inr k' \<Longrightarrow> unblocked k \<Longrightarrow> unblocked k'"
proof -
  show N: "settled k'" if "Scheduler_CheckToBeDestroyed k = Inr k'" "settled k"
    using Destroy_waits_ok [OF that(1)] that(2) unfolding settled_def by blast
  show "unblocked k'" if "Scheduler_CheckToBeDestroyed k = Inr k'" "unblocked k"
    using Destroy_waits_ok [OF that(1)] that N unfolding unblocked_def settled_def by metis
qed

lemma back_acc:
  assumes K: "kinv k" and A: "accounted k" and c: "code k (cur k) = Switched # fs" and e: "Switched_back (popped k) = Inr k'" and K': "kinv k'"
  shows "accounted k'"
proof -
  have o: "waits_ok k" "cod k (cur k) = Some (Switched # fs)" using A kinv_cod [OF K] c by (simp_all add: accounted_def)
  have "blocked s fs" if "blocked s (Switched # fs)" for s using that by (cases fs) auto
  from waits_ok_code [OF o popped_wview [OF K c] this] have W: "waits_ok (popped k)" .
  have s: "\<not> sleep_frame g" if "cod (popped k) t = Some d" "g \<in> set d" for t d g
    using that A popped_wview [OF K c] o(2) by (fastforce simp: accounted_def wview_def split: if_splits)
  with W have "settled (popped k)" by (auto simp: settled_def)
  moreover obtain k1 where k1: "Scheduler_CheckToBeDestroyed (popped k) = Inr k1" "wview k' = wview k1"
    using e by (auto simp: Switched_back_def split: if_splits option.splits elim!: rbindE)
  ultimately have "settled k'" using Destroy_settled(1) waits_ok_wview(2) by blast
  then show ?thesis using settled_accounted K' by blast
qed

lemma begin_acc:
  assumes K: "kinv k" and A: "accounted k" and c: "code k (cur k) = DoBegin # fs" and e: "Thread_Begin (popped k) = Inr k'" and K': "kinv k'"
  shows "accounted k'"
proof -
  have "unblocked (popped k)" by (rule popped_unblocked [OF K A c]) simp_all
  then have "unblocked k'" using e by (auto simp: Thread_Begin_def elim!: rbindE dest!: op_unblocked dest: Destroy_settled(2))
  then show ?thesis using settled_accounted [OF unblocked_settled K'] by blast
qed

lemma finish_acc:
  assumes K: "kinv k" and A: "accounted k" and c: "code k (cur k) = DoFinish # fs" and e: "Thread_Finish (popped k) = Inr k'" and K': "kinv k'"
  shows "accounted k'"
proof -
  have W: "settled (popped k)" by (rule popped_settled [OF K A c]) simp
  have fs: "fs = []" using popped_facts(7) [OF K c] by simp
  obtain k1 where k1: "push [DoSleep True] (popped k\<lparr>level := IntOff\<rparr>) = Inr k1" "wview k' = wview k1"
    using e by (auto simp: Thread_Finish_def SetLevel_Off_eq elim!: rbindE)
  have v: "wview k' = ((cur k, toBeDestroyed k, readyList k), (cod k)(cur k \<mapsto> [DoSleep True]), sems k)"
    by (rule push_wview [OF k1(1)])
      (use popped_wview [OF K c] cod_threads [of "popped k\<lparr>level := IntOff\<rparr>" "popped k"] fs k1(2) in \<open>auto simp: wview_def\<close>)
  have o: "waits_ok k" "cod k (cur k) = Some [DoFinish]" using A kinv_cod [OF K] c fs by (simp_all add: accounted_def)
  have "waits_ok k'" by (rule waits_ok_code [OF o v]) simp
  moreover have "code k' (cur k') = [DoSleep True]" using kinv_cod [OF K'] v by (simp add: wview_def)
  ultimately show ?thesis using A v by (auto simp: accounted_def wview_def)
qed

lemma fork_acc:
  assumes K: "kinv k" and A: "accounted k" and c: "code k (cur k) = DoFork n # fs" and p: "progs_ok F k" and e: "Thread_Fork (F n) (popped k) = Inr k'" and K': "kinv k'"
  shows "accounted k'"
proof -
  have W: "unblocked (popped k)" by (rule popped_unblocked [OF K A c]) simp_all
  let ?t = "length (threads (popped k))"
  let ?k = "popped k\<lparr>threads := threads (popped k) @ [Some (Thread_new (F n))], level := IntOff\<rparr>"
  obtain k1 where k1: "Scheduler_ReadyToRun ?t ?k = Inr k1" "Interrupt_SetLevel (level (popped k)) k1 = Inr k'"
    using e by (auto simp: Thread_Fork_def Let_def SetLevel_Off_eq elim!: rbindE)
  have "cod ?k t = ((cod (popped k))(?t \<mapsto> t_code (Thread_new (F n)))) t" for t
    by (auto simp: cod_def view_def nth_append saved_def)
  then have c1: "cod ?k = (cod (popped k))(?t \<mapsto> t_code (Thread_new (F n)))" by blast
  have none: "cod (popped k) ?t = None" by (simp add: cod_def view_def)
  have nb: "\<not> blocked s (t_code (Thread_new (F n)))" for s by (simp add: Thread_new_def)
  have ns: "\<not> sleep_frame f" if "f \<in> set (t_code (Thread_new (F n)))" for f
  proof -
    have "f = DoBegin \<or> f = DoFinish \<or> is_call f" using that p by (auto simp: Thread_new_def progs_ok_def)
    then show ?thesis by (cases f) auto
  qed
  have v: "wview k1 = ((cur k, toBeDestroyed k, readyList k @ [?t]), (cod (popped k))(?t \<mapsto> t_code (Thread_new (F n))), sems k)"
    using ReadyToRun_wview [OF k1(1)] c1 popped_wview [OF K c] by (simp add: wview_def)
  have e1: "cur k1 = cur (popped k)" "toBeDestroyed k1 = toBeDestroyed (popped k)" "readyList k1 = readyList (popped k) @ [?t]" "sems k1 = sems (popped k)"
    "cod k1 = (cod (popped k))(?t \<mapsto> t_code (Thread_new (F n)))" using v popped_wview [OF K c] by (simp_all add: wview_def)
  have w: "woken k1 s = woken (popped k) s" for s using none nb by (auto simp: woken_def e1 split: if_splits)
  have "counted k1 s" if "counted (popped k) s" for s using that none by (auto simp: counted_def w e1)
  moreover have "placed (popped k) t \<Longrightarrow> placed k1 t" "placed k1 ?t" for t by (auto simp: placed_def e1)
  moreover have "cod (popped k) (cur (popped k)) \<noteq> None" using popped_wview [OF K c] by (simp add: wview_def)
  then have "cur (popped k) \<noteq> ?t" using none by auto
  ultimately have "unblocked k1" using W none ns by (auto simp: unblocked_def settled_def waits_ok_def e1 split: if_splits)
  then have "unblocked k'" by (rule SetLevel_unblocked [OF k1(2)])
  then show ?thesis using settled_accounted [OF unblocked_settled K'] by blast
qed


text \<open>One turn of the loop of \<^verbatim>\<open>P\<close>.\<close>

lemma P_loop_wview:
  assumes K: "kinv k" and c: "code k (cur k) = PLoop s l # fs" and e: "P_loop s l (popped k) = Inr k'"
  shows "s < length (sems k) \<and>
    (if s_value (sems k ! s) = 0
     then wview k' = ((cur k, toBeDestroyed k, readyList k), (cod k)(cur k \<mapsto> DoSleep False # PLoop s l # fs), (sems k)[s := (sems k ! s)\<lparr>s_queue := queue k s @ [cur k]\<rparr>])
     else wview k' = ((cur k, toBeDestroyed k, readyList k), (cod k)(cur k \<mapsto> SetLevel l # fs), (sems k)[s := (sems k ! s)\<lparr>s_value := s_value (sems k ! s) - 1\<rparr>]))"
proof -
  have s: "s < length (sems k)" using e by (auto simp: P_loop_def get_sem_def split: if_splits elim!: rbindE)
  note v = popped_wview [OF K c]
  have p: "wview k' = ((cur k, toBeDestroyed k, readyList k), (cod k)(cur k \<mapsto> gs @ fs), (sems k)[s := x])" if "push gs (put_sem s x (popped k)) = Inr k'" for gs x
    by (rule push_wview [OF that]) (use v cod_threads [of "put_sem s x (popped k)" "popped k"] in \<open>auto simp: wview_def put_sem_def\<close>)
  have "cur (popped k) = cur k" using v by (simp add: wview_def)
  then show ?thesis using e s by (auto simp: P_loop_def List_Append_def split: if_splits elim!: rbindE dest!: p)
qed

lemma P_acc:
  assumes K: "kinv k" and A: "accounted k" and c: "code k (cur k) = PLoop s l # fs" and e: "P_loop s l (popped k) = Inr k'" and K': "kinv k'"
  shows "accounted k'"
proof -
  have o: "waits_ok k" "cod k (cur k) = Some (PLoop s l # fs)" "\<forall>g \<in> set fs. \<not> sleep_frame g" using A kinv_cod [OF K] c by (auto simp: accounted_def)
  note P = P_loop_wview [OF K c e]
  have free: "cur k \<notin> set (queue k u)" if "u < length (sems k)" for u
    using kinv_free [OF K c] that by (simp add: free_def)
  have cs: "counted k u" if "u < length (sems k)" for u using o(1) that by (simp add: waits_ok_def)
  show ?thesis
  proof (cases "s_value (sems k ! s) = 0")
    case True
    let ?c = "DoSleep False # PLoop s l # fs"
    have f: "cur k' = cur k" "toBeDestroyed k' = toBeDestroyed k" "readyList k' = readyList k" "cod k' = (cod k)(cur k \<mapsto> ?c)"
      "sems k' = (sems k)[s := (sems k ! s)\<lparr>s_queue := queue k s @ [cur k]\<rparr>]" using P True by (simp_all add: wview_def)
    have q: "queue k' u = (if u = s then queue k s @ [cur k] else queue k u)" "s_value (sems k' ! u) = s_value (sems k ! u)" for u
      using P f(5) by (auto simp: nth_list_update)
    have len: "length (sems k') = length (sems k)" by (simp add: f(5))
    have "counted k' u" if u: "u < length (sems k)" for u
    proof -
      have "woken k u \<subseteq> woken k' u" if "u \<noteq> s" using o(2) that by (auto simp: woken_def f(1-4) q)
      then have "card (woken k u) \<le> card (woken k' u)" if "u \<noteq> s" using that by (intro card_mono) simp_all
      then show ?thesis using cs [OF u] free [OF u] o(2) True by (auto simp: counted_def f(1-4) q)
    qed
    moreover have "placed k t \<Longrightarrow> placed k' t" "placed k' (cur k)" for t using P by (auto simp: placed_def f(3) q len)
    ultimately have "waits_ok k'" using o by (auto simp: waits_ok_def f(1-4) len)
    then show ?thesis using A o(3) \<open>placed k' (cur k)\<close> by (auto simp: accounted_def f(1-4))
  next
    case False
    have f: "cur k' = cur k" "toBeDestroyed k' = toBeDestroyed k" "readyList k' = readyList k" "cod k' = (cod k)(cur k \<mapsto> SetLevel l # fs)"
      "sems k' = (sems k)[s := (sems k ! s)\<lparr>s_value := s_value (sems k ! s) - 1\<rparr>]" using P False by (simp_all add: wview_def)
    have q: "queue k' u = queue k u" "s_value (sems k' ! u) = (if u = s then s_value (sems k ! s) - 1 else s_value (sems k ! u))" for u
      using P f(5) by (auto simp: nth_list_update)
    have len: "length (sems k') = length (sems k)" by (simp add: f(5))
    have "counted k' u" if u: "u < length (sems k)" for u
    proof -
      have "woken k' u = (if u = s then woken k s - {cur k} else woken k u)" using o(2) by (auto simp: woken_def f(1-4) q)
      moreover have "cur k \<in> woken k s" using o(2) free P by (auto simp: woken_def)
      ultimately have "int (card (woken k' u)) = (if u = s then int (card (woken k s)) - 1 else int (card (woken k u)))"
        by (simp add: card_Diff_singleton) (metis card_gt_0_iff empty_iff finite_woken of_nat_1 of_nat_diff Suc_leI One_nat_def)
      then show ?thesis using cs [OF u] free [OF u] by (auto simp: counted_def f(1-4) q)
    qed
    moreover have "placed k' = placed k" using P by (simp add: placed_def fun_eq_iff f(3) q len)
    ultimately have "waits_ok k'" using o by (auto simp: waits_ok_def f(1-4) len)
    moreover have "\<not> sleep_frame g" if "cod k' t = Some d" "g \<in> set d" for t d g using that A o(3) by (auto simp: accounted_def f split: if_splits)
    ultimately have "settled k'" by (auto simp: settled_def)
    then show ?thesis using settled_accounted K' by blast
  qed
qed

lemma dosleep_acc:
  assumes K: "kinv k" and A: "accounted k" and c: "code k (cur k) = DoSleep b # fs" and e: "Thread_Sleep b (popped k) = Inr k'" and K': "kinv k'"
  shows "accounted k'"
proof -
  obtain k1 where k1: "with_thread (cur (popped k)) (\<lambda>th. th\<lparr>t_status := BLOCKED\<rparr>) (popped k) = Inr k1" "push [SleepLoop b] k1 = Inr k'"
    using e by (auto simp: Thread_Sleep_def split: if_splits elim!: rbindE)
  have v: "wview k' = ((cur k, toBeDestroyed k, readyList k), (cod k)(cur k \<mapsto> SleepLoop b # fs), sems k)"
    by (rule push_wview [OF k1(2)]) (use status_wview [OF k1(1)] popped_wview [OF K c] in \<open>auto simp: wview_def\<close>)
  have o: "waits_ok k" "cod k (cur k) = Some (DoSleep b # fs)" using A kinv_cod [OF K] c by (simp_all add: accounted_def)
  have "waits_ok k'" by (rule waits_ok_code [OF o v]) auto
  moreover have "placed k' (cur k') = placed k (cur k)" using v by (simp add: placed_def wview_def)
  moreover have "code k' (cur k') = SleepLoop b # fs" using kinv_cod [OF K'] v by (simp add: wview_def)
  ultimately show ?thesis using A v o(2) c by (auto simp: accounted_def wview_def split: if_splits)
qed

lemma kstep_accounted:
  assumes K: "kinv k" and p: "progs_ok F k" and A: "accounted k" and e: "kstep F k = Inr k'"
  shows "accounted k'"
proof -
  have a: "alive k (cur k)" by (rule kinvD(9) [OF K])
  obtain f fs where c: "code k (cur k) = f # fs" using kinvD(4) [OF K] by (cases "code k (cur k)") auto
  have x: "exec_frame f F (popped k) = Inr k'" using e kstep_top [OF a c] by simp
  have K': "kinv k'" using kstep_kinv [OF K p] e by auto
  consider "plain f" | "f = DoYield" | b where "f = SleepLoop b" | "f = Switched" | "f = DoBegin" | n where "f = DoFork n"
    | "f = DoFinish" | s l where "f = PLoop s l" | b where "f = DoSleep b" by (cases f) (auto simp: plain_def)
  then show ?thesis
  proof cases
    case 1
    have "unblocked (popped k)" by (rule popped_unblocked [OF K A c]) (use 1 in \<open>cases f; auto simp: plain_def\<close>)+
    from exec_plain [OF x this 1] show ?thesis using settled_accounted K' by blast
  qed (use x c yield_acc [OF K A _ _ K'] sleep_acc [OF K A _ _ K'] back_acc [OF K A _ _ K'] begin_acc [OF K A _ _ K'] fork_acc [OF K A _ p _ K']
      finish_acc [OF K A _ _ K'] P_acc [OF K A _ _ K'] dosleep_acc [OF K A _ _ K'] in auto)
qed


lemma krun_accounted: "krun F k n k' \<Longrightarrow> kinv k \<Longrightarrow> progs_ok F k \<Longrightarrow> accounted k \<Longrightarrow> kinv k' \<and> progs_ok F k' \<and> accounted k'"
proof (induction rule: krun.induct)
  case (go k n k1 k2)
  then have "kinv k1" "progs_ok F k1" "accounted k1" by simp_all
  then show ?case using kstep_kinv [of k1 F] kstep_accounted [of k1 F k2] go.hyps by auto
qed simp

lemma blocked_one: "blocked s c \<Longrightarrow> blocked s' c \<Longrightarrow> s = s'"
  by (cases c; cases "tl c") auto

lemma waits_at_zero:
  assumes K: "kinv k" and A: "accounted k" and r: "readyList k = []" and c: "code k (cur k) = SleepLoop b # fs" and t: "alive k t" "t \<noteq> cur k \<or> \<not> b"
  shows "\<exists>s < length (sems k). t \<in> set (queue k s) \<and> s_value (sems k ! s) = 0"
proof -
  have W: "waits_ok k" using A by (simp add: accounted_def)
  have d: "toBeDestroyed k = None" using popped_facts(9) [OF K c] by simp
  have p: "\<exists>s < length (sems k). u \<in> set (queue k s)" if "cod k u \<noteq> None" "u \<noteq> cur k \<or> \<not> b" for u
    using W A that d r c by (auto simp: waits_ok_def placed_def accounted_def)
  obtain s where s: "s < length (sems k)" "t \<in> set (queue k s)" using p [of t] cod_alive [OF t(1)] t(2) by auto
  have "woken k s = {}"
  proof (rule ccontr)
    assume "woken k s \<noteq> {}"
    then obtain u c' where u: "cod k u = Some c'" "blocked s c'" "u \<notin> set (queue k s)" by (auto simp: woken_def)
    have "fs = []" if b using popped_facts(7) [OF K c] that by simp
    then have "u \<noteq> cur k \<or> \<not> b" using u kinv_cod [OF K] c by auto
    then obtain s' where s': "s' < length (sems k)" "u \<in> set (queue k s')" using p [of u] u(1) by auto
    then have "counted k s'" using W by (simp add: waits_ok_def)
    then have "blocked s' c'" using s'(2) u(1) by (auto simp: counted_def)
    then show False using blocked_one [OF u(2)] s'(2) u(3) by blast
  qed
  moreover have "counted k s" using W s(1) by (simp add: waits_ok_def)
  ultimately have "s_value (sems k ! s) \<le> 0" using s(2) by (auto simp: counted_def)
  then show ?thesis using s sched_okD(8) [OF kinvD(1) [OF K] s(1)] by (intro exI [of _ s]) simp
qed

section \<open>A thread that waits\<close>

definition one_waits :: kst where
  "one_waits = two_threads\<lparr>pending := [], devs := [],
     threads := [Some \<lparr>t_status = RUNNING, t_code = [DoP 1, DoFinish], t_space = None, t_userRegisters = replicate 40 0, t_result = 0\<rparr>,
                 Some \<lparr>t_status = READY, t_code = [DoBegin, DoV 1, DoFinish], t_space = None, t_userRegisters = replicate 40 0, t_result = 0\<rparr>]\<rparr>"

lemma one_waits_alive: "alive one_waits t \<longleftrightarrow> t = 0 \<or> t = 1"
  by (auto simp: alive_def one_waits_def less_Suc_eq)

lemma one_waits_kinv: "kinv one_waits" "progs_ok (\<lambda>_. []) one_waits"
proof -
  have "sched_ok one_waits"
    by (rule sched_okI) (auto simp: one_waits_alive, auto simp: one_waits_def two_threads_def parked_def less_Suc_eq)
  moreover have "refs_inv one_waits"
    unfolding refs_inv_def one_waits_alive by (auto simp: one_waits_def two_threads_def)
  moreover have "dev_ok one_waits"
    unfolding dev_ok_def one_waits_alive by (auto simp: one_waits_def two_threads_def regs_ok_def pc.ordered_def)
  ultimately show "kinv one_waits" by (simp add: kinv_def) (simp add: one_waits_def two_threads_def)
  show "progs_ok (\<lambda>_. []) one_waits" by (simp add: progs_ok_def)
qed

lemma one_waits_accounted: "accounted one_waits"
proof -
  have "settled one_waits"
    by (auto simp: settled_def waits_ok_def counted_def placed_def cod_def view_def one_waits_def two_threads_def less_Suc_eq saved_def split: if_splits)
  then show ?thesis using settled_accounted one_waits_kinv(1) by blast
qed

lemma one_waits_run:
  "\<exists>k1. kstep (\<lambda>_. []) one_waits = Inr k1 \<and> \<not> dispatching one_waits \<and> (\<exists>k2. kstep (\<lambda>_. []) k1 = Inr k2 \<and> \<not> dispatching k1 \<and>
    (\<exists>k3. kstep (\<lambda>_. []) k2 = Inr k3 \<and> \<not> dispatching k2 \<and> (\<exists>k4. kstep (\<lambda>_. []) k3 = Inr k4 \<and> dispatching k3 \<and>
    cur k4 = 1 \<and> readyList k4 = [] \<and> toBeDestroyed k4 = None \<and> alive k4 0)))"
  by (simp add: step_defs one_waits_def two_threads_def Semaphore_P_def P_loop_def Thread_Sleep_def Sleep_loop_def dispatching_def top_def alive_def)
    (rule exI [of _ False], simp)

section \<open>Properties\<close>

text \<open>
  C12. No thread and no wake-up is lost.  After any number of steps, every live thread runs, is ready, waits on a semaphore or is about to be
  deleted; a semaphore on which threads wait has at most the value of the number of threads woken from it that have yet to
  test it again; and when the processor has nothing to run, every thread that has not finished waits on a semaphore whose value is
  zero, so that only an interrupt can help it.
\<close>

theorem no_lost_wakeup:
  assumes "kinv k0" "progs_ok F k0" "accounted k0" "krun F k0 n k"
  shows "(\<forall>t. (\<exists>x. get_thread t k = Inr x) \<longrightarrow> t = currentThread k \<or> t \<in> set (readyList k) \<or> toBeDestroyed k = Some t \<or>
        (\<exists>s < length (sems k). t \<in> set (s_queue (sems k ! s)))) \<and>
    (\<forall>s < length (sems k). s_queue (sems k ! s) \<noteq> [] \<longrightarrow> s_value (sems k ! s) \<le> int (card (woken k s))) \<and>
    (\<forall>t x b. get_thread t k = Inr x \<and> top k = Some (SleepLoop b) \<and> readyList k = [] \<and> (t \<noteq> currentThread k \<or> \<not> b) \<longrightarrow>
       (\<exists>s < length (sems k). t \<in> set (s_queue (sems k ! s)) \<and> s_value (sems k ! s) = 0))"
proof -
  have k: "kinv k" "accounted k" using krun_accounted [OF assms(4,1-3)] by simp_all
  have W: "waits_ok k" using k(2) by (simp add: accounted_def)
  have a: "alive k t" if "get_thread t k = Inr x" for t x using that by (auto simp: get_thread_def alive_def split: if_splits option.splits)
  have "t = cur k \<or> t \<in> set (readyList k) \<or> toBeDestroyed k = Some t \<or> (\<exists>s < length (sems k). t \<in> set (queue k s))" if "alive k t" for t
    using W cod_alive [OF that] by (auto simp: waits_ok_def placed_def)
  moreover have "s_value (sems k ! s) \<le> int (card (woken k s))" if "s < length (sems k)" "queue k s \<noteq> []" for s
    using W that by (simp add: waits_ok_def counted_def)
  moreover have "\<exists>s < length (sems k). t \<in> set (queue k s) \<and> s_value (sems k ! s) = 0"
    if "alive k t" "top k = Some (SleepLoop b)" "readyList k = []" "t \<noteq> cur k \<or> \<not> b" for t b
  proof -
    have "code k (cur k) = SleepLoop b # tl (code k (cur k))" using that(2) kinvD(9) [OF k(1)] by (auto simp: top_def split: list.splits)
    from waits_at_zero [OF k that(3) this that(1,4)] show ?thesis .
  qed
  ultimately show ?thesis using a by blast
qed

theorem no_lost_wakeup_witness:
  "\<exists>k. krun (\<lambda>_. []) one_waits 1 k \<and> currentThread k = 1 \<and> (\<exists>s < length (sems k). 0 \<in> set (s_queue (sems k ! s)))"
proof -
  obtain k1 k2 k3 k4 where k: "kstep (\<lambda>_. []) one_waits = Inr k1" "\<not> dispatching one_waits" "kstep (\<lambda>_. []) k1 = Inr k2" "\<not> dispatching k1"
    "kstep (\<lambda>_. []) k2 = Inr k3" "\<not> dispatching k2" "kstep (\<lambda>_. []) k3 = Inr k4" "dispatching k3" "cur k4 = 1" "readyList k4 = []" "toBeDestroyed k4 = None" "alive k4 0"
    using one_waits_run by blast
  have r: "krun (\<lambda>_. []) one_waits 1 k4"
    using krun.go [OF krun.go [OF krun.go [OF krun.go [OF krun.stay k(1)] k(3)] k(5)] k(7)] k(2,4,6,8) by simp
  have "get_thread 0 k4 = Inr (th k4 0)" using k(12) by simp
  then show ?thesis using no_lost_wakeup [OF one_waits_kinv one_waits_accounted r] r k(9-11) by (intro exI [of _ k4]) fastforce
qed

end
