(* ===== verification/Kernel.thy ===== *)
theory Kernel
  imports HashTable Wakeups
begin

text \<open>
  Starting the kernel (\<^verbatim>\<open>threads/kernel.cc\<close>, \<^verbatim>\<open>threads/main.cc\<close>): the constructors of the synchronization objects and of the
  devices, \<^verbatim>\<open>Kernel::Initialize\<close> up to the file system, and that the kernel it leaves satisfies the invariants on which the
  theorems of the thread system rest.  The command line: the loop of the constructor of \<^verbatim>\<open>Kernel\<close> and the one of \<^verbatim>\<open>main\<close>, and what
  \<^verbatim>\<open>main\<close> then does, in order.
\<close>

section \<open>Constructors\<close>

definition Semaphore_new :: "int \<Rightarrow> kst \<Rightarrow> nat \<times> kst" where
  "Semaphore_new initialValue k = (length (sems k), k\<lparr>sems := sems k @ [\<lparr>s_value = initialValue, s_queue = []\<rparr>]\<rparr>)"

definition Lock_new :: "kst \<Rightarrow> nat \<times> kst" where
  "Lock_new k =
     (let (s, k) = Semaphore_new 1 k in
      (length (locks k), k\<lparr>locks := locks k @ [\<lparr>lockHolder = None, l_semaphore = s\<rparr>]\<rparr>))"

definition Condition_new :: "kst \<Rightarrow> nat \<times> kst" where
  "Condition_new k = (length (conds k), k\<lparr>conds := conds k @ [[]]\<rparr>)"

definition SynchList_new :: "kst \<Rightarrow> nat \<times> kst" where
  "SynchList_new k =
     (let (l, k) = Lock_new k; (c, k) = Condition_new k in
      (length (lists k), k\<lparr>lists := lists k @ [\<lparr>sl_list = [], sl_lock = l, sl_cond = c\<rparr>]\<rparr>))"

definition Interrupt_new :: "kst \<Rightarrow> kst" where
  "Interrupt_new k = k\<lparr>level := IntOff, pending := [], inHandler := False, yieldOnReturn := False, mstatus := SystemMode\<rparr>"

definition Scheduler_new :: "kst \<Rightarrow> kst" where
  "Scheduler_new k = k\<lparr>readyList := [], toBeDestroyed := None\<rparr>"

definition Timer_new :: "bool \<Rightarrow> kst \<Rightarrow> kst res" where
  "Timer_new doRandom k = Timer_SetInterrupt (k\<lparr>randomize := doRandom, timerDisable := False\<rparr>)"

definition Alarm_new :: "bool \<Rightarrow> kst \<Rightarrow> kst res" where
  "Alarm_new doRandom k = Timer_new doRandom k"

definition ConsoleInput_new :: "kst \<Rightarrow> kst res" where
  "ConsoleInput_new k = Interrupt_Schedule KeyboardDev ConsoleTime (k\<lparr>incoming := 255\<rparr>)"

definition SynchConsoleInput_new :: "kst \<Rightarrow> kst res" where
  "SynchConsoleInput_new k =
     rbind (ConsoleInput_new k) (\<lambda>k.
     let (l, k) = Lock_new k; (s, k) = Semaphore_new 0 k in Inr (k\<lparr>keyLock := l, keySem := s\<rparr>))"

text \<open>The display and the disk are devices that complete requests; each is not busy at first.\<close>

definition SynchConsoleOutput_new :: "kst \<Rightarrow> kst" where
  "SynchConsoleOutput_new k =
     (let (l, k) = Lock_new k; (s, k) = Semaphore_new 0 k in
      k\<lparr>devs := devs k @ [\<lparr>rd_busy = False, rd_sem = s, rd_lock = l\<rparr>]\<rparr>)"

definition SynchDisk_init :: "kst \<Rightarrow> kst" where
  "SynchDisk_init k =
     (let (s, k) = Semaphore_new 0 k; (l, k) = Lock_new k in
      k\<lparr>devs := devs k @ [\<lparr>rd_busy = False, rd_sem = s, rd_lock = l\<rparr>]\<rparr>)"

text \<open>
  \<^verbatim>\<open>Kernel::Initialize\<close>.  \<open>blank\<close> is the kernel object before it: what the fields hold does not matter to what follows.
  \<open>body\<close> is what \<^verbatim>\<open>main\<close> goes on to call; \<open>m\<close> is the new \<^verbatim>\<open>Machine\<close>; the file system and the post office are not here.
\<close>

definition Kernel_Initialize :: "bool \<Rightarrow> machine \<Rightarrow> frame list \<Rightarrow> (nat \<Rightarrow> nat) \<Rightarrow> poll list \<Rightarrow> kst \<Rightarrow> kst res" where
  "Kernel_Initialize randomSlice m body rnd keys blank =
     (let k = blank\<lparr>threads := [Some ((Thread_new [])\<lparr>t_status := RUNNING, t_code := body\<rparr>)], currentThread := 0,
                now := 0, idleTicks := 0, systemTicks := 0, userTicks := 0, serial := 0, sems := [], locks := [], conds := [],
                lists := [], devs := [], randoms := rnd, drawn := 0, keyboard := keys, halted := False\<rparr> in
      rbind (Alarm_new randomSlice (Scheduler_new (Interrupt_new k))) (\<lambda>k.
      rbind (SynchConsoleInput_new (k\<lparr>kmach := m\<rparr>)) (\<lambda>k.
      Interrupt_SetLevel IntOn (SynchDisk_init (SynchConsoleOutput_new k)))))"

section \<open>The kernel it makes\<close>

text \<open>The state before interrupts are enabled, with the timer's first interrupt after \<open>d\<close>.\<close>

definition started :: "bool \<Rightarrow> machine \<Rightarrow> frame list \<Rightarrow> (nat \<Rightarrow> nat) \<Rightarrow> poll list \<Rightarrow> int \<Rightarrow> nat \<Rightarrow> kst" where
  "started rs m body rnd keys d n = \<lparr>level = IntOff,
     pending = (if d \<le> 100 then [\<lparr>p_when = d, p_dev = TimerDev, p_serial = 0\<rparr>, \<lparr>p_when = 100, p_dev = KeyboardDev, p_serial = 1\<rparr>]
                else [\<lparr>p_when = 100, p_dev = KeyboardDev, p_serial = 1\<rparr>, \<lparr>p_when = d, p_dev = TimerDev, p_serial = 0\<rparr>]),
     inHandler = False, yieldOnReturn = False, mstatus = SystemMode, now = 0, idleTicks = 0, systemTicks = 0, userTicks = 0, serial = 2,
     readyList = [], toBeDestroyed = None, currentThread = 0,
     threads = [Some ((Thread_new [])\<lparr>t_status := RUNNING, t_code := body\<rparr>)],
     sems = [\<lparr>s_value = 1, s_queue = []\<rparr>, \<lparr>s_value = 0, s_queue = []\<rparr>, \<lparr>s_value = 1, s_queue = []\<rparr>, \<lparr>s_value = 0, s_queue = []\<rparr>,
             \<lparr>s_value = 0, s_queue = []\<rparr>, \<lparr>s_value = 1, s_queue = []\<rparr>],
     locks = [\<lparr>lockHolder = None, l_semaphore = 0\<rparr>, \<lparr>lockHolder = None, l_semaphore = 2\<rparr>, \<lparr>lockHolder = None, l_semaphore = 5\<rparr>],
     conds = [], lists = [], devs = [\<lparr>rd_busy = False, rd_sem = 3, rd_lock = 1\<rparr>, \<lparr>rd_busy = False, rd_sem = 4, rd_lock = 2\<rparr>],
     randomize = rs, timerDisable = False, randoms = rnd, drawn = n, keyboard = keys, incoming = 255, keySem = 1, keyLock = 0,
     kmach = m, halted = False\<rparr>"

lemma Initialize_eq:
  "Kernel_Initialize rs m body rnd keys blank =
     Interrupt_SetLevel IntOn (started rs m body rnd keys (if rs then 1 + int (rnd 0) mod 200 else 100) (if rs then 1 else 0))"
proof -
  define d where "d = (if rs then 1 + int (rnd 0) mod 200 else 100)"
  have d: "0 < d" "d \<noteq> 100 \<or> d = 100" by (auto simp: d_def)
  have "Kernel_Initialize rs m body rnd keys blank = Interrupt_SetLevel IntOn (started rs m body rnd keys d (if rs then 1 else 0))"
    using d by (cases blank; cases rs)
      (auto simp: eval_nat_numeral Kernel_Initialize_def Alarm_new_def Timer_new_def Timer_SetInterrupt_def Interrupt_Schedule_def Interrupt_new_def
        Scheduler_new_def SynchConsoleInput_new_def ConsoleInput_new_def SynchConsoleOutput_new_def SynchDisk_init_def Lock_new_def Semaphore_new_def
        Let_def Sorted_Insert_def PendingCompare_def TimerTicks_def ConsoleTime_def started_def d_def)
  then show ?thesis by (simp add: d_def)
qed

lemma Initialize_started:
  "\<exists>d n. 0 < d \<and> Kernel_Initialize rs m body rnd keys blank = Interrupt_SetLevel IntOn (started rs m body rnd keys d n)"
proof -
  have "0 < (if rs then 1 + int (rnd 0) mod 200 else 100)" by auto
  then show ?thesis using Initialize_eq by blast
qed

text \<open>What \<^verbatim>\<open>main\<close> and the forked functions may call in it.\<close>

fun exists_at_boot :: "frame \<Rightarrow> bool" where
  "exists_at_boot (DoP s) = (s < 6)"
| "exists_at_boot (DoV s) = (s < 6)"
| "exists_at_boot (DoAcquire l) = (l < 3)"
| "exists_at_boot (DoRelease l) = (l < 3)"
| "exists_at_boot (Request d delay) = (d < 2 \<and> 0 < delay)"
| "exists_at_boot f = (f = DoYield \<or> f = KeyGet \<or> (\<exists>n. f = DoFork n) \<or> (\<exists>sp. f = DoExecute sp))"

definition may_call :: "frame list \<Rightarrow> bool" where
  "may_call fs \<longleftrightarrow> (\<forall>f \<in> set fs. exists_at_boot f)"

lemma may_callD:
  assumes "may_call fs" "f \<in> set fs"
  shows "is_call f \<and> refs_ok (started rs m body rnd keys d n) f"
proof -
  have "exists_at_boot f" using assms by (simp add: may_call_def)
  then show ?thesis by (cases f) (simp_all add: started_def)
qed

lemma started_alive: "alive (started rs m body rnd keys d n) t \<longleftrightarrow> t = 0"
  by (auto simp: alive_def started_def)

lemma started_base:
  assumes "0 < d" "may_call main" "regs_ok (registers m)"
  shows "base (started rs m (main @ [DoFinish]) rnd keys d n)" (is "base ?k")
proof -
  have S: "sched_ok ?k"
    by (rule sched_okI) (auto simp: started_alive, auto simp: started_def less_Suc_eq eval_nat_numeral)
  have "\<forall>f \<in> set (main @ [DoFinish]). refs_ok ?k f"
    using may_callD [OF assms(2)] by auto
  moreover have "refs_inv ?k \<longleftrightarrow> (\<forall>f \<in> set (main @ [DoFinish]). refs_ok ?k f)"
    unfolding refs_inv_def started_alive by (simp add: started_def Thread_new_def)
  ultimately have "refs_inv ?k" by simp
  moreover have "dev_ok ?k" unfolding dev_ok_def started_alive using assms(1,3)
    by (simp add: started_def ordered_when regs_ok_def Thread_new_def NumTotalRegs_def)
  moreover have "awake ?k" by (auto simp: awake_def started_def less_Suc_eq eval_nat_numeral)
  moreover have "\<not> inHandler ?k" by (simp add: started_def)
  ultimately show ?thesis using S by (simp add: base_def)
qed

lemma started_linv:
  assumes "may_call main" "\<forall>f \<in> set main. f \<noteq> DoP s \<and> f \<noteq> DoV s" "l < 3" "s = [0, 2, 5] ! l"
  shows "linv l s 0 (started rs m (main @ [DoFinish]) rnd keys d n)" (is "linv l s 0 ?k")
proof -
  have p: "\<forall>f \<in> set main. is_call f \<and> f \<noteq> DoP s \<and> f \<noteq> DoV s" using may_callD [OF assms(1)] assms(2) by blast
  have st: "stacks ?k = [Some (main @ [DoFinish])]" by (simp add: stacks_def started_def)
  have "l = 0 \<or> l = 1 \<or> l = 2" using assms(3) by auto
  then have "l_semaphore (locks ?k ! l) = s \<and> s_value (sems ?k ! s) = 1 \<and> s < length (sems ?k) \<and> held (locks ?k ! l) = 0 \<and>
      (\<forall>l' < length (locks ?k). l' \<noteq> l \<longrightarrow> l_semaphore (locks ?k ! l') \<noteq> s) \<and> (\<forall>x \<in> set (devs ?k). rd_sem x \<noteq> s) \<and> keySem ?k \<noteq> s"
    using assms(4) by (auto simp: started_def held_def less_Suc_eq eval_nat_numeral)
  moreover have "l < length (locks ?k)" "conds ?k = []" "toBeDestroyed ?k = None" using assms(3) by (simp_all add: started_def)
  ultimately show ?thesis using calls_free [OF p, of l] unfolding linv_def st by (simp add: total_weight_def)
qed

section \<open>The command line\<close>

text \<open>The parameters of the kernel.  \<open>kp_seed\<close> is the argument of \<^verbatim>\<open>RandomInit\<close>, \<open>kp_reliability\<close> that of \<^verbatim>\<open>atof\<close> (none: \<^verbatim>\<open>1\<close>).\<close>

record kparams =
  kp_randomSlice :: bool
  kp_seed :: "int option"
  kp_debugUserProg :: bool
  kp_consoleIn :: "string option"
  kp_consoleOut :: "string option"
  kp_formatFlag :: bool
  kp_reliability :: "string option"
  kp_hostName :: int

text \<open>The loop over the arguments; \<open>stub\<close> is \<^verbatim>\<open>FILESYS_STUB\<close>.\<close>

fun Kernel_args :: "bool \<Rightarrow> string list \<Rightarrow> kparams \<Rightarrow> kparams res" where
  "Kernel_args stub [] p = Inr p"
| "Kernel_args stub (a # as) p =
     (if a = ''-rs'' then
        (case as of [] \<Rightarrow> Inl AssertFail | v # as' \<Rightarrow> Kernel_args stub as' (p\<lparr>kp_seed := Some (atoi v), kp_randomSlice := True\<rparr>))
      else if a = ''-s'' then Kernel_args stub as (p\<lparr>kp_debugUserProg := True\<rparr>)
      else if a = ''-ci'' then
        (case as of [] \<Rightarrow> Inl AssertFail | v # as' \<Rightarrow> Kernel_args stub as' (p\<lparr>kp_consoleIn := Some v\<rparr>))
      else if a = ''-co'' then
        (case as of [] \<Rightarrow> Inl AssertFail | v # as' \<Rightarrow> Kernel_args stub as' (p\<lparr>kp_consoleOut := Some v\<rparr>))
      else if \<not> stub \<and> a = ''-f'' then Kernel_args stub as (p\<lparr>kp_formatFlag := True\<rparr>)
      else if a = ''-n'' then
        (case as of [] \<Rightarrow> Inl AssertFail | v # as' \<Rightarrow> Kernel_args stub as' (p\<lparr>kp_reliability := Some v\<rparr>))
      else if a = ''-m'' then
        (case as of [] \<Rightarrow> Inl AssertFail | v # as' \<Rightarrow> Kernel_args stub as' (p\<lparr>kp_hostName := atoi v\<rparr>))
      else Kernel_args stub as p)"

definition Kernel_new :: "bool \<Rightarrow> string list \<Rightarrow> kparams res" where
  "Kernel_new stub argv =
     Kernel_args stub (tl argv) \<lparr>kp_randomSlice = False, kp_seed = None, kp_debugUserProg = False, kp_consoleIn = None, kp_consoleOut = None,
       kp_formatFlag = False, kp_reliability = None, kp_hostName = 0\<rparr>"

text \<open>\<^verbatim>\<open>main\<close>.\<close>

record mflags =
  debugArg :: string
  userProgName :: "string option"
  threadTestFlag :: bool
  consoleTestFlag :: bool
  networkTestFlag :: bool
  copyNames :: "(string \<times> string) option"
  printFileName :: "string option"
  removeFileName :: "string option"
  dirListFlag :: bool
  dumpFlag :: bool

fun main_args :: "bool \<Rightarrow> string list \<Rightarrow> mflags \<Rightarrow> mflags res" where
  "main_args stub [] g = Inr g"
| "main_args stub (a # as) g =
     (if a = ''-d'' then
        (case as of [] \<Rightarrow> Inl AssertFail | v # as' \<Rightarrow> main_args stub as' (g\<lparr>debugArg := v\<rparr>))
      else if a = ''-x'' then
        (case as of [] \<Rightarrow> Inl AssertFail | v # as' \<Rightarrow> main_args stub as' (g\<lparr>userProgName := Some v\<rparr>))
      else if a = ''-K'' then main_args stub as (g\<lparr>threadTestFlag := True\<rparr>)
      else if a = ''-C'' then main_args stub as (g\<lparr>consoleTestFlag := True\<rparr>)
      else if a = ''-N'' then main_args stub as (g\<lparr>networkTestFlag := True\<rparr>)
      else if \<not> stub \<and> a = ''-cp'' then
        (case as of v # w # as' \<Rightarrow> main_args stub as' (g\<lparr>copyNames := Some (v, w)\<rparr>) | _ \<Rightarrow> Inl AssertFail)
      else if \<not> stub \<and> a = ''-p'' then
        (case as of [] \<Rightarrow> Inl AssertFail | v # as' \<Rightarrow> main_args stub as' (g\<lparr>printFileName := Some v\<rparr>))
      else if \<not> stub \<and> a = ''-r'' then
        (case as of [] \<Rightarrow> Inl AssertFail | v # as' \<Rightarrow> main_args stub as' (g\<lparr>removeFileName := Some v\<rparr>))
      else if \<not> stub \<and> a = ''-l'' then main_args stub as (g\<lparr>dirListFlag := True\<rparr>)
      else if \<not> stub \<and> a = ''-D'' then main_args stub as (g\<lparr>dumpFlag := True\<rparr>)
      else main_args stub as g)"

text \<open>What \<^verbatim>\<open>main\<close> does once the kernel is up, in order; \<^verbatim>\<open>RunProgram\<close> does not return unless the program cannot be loaded.\<close>

datatype action = ThreadSelfTest | ConsoleTest | NetworkTest | RemoveFile string | CopyFile string string | DumpFiles | ListFiles
  | PrintFile string | RunProgram string | HaltMachine

definition main_actions :: "mflags \<Rightarrow> action list" where
  "main_actions g =
     (if threadTestFlag g then [ThreadSelfTest] else []) @
     (if consoleTestFlag g then [ConsoleTest] else []) @
     (if networkTestFlag g then [NetworkTest] else []) @
     (case removeFileName g of None \<Rightarrow> [] | Some f \<Rightarrow> [RemoveFile f]) @
     (case copyNames g of None \<Rightarrow> [] | Some (f, t) \<Rightarrow> [CopyFile f t]) @
     (if dumpFlag g then [DumpFiles] else []) @
     (if dirListFlag g then [ListFiles] else []) @
     (case printFileName g of None \<Rightarrow> [] | Some f \<Rightarrow> [PrintFile f]) @
     (case userProgName g of None \<Rightarrow> [] | Some f \<Rightarrow> [RunProgram f]) @
     [HaltMachine]"

text \<open>The options as a user means them, and the words for them.\<close>

datatype opt = ORandom string | OStep | OIn string | OOut string | OFormat | ONet string | OHost string
  | ODebug string | OCopyright | OProgram string | OThreads | OConsole | ONetwork | OCopy string string | OPrint string | ORemove string
  | OList | ODump | OUsage

fun opt_words :: "opt \<Rightarrow> string list" where
  "opt_words (ORandom v) = [''-rs'', v]" | "opt_words OStep = [''-s'']" | "opt_words (OIn v) = [''-ci'', v]" | "opt_words (OOut v) = [''-co'', v]"
| "opt_words OFormat = [''-f'']" | "opt_words (ONet v) = [''-n'', v]" | "opt_words (OHost v) = [''-m'', v]" | "opt_words (ODebug v) = [''-d'', v]"
| "opt_words OCopyright = [''-z'']" | "opt_words (OProgram v) = [''-x'', v]" | "opt_words OThreads = [''-K'']" | "opt_words OConsole = [''-C'']"
| "opt_words ONetwork = [''-N'']" | "opt_words (OCopy v w) = [''-cp'', v, w]" | "opt_words (OPrint v) = [''-p'', v]"
| "opt_words (ORemove v) = [''-r'', v]" | "opt_words OList = [''-l'']" | "opt_words ODump = [''-D'']" | "opt_words OUsage = [''-u'']"

fun opt_kernel :: "opt \<Rightarrow> kparams \<Rightarrow> kparams" where
  "opt_kernel (ORandom v) p = p\<lparr>kp_seed := Some (atoi v), kp_randomSlice := True\<rparr>"
| "opt_kernel OStep p = p\<lparr>kp_debugUserProg := True\<rparr>"
| "opt_kernel (OIn v) p = p\<lparr>kp_consoleIn := Some v\<rparr>"
| "opt_kernel (OOut v) p = p\<lparr>kp_consoleOut := Some v\<rparr>"
| "opt_kernel OFormat p = p\<lparr>kp_formatFlag := True\<rparr>"
| "opt_kernel (ONet v) p = p\<lparr>kp_reliability := Some v\<rparr>"
| "opt_kernel (OHost v) p = p\<lparr>kp_hostName := atoi v\<rparr>"
| "opt_kernel _ p = p"

fun opt_main :: "opt \<Rightarrow> mflags \<Rightarrow> mflags" where
  "opt_main (ODebug v) g = g\<lparr>debugArg := v\<rparr>"
| "opt_main (OProgram v) g = g\<lparr>userProgName := Some v\<rparr>"
| "opt_main OThreads g = g\<lparr>threadTestFlag := True\<rparr>"
| "opt_main OConsole g = g\<lparr>consoleTestFlag := True\<rparr>"
| "opt_main ONetwork g = g\<lparr>networkTestFlag := True\<rparr>"
| "opt_main (OCopy v w) g = g\<lparr>copyNames := Some (v, w)\<rparr>"
| "opt_main (OPrint v) g = g\<lparr>printFileName := Some v\<rparr>"
| "opt_main (ORemove v) g = g\<lparr>removeFileName := Some v\<rparr>"
| "opt_main OList g = g\<lparr>dirListFlag := True\<rparr>"
| "opt_main ODump g = g\<lparr>dumpFlag := True\<rparr>"
| "opt_main _ g = g"

text \<open>Arguments that do not look like options.\<close>

definition opt_names :: "string list" where
  "opt_names = [''-rs'', ''-s'', ''-ci'', ''-co'', ''-f'', ''-n'', ''-m'', ''-d'', ''-z'', ''-x'', ''-K'', ''-C'', ''-N'', ''-cp'', ''-p'', ''-r'', ''-l'', ''-D'', ''-u'']"

definition plain_args :: "opt \<Rightarrow> bool" where
  "plain_args x \<longleftrightarrow> (\<forall>v \<in> set (tl (opt_words x)). v \<notin> set opt_names)"

lemma Kernel_args_opt: "plain_args x \<Longrightarrow> Kernel_args False (opt_words x @ as) p = Kernel_args False as (opt_kernel x p)"
  by (cases x) (simp_all add: plain_args_def opt_names_def)

lemma main_args_opt: "plain_args x \<Longrightarrow> main_args False (opt_words x @ as) g = main_args False as (opt_main x g)"
  by (cases x) (simp_all add: plain_args_def opt_names_def)

lemma started_unblocked:
  assumes "may_call main"
  shows "unblocked (started rs m (main @ [DoFinish]) rnd keys d n)" (is "unblocked ?k")
proof -
  have c: "cod ?k t = (if t = 0 then Some (main @ [DoFinish]) else None)" for t
    by (simp add: cod_def view_def started_def saved_def Thread_new_def)
  have f: "is_call f" if "f \<in> set main" for f using may_callD [OF assms that] by blast
  have s: "\<not> sleep_frame g" if "g \<in> set main" for g using f [OF that] by (cases g) auto
  have q: "queue ?k s = []" if "s < length (sems ?k)" for s using that by (auto simp: started_def less_Suc_eq eval_nat_numeral)
  have "\<not> blocked s (main @ [DoFinish])" for s using f [of "hd main"] by (cases main) auto
  moreover have "cur ?k = 0" "toBeDestroyed ?k = None" by (simp_all add: started_def)
  ultimately show ?thesis using s q by (auto simp: unblocked_def settled_def waits_ok_def counted_def c split: if_splits)
qed

section \<open>Properties\<close>





end
