(* ===== verification/Syscall.thy ===== *)
theory Syscall
  imports MipsSim Host
begin

text \<open>
  Entering the kernel (\<^verbatim>\<open>userprog/exception.cc\<close>, \<^verbatim>\<open>userprog/ksyscall.h\<close>, the character streams of
  \<^verbatim>\<open>userprog/synchconsole.cc\<close>): copying between user and kernel memory, one definition per system call,
  and the exception handler.  The kernel state is the machine, the stub file system, the host, and the
  console streams.

  A trap taken inside the kernel (a bad user pointer) re-enters the handler, which stops the kernel for
  everything but system calls: it is the fault \<open>AssertFail\<close>.  Memory the kernel allocates is assumed to
  be there.
\<close>

record 'h kern =
  k_mach :: machine
  k_fs :: stubfs
  k_host :: 'h
  k_in :: "byte list"       \<comment> \<open>what will still be typed\<close>
  k_eof :: bool             \<comment> \<open>the input device has delivered EOF and stopped polling\<close>
  k_out :: "byte list"      \<comment> \<open>what has been displayed\<close>

datatype 'k hres = Returned 'k | Halted 'k

definition MaxFileLength :: int where "MaxFileLength = 32"
definition MaxLenghtData :: int where "MaxLenghtData = 1024"

section \<open>User memory\<close>

definition kread :: "32 word \<Rightarrow> machine \<Rightarrow> (32 word \<times> machine) res" where
  "kread a m = rbind (Machine_ReadMem a 1 m) (\<lambda>(r, m). case r of Inl e \<Rightarrow> Inl AssertFail | Inr v \<Rightarrow> Inr (v, m))"

definition kwrite :: "32 word \<Rightarrow> 32 word \<Rightarrow> machine \<Rightarrow> machine res" where
  "kwrite a v m = rbind (Machine_WriteMem a 1 v m) (\<lambda>(r, m). case r of Inl e \<Rightarrow> Inl AssertFail | Inr _ \<Rightarrow> Inr m)"

text \<open>The two copying loops, over the routine that reads or writes one byte.\<close>

primrec u2s_loop :: "(32 word \<Rightarrow> 'm \<Rightarrow> (32 word \<times> 'm) res) \<Rightarrow> nat \<Rightarrow> 32 word \<Rightarrow> 'm \<Rightarrow> (byte list \<times> 'm) res" where
  "u2s_loop rd 0 a m = Inr ([], m)"
| "u2s_loop rd (Suc n) a m =
     rbind (rd a m) (\<lambda>(oneChar, m).
     if oneChar = 0 then Inr ([ucast oneChar], m)
     else rbind (u2s_loop rd n (a + 1) m) (\<lambda>(bs, m). Inr (ucast oneChar # bs, m)))"

primrec s2u_loop :: "(32 word \<Rightarrow> 32 word \<Rightarrow> 'm \<Rightarrow> 'm res) \<Rightarrow> nat \<Rightarrow> 32 word \<Rightarrow> byte list \<Rightarrow> 'm \<Rightarrow> (int \<times> 'm) res" where
  "s2u_loop wr 0 a buf m = Inr (0, m)"
| "s2u_loop wr (Suc n) a buf m = (case buf of
     [] \<Rightarrow> Inl BadIndex
   | b # bs \<Rightarrow>
       rbind (wr a (scast b) m) (\<lambda>m.
       if n > 0 \<and> b \<noteq> 0 then rbind (s2u_loop wr n (a + 1) bs m) (\<lambda>(i, m). Inr (i + 1, m))
       else Inr (1, m)))"

definition User2System :: "32 word \<Rightarrow> int \<Rightarrow> machine \<Rightarrow> (byte list \<times> machine) res" where
  "User2System virtAddr limit m =
     rbind (chk (limit + 1)) (\<lambda>n.
     if n < 0 then Inl BadAlloc
     else
       rbind (u2s_loop kread (nat limit) virtAddr m) (\<lambda>(bs, m).
       Inr (bs @ replicate (nat n - length bs) 0, m)))"

definition System2User :: "32 word \<Rightarrow> int \<Rightarrow> byte list \<Rightarrow> machine \<Rightarrow> (int \<times> machine) res" where
  "System2User virtAddr len buffer m =
     (if len < 0 then Inr (-1, m)
      else if len = 0 then Inr (len, m)
      else s2u_loop kwrite (nat len) virtAddr buffer m)"

definition cstr :: "byte list \<Rightarrow> byte list" where
  "cstr buf = takeWhile (\<lambda>b. b \<noteq> 0) buf"

definition k_copyin :: "32 word \<Rightarrow> int \<Rightarrow> 'h kern \<Rightarrow> (byte list \<times> 'h kern) res" where
  "k_copyin a n k = rbind (User2System a n (k_mach k)) (\<lambda>(bs, m). Inr (bs, k\<lparr>k_mach := m\<rparr>))"

definition k_copyout :: "32 word \<Rightarrow> int \<Rightarrow> byte list \<Rightarrow> 'h kern \<Rightarrow> 'h kern res" where
  "k_copyout a n buf k = rbind (System2User a n buf (k_mach k)) (\<lambda>(_, m). Inr (k\<lparr>k_mach := m\<rparr>))"

section \<open>The console streams\<close>

text \<open>
  \<^verbatim>\<open>SynchConsoleInput::GetChar\<close> as its caller sees it: the next byte typed; at the end of the input, or when the
  byte read is \<^verbatim>\<open>EOF\<close> itself, the device stops polling and the next wait is for ever.
\<close>

definition Console_GetChar :: "'h kern \<Rightarrow> (byte \<times> 'h kern) res" where
  "Console_GetChar k =
     (if k_eof k then Inl Blocked
      else case k_in k of
        [] \<Rightarrow> Inr (0xff, k\<lparr>k_eof := True\<rparr>)
      | c # cs \<Rightarrow> Inr (c, k\<lparr>k_in := cs, k_eof := (c = 0xff)\<rparr>))"

function GetString_loop :: "int \<Rightarrow> int \<Rightarrow> byte list \<Rightarrow> 'h kern \<Rightarrow> (int \<times> byte list \<times> 'h kern) res" where
  "GetString_loop i sz buffer k =
     (if i < sz - 1 then
        rbind (Console_GetChar k) (\<lambda>(c, k).
        if c = 10 \<or> c = 0 then Inr (i, buffer, k)
        else rbind (aput buffer i c) (\<lambda>buffer. GetString_loop (i + 1) sz buffer k))
      else Inr (i, buffer, k))"
  by pat_completeness auto
termination
  by (relation "measure (\<lambda>(i, sz, buffer, k). nat (sz - 1 - i))") auto

declare GetString_loop.simps [simp del]

definition Console_GetString :: "byte list \<Rightarrow> int \<Rightarrow> 'h kern \<Rightarrow> (int \<times> byte list \<times> 'h kern) res" where
  "Console_GetString buffer sz k =
     rbind (GetString_loop 0 sz buffer k) (\<lambda>(i, buffer, k).
     rbind (aput buffer i 0) (\<lambda>buffer. Inr (i, buffer, k)))"

definition Console_PutChar :: "byte \<Rightarrow> 'h kern \<Rightarrow> 'h kern" where
  "Console_PutChar ch k = k\<lparr>k_out := k_out k @ [ch]\<rparr>"

definition Console_PutString :: "byte list \<Rightarrow> int \<Rightarrow> 'h kern \<Rightarrow> (int \<times> 'h kern) res" where
  "Console_PutString buffer sz k =
     rbind (for_range 0 sz (\<lambda>i k. rbind (aget buffer i) (\<lambda>b. Inr (Console_PutChar b k))) k) (\<lambda>k. Inr (sz, k))"

section \<open>\<^verbatim>\<open>ksyscall.h\<close>\<close>

definition SysAdd :: "32 word \<Rightarrow> 32 word \<Rightarrow> 32 word" where
  "SysAdd op1 op2 = op1 + op2"

text \<open>\<^verbatim>\<open>kernel->fileSystem->openfile[fileId]->\<dots>\<close>\<close>

definition file_at :: "int \<Rightarrow> 'h kern \<Rightarrow> stubfile res" where
  "file_at fileId k =
     rbind (aget (fs_openfile (k_fs k)) fileId) (\<lambda>f. case f of None \<Rightarrow> Inl NullDeref | Some f \<Rightarrow> Inr f)"

definition put_file :: "int \<Rightarrow> stubfile option \<Rightarrow> 'h kern \<Rightarrow> 'h kern res" where
  "put_file i f k = rbind (aput (fs_openfile (k_fs k)) i f) (\<lambda>t. Inr (k\<lparr>k_fs := (k_fs k)\<lparr>fs_openfile := t\<rparr>\<rparr>))"

definition SysRead :: "'h unix \<Rightarrow> byte list \<Rightarrow> int \<Rightarrow> int \<Rightarrow> 'h kern \<Rightarrow> (int \<times> byte list \<times> 'h kern) res" where
  "SysRead U buffer charCount fileId k =
     (if fileId = 0 then Console_GetString buffer charCount k
      else
        rbind (file_at fileId k) (\<lambda>f.
        rbind (StubFile_Read U f buffer charCount (k_host k)) (\<lambda>(n, buffer, f, h).
        rbind (put_file fileId (Some f) (k\<lparr>k_host := h\<rparr>)) (\<lambda>k. Inr (n, buffer, k)))))"

definition SysWrite :: "'h unix \<Rightarrow> byte list \<Rightarrow> int \<Rightarrow> int \<Rightarrow> 'h kern \<Rightarrow> (int \<times> 'h kern) res" where
  "SysWrite U buffer charCount fileId k =
     (if fileId = 1 then Console_PutString buffer charCount k
      else
        rbind (file_at fileId k) (\<lambda>f.
        rbind (StubFile_Write U f buffer charCount (k_host k)) (\<lambda>(n, f, h).
        rbind (put_file fileId (Some f) (k\<lparr>k_host := h\<rparr>)) (\<lambda>k. Inr (n, k)))))"

function ReadString_loop :: "int \<Rightarrow> int \<Rightarrow> byte list \<Rightarrow> 'h kern \<Rightarrow> (int \<times> byte list \<times> 'h kern) res" where
  "ReadString_loop i len buffer k =
     (if i < len then
        rbind (Console_GetChar k) (\<lambda>(c, k).
        if c \<noteq> 10 then rbind (aput buffer (i + 1) c) (\<lambda>buffer. ReadString_loop (i + 1) len buffer k)
        else Inr (i, buffer, k))
      else Inr (i, buffer, k))"
  by pat_completeness auto
termination
  by (relation "measure (\<lambda>(i, len, buffer, k). nat (len - i))") auto

declare ReadString_loop.simps [simp del]

text \<open>The new buffer holds whatever was there (\<open>garbage\<close>).\<close>

definition SysReadString :: "byte list \<Rightarrow> int \<Rightarrow> 'h kern \<Rightarrow> (byte list \<times> 'h kern) res" where
  "SysReadString garbage len k =
     (if len + 1 < 0 then Inl BadAlloc
      else
        rbind (ReadString_loop (-1) len (take (nat (len + 1)) garbage) k) (\<lambda>(i, buffer, k).
        rbind (aput buffer (i + 1) 0) (\<lambda>buffer. Inr (buffer, k))))"

section \<open>The system calls\<close>

abbreviation arg :: "'h kern \<Rightarrow> nat \<Rightarrow> 32 word" where
  "arg k i \<equiv> reg (k_mach k) i"

definition ret :: "32 word \<Rightarrow> 'h kern \<Rightarrow> 'h kern" where
  "ret v k = k\<lparr>k_mach := set_reg 2 v (k_mach k)\<rparr>"

text \<open>The three lines that end every call: the program continues after the instruction.\<close>

definition next_instr :: "'h kern \<Rightarrow> 'h kern" where
  "next_instr k =
     (let m = k_mach k;
          m = set_reg PrevPCReg (reg m PCReg) m;
          m = set_reg PCReg (reg m PCReg + 4) m;
          m = set_reg NextPCReg (reg m PCReg + 4) m in
      k\<lparr>k_mach := m\<rparr>)"

definition fail :: "'h kern \<Rightarrow> 'h kern res" where
  "fail k = Inr (ret (- 1) k)"

definition status :: "int \<Rightarrow> 'h kern \<Rightarrow> 'h kern res" where
  "status r k = (if r < 0 then fail k else Inr (ret 0 k))"

definition sc_Create :: "'h unix \<Rightarrow> 'h kern \<Rightarrow> 'h kern res" where
  "sc_Create U k =
     rbind (k_copyin (arg k 4) (MaxFileLength + 1) k) (\<lambda>(filename, k).
     rbind (StubFS_Create U (cstr filename) 0 (k_host k)) (\<lambda>(b, h).
     let k = k\<lparr>k_host := h\<rparr> in
     if b = False then fail k else Inr (ret 0 k)))"

text \<open>
  The early failures delete the pointer \<^verbatim>\<open>filenameopen\<close> before it was ever set.  On the other paths the name is
  freed at the end, and the pointer the open file keeps to it is dangling from then on.
\<close>

definition sc_Open :: "'h unix \<Rightarrow> 'h kern \<Rightarrow> 'h kern res" where
  "sc_Open U k =
     (let firstAdd = arg k 4; t = arg k 5 in
      if t \<noteq> 0 \<and> t \<noteq> 1 then Inl NullDeref
      else
        rbind (StubFS_findIndexFree (k_fs k)) (\<lambda>index.
        if index = -1 then Inl NullDeref
        else
          rbind (k_copyin firstAdd (MaxFileLength + 1) k) (\<lambda>(name, k).
          rbind (StubFS_Open_t U (cstr name) (sint t) (k_host k)) (\<lambda>(f, h).
          rbind (put_file index (map_option (\<lambda>f. f\<lparr>sf_name := None\<rparr>) f) (k\<lparr>k_host := h\<rparr>)) (\<lambda>k.
          case f of None \<Rightarrow> fail k | Some _ \<Rightarrow> Inr (ret (word_of_int index) k))))))"

definition sc_Close :: "'h unix \<Rightarrow> 'h kern \<Rightarrow> 'h kern res" where
  "sc_Close U k =
     (let ident = sint (arg k 4) in
      rbind (aget (fs_openfile (k_fs k)) ident) (\<lambda>f.
      case f of
        None \<Rightarrow> fail k
      | Some f \<Rightarrow>
          rbind (StubFile_delete U f (k_host k)) (\<lambda>h.
          rbind (put_file ident None (k\<lparr>k_host := h\<rparr>)) (\<lambda>k.
          Inr (ret 0 k)))))"

definition sc_Remove :: "'h unix \<Rightarrow> 'h kern \<Rightarrow> 'h kern res" where
  "sc_Remove U k =
     rbind (k_copyin (arg k 4) (MaxFileLength + 1) k) (\<lambda>(name, k).
     rbind (for_range 0 StubMaxFile (\<lambda>i check.
       rbind (aget (fs_openfile (k_fs k)) i) (\<lambda>f.
       case f of
         None \<Rightarrow> Inr check
       | Some f \<Rightarrow> (case sf_name f of
             None \<Rightarrow> Inl NullDeref
           | Some fn \<Rightarrow> Inr (if cstr fn = cstr name then True else check)))) False) (\<lambda>check.
     if check then fail k
     else
       let (b, h) = StubFS_Remove U (cstr name) (k_host k); k = k\<lparr>k_host := h\<rparr> in
       if b = False then fail k else Inr (ret 0 k)))"

definition sc_SocketTCP :: "'h unix \<Rightarrow> 'h kern \<Rightarrow> 'h kern res" where
  "sc_SocketTCP U k =
     rbind (StubFS_findIndexSocketFree (k_fs k)) (\<lambda>indexSocket.
     if indexSocket = -1 then fail k
     else
       let (idSocket, h) = u_socket U (k_host k); k = k\<lparr>k_host := h\<rparr> in
       if idSocket < 0 then fail k
       else
         rbind (aput (fs_socket (k_fs k)) indexSocket idSocket) (\<lambda>t.
         Inr (ret (word_of_int idSocket) (k\<lparr>k_fs := (k_fs k)\<lparr>fs_socket := t\<rparr>\<rparr>))))"

definition sc_Connect :: "'h unix \<Rightarrow> 'h kern \<Rightarrow> 'h kern res" where
  "sc_Connect U k =
     (let idSocket = sint (arg k 4) in
      if idSocket < 0 then fail k
      else
        let port = sint (arg k 6) in
        rbind (k_copyin (arg k 5) MaxFileLength k) (\<lambda>(ipAddr, k).
        let (r, h) = u_connect U idSocket (cstr ipAddr) (port mod 65536) (k_host k) in
        status r (k\<lparr>k_host := h\<rparr>)))"

text \<open>\<^verbatim>\<open>len < strlen(buffer)\<close> compares as unsigned: a negative length counts as a large one.\<close>

definition sc_Send :: "'h unix \<Rightarrow> 'h kern \<Rightarrow> 'h kern res" where
  "sc_Send U k =
     (let idSocket = sint (arg k 4) in
      if idSocket < 0 then fail k
      else
        rbind (k_copyin (arg k 5) MaxLenghtData k) (\<lambda>(buffer, k).
        let len = unat (arg k 6);
            data = (if len < length (cstr buffer) then take len (cstr buffer) else cstr buffer);
            (numbyte, h) = u_send U idSocket data (k_host k) in
        Inr (ret (word_of_int numbyte) (k\<lparr>k_host := h\<rparr>))))"

definition sc_Receive :: "'h unix \<Rightarrow> 'h kern \<Rightarrow> 'h kern res" where
  "sc_Receive U k =
     (let idSocket = sint (arg k 4) in
      if idSocket < 0 then fail k
      else
        let firstAdd = arg k 5; len = sint (arg k 6) in
        rbind (ReadPartial U idSocket (replicate (nat MaxLenghtData) 0) len (k_host k)) (\<lambda>(numbyte, recv, h).
        let k = ret (word_of_int numbyte) (k\<lparr>k_host := h\<rparr>) in
        if numbyte \<noteq> -1 then k_copyout firstAdd len recv k else Inr k))"

definition sc_CloseSoc :: "'h unix \<Rightarrow> 'h kern \<Rightarrow> 'h kern res" where
  "sc_CloseSoc U k =
     (let idSocket = sint (arg k 4) in
      if idSocket < 0 then fail k
      else
        rbind (StubFS_findIndexSocket (k_fs k) idSocket) (\<lambda>pos.
        if pos \<noteq> -1 then
          rbind (aput (fs_socket (k_fs k)) pos (-1)) (\<lambda>t.
          let (_, h) = u_close U idSocket (k_host k) in
          Inr (ret 0 (k\<lparr>k_fs := (k_fs k)\<lparr>fs_socket := t\<rparr>, k_host := h\<rparr>)))
        else fail k))"

text \<open>Whether a socket is one of the kernel's, as \<^verbatim>\<open>Bind\<close>, \<^verbatim>\<open>Listen\<close> and \<^verbatim>\<open>Accept\<close> ask it.\<close>

definition known_socket :: "int \<Rightarrow> 'h kern \<Rightarrow> bool res" where
  "known_socket serverid k =
     (if serverid < 0 then Inr False
      else rbind (StubFS_findIndexSocket (k_fs k) serverid) (\<lambda>pos. Inr (pos \<noteq> -1)))"

definition sc_Bind :: "'h unix \<Rightarrow> 'h kern \<Rightarrow> 'h kern res" where
  "sc_Bind U k =
     (let serverid = sint (arg k 4) in
      rbind (known_socket serverid k) (\<lambda>known.
      if \<not> known then fail k
      else
        let (r, h) = u_bind U serverid 1234 (k_host k) in
        status r (k\<lparr>k_host := h\<rparr>)))"

definition sc_Listen :: "'h unix \<Rightarrow> 'h kern \<Rightarrow> 'h kern res" where
  "sc_Listen U k =
     (let serverid = sint (arg k 4) in
      rbind (known_socket serverid k) (\<lambda>known.
      if \<not> known then fail k
      else
        let (r, h) = u_listen U serverid (sint (arg k 5)) (k_host k) in
        status r (k\<lparr>k_host := h\<rparr>)))"

definition sc_Accept :: "'h unix \<Rightarrow> 'h kern \<Rightarrow> 'h kern res" where
  "sc_Accept U k =
     (let serverid = sint (arg k 4) in
      rbind (known_socket serverid k) (\<lambda>known.
      if \<not> known then fail k
      else
        let (idclient, h) = u_accept U serverid (k_host k); k = k\<lparr>k_host := h\<rparr> in
        if idclient < 0 then fail k else Inr (ret (word_of_int idclient) k)))"

text \<open>\<open>garbage\<close> is the contents of the new, uninitialised buffer.\<close>

definition sc_Read :: "'h unix \<Rightarrow> byte list \<Rightarrow> 'h kern \<Rightarrow> 'h kern res" where
  "sc_Read U garbage k =
     (let bufferAddr = arg k 4; size = sint (arg k 5); fileId = sint (arg k 6) in
      if size < 0 then Inl BadAlloc
      else if fileId < 0 \<or> fileId > 20 then fail k
      else if fileId = 0 then
        rbind (SysRead U (take (nat size) garbage) size fileId k) (\<lambda>(bytesRead, buf, k).
        k_copyout bufferAddr size buf (ret (word_of_int bytesRead) k))
      else
        rbind (k_copyin bufferAddr size k) (\<lambda>(buf, k).
        rbind (SysRead U buf size fileId k) (\<lambda>(bytesRead, buf, k).
        k_copyout bufferAddr bytesRead buf (ret (word_of_int bytesRead) k))))"

definition sc_Write :: "'h unix \<Rightarrow> 'h kern \<Rightarrow> 'h kern res" where
  "sc_Write U k =
     (let bufferAddr = arg k 4; size = sint (arg k 5); fileId = sint (arg k 6);
          write = (\<lambda>k.
            rbind (k_copyin bufferAddr size k) (\<lambda>(buf, k).
            rbind (SysWrite U buf size fileId k) (\<lambda>(bytesWritten, k).
            k_copyout bufferAddr bytesWritten buf (ret (word_of_int bytesWritten) k)))) in
      if size < 0 then Inl BadAlloc
      else if fileId < 0 \<or> fileId > 20 then fail k
      else if fileId = 1 then write k
      else
        rbind (file_at fileId k) (\<lambda>f.
        if sf_type f = Some 1 then fail k else write k))"

definition sc_Seek :: "'h unix \<Rightarrow> 'h kern \<Rightarrow> 'h kern res" where
  "sc_Seek U k =
     (let pos = sint (arg k 4); fileId = sint (arg k 5) in
      if fileId < 2 \<or> fileId > 20 then fail k
      else
        rbind (aget (fs_openfile (k_fs k)) fileId) (\<lambda>f.
        case f of
          None \<Rightarrow> fail k
        | Some f \<Rightarrow>
            rbind (if pos = -1 then StubFile_Length U f (k_host k) else Inr (pos, k_host k)) (\<lambda>(pos, h).
            rbind (StubFile_Length U f h) (\<lambda>(len, h).
            if pos > len \<or> pos < 0 then fail (k\<lparr>k_host := h\<rparr>)
            else
              rbind (StubFile_Seek U f pos h) (\<lambda>(_, f, h).
              rbind (put_file fileId (Some f) (k\<lparr>k_host := h\<rparr>)) (\<lambda>k.
              Inr (ret (word_of_int pos) k)))))))"

text \<open>\<^verbatim>\<open>PrintString\<close> copies the string in and measures it; it prints nothing and returns nothing.\<close>

definition sc_PrintString :: "'h kern \<Rightarrow> 'h kern res" where
  "sc_PrintString k = rbind (k_copyin (arg k 4) 255 k) (\<lambda>(_, k). Inr k)"

definition toupper :: "byte \<Rightarrow> byte" where
  "toupper b = (if 97 \<le> b \<and> b \<le> 122 then b - 32 else b)"

definition sc_Toupper :: "'h kern \<Rightarrow> 'h kern res" where
  "sc_Toupper k =
     (let firstAdd = arg k 4 in
      rbind (k_copyin firstAdd 1024 k) (\<lambda>(data, k).
      let s = map toupper (cstr data);
          data = s @ drop (length s) data in
      rbind (k_copyout firstAdd (int (length (cstr data))) data k) (\<lambda>k.
      Inr (ret 0 k))))"

definition sc_Add :: "'h kern \<Rightarrow> 'h kern res" where
  "sc_Add k = Inr (ret (SysAdd (arg k 4) (arg k 5)) k)"

text \<open>The dispatch on the number in register 2.\<close>

definition syscall :: "'h unix \<Rightarrow> byte list \<Rightarrow> 32 word \<Rightarrow> 'h kern \<Rightarrow> 'h kern res" where
  "syscall U garbage t k =
     (if t = 4 then sc_Create U k
      else if t = 6 then sc_Open U k
      else if t = 10 then sc_Close U k
      else if t = 5 then sc_Remove U k
      else if t = 16 then sc_SocketTCP U k
      else if t = 17 then sc_Connect U k
      else if t = 18 then sc_Send U k
      else if t = 19 then sc_Receive U k
      else if t = 20 then sc_CloseSoc U k
      else if t = 21 then sc_Bind U k
      else if t = 23 then sc_Listen U k
      else if t = 22 then sc_Accept U k
      else if t = 7 then sc_Read U garbage k
      else if t = 8 then sc_Write U k
      else if t = 9 then sc_Seek U k
      else if t = 24 then sc_PrintString k
      else if t = 25 then sc_Toupper k
      else if t = 42 then sc_Add k
      else Inl AssertFail)"

definition ExceptionHandler :: "'h unix \<Rightarrow> byte list \<Rightarrow> ExceptionType \<Rightarrow> 'h kern \<Rightarrow> 'h kern hres res" where
  "ExceptionHandler U garbage which k =
     (if which = SyscallException then
        (let t = arg k 2 in
         if t = 0 then Inr (Halted k)
         else rbind (syscall U garbage t k) (\<lambda>k. Inr (Returned (next_instr k))))
      else Inl AssertFail)"

text \<open>One round of \<^verbatim>\<open>Machine::Run\<close>: an instruction, and the handler if it trapped.\<close>

definition user_step :: "'h unix \<Rightarrow> byte list \<Rightarrow> 'h kern \<Rightarrow> 'h kern hres res" where
  "user_step U garbage k =
     rbind (Machine_OneInstruction (k_mach k)) (\<lambda>(r, m).
     let k = k\<lparr>k_mach := m\<rparr> in
     case r of Inl e \<Rightarrow> ExceptionHandler U garbage e k | Inr _ \<Rightarrow> Inr (Returned k))"

section \<open>What every system call keeps\<close>

text \<open>
  The machine stays sound, memory changes only where the program may write, registers other than the
  result register stay, and the two tables keep their sizes.
\<close>

definition keeps_mach :: "machine \<Rightarrow> machine \<Rightarrow> bool" where
  "keeps_mach m m' \<longleftrightarrow> mach_ok m' \<and> confined m m' \<and> (\<forall>i < 40. i \<noteq> 2 \<longrightarrow> reg m' i = reg m i)"

definition keeps :: "'h kern \<Rightarrow> 'h kern \<Rightarrow> bool" where
  "keeps k k' \<longleftrightarrow> keeps_mach (k_mach k) (k_mach k') \<and> (fs_tables_ok (k_fs k) \<longrightarrow> fs_tables_ok (k_fs k'))"

lemma keeps_mach_refl: "mach_ok m \<Longrightarrow> keeps_mach m m"
  by (simp add: keeps_mach_def)

lemma keeps_mach_trans: "keeps_mach m m1 \<Longrightarrow> keeps_mach m1 m2 \<Longrightarrow> keeps_mach m m2"
  using confined_trans by (auto simp: keeps_mach_def)

lemma kread_keeps: "mach_ok m \<Longrightarrow> kread a m = Inr (v, m') \<Longrightarrow> keeps_mach m m'"
  by (rule ReadMem_cases [of m 1 a]) (auto simp: kread_def same_map_def keeps_mach_def confined_same)

lemma kwrite_keeps:
  assumes "mach_ok m" "kwrite a v m = Inr m'"
  shows "keeps_mach m m'"
proof (cases "access m 1 True a")
  case (Inl e)
  with WriteMem_ok [OF assms(1), of 1 a v] assms(2) show ?thesis by (auto simp: kwrite_def)
next
  case (Inr p)
  with WriteMem_ok [OF assms(1), of 1 a v] assms(2)
  have m': "mach_ok m'" "registers m' = registers m" "mainMemory m' = store_val (mainMemory m) 1 p v" "va_phys m' = va_phys m"
      "pageTableSize m' = pageTableSize m"
    by (auto simp: kwrite_def)
  then show ?thesis using confined_store [OF _ Inr _ m'(4,3,5)] assms(1) by (simp add: keeps_mach_def mach_ok_def)
qed

lemma u2s_keeps: "mach_ok m \<Longrightarrow> u2s_loop kread n a m = Inr (bs, m') \<Longrightarrow> keeps_mach m m'"
proof (induction n arbitrary: a m bs)
  case (Suc n)
  obtain v m1 where r: "kread a m = Inr (v, m1)" using Suc.prems(2) by (auto simp: rbind_eq_Inr)
  have k1: "keeps_mach m m1" using kread_keeps [OF Suc.prems(1) r] .
  show ?case
  proof (cases "v = 0")
    case False
    with Suc.prems(2) r obtain bs' where "u2s_loop kread n (a + 1) m1 = Inr (bs', m')" by (auto simp: rbind_eq_Inr)
    with Suc.IH [of m1 "a + 1" bs'] k1 show ?thesis by (auto simp: keeps_mach_def [of m m1] intro: keeps_mach_trans [OF k1])
  qed (use Suc.prems(2) r k1 in auto)
qed (simp add: keeps_mach_refl)

lemma s2u_keeps: "mach_ok m \<Longrightarrow> s2u_loop kwrite n a buf m = Inr (i, m') \<Longrightarrow> keeps_mach m m'"
proof (induction n arbitrary: a buf m i)
  case (Suc n)
  then obtain b bs where buf: "buf = b # bs" by (cases buf) auto
  obtain m1 where r: "kwrite a (scast b) m = Inr m1" using Suc.prems(2) buf by (auto simp: rbind_eq_Inr)
  have k1: "keeps_mach m m1" using kwrite_keeps [OF Suc.prems(1) r] .
  show ?case
  proof (cases "n > 0 \<and> b \<noteq> 0")
    case True
    with Suc.prems(2) r buf obtain i' where "s2u_loop kwrite n (a + 1) bs m1 = Inr (i', m')" by (auto simp: rbind_eq_Inr)
    with Suc.IH [of m1 "a + 1" bs i'] k1 show ?thesis by (auto simp: keeps_mach_def [of m m1] intro: keeps_mach_trans [OF k1])
  qed (use Suc.prems(2) r buf k1 in auto)
qed (simp add: keeps_mach_refl)

lemma keeps_refl: "mach_ok (k_mach k) \<Longrightarrow> keeps k k"
  by (simp add: keeps_def keeps_mach_refl)

lemma keeps_trans: "keeps k k1 \<Longrightarrow> keeps k1 k2 \<Longrightarrow> keeps k k2"
  by (auto simp: keeps_def intro: keeps_mach_trans)

lemma keeps_ok: "keeps k k1 \<Longrightarrow> mach_ok (k_mach k1)"
  by (simp add: keeps_def keeps_mach_def)

lemma keeps_ret: "keeps k k1 \<Longrightarrow> keeps k (ret v k1)"
  by (auto simp: keeps_def keeps_mach_def ret_def set_reg_def mach_ok_def reg_numbers confined_def)

lemma keeps_host: "keeps k k1 \<Longrightarrow> keeps k (k1\<lparr>k_host := h\<rparr>)"
  by (simp add: keeps_def)

lemma keeps_fs: "keeps k k1 \<Longrightarrow> length (fs_openfile f) = length (fs_openfile (k_fs k1)) \<Longrightarrow>
    length (fs_socket f) = length (fs_socket (k_fs k1)) \<Longrightarrow> keeps k (k1\<lparr>k_fs := f\<rparr>)"
  by (simp add: keeps_def fs_tables_ok_def)

lemma keeps_copyin: "keeps k k1 \<Longrightarrow> k_copyin a n k1 = Inr (bs, k2) \<Longrightarrow> keeps k k2"
proof -
  assume k: "keeps k k1" and c: "k_copyin a n k1 = Inr (bs, k2)"
  obtain bs' m where m: "u2s_loop kread (nat n) a (k_mach k1) = Inr (bs', m)" "k2 = k1\<lparr>k_mach := m\<rparr>"
    using c by (auto simp: k_copyin_def User2System_def rbind_eq_Inr split: if_splits)
  then have "keeps k1 k2" using u2s_keeps [OF keeps_ok [OF k] m(1)] by (simp add: keeps_def)
  then show ?thesis by (rule keeps_trans [OF k])
qed

lemma keeps_copyout: "keeps k k1 \<Longrightarrow> k_copyout a n buf k1 = Inr k2 \<Longrightarrow> keeps k k2"
proof -
  assume k: "keeps k k1" and c: "k_copyout a n buf k1 = Inr k2"
  obtain i m where m: "System2User a n buf (k_mach k1) = Inr (i, m)" "k2 = k1\<lparr>k_mach := m\<rparr>"
    using c by (auto simp: k_copyout_def rbind_eq_Inr)
  have "keeps_mach (k_mach k1) m"
    using m(1) s2u_keeps [OF keeps_ok [OF k]] keeps_mach_refl [OF keeps_ok [OF k]]
    by (auto simp: System2User_def split: if_splits)
  then have "keeps k1 k2" using m(2) by (simp add: keeps_def)
  then show ?thesis by (rule keeps_trans [OF k])
qed

lemma keeps_put_file: "keeps k k1 \<Longrightarrow> put_file i f k1 = Inr k2 \<Longrightarrow> keeps k k2"
  by (auto simp: put_file_def rbind_eq_Inr aput_eq_Inr intro!: keeps_fs)

lemma keeps_streams: "keeps k k1 \<Longrightarrow> k_mach k2 = k_mach k1 \<Longrightarrow> k_fs k2 = k_fs k1 \<Longrightarrow> keeps k k2"
  by (simp add: keeps_def)

lemmas keeps_rules = keeps_ret keeps_host keeps_copyin keeps_copyout keeps_put_file

lemma GetString_loop_streams:
  "GetString_loop i sz buffer k = Inr (j, buffer', k') \<Longrightarrow> k_mach k' = k_mach k \<and> k_fs k' = k_fs k"
proof (induction i sz buffer k arbitrary: j buffer' k' rule: GetString_loop.induct)
  case (1 i sz buffer k)
  show ?case
  proof (cases "i < sz - 1")
    case True
    then obtain c k1 where c: "Console_GetChar k = Inr (c, k1)"
      using "1.prems" by (subst (asm) GetString_loop.simps) (auto simp: rbind_eq_Inr)
    then have k1: "k_mach k1 = k_mach k" "k_fs k1 = k_fs k" by (auto simp: Console_GetChar_def split: if_splits list.splits)
    show ?thesis
    proof (cases "c = 10 \<or> c = 0")
      case False
      then obtain b1 where b1: "aput buffer i c = Inr b1" "GetString_loop (i + 1) sz b1 k1 = Inr (j, buffer', k')"
        using "1.prems" True c by (subst (asm) GetString_loop.simps) (auto simp: rbind_eq_Inr)
      from "1.IH" [OF True c refl False b1] k1 show ?thesis by simp
    qed (use "1.prems" True c k1 in \<open>subst (asm) GetString_loop.simps, auto\<close>)
  qed (use "1.prems" in \<open>subst (asm) GetString_loop.simps, auto\<close>)
qed

lemma PutString_streams:
  assumes "Console_PutString buf n k = Inr (r, k')"
  shows "k_mach k' = k_mach k \<and> k_fs k' = k_fs k"
proof -
  let ?body = "\<lambda>i k. rbind (aget buf i) (\<lambda>b. Inr (Console_PutChar b k))"
  from assms have r: "for_range 0 n ?body k = Inr k'" by (auto simp: Console_PutString_def rbind_eq_Inr)
  show ?thesis
  proof (cases "0 \<le> n")
    case True
    show ?thesis
      by (rule for_range_inv [OF r True, where I = "\<lambda>_ k1. k_mach k1 = k_mach k \<and> k_fs k1 = k_fs k"])
        (auto simp: rbind_eq_Inr Console_PutChar_def)
  qed (use r in simp)
qed

lemma keeps_SysRead: "keeps k k1 \<Longrightarrow> SysRead U buf n i k1 = Inr (r, buf', k2) \<Longrightarrow> keeps k k2"
  by (auto simp: SysRead_def Console_GetString_def rbind_eq_Inr split: if_splits
      intro: keeps_streams keeps_rules dest!: GetString_loop_streams)

lemma keeps_SysWrite: "keeps k k1 \<Longrightarrow> SysWrite U buf n i k1 = Inr (r, k2) \<Longrightarrow> keeps k k2"
  by (auto simp: SysWrite_def rbind_eq_Inr split: if_splits
      intro: keeps_streams keeps_rules dest!: PutString_streams)

lemmas sc_simps = rbind_eq_Inr Let_def fail_def status_def

lemma sc_files_keep:
  assumes "mach_ok (k_mach k)"
  shows "sc_Create U k = Inr k' \<Longrightarrow> keeps k k'" "sc_Open U k = Inr k' \<Longrightarrow> keeps k k'"
    "sc_Close U k = Inr k' \<Longrightarrow> keeps k k'" "sc_Remove U k = Inr k' \<Longrightarrow> keeps k k'"
    "sc_Read U g k = Inr k' \<Longrightarrow> keeps k k'" "sc_Write U k = Inr k' \<Longrightarrow> keeps k k'" "sc_Seek U k = Inr k' \<Longrightarrow> keeps k k'"
proof -
  note R = keeps_refl [OF assms]
  show "sc_Create U k = Inr k' \<Longrightarrow> keeps k k'"
    by (auto simp: sc_Create_def sc_simps split: if_splits intro!: keeps_ret keeps_host dest!: keeps_copyin [OF R])
  show "sc_Open U k = Inr k' \<Longrightarrow> keeps k k'"
    by (auto simp: sc_Open_def Let_def fail_def split: if_splits option.splits elim!: rbindE
        intro!: keeps_ret) (rule keeps_put_file [OF keeps_host [OF keeps_copyin [OF R]]], assumption+)+
  show "sc_Close U k = Inr k' \<Longrightarrow> keeps k k'"
    by (auto simp: sc_Close_def sc_simps split: if_splits option.splits intro!: keeps_ret R
        dest!: keeps_put_file [OF keeps_host [OF R]])
  show "sc_Remove U k = Inr k' \<Longrightarrow> keeps k k'"
    by (auto simp: sc_Remove_def sc_simps split: if_splits prod.splits intro!: keeps_ret keeps_host dest!: keeps_copyin [OF R])
  show "sc_Read U g k = Inr k' \<Longrightarrow> keeps k k'"
    by (auto simp: sc_Read_def sc_simps split: if_splits intro!: keeps_ret R
        intro: keeps_copyout [OF keeps_ret [OF keeps_SysRead]] keeps_copyin [OF R] R)
  show "sc_Write U k = Inr k' \<Longrightarrow> keeps k k'"
    by (auto simp: sc_Write_def sc_simps split: if_splits intro!: keeps_ret R
        intro: keeps_copyout [OF keeps_ret [OF keeps_SysWrite]] keeps_copyin [OF R] R)
  show "sc_Seek U k = Inr k' \<Longrightarrow> keeps k k'"
    by (auto simp: sc_Seek_def sc_simps split: if_splits option.splits intro!: keeps_ret keeps_host R
        dest!: keeps_put_file [OF keeps_host [OF R]])
qed

lemma sc_sockets_keep:
  assumes "mach_ok (k_mach k)"
  shows "sc_SocketTCP U k = Inr k' \<Longrightarrow> keeps k k'" "sc_Connect U k = Inr k' \<Longrightarrow> keeps k k'"
    "sc_Send U k = Inr k' \<Longrightarrow> keeps k k'" "sc_Receive U k = Inr k' \<Longrightarrow> keeps k k'"
    "sc_CloseSoc U k = Inr k' \<Longrightarrow> keeps k k'" "sc_Bind U k = Inr k' \<Longrightarrow> keeps k k'"
    "sc_Listen U k = Inr k' \<Longrightarrow> keeps k k'" "sc_Accept U k = Inr k' \<Longrightarrow> keeps k k'"
proof -
  note R = keeps_refl [OF assms]
  show "sc_SocketTCP U k = Inr k' \<Longrightarrow> keeps k k'"
    by (auto simp: sc_SocketTCP_def sc_simps aput_eq_Inr split: if_splits prod.splits intro!: keeps_ret keeps_fs keeps_host R)
  show "sc_Connect U k = Inr k' \<Longrightarrow> keeps k k'"
    by (auto simp: sc_Connect_def Let_def fail_def status_def case_prod_beta split: if_splits
        intro!: keeps_ret keeps_host R intro: keeps_copyin [OF R] elim!: rbindE)
  show "sc_Send U k = Inr k' \<Longrightarrow> keeps k k'"
    by (auto simp: sc_Send_def sc_simps split: if_splits prod.splits intro!: keeps_ret keeps_host R dest!: keeps_copyin [OF R])
  show "sc_Receive U k = Inr k' \<Longrightarrow> keeps k k'"
    by (auto simp: sc_Receive_def sc_simps split: if_splits prod.splits intro!: keeps_ret keeps_host R
        dest!: keeps_copyout [OF keeps_ret [OF keeps_host [OF R]]])
  show "sc_CloseSoc U k = Inr k' \<Longrightarrow> keeps k k'"
    by (auto simp: sc_CloseSoc_def sc_simps aput_eq_Inr split: if_splits prod.splits intro!: keeps_ret keeps_host keeps_fs R)
  show "sc_Bind U k = Inr k' \<Longrightarrow> keeps k k'" "sc_Listen U k = Inr k' \<Longrightarrow> keeps k k'" "sc_Accept U k = Inr k' \<Longrightarrow> keeps k k'"
    by (auto simp: sc_Bind_def sc_Listen_def sc_Accept_def sc_simps split: if_splits prod.splits intro!: keeps_ret keeps_host R)
qed

lemma sc_strings_keep:
  assumes "mach_ok (k_mach k)"
  shows "sc_PrintString k = Inr k' \<Longrightarrow> keeps k k'" "sc_Toupper k = Inr k' \<Longrightarrow> keeps k k'" "sc_Add k = Inr k' \<Longrightarrow> keeps k k'"
  using keeps_refl [OF assms]
  by (auto simp: sc_PrintString_def sc_Toupper_def sc_Add_def sc_simps intro!: keeps_ret
      intro: keeps_copyin keeps_copyout [OF keeps_copyin])

lemmas sc_keeps = sc_files_keep sc_sockets_keep sc_strings_keep

lemma syscall_keeps: "mach_ok (k_mach k) \<Longrightarrow> syscall U g t k = Inr k' \<Longrightarrow> keeps k k'"
  by (simp add: syscall_def sc_keeps split: if_splits)

end
