(* ===== verification/UserProg.thy ===== *)
theory UserProg
  imports Syscall
begin

text \<open>
  Running a user program over the kernel of theory \<^verbatim>\<open>Syscall\<close>: what any number of instructions and system
  calls keep, how a call returns, and what the copying between user and kernel memory moves.  The copying
  loops are verified against an interface of user memory (\<open>user_memory\<close>: which byte an address shows, which
  addresses may be written), which the machine's memory reads and writes implement.
\<close>

section \<open>Copying, over the interface of user memory\<close>

primrec holds_at :: "(32 word \<Rightarrow> byte option) \<Rightarrow> 32 word \<Rightarrow> byte list \<Rightarrow> bool" where
  "holds_at v a [] = True"
| "holds_at v a (b # bs) = (v a = Some b \<and> holds_at v (a + 1) bs)"

primrec writable_at :: "(32 word \<Rightarrow> bool) \<Rightarrow> 32 word \<Rightarrow> nat \<Rightarrow> bool" where
  "writable_at w a 0 = True"
| "writable_at w a (Suc n) = (w a \<and> writable_at w (a + 1) n)"

primrec put_bytes :: "(32 word \<Rightarrow> byte option) \<Rightarrow> 32 word \<Rightarrow> byte list \<Rightarrow> 32 word \<Rightarrow> byte option" where
  "put_bytes v a [] = v"
| "put_bytes v a (b # bs) = put_bytes (v(a \<mapsto> b)) (a + 1) bs"

text \<open>The bytes a copy of at most \<open>n\<close> bytes moves: up to and including the first zero.\<close>

primrec upto_nul :: "nat \<Rightarrow> byte list \<Rightarrow> byte list" where
  "upto_nul n [] = []"
| "upto_nul n (b # bs) = (case n of 0 \<Rightarrow> [] | Suc n' \<Rightarrow> if b = 0 then [b] else b # upto_nul n' bs)"

lemma upto_nul_0 [simp]: "upto_nul 0 bs = []"
  by (cases bs) simp_all

lemma upto_nul_string: "0 \<notin> set s \<Longrightarrow> length s < n \<Longrightarrow> upto_nul n (s @ 0 # t) = s @ [0]"
  by (induction s arbitrary: n) (auto split: nat.split)

lemma upto_nul_full: "0 \<notin> set s \<Longrightarrow> upto_nul (length s) (s @ t) = s"
  by (induction s) auto

lemma shift_ne: "0 < n \<Longrightarrow> n < 2 ^ 32 \<Longrightarrow> a + word_of_nat n \<noteq> (a :: 32 word)"
  by (simp add: word_of_nat_eq_0_iff) (metis dvd_imp_le leD)

lemma put_bytes_other:
  "(\<And>i. i < length bs \<Longrightarrow> x \<noteq> a + word_of_nat i) \<Longrightarrow> put_bytes v a bs x = v x"
proof (induction bs arbitrary: a v)
  case (Cons b bs)
  have "put_bytes (v(a \<mapsto> b)) (a + 1) bs x = (v(a \<mapsto> b)) x"
    using Cons.prems [of "Suc i" for i] by (intro Cons.IH) (simp add: add.assoc)
  then show ?case using Cons.prems [of 0] by simp
qed simp

lemma put_bytes_holds: "length bs \<le> 2 ^ 32 \<Longrightarrow> holds_at (put_bytes v a bs) a bs"
proof (induction bs arbitrary: a v)
  case (Cons b bs)
  have "put_bytes (v(a \<mapsto> b)) (a + 1) bs a = Some b"
    using put_bytes_other [of bs a "a + 1" "v(a \<mapsto> b)"] shift_ne [of "Suc i" a for i] Cons.prems
    by (auto simp: add.assoc)
  moreover have "holds_at (put_bytes (v(a \<mapsto> b)) (a + 1) bs) (a + 1) bs" by (rule Cons.IH) (use Cons.prems in simp)
  ultimately show ?case by simp
qed simp

locale user_memory =
  fixes rd :: "32 word \<Rightarrow> 'm \<Rightarrow> (32 word \<times> 'm) res" and wr :: "32 word \<Rightarrow> 32 word \<Rightarrow> 'm \<Rightarrow> 'm res"
    and inv :: "'m \<Rightarrow> bool" and view :: "'m \<Rightarrow> 32 word \<Rightarrow> byte option" and wok :: "'m \<Rightarrow> 32 word \<Rightarrow> bool"
  assumes rd_byte: "inv m \<Longrightarrow> view m a = Some b \<Longrightarrow>
      \<exists>m'. rd a m = Inr (scast b, m') \<and> inv m' \<and> view m' = view m \<and> wok m' = wok m"
    and wr_byte: "inv m \<Longrightarrow> wok m a \<Longrightarrow>
      \<exists>m'. wr a v m = Inr m' \<and> inv m' \<and> view m' = (view m)(a \<mapsto> ucast v) \<and> wok m' = wok m"
begin

lemma scast_byte: "(ucast (scast (b :: byte) :: 32 word) :: byte) = b" "(scast b :: 32 word) = 0 \<longleftrightarrow> b = 0"
proof -
  show u: "(ucast (scast b :: 32 word) :: byte) = b" by (rule bit_word_eqI) (auto simp: bit_simps)
  show "(scast b :: 32 word) = 0 \<longleftrightarrow> b = 0" using u by (metis scast_0 unsigned_0)
qed

lemma copy_in:
  assumes "inv m" "upto_nul n bs = bs" "length bs = n \<or> (\<exists>s. bs = s @ [0])" "holds_at (view m) a bs"
  shows "\<exists>m'. u2s_loop rd n a m = Inr (bs, m') \<and> inv m' \<and> view m' = view m \<and> wok m' = wok m"
  using assms
proof (induction bs arbitrary: n a m)
  case (Cons b bs)
  obtain n' where n: "n = Suc n'" using Cons.prems(2) by (cases n) auto
  obtain m1 where m1: "rd a m = Inr (scast b, m1)" "inv m1" "view m1 = view m" "wok m1 = wok m"
    using rd_byte [OF Cons.prems(1)] Cons.prems(4) by auto
  show ?case
  proof (cases "b = 0")
    case True
    then show ?thesis using m1 n Cons.prems(2) by (auto simp: scast_byte)
  next
    case False
    have "upto_nul n' bs = bs" "length bs = n' \<or> (\<exists>s. bs = s @ [0])" "holds_at (view m1) (a + 1) bs"
      using Cons.prems(2,3,4) n False m1(3) by (auto simp: Cons_eq_append_conv)
    from Cons.IH [OF m1(2) this] m1 n False show ?thesis by (auto simp: scast_byte)
  qed
qed (auto simp: length_0_conv)

lemma copy_out:
  assumes "inv m" "0 < n" "n \<le> length buf" "writable_at (wok m) a (length (upto_nul n buf))"
  shows "\<exists>m'. s2u_loop wr n a buf m = Inr (int (length (upto_nul n buf)), m') \<and> inv m' \<and>
    view m' = put_bytes (view m) a (upto_nul n buf) \<and> wok m' = wok m"
  using assms
proof (induction n arbitrary: a buf m)
  case (Suc n)
  then obtain b bs where buf: "buf = b # bs" by (cases buf) auto
  have "wok m a" using Suc.prems(4) buf by (auto split: if_splits)
  then obtain m1 where m1: "wr a (scast b) m = Inr m1" "inv m1" "view m1 = (view m)(a \<mapsto> b)" "wok m1 = wok m"
    using wr_byte [OF Suc.prems(1), of a "scast b"] by (auto simp: scast_byte)
  show ?case
  proof (cases "n > 0 \<and> b \<noteq> 0")
    case True
    with Suc.IH [OF m1(2), of bs "a + 1"] Suc.prems(3,4) buf m1(4) obtain m' where
      "s2u_loop wr n (a + 1) bs m1 = Inr (int (length (upto_nul n bs)), m')" "inv m'"
      "view m' = put_bytes (view m1) (a + 1) (upto_nul n bs)" "wok m' = wok m1" by auto
    with True m1 buf show ?thesis by auto
  qed (use m1 buf in auto)
qed simp

end

section \<open>The machine's memory implements it\<close>

text \<open>No two addresses of the program name the same byte of physical memory.\<close>

definition mem_inv :: "machine \<Rightarrow> bool" where
  "mem_inv m \<longleftrightarrow> mach_ok m \<and> (\<forall>a b p. va_phys m False a = Inr p \<and> va_phys m False b = Inr p \<longrightarrow> a = b)"

definition umem :: "machine \<Rightarrow> 32 word \<Rightarrow> byte option" where
  "umem m a = (case va_phys m False a of Inl _ \<Rightarrow> None | Inr p \<Rightarrow> Some (mainMemory m ! p))"

definition uwritable :: "machine \<Rightarrow> 32 word \<Rightarrow> bool" where
  "uwritable m a = (case va_phys m True a of Inl _ \<Rightarrow> False | Inr _ \<Rightarrow> True)"

lemma umem_registers [simp]: "umem (m\<lparr>registers := rs\<rparr>) = umem m"
  by (simp add: umem_def fun_eq_iff split: sum.split)

lemma access_1: "access m 1 w a = va_phys m w a"
  by (simp add: access_def)

lemma store_1: "p < length mem \<Longrightarrow> store_val mem 1 p v = mem[p := ucast v]"
  by (simp add: store_val_def word_bytes_def splice_at_def upd_conv_take_nth_drop)

interpretation um: user_memory kread kwrite mem_inv umem uwritable
proof unfold_locales
  fix m a b assume inv: "mem_inv m" and v: "umem m a = Some b"
  from v obtain p where p: "va_phys m False a = Inr p" "b = mainMemory m ! p" by (auto simp: umem_def split: sum.splits)
  with ReadMem_ok [of m 1 a] inv obtain m' where "Machine_ReadMem a 1 m = Inr (Inr (scast b), m')" "same_map m m'"
    by (auto simp: access_1 load_val_def mem_inv_def)
  with inv show "\<exists>m'. kread a m = Inr (scast b, m') \<and> mem_inv m' \<and> umem m' = umem m \<and> uwritable m' = uwritable m"
    by (auto simp: kread_def same_map_def mem_inv_def umem_def uwritable_def fun_eq_iff split: sum.split)
next
  fix m a v assume inv: "mem_inv m" and w: "uwritable m a"
  from w obtain p where p: "va_phys m True a = Inr p" by (auto simp: uwritable_def split: sum.splits)
  have len: "p < length (mainMemory m)"
    using access_aligned(3) [of 1 m True a p] p inv by (simp add: access_1 mem_inv_def mach_ok_def)
  from p WriteMem_ok [of m 1 a v] inv obtain m' where m': "Machine_WriteMem a 1 v m = Inr (Inr (), m')" "mach_ok m'"
    "mainMemory m' = (mainMemory m)[p := ucast v]" "va_phys m' = va_phys m"
    by (auto simp: access_1 mem_inv_def store_1 [OF len])
  have "umem m' x = ((umem m)(a \<mapsto> ucast v)) x" for x
    using inv va_phys_read [OF p] len by (auto simp: umem_def m' mem_inv_def nth_list_update split: sum.split)
  with m' inv show "\<exists>m'. kwrite a v m = Inr m' \<and> mem_inv m' \<and> umem m' = (umem m)(a \<mapsto> ucast v) \<and> uwritable m' = uwritable m"
    by (auto simp: kwrite_def mem_inv_def uwritable_def fun_eq_iff)
qed

lemma holds_map: "holds_at v a s \<Longrightarrow> holds_at v a (s @ t) = holds_at v (a + word_of_nat (length s)) t"
  by (induction s arbitrary: a) (simp_all add: add.assoc)

lemma chk_small [simp]: "0 \<le> n \<Longrightarrow> n < 2 ^ 31 \<Longrightarrow> chk n = Inr n"
  by (simp add: chk_def in_int_def)

lemma User2System_string:
  assumes "mem_inv m" "0 \<notin> set s" "length s < limit" "limit < 2 ^ 31 - 1" "holds_at (umem m) a (s @ [0])"
  shows "\<exists>m'. User2System a (int limit) m = Inr (s @ replicate (limit + 1 - length s) 0, m') \<and> mem_inv m' \<and>
    umem m' = umem m \<and> uwritable m' = uwritable m"
proof -
  have "upto_nul limit (s @ [0]) = s @ [0]" using upto_nul_string [OF assms(2,3)] by blast
  from um.copy_in [OF assms(1) this _ assms(5)] obtain m' where
    m': "u2s_loop kread limit a m = Inr (s @ [0], m')" "mem_inv m'" "umem m' = umem m" "uwritable m' = uwritable m" by auto
  have "replicate (limit + 1 - length s) (0 :: byte) = 0 # replicate (limit - length s) 0"
    using assms(3) by (simp add: Suc_diff_le less_imp_le)
  then show ?thesis using m' assms(4) by (simp add: User2System_def nat_add_distrib)
qed

lemma System2User_bytes:
  assumes "mem_inv m" "n \<le> length buf" "writable_at (uwritable m) a (length (upto_nul n buf))"
  shows "\<exists>m'. System2User a (int n) buf m = Inr (int (length (upto_nul n buf)), m') \<and> mem_inv m' \<and>
    umem m' = put_bytes (umem m) a (upto_nul n buf) \<and> uwritable m' = uwritable m"
  using um.copy_out [OF assms(1) _ assms(2,3)] assms(1) by (cases "n = 0") (auto simp: System2User_def)

lemma cstr_string: "0 \<notin> set s \<Longrightarrow> cstr (s @ 0 # t) = s"
  by (induction s) (auto simp: cstr_def)

section \<open>Properties\<close>

text \<open>A machine whose one page shows \<open>ab\<close> and a terminator at address 8.\<close>

definition string_machine :: machine where
  "string_machine = example_machine\<lparr>mainMemory := (mainMemory example_machine)[648 := 97, 649 := 98]\<rparr>"

lemma example_map: "va_phys example_machine w a = (if unat a < 128 then Inr (640 + unat a) else Inl AddressErrorException)"
  by (auto simp: va_phys_def example_machine_def Let_def Suc_le_eq div_greater_zero_iff)

lemma example_inv: "mem_inv example_machine" "mem_inv string_machine"
  using example_machine_ok by (auto simp: mem_inv_def example_map string_machine_def mach_ok_def word_unat_eq_iff split: if_splits)

lemma example_writable: "uwritable example_machine a = (unat a < 128)" "uwritable string_machine a = (unat a < 128)"
  by (simp_all add: uwritable_def example_map string_machine_def)

lemma string_machine_holds: "holds_at (umem string_machine) 8 [97, 98, 0]"
proof -
  have "mainMemory example_machine = replicate 16384 0" by (simp add: example_machine_def)
  then show ?thesis by (simp add: umem_def string_machine_def example_map)
qed

text \<open>
  C24. Strings pass between the kernel and the program unchanged: copying a C string out to writable memory
  with \<^verbatim>\<open>System2User\<close> stores its bytes and the terminator and nothing else, and \<^verbatim>\<open>User2System\<close> with any larger limit
  reads the same string back, padded with zeros.
\<close>

theorem copy_out_in:
  assumes "mem_inv m" "0 \<notin> set s" "length s < limit" "limit < 2 ^ 31 - 1" "length s < n" "n \<le> length (s @ 0 # rest)"
    "writable_at (uwritable m) a (length s + 1)"
  shows "\<exists>m1 m2. System2User a (int n) (s @ 0 # rest) m = Inr (int (length s) + 1, m1) \<and>
    User2System a (int limit) m1 = Inr (s @ replicate (limit + 1 - length s) 0, m2) \<and> mem_inv m2 \<and>
    umem m2 = put_bytes (umem m) a (s @ [0])"
proof -
  have "upto_nul n (s @ 0 # rest) = s @ [0]" by (rule upto_nul_string [OF assms(2,5)])
  with System2User_bytes [OF assms(1,6), of a] assms(7) obtain m1 where
    m1: "System2User a (int n) (s @ 0 # rest) m = Inr (int (length s) + 1, m1)" "mem_inv m1"
      "umem m1 = put_bytes (umem m) a (s @ [0])" by (auto simp: add.commute)
  have "holds_at (umem m1) a (s @ [0])" unfolding m1(3) by (rule put_bytes_holds) (use assms(3,4) in simp)
  from User2System_string [OF m1(2) assms(2,3,4) this] m1 show ?thesis by auto
qed

theorem copy_out_in_witness:
  "\<exists>m1 m2. System2User 8 5 [104, 105, 0, 1, 2] example_machine = Inr (3, m1) \<and>
     User2System 8 33 m1 = Inr ([104, 105] @ replicate 32 0, m2)"
  using copy_out_in [OF example_inv(1), of "[104, 105]" 33 5 "[1, 2]" 8]
  by (simp add: example_writable numeral_3_eq_3) blast

text \<open>
  \<^verbatim>\<open>SC_Toupper\<close> upper-cases the C string at its argument in place, leaves the terminator and every other
  byte of user memory alone, and returns 0.
\<close>

theorem Toupper_in_place:
  assumes "mem_inv (k_mach k)" "0 \<notin> set s" "length s < 1024" "holds_at (umem (k_mach k)) (arg k 4) (s @ [0])"
    "writable_at (uwritable (k_mach k)) (arg k 4) (length s)"
  shows "\<exists>k'. sc_Toupper k = Inr k' \<and> umem (k_mach k') = put_bytes (umem (k_mach k)) (arg k 4) (map toupper s) \<and>
    arg k' 2 = 0 \<and> k_fs k' = k_fs k \<and> k_host k' = k_host k"
proof -
  obtain m1 where m1: "User2System (arg k 4) 1024 (k_mach k) = Inr (s @ replicate (1025 - length s) 0, m1)" "mem_inv m1"
    "umem m1 = umem (k_mach k)" "uwritable m1 = uwritable (k_mach k)"
    using User2System_string [OF assms(1,2,3) _ assms(4)] by auto
  obtain z where z: "replicate (1025 - length s) (0 :: byte) = 0 # z" using assms(3) by (cases "1025 - length s") auto
  have nz: "0 \<notin> set (map toupper s)" using assms(2) by (auto simp: toupper_def word_le_nat_alt)
  have "upto_nul (length s) (map toupper s @ 0 # z) = map toupper s" using upto_nul_full [OF nz, of "0 # z"] by simp
  with System2User_bytes [OF m1(2), of "length s" "map toupper s @ 0 # z" "arg k 4"] assms(5) m1(4) obtain m2 where
    m2: "System2User (arg k 4) (int (length s)) (map toupper s @ 0 # z) m1 = Inr (int (length s), m2)" "mem_inv m2"
      "umem m2 = put_bytes (umem m1) (arg k 4) (map toupper s)" by auto
  have "2 < length (registers m2)" using m2(2) by (simp add: mem_inv_def mach_ok_def)
  then show ?thesis
    using m1 m2 by (simp add: sc_Toupper_def k_copyin_def k_copyout_def z cstr_string [OF assms(2)] cstr_string [OF nz]
        ret_def set_reg_def)
qed

text \<open>The kernel as it starts, over a given machine and host.\<close>

definition kern_on :: "machine \<Rightarrow> 'h \<Rightarrow> 'h kern" where
  "kern_on m h = \<lparr>k_mach = m, k_fs = StubFS_new, k_host = h, k_in = [], k_eof = False, k_out = []\<rparr>"

definition string_kern :: "unit kern" where
  "string_kern = kern_on (set_reg 4 8 string_machine) ()"

lemma string_kern:
  "mem_inv (k_mach string_kern)" "umem (k_mach string_kern) = umem string_machine"
  "uwritable (k_mach string_kern) = uwritable string_machine" "arg string_kern 4 = 8" "arg string_kern 5 = 0"
proof -
  show "arg string_kern 5 = 0"
    by (simp add: string_kern_def kern_on_def set_reg_def string_machine_def example_machine_def)
qed (use example_inv(2) in \<open>auto simp: string_kern_def kern_on_def set_reg_def mem_inv_def mach_ok_def uwritable_def fun_eq_iff reg_numbers\<close>)

theorem Toupper_in_place_witness:
  "\<exists>k'. sc_Toupper string_kern = Inr k' \<and> umem (k_mach k') 8 = Some 65 \<and> umem (k_mach k') 9 = Some 66 \<and> arg k' 2 = 0"
proof -
  have "\<exists>k'. sc_Toupper string_kern = Inr k' \<and>
    umem (k_mach k') = put_bytes (umem (k_mach string_kern)) (arg string_kern 4) (map toupper [97, 98]) \<and>
    arg k' 2 = 0 \<and> k_fs k' = k_fs string_kern \<and> k_host k' = k_host string_kern"
    by (rule Toupper_in_place)
      (use string_kern string_machine_holds in \<open>simp_all add: example_writable\<close>)
  then show ?thesis by (auto simp: string_kern toupper_def)
qed

section \<open>Running a program\<close>

inductive user_run :: "'h unix \<Rightarrow> byte list \<Rightarrow> 'h kern \<Rightarrow> 'h kern \<Rightarrow> bool" for U g where
  start: "user_run U g k k"
| step: "user_run U g k k1 \<Longrightarrow> user_step U g k1 = Inr (Returned k2) \<Longrightarrow> user_run U g k k2"

lemma next_instr_regs:
  assumes "mach_ok (k_mach k)"
  shows "arg (next_instr k) PCReg = arg k PCReg + 4" "arg (next_instr k) NextPCReg = arg k PCReg + 8"
    "arg (next_instr k) PrevPCReg = arg k PCReg" "i \<notin> {34, 35, 36} \<Longrightarrow> arg (next_instr k) i = arg k i"
    "mach_ok (k_mach (next_instr k))" "confined (k_mach k) (k_mach (next_instr k))"
    "k_fs (next_instr k) = k_fs k"
  using assms by (auto simp: next_instr_def Let_def mach_ok_def set_reg_def reg_numbers confined_def)

lemma handler_Returned:
  assumes "mach_ok (k_mach k)" "ExceptionHandler U g e k = Inr (Returned k')"
  obtains k1 where "e = SyscallException" "arg k 2 \<noteq> 0" "keeps k k1" "mach_ok (k_mach k1)" "k' = next_instr k1"
proof -
  from assms(2) obtain k1 where "syscall U g (arg k 2) k = Inr k1" "k' = next_instr k1" "e = SyscallException" "arg k 2 \<noteq> 0"
    by (auto simp: ExceptionHandler_def Let_def split: if_splits elim!: rbindE)
  with syscall_keeps [OF assms(1)] keeps_ok that show thesis by blast
qed

lemma user_step_keeps:
  assumes ok: "mach_ok (k_mach k)" and st: "user_step U g k = Inr (Returned k')"
  shows "mach_ok (k_mach k') \<and> confined (k_mach k) (k_mach k') \<and> (fs_tables_ok (k_fs k) \<longrightarrow> fs_tables_ok (k_fs k'))"
proof -
  obtain r m where r: "Machine_OneInstruction (k_mach k) = Inr (r, m)"
    "(case r of Inl e \<Rightarrow> ExceptionHandler U g e (k\<lparr>k_mach := m\<rparr>) | Inr _ \<Rightarrow> Inr (Returned (k\<lparr>k_mach := m\<rparr>))) = Inr (Returned k')"
    using st by (auto simp: user_step_def Let_def elim!: rbindE)
  have m: "mach_ok m" "confined (k_mach k) m" using OneInstruction_ok [OF ok] r(1) by auto
  show ?thesis
  proof (cases r)
    case (Inl e)
    with r(2) m(1) obtain k1 where k1: "keeps (k\<lparr>k_mach := m\<rparr>) k1" "mach_ok (k_mach k1)" "k' = next_instr k1"
      using handler_Returned [of "k\<lparr>k_mach := m\<rparr>" U g e k'] by auto
    then have "confined m (k_mach k1)" "fs_tables_ok (k_fs k) \<longrightarrow> fs_tables_ok (k_fs k1)"
      by (simp_all add: keeps_def keeps_mach_def)
    with m(2) k1 next_instr_regs [OF k1(2)] show ?thesis by (auto intro: confined_trans)
  qed (use r m in auto)
qed

text \<open>
  C4. A user program is contained: however many instructions and system calls it runs, with whatever host, the
  machine stays sound (register 0 zero, the pending load aimed at a general register, the page table at
  least as long as its size says), the kernel's file and socket tables keep their sizes, the translation
  never changes, and the bytes of physical memory that change are ones the program may write.
\<close>

theorem user_program_contained:
  assumes "user_run U g k k'" "mach_ok (k_mach k)" "fs_tables_ok (k_fs k)"
  shows "mach_ok (k_mach k') \<and> fs_tables_ok (k_fs k') \<and> va_phys (k_mach k') = va_phys (k_mach k) \<and>
    (\<forall>q < nat MemorySize. mainMemory (k_mach k') ! q \<noteq> mainMemory (k_mach k) ! q \<longrightarrow>
       (\<exists>va. va_phys (k_mach k) True va = Inr q))"
proof -
  from assms have "mach_ok (k_mach k') \<and> fs_tables_ok (k_fs k') \<and> confined (k_mach k) (k_mach k')"
    by (induction rule: user_run.induct) (auto dest: user_step_keeps intro: confined_trans)
  then show ?thesis by (simp add: confined_def MemorySize_def)
qed

text \<open>A machine about to execute a \<^verbatim>\<open>syscall\<close> instruction, with the number of \<^verbatim>\<open>SC_Add\<close> in register 2.\<close>

definition add_machine :: machine where
  "add_machine = set_reg 4 30 (set_reg 5 12 (set_reg 2 42 (example_machine\<lparr>mainMemory := (mainMemory example_machine)[640 := 12]\<rparr>)))"

lemma add_machine_ok: "mach_ok add_machine"
  by (simp add: mach_ok_def add_machine_def example_machine_def set_reg_def reg_numbers)

lemma add_machine_step: "\<exists>k'. user_step U g (kern_on add_machine h) = Inr (Returned k')"
proof -
  have a: "va_phys add_machine False 0 = Inr 640"
    by (simp add: add_machine_def set_reg_def example_map)
  have mem: "mainMemory add_machine = (replicate 16384 0)[640 := 12]"
    by (simp add: add_machine_def set_reg_def example_machine_def)
  have v: "load_val (mainMemory add_machine) 4 640 = 12"
    by (simp add: load_val_def load_word_def mem bytes_word_def)
  have pc: "reg add_machine PCReg = 0" by (simp add: add_machine_def set_reg_def example_machine_def reg_numbers)
  obtain m1 where m1: "Machine_ReadMem 0 4 add_machine = Inr (Inr 12, m1)" "mach_ok m1" "registers m1 = registers add_machine"
    using ReadMem_ok [OF add_machine_ok, of 4 0] a v add_machine_ok by (auto simp: access_def same_map_def)
  have op: "opCode (Instruction_Decode 12) = OP_SYSCALL"
    by (simp add: Instruction_Decode_def opTable_def specialTable_def)
  have L: "reg m1 LoadReg = 0" "length (registers m1) = 40" "reg m1 2 = 42"
    by (simp_all add: m1(3) add_machine_def set_reg_def example_machine_def reg_numbers)
  have "\<exists>m2. Machine_OneInstruction add_machine = Inr (Inl SyscallException, m2) \<and> reg m2 2 = 42"
    unfolding Machine_OneInstruction_def tbind_def pc m1(1) using L
    by (simp add: op Let_def Machine_RaiseException_def Machine_DelayedLoad_def aput_def set_reg_def reg_numbers)
  then obtain m2 where "Machine_OneInstruction add_machine = Inr (Inl SyscallException, m2)" "reg m2 2 = 42" by blast
  then show ?thesis
    by (simp add: user_step_def kern_on_def ExceptionHandler_def syscall_def sc_Add_def)
qed

lemma new_tables_ok: "fs_tables_ok StubFS_new"
  by (simp add: fs_tables_ok_def StubFS_new_def StubMaxFile_def StubMaxSocket_def)

theorem user_program_contained_witness:
  "\<forall>U :: unit unix. \<exists>k'. user_run U [] (kern_on add_machine ()) k' \<and> mach_ok (k_mach k') \<and> fs_tables_ok (k_fs k')"
proof
  fix U :: "unit unix"
  obtain k' where "user_step U [] (kern_on add_machine ()) = Inr (Returned k')" using add_machine_step [of U "[]" "()"] by blast
  then have r: "user_run U [] (kern_on add_machine ()) k'" by (rule user_run.step [OF user_run.start])
  with user_program_contained [OF r] add_machine_ok new_tables_ok
  show "\<exists>k'. user_run U [] (kern_on add_machine ()) k' \<and> mach_ok (k_mach k') \<and> fs_tables_ok (k_fs k')"
    by (auto simp: kern_on_def)
qed



section \<open>Descriptors\<close>

text \<open>
  \<^verbatim>\<open>SC_Open\<close> hands out the least free slot from 2 on: when it succeeds, the slot it returns was free and
  now holds the file, every slot below it was taken, no other slot and no socket changed; when it fails after
  the name was read, no slot changed.
\<close>

theorem Open_least_slot:
  assumes "fs_tables_ok (k_fs k)" "mach_ok (k_mach k)" "sc_Open U k = Inr k'"
  shows "\<exists>i. 2 \<le> i \<and> i < nat StubMaxFile \<and> fs_openfile (k_fs k) ! i = None \<and>
    (\<forall>j. 2 \<le> j \<and> j < i \<longrightarrow> fs_openfile (k_fs k) ! j \<noteq> None) \<and>
    (arg k' 2 = word_of_nat i \<and> (\<exists>f. k_fs k' = (k_fs k)\<lparr>fs_openfile := (fs_openfile (k_fs k))[i := Some f]\<rparr> \<and>
         sf_type f = Some (sint (arg k 5))) \<or>
     arg k' 2 = - 1 \<and> k_fs k' = k_fs k)"
proof -
  obtain j where j: "StubFS_findIndexFree (k_fs k) = Inr j" "2 \<le> j" "j < 20" "fs_openfile (k_fs k) ! nat j = None"
    "\<And>i. 2 \<le> i \<Longrightarrow> i < j \<Longrightarrow> fs_openfile (k_fs k) ! nat i \<noteq> None"
  proof (rule findIndexFree_cases [OF assms(1)])
    assume "StubFS_findIndexFree (k_fs k) = Inr (- 1)"
    then show thesis using assms(3) by (auto simp: sc_Open_def Let_def split: if_splits)
  qed (rule that)
  obtain nm k1 f h k2 where c: "k_copyin (arg k 4) (MaxFileLength + 1) k = Inr (nm, k1)"
    and o: "StubFS_Open_t U (cstr nm) (sint (arg k 5)) (k_host k1) = Inr (f, h)"
    and p: "put_file j (map_option (\<lambda>f. f\<lparr>sf_name := None\<rparr>) f) (k1\<lparr>k_host := h\<rparr>) = Inr k2"
    and k': "k' = (case f of None \<Rightarrow> ret (- 1) k2 | Some _ \<Rightarrow> ret (word_of_int j) k2)"
    using assms(3) j(1,2) by (auto simp: sc_Open_def Let_def fail_def split: if_splits option.splits elim!: rbindE)
  have fs1: "k_fs k1 = k_fs k" using c by (auto simp: k_copyin_def elim!: rbindE)
  have ok: "mach_ok (k_mach k2)"
    using keeps_ok [OF keeps_put_file [OF keeps_host [OF keeps_copyin [OF keeps_refl [OF assms(2)] c]] p]] .
  have fs2: "k_fs k2 = (k_fs k)\<lparr>fs_openfile := (fs_openfile (k_fs k))[nat j := map_option (\<lambda>f. f\<lparr>sf_name := None\<rparr>) f]\<rparr>"
    using p fs1 by (auto simp: put_file_def aput_eq_Inr elim!: rbindE)
  have "arg (ret v k2) 2 = v" "k_fs (ret v k2) = k_fs k2" for v
    using ok by (simp_all add: ret_def set_reg_def mach_ok_def)
  moreover have "sf_type g = Some (sint (arg k 5))" if "f = Some g" for g
    using o that by (auto simp: StubFS_Open_t_def StubFile_new3_def Let_def split: if_splits elim!: rbindE)
  moreover have "(fs_openfile (k_fs k))[nat j := None] = fs_openfile (k_fs k)" using j(4) list_update_id by metis
  ultimately have "arg k' 2 = word_of_nat (nat j) \<and>
      (\<exists>f. k_fs k' = (k_fs k)\<lparr>fs_openfile := (fs_openfile (k_fs k))[nat j := Some f]\<rparr> \<and> sf_type f = Some (sint (arg k 5))) \<or>
     arg k' 2 = - 1 \<and> k_fs k' = k_fs k"
    using k' fs2 j(2) by (cases f) auto
  moreover have "fs_openfile (k_fs k) ! i \<noteq> None" if "2 \<le> i" "i < nat j" for i
    using j(5) [of "int i"] that by simp
  ultimately show ?thesis using j(2-4) by (intro exI [of _ "nat j"]) (auto simp: StubMaxFile_def)
qed

text \<open>
  C37. Descriptors that are not checked: \<^verbatim>\<open>SC_Close\<close> indexes the table of open files with any number the program
  passes, and \<^verbatim>\<open>SC_Write\<close> and \<^verbatim>\<open>SC_Seek\<close> let the number 20 through, one past the end; writing to a number
  whose file is closed dereferences a null pointer.
\<close>

theorem unchecked_descriptors:
  assumes "fs_tables_ok (k_fs k)"
  shows "(sint (arg k 4) \<notin> {0 ..< StubMaxFile} \<longrightarrow> sc_Close U k = Inl BadIndex) \<and>
    (arg k 6 = 20 \<and> 0 \<le> sint (arg k 5) \<longrightarrow> sc_Write U k = Inl BadIndex) \<and>
    (arg k 5 = 20 \<longrightarrow> sc_Seek U k = Inl BadIndex) \<and>
    (0 \<le> sint (arg k 5) \<and> sint (arg k 6) \<in> {2 ..< StubMaxFile} \<and> fs_openfile (k_fs k) ! nat (sint (arg k 6)) = None \<longrightarrow>
      sc_Write U k = Inl NullDeref)"
  using assms by (auto simp: sc_Close_def sc_Write_def sc_Seek_def file_at_def Let_def aget_def fs_tables_ok_def StubMaxFile_def)

theorem unchecked_descriptors_witness:
  "\<forall>U :: unit unix. sc_Close U (kern_on (set_reg 4 20 example_machine) ()) = Inl BadIndex"
proof -
  have "fs_tables_ok (k_fs (kern_on (set_reg 4 20 example_machine) ()))" by (simp add: kern_on_def new_tables_ok)
  moreover have "arg (kern_on (set_reg 4 20 example_machine) ()) 4 = 20"
    by (simp add: kern_on_def set_reg_def example_machine_def)
  ultimately show ?thesis by (intro allI mp [OF conjunct1 [OF unchecked_descriptors]]) (simp_all add: StubMaxFile_def)
qed

text \<open>A host on which every file can be opened.\<close>

definition open_host :: "unit unix" where
  "open_host = \<lparr>u_open = (\<lambda>_ _ h. (7, h)), u_close = (\<lambda>_ h. (0, h)), u_lseek = (\<lambda>_ _ _ h. (0, h)), u_read = (\<lambda>_ _ h. ((0, []), h)),
     u_write = (\<lambda>_ bs h. (int (length bs), h)), u_unlink = (\<lambda>_ h. (0, h)), u_socket = (\<lambda>h. (8, h)), u_connect = (\<lambda>_ _ _ h. (0, h)),
     u_send = (\<lambda>_ bs h. (int (length bs), h)), u_bind = (\<lambda>_ _ h. (0, h)), u_listen = (\<lambda>_ _ h. (0, h)), u_accept = (\<lambda>_ h. (9, h))\<rparr>"

theorem Open_least_slot_witness:
  "\<exists>k' i. sc_Open open_host string_kern = Inr k' \<and> 2 \<le> i \<and> i < 20 \<and> (arg k' 2 = word_of_nat i \<or> arg k' 2 = - 1)"
proof -
  have fs: "fs_tables_ok (k_fs string_kern)" "StubFS_findIndexFree (k_fs string_kern) = Inr 2"
    using new_tables_ok
    by (auto simp: string_kern_def kern_on_def StubFS_findIndexFree_def StubFS_new_def StubMaxFile_def search.simps aget_def)
  obtain m1 where "User2System 8 33 (k_mach string_kern) = Inr ([97, 98] @ replicate 32 0, m1)"
    using User2System_string [OF string_kern(1), of "[97, 98]" 33 8] string_kern(2) string_machine_holds by auto
  moreover have "length (fs_openfile (k_fs string_kern)) = 20" using fs(1) by (simp add: fs_tables_ok_def)
  ultimately obtain k' where k': "sc_Open open_host string_kern = Inr k'"
    by (auto simp: sc_Open_def string_kern(4,5) fs k_copyin_def MaxFileLength_def StubFS_Open_t_def OpenForReadWrite_def
        open_host_def put_file_def assert_def Let_def)
  from Open_least_slot [OF fs(1) _ k'] string_kern(1) show ?thesis using k' by (auto simp: mem_inv_def StubMaxFile_def)
qed

end
