(* ===== verification/Multi.thy ===== *)
theory Multi
  imports UserProg ThreadsLock
begin

text \<open>
  User programs on threads: the loop of \<^verbatim>\<open>Machine::Run\<close> (\<^verbatim>\<open>machine/mipssim.cc\<close>) and \<^verbatim>\<open>ExceptionHandler\<close> (\<^verbatim>\<open>userprog/exception.cc\<close>) put
  together with the machine of frames of the thread system.  A step of the system is a step of the kernel, or an instruction of the user
  program of the running thread, with its system call if it traps, followed by the tick.  The system calls that wait for the
  console block the thread in the middle of the handler and are left out.

  The invariant of user state relates the address spaces of the threads, their \<^verbatim>\<open>Execute\<close> calls to come, and the page table in the
  machine; a policy (locale \<open>space_policy\<close>) says which address spaces a thread may have.  The theorems: user programs are contained under
  preemption, and one that is preempted finds its registers, its translation and its memory as it left them.
\<close>

section \<open>Threads that run user programs\<close>

text \<open>
  The machine's page table is the one of the running thread's address space, not a copy: what an instruction does to the table shows
  in the space.
\<close>

definition running :: "machine \<Rightarrow> kst \<Rightarrow> kst" where
  "running m k = (put_thread (cur k) ((th k (cur k))\<lparr>t_space := map_option (\<lambda>sp. sp\<lparr>as_pageTable := the (pageTable m)\<rparr>) (t_space (th k (cur k)))\<rparr>) k)
     \<lparr>kmach := m\<rparr>"

definition console_call :: "'h kern \<Rightarrow> bool" where
  "console_call q \<longleftrightarrow> (arg q 2 = 7 \<and> arg q 6 = 0) \<or> (arg q 2 = 8 \<and> arg q 6 = 1)"

inductive sys_step :: "'h unix \<Rightarrow> byte list \<Rightarrow> (nat \<Rightarrow> frame list) \<Rightarrow> kst \<Rightarrow> 'h kern \<Rightarrow> kst \<Rightarrow> 'h kern \<Rightarrow> bool" for U g F where
  kernel: "top k \<noteq> Some UserRun \<Longrightarrow> kstep F k = Inr k' \<Longrightarrow> sys_step U g F k q k' q"
| instruction: "top k = Some UserRun \<Longrightarrow> Machine_OneInstruction (kmach k) = Inr (Inr r, m) \<Longrightarrow>
    kstep F (running m k) = Inr k' \<Longrightarrow> sys_step U g F k q k' q"
| call: "top k = Some UserRun \<Longrightarrow> Machine_OneInstruction (kmach k) = Inr (Inl e, m) \<Longrightarrow> \<not> console_call (q\<lparr>k_mach := m\<rparr>) \<Longrightarrow>
    ExceptionHandler U g e (q\<lparr>k_mach := m\<rparr>) = Inr (Returned q') \<Longrightarrow>
    kstep F (running (k_mach q') k) = Inr k' \<Longrightarrow> sys_step U g F k q k' q'"

text \<open>Runs, and runs during which thread \<open>t\<close> is not the one that runs.\<close>

inductive sys_run :: "'h unix \<Rightarrow> byte list \<Rightarrow> (nat \<Rightarrow> frame list) \<Rightarrow> kst \<Rightarrow> 'h kern \<Rightarrow> kst \<Rightarrow> 'h kern \<Rightarrow> bool" for U g F where
  here: "sys_run U g F k q k q"
| more: "sys_run U g F k q k1 q1 \<Longrightarrow> sys_step U g F k1 q1 k2 q2 \<Longrightarrow> sys_run U g F k q k2 q2"

inductive sys_away :: "'h unix \<Rightarrow> byte list \<Rightarrow> (nat \<Rightarrow> frame list) \<Rightarrow> nat \<Rightarrow> kst \<Rightarrow> 'h kern \<Rightarrow> kst \<Rightarrow> 'h kern \<Rightarrow> bool" for U g F t where
  gone: "sys_away U g F t k q k q"
| still: "sys_away U g F t k q k1 q1 \<Longrightarrow> cur k1 \<noteq> t \<Longrightarrow> sys_step U g F k1 q1 k2 q2 \<Longrightarrow> sys_away U g F t k q k2 q2"

text \<open>When the running program makes no further step: the simulator or the handler stops at an assertion, the program halts the
  machine, or it waits for the console.\<close>

definition user_stops :: "'h unix \<Rightarrow> byte list \<Rightarrow> machine \<Rightarrow> 'h kern \<Rightarrow> bool" where
  "user_stops U g m q =
     (case Machine_OneInstruction m of
        Inl _ \<Rightarrow> True
      | Inr (Inr _, _) \<Rightarrow> False
      | Inr (Inl e, m') \<Rightarrow> console_call (q\<lparr>k_mach := m'\<rparr>) \<or>
          (case ExceptionHandler U g e (q\<lparr>k_mach := m'\<rparr>) of Inr (Returned _) \<Rightarrow> False | _ \<Rightarrow> True))"

section \<open>What the kernel keeps of the user's state\<close>

fun special :: "frame \<Rightarrow> bool" where
  "special UserRun = True"
| "special DoBegin = True"
| "special (DoExecute _) = True"
| "special _ = False"

definition upart :: "thread \<Rightarrow> addrspace option \<times> frame list" where
  "upart x = (t_space x, filter special (t_code x))"

definition uview :: "kst \<Rightarrow> nat \<times> (byte list \<times> tentry list option \<times> tentry list option \<times> 32 word) \<times>
    (addrspace option \<times> frame list) option list" where
  "uview k = (cur k, (mainMemory (kmach k), tlb (kmach k), pageTable (kmach k), pageTableSize (kmach k)), map (map_option upart) (threads k))"

lemma uview_cong: "threads k' = threads k \<Longrightarrow> cur k' = cur k \<Longrightarrow> kmach k' = kmach k \<Longrightarrow> uview k' = uview k"
  by (simp add: uview_def)

lemma uview_fields [simp]:
  "uview (k\<lparr>level := l\<rparr>) = uview k" "uview (k\<lparr>pending := p\<rparr>) = uview k" "uview (k\<lparr>devs := d\<rparr>) = uview k"
  "uview (k\<lparr>incoming := c\<rparr>) = uview k" "uview (k\<lparr>serial := n\<rparr>) = uview k" "uview (k\<lparr>keyboard := ks\<rparr>) = uview k"
  "uview (k\<lparr>inHandler := b\<rparr>) = uview k" "uview (k\<lparr>yieldOnReturn := b\<rparr>) = uview k" "uview (k\<lparr>drawn := n\<rparr>) = uview k"
  "uview (k\<lparr>now := i\<rparr>) = uview k" "uview (k\<lparr>idleTicks := i\<rparr>) = uview k"
  "uview (k\<lparr>mstatus := st\<rparr>) = uview k" "uview (k\<lparr>systemTicks := i\<rparr>) = uview k" "uview (k\<lparr>userTicks := i\<rparr>) = uview k"
  "uview (k\<lparr>halted := b\<rparr>) = uview k" "uview (k\<lparr>locks := ls\<rparr>) = uview k" "uview (k\<lparr>conds := cs\<rparr>) = uview k"
  "uview (k\<lparr>lists := xs\<rparr>) = uview k" "uview (k\<lparr>toBeDestroyed := tb\<rparr>) = uview k" "uview (k\<lparr>readyList := r\<rparr>) = uview k"
  "uview (k\<lparr>sems := ss\<rparr>) = uview k" "uview (put_sem s x k) = uview k"
  by (rule uview_cong; simp; fail)+

lemma uview_put: "get_thread t k = Inr x \<Longrightarrow> upart y = upart x \<Longrightarrow> uview (put_thread t y k) = uview k"
  by (auto simp: uview_def put_thread_def get_thread_def map_update list_update_same_conv split: if_splits option.splits)

lemma with_thread_uview: "with_thread t f k = Inr k' \<Longrightarrow> (\<And>x. upart (f x) = upart x) \<Longrightarrow> uview k' = uview k"
  by (auto simp: with_thread_def elim!: rbindE intro: uview_put)

lemma push_uview: "push fs k = Inr k' \<Longrightarrow> filter special fs = [] \<Longrightarrow> uview k' = uview k"
  unfolding push_def by (erule with_thread_uview) (simp add: upart_def)

lemma status_uview: "with_thread t (\<lambda>th. th\<lparr>t_status := st\<rparr>) k = Inr k' \<Longrightarrow> uview k' = uview k"
  by (erule with_thread_uview) (simp add: upart_def)

lemma result_uview: "with_thread t (\<lambda>th. th\<lparr>t_result := r\<rparr>) k = Inr k' \<Longrightarrow> uview k' = uview k"
  by (erule with_thread_uview) (simp add: upart_def)

lemma ReadyToRun_uview: "Scheduler_ReadyToRun t k = Inr k' \<Longrightarrow> uview k' = uview k"
  by (auto simp: Scheduler_ReadyToRun_def split: if_splits elim!: rbindE dest!: status_uview)

lemma V_body_uview: "V_body s k = Inr k' \<Longrightarrow> uview k' = uview k"
  by (auto simp: V_body_def split: if_splits elim!: rbindE dest!: ReadyToRun_uview)

lemma handler_V_uview: "handler_V s k = Inr k' \<Longrightarrow> uview k' = uview k"
  by (auto simp: handler_V_def elim!: rbindE dest!: V_body_uview)

lemma Schedule_uview: "Interrupt_Schedule d n k = Inr k' \<Longrightarrow> uview k' = uview k"
  by (auto simp: Interrupt_Schedule_def Let_def split: if_splits elim!: rbindE)

lemma CallBack_uview: "CallBack d k = Inr k' \<Longrightarrow> uview k' = uview k"
proof (cases d)
  case TimerDev
  moreover assume "CallBack d k = Inr k'"
  ultimately show ?thesis
    by (auto simp: Timer_CallBack_def Alarm_CallBack_def Timer_SetInterrupt_def Interrupt_YieldOnReturn_def
        split: if_splits elim!: rbindE dest!: Schedule_uview)
next
  case KeyboardDev
  moreover assume "CallBack d k = Inr k'"
  ultimately show ?thesis
    by (auto simp: ConsoleInput_CallBack_def split: if_splits list.splits poll.splits elim!: rbindE
        dest!: Schedule_uview handler_V_uview)
next
  case (RequestDev n)
  moreover assume "CallBack d k = Inr k'"
  ultimately show ?thesis
    by (auto simp: Device_CallBack_def split: if_splits elim!: rbindE dest!: handler_V_uview)
qed

lemma fire_uview: "fire k = Inr k' \<Longrightarrow> uview k' = uview k"
proof (induction k rule: fire.induct)
  case (1 k)
  obtain p ps k1 where k1: "List_RemoveFront (pending k) = Inr (p, ps)" "CallBack (p_dev p) (k\<lparr>pending := ps\<rparr>) = Inr k1"
    "(if pending k1 \<noteq> [] \<and> p_when (hd (pending k1)) \<le> now k1 then fire k1 else Inr k1) = Inr k'"
    using "1.prems" by (subst (asm) fire.simps) (auto elim!: rbindE split: prod.splits)
  have "uview k1 = uview k" using CallBack_uview [OF k1(2)] by simp
  moreover have "uview k' = uview k1" using "1.IH" [OF k1(1) refl k1(2)] k1(3) by (auto split: if_splits)
  ultimately show ?case by simp
qed

lemma DelayedLoad_uview: "Machine_DelayedLoad a b (kmach k) = Inr m \<Longrightarrow> uview (k\<lparr>kmach := m\<rparr>) = uview k"
  by (auto simp: Machine_DelayedLoad_def uview_def elim!: rbindE)

lemma CheckIfDue_uview: "Interrupt_CheckIfDue adv k = Inr (b, k') \<Longrightarrow> uview k' = uview k"
proof -
  have d: "uview (x\<lparr>kmach := m\<rparr>) = uview x" if "Machine_DelayedLoad a b (kmach k) = Inr m" "kmach x = kmach k" for x m a b
    using that DelayedLoad_uview [of a b x m] by simp
  assume "Interrupt_CheckIfDue adv k = Inr (b, k')"
  then show ?thesis
    by (auto simp: Interrupt_CheckIfDue_def Let_def d split: if_splits elim!: rbindE dest!: fire_uview)
qed

lemma OneTick_uview: "Interrupt_OneTick k = Inr k' \<Longrightarrow> uview k' = uview k"
  by (auto simp: Interrupt_OneTick_def Let_def split: if_splits prod.splits elim!: rbindE dest!: CheckIfDue_uview push_uview)

lemma SetLevel_uview: "Interrupt_SetLevel l k = Inr k' \<Longrightarrow> uview k' = uview k"
  by (auto simp: Interrupt_SetLevel_def Let_def split: if_splits elim!: rbindE dest!: OneTick_uview)

lemma Idle_uview: "Interrupt_Idle k = Inr k' \<Longrightarrow> uview k' = uview k"
  by (auto simp: Interrupt_Idle_def Interrupt_Halt_def split: if_splits prod.splits elim!: rbindE dest!: CheckIfDue_uview)

lemmas op_uview = push_uview ReadyToRun_uview V_body_uview Schedule_uview SetLevel_uview Idle_uview

lemma key_get_uview: "key_get k = Inr k' \<Longrightarrow> uview k' = uview k"
  by (auto simp: key_get_def ConsoleInput_GetChar_def Let_def split: if_splits elim!: rbindE dest!: Schedule_uview result_uview)

lemma Sleep_uview: "Thread_Sleep b k = Inr k' \<Longrightarrow> uview k' = uview k"
  by (auto simp: Thread_Sleep_def split: if_splits elim!: rbindE dest!: status_uview push_uview)

text \<open>Every frame but these.\<close>

definition plain :: "frame \<Rightarrow> bool" where
  "plain f \<longleftrightarrow> \<not> switching f \<and> \<not> special f"

lemma exec_frame_uview: "exec_frame f F k = Inr k' \<Longrightarrow> plain f \<Longrightarrow> uview k' = uview k"
  by (cases f; simp only: exec_frame.simps)
    (auto simp: plain_def op_defs Let_def split: if_splits prod.splits elim!: rbindE
      dest!: op_uview status_uview result_uview key_get_uview Sleep_uview)

section \<open>The invariant of user state\<close>

text \<open>What an address space maps, and that its page table is as long as it says.\<close>

definition space_phys :: "addrspace \<Rightarrow> bool \<Rightarrow> 32 word \<Rightarrow> ExceptionType + nat" where
  "space_phys sp = va_phys \<lparr>registers = [], mainMemory = [], tlb = None, pageTable = Some (as_pageTable sp), pageTableSize = numPages sp,
     singleStep = False, runUntilTime = 0\<rparr>"

definition space_ok :: "addrspace \<Rightarrow> bool" where
  "space_ok sp \<longleftrightarrow> unat (numPages sp) \<le> length (as_pageTable sp)"

definition writable :: "addrspace \<Rightarrow> nat set" where
  "writable sp = {p. \<exists>va. space_phys sp True va = Inr p}"

lemma space_phys_machine: "pageTable m = Some (as_pageTable sp) \<Longrightarrow> pageTableSize m = numPages sp \<Longrightarrow> va_phys m = space_phys sp"
  by (simp add: space_phys_def va_phys_def fun_eq_iff)

text \<open>
  \<open>Q t sp\<close> says which address spaces thread \<open>t\<close> may have, now or by an \<^verbatim>\<open>Execute\<close> to come.  A thread in \<^verbatim>\<open>Run\<close> has an address space, and
  one that has not begun has none.
\<close>

definition part_ok :: "(addrspace \<Rightarrow> bool) \<Rightarrow> addrspace option \<times> frame list \<Rightarrow> bool" where
  "part_ok Q p \<longleftrightarrow> (case p of (s, fs) \<Rightarrow> (\<forall>sp. s = Some sp \<or> DoExecute sp \<in> set fs \<longrightarrow> Q sp) \<and> (UserRun \<in> set fs \<longrightarrow> s \<noteq> None) \<and>
     (DoBegin \<in> set fs \<longrightarrow> s = None \<and> hd fs = DoBegin \<and> DoBegin \<notin> set (tl fs)))"

definition parts_ok :: "(nat \<Rightarrow> addrspace \<Rightarrow> bool) \<Rightarrow> kst \<Rightarrow> bool" where
  "parts_ok Q k \<longleftrightarrow> (\<forall>t < length (threads k). \<forall>x. threads k ! t = Some x \<longrightarrow> part_ok (Q t) (upart x)) \<and>
     length (mainMemory (kmach k)) = 16384 \<and> tlb (kmach k) = None"

text \<open>The machine's page table is the one of the running thread.\<close>

definition matched :: "kst \<Rightarrow> bool" where
  "matched k \<longleftrightarrow> (\<forall>sp. t_space (th k (cur k)) = Some sp \<longrightarrow>
     pageTable (kmach k) = Some (as_pageTable sp) \<and> pageTableSize (kmach k) = numPages sp)"

definition uinv :: "(nat \<Rightarrow> addrspace \<Rightarrow> bool) \<Rightarrow> kst \<Rightarrow> bool" where
  "uinv Q k \<longleftrightarrow> parts_ok Q k \<and> (hd (code k (cur k)) \<noteq> Switched \<longrightarrow> matched k)"

lemma parts_ok_uview:
  assumes "snd (uview k') = snd (uview k)" "parts_ok Q k"
  shows "parts_ok Q k'"
proof -
  have e: "map (map_option upart) (threads k') = map (map_option upart) (threads k)" "mainMemory (kmach k') = mainMemory (kmach k)"
    "tlb (kmach k') = tlb (kmach k)" using assms(1) by (auto simp: uview_def)
  have l: "length (threads k') = length (threads k)" using arg_cong [OF e(1), of length] by simp
  have "part_ok (Q t) (upart x)" if "t < length (threads k')" "threads k' ! t = Some x" for t x
  proof -
    have "map_option upart (threads k ! t) = Some (upart x)" using arg_cong [OF e(1), of "\<lambda>xs. xs ! t"] that l by simp
    then obtain y where "threads k ! t = Some y" "upart y = upart x" by auto
    then show ?thesis using assms(2) that(1) l by (metis parts_ok_def)
  qed
  with e assms(2) show ?thesis by (simp add: parts_ok_def)
qed

lemma uview_thread:
  assumes "uview k' = uview k" "alive k (cur k)"
  shows "alive k' (cur k')" "upart (th k' (cur k')) = upart (th k (cur k))" "cur k' = cur k"
proof -
  let ?c = "cur k"
  have e: "map (map_option upart) (threads k') = map (map_option upart) (threads k)" and c: "cur k' = ?c" using assms(1) by (simp_all add: uview_def)
  have l: "length (threads k') = length (threads k)" using arg_cong [OF e, of length] by simp
  have "map_option upart (threads k' ! ?c) = map_option upart (threads k ! ?c)"
    using arg_cong [OF e, of "\<lambda>xs. xs ! ?c"] l assms(2) by (simp add: alive_def)
  then show "alive k' (cur k')" "upart (th k' (cur k')) = upart (th k (cur k))" "cur k' = ?c"
    using assms(2) l c by (auto simp: alive_def)
qed

lemma matched_uview:
  assumes "uview k' = uview k" "alive k (cur k)" "matched k"
  shows "matched k'"
proof -
  have "t_space (th k' (cur k')) = t_space (th k (cur k))" using uview_thread(2) [OF assms(1,2)] by (simp add: upart_def)
  moreover have "pageTable (kmach k') = pageTable (kmach k)" "pageTableSize (kmach k') = pageTableSize (kmach k)"
    using assms(1) by (simp_all add: uview_def)
  ultimately show ?thesis using assms(3) by (simp add: matched_def)
qed

lemma uinv_uview: "uview k' = uview k \<Longrightarrow> alive k (cur k) \<Longrightarrow> parts_ok Q k \<Longrightarrow> matched k \<Longrightarrow> uinv Q k'"
  using matched_uview parts_ok_uview [of k' k] by (simp add: uinv_def)

lemma part_ok_tl: "part_ok Q (s, f # fs) \<Longrightarrow> part_ok Q (s, fs) \<and> DoBegin \<notin> set fs"
  by (cases "f = DoBegin") (auto simp: part_ok_def)

lemma part_ok_run: "part_ok Q (Some sp, fs) \<Longrightarrow> part_ok Q (Some sp, UserRun # fs)"
  by (auto simp: part_ok_def)

lemma parts_ok_put:
  assumes "parts_ok Q k" "part_ok (Q t) (upart x)"
  shows "parts_ok Q (put_thread t x k)"
  using assms by (auto simp: parts_ok_def put_thread_def nth_update split: if_splits)

lemma parts_ok_alive: "parts_ok Q k \<Longrightarrow> alive k t \<Longrightarrow> part_ok (Q t) (upart (th k t))"
  by (auto simp: parts_ok_def alive_def)

text \<open>Taking the top frame off.\<close>

lemma popped_uinv:
  assumes U: "uinv Q k" and K: "kinv k" and c: "code k (cur k) = f # fs"
  shows "parts_ok Q (popped k)" "f \<noteq> Switched \<Longrightarrow> matched (popped k)" "special f \<Longrightarrow> DoBegin \<notin> set fs" "alive (popped k) (cur (popped k))"
    "t_space (th (popped k) (cur k)) = t_space (th k (cur k))"
proof -
  have a: "alive k (cur k)" by (rule kinvD(9) [OF K])
  have P: "parts_ok Q k" using U by (simp add: uinv_def)
  have o: "part_ok (Q (cur k)) (t_space (th k (cur k)), filter special (f # fs))" using parts_ok_alive [OF P a] c by (simp add: upart_def)
  then have "part_ok (Q (cur k)) (t_space (th k (cur k)), filter special fs)" using part_ok_tl by (auto split: if_splits)
  then show "parts_ok Q (popped k)" unfolding popped_def by (intro parts_ok_put [OF P]) (simp add: upart_def c)
  show "DoBegin \<notin> set fs" if "special f" using o part_ok_tl that by fastforce
  show "f \<noteq> Switched \<Longrightarrow> matched (popped k)" using U a c by (simp add: uinv_def matched_def popped_def)
  show "alive (popped k) (cur (popped k))" "t_space (th (popped k) (cur k)) = t_space (th k (cur k))" using a by (simp_all add: popped_def)
qed

section \<open>Every step of the kernel keeps it\<close>

lemma Run_uview:
  assumes "Scheduler_Run n b k = Inr k'"
  shows "cur k' = n \<and> snd (uview k') = snd (uview k)"
proof -
  have s: "snd (uview k') = snd (uview x)" if "with_thread n (\<lambda>th. th\<lparr>t_status := RUNNING\<rparr>) (x\<lparr>currentThread := n\<rparr>) = Inr k'" for x
    using status_uview [OF that] by (simp add: uview_def)
  have r: "uview (put_thread t (x\<lparr>t_userRegisters := rs\<rparr>) y) = uview y" if "get_thread t y = Inr x" for t x rs y
    using uview_put [OF that] by (simp add: upart_def)
  have m: "uview (y\<lparr>kmach := AddrSpace_SaveState sp (kmach y)\<rparr>) = uview y"
    "uview (y\<lparr>toBeDestroyed := d, kmach := AddrSpace_SaveState sp (kmach y)\<rparr>) = uview y" for y sp d
    by (rule uview_cong; simp add: AddrSpace_SaveState_def)+
  have g: "get_thread t (y\<lparr>kmach := q\<rparr>) = get_thread t y" "get_thread t (y\<lparr>toBeDestroyed := d\<rparr>) = get_thread t y" for t y q d by (simp_all add: get_thread_def)
  have "cur k' = n" using Run_ready [OF assms] by simp
  moreover have "snd (uview k') = snd (uview k)"
    using assms by (cases b) (auto simp: Scheduler_Run_def Let_def r m g split: if_splits option.splits elim!: rbindE dest!: push_uview s)
  ultimately show ?thesis by simp
qed

lemma Yield_uview:
  assumes "Thread_Yield k = Inr k'"
  shows "if readyList k = [] then uview k' = uview k else cur k' = hd (readyList k) \<and> snd (uview k') = snd (uview k)"
proof -
  obtain k1 n k2 where k1: "push [SetLevel (level k)] (k\<lparr>level := IntOff\<rparr>) = Inr k1" "Scheduler_FindNextToRun k1 = Inr (n, k2)"
    "(case n of None \<Rightarrow> Inr k2 | Some t \<Rightarrow> rbind (Scheduler_ReadyToRun (cur k2) k2) (Scheduler_Run t False)) = Inr k'"
    using assms by (auto simp: Thread_Yield_def SetLevel_Off_eq split: prod.splits elim!: rbindE)
  have u: "uview k1 = uview k" using push_uview [OF k1(1)] by simp
  have e: "readyList k1 = readyList k" using push_ready [OF k1(1)] by simp
  show ?thesis using FindNext_ready [OF k1(2)]
  proof
    assume "readyList k1 = [] \<and> n = None \<and> k2 = k1"
    then show ?thesis using k1(3) u e by simp
  next
    assume "\<exists>t r. readyList k1 = t # r \<and> n = Some t \<and> k2 = k1\<lparr>readyList := r\<rparr>"
    then obtain t r k3 where "readyList k1 = t # r" "k2 = k1\<lparr>readyList := r\<rparr>" "Scheduler_ReadyToRun (cur k2) k2 = Inr k3" "Scheduler_Run t False k3 = Inr k'"
      using k1(3) by (auto elim!: rbindE)
    then show ?thesis using u e ReadyToRun_uview [of "cur k2" k2 k3] Run_uview [of t False k3 k'] by simp
  qed
qed

lemma Sleep_loop_uview:
  assumes "Sleep_loop b k = Inr k'"
  shows "if readyList k = [] then uview k' = uview k else cur k' = hd (readyList k) \<and> snd (uview k') = snd (uview k)"
proof -
  obtain n k2 where k1: "Scheduler_FindNextToRun k = Inr (n, k2)"
    "(case n of None \<Rightarrow> rbind (push [SleepLoop b] k2) Interrupt_Idle | Some t \<Rightarrow> Scheduler_Run t b k2) = Inr k'"
    using assms by (auto simp: Sleep_loop_def split: prod.splits elim!: rbindE)
  show ?thesis using FindNext_ready [OF k1(1)]
  proof
    assume "readyList k = [] \<and> n = None \<and> k2 = k"
    then show ?thesis using k1(2) by (auto elim!: rbindE dest!: push_uview Idle_uview)
  next
    assume "\<exists>t r. readyList k = t # r \<and> n = Some t \<and> k2 = k\<lparr>readyList := r\<rparr>"
    then obtain t r where "readyList k = t # r" "k2 = k\<lparr>readyList := r\<rparr>" "Scheduler_Run t b k2 = Inr k'" using k1(2) by auto
    then show ?thesis using Run_uview [of t b k2 k'] by simp
  qed
qed

text \<open>The thread that is switched to was parked.\<close>

lemma dispatched_parked:
  assumes K: "kinv k" and c: "code k (cur k) = f # fs" and v: "leaves_behind (popped k) k'" "cur k' = hd (readyList k)" "readyList k \<noteq> []"
    and a: "alive k' (cur k')"
  shows "hd (code k' (cur k')) = Switched \<or> hd (code k' (cur k')) = DoBegin"
proof -
  let ?n = "hd (readyList k)"
  have P: "cur (popped k) = cur k" using popped_facts(4) [OF K c] .
  have al: "alive k (cur k)" by (rule kinvD(9) [OF K])
  have n: "?n \<in> set (readyList k)" using v(3) by simp
  have vk: "view k' ?n = Some (saved (th k' ?n))" using a v(2) view_get [of ?n k'] by simp
  show ?thesis
  proof (cases "?n = cur k")
    case True
    have "get_thread (cur (popped k)) (popped k) = Inr (th (popped k) (cur k))" using popped_result [OF K] P by simp
    then obtain gs sp rs where "view k' (cur k) = Some (Switched # gs, sp, rs)" using v(1) P by (auto simp: leaves_behind_def)
    then have "code k' (cur k) = Switched # gs" using vk True by (simp add: saved_def)
    then show ?thesis using True v(2) by simp
  next
    case False
    have S: "sched_ok k" by (rule kinvD(1) [OF K])
    have p: "parked (code k ?n)" using sched_okD(3,10,13) [OF S] n False by blast
    have "alive k ?n" by (rule sched_okD(3) [OF S n])
    then have "view k ?n = Some (saved (th k ?n))" "th (popped k) ?n = th k ?n" "alive (popped k) ?n"
      using view_get [of ?n k] popped_facts(10,11) [OF K c] False by auto
    then have "view k' ?n = Some (saved (th k ?n))" using v(1) P False view_get [of ?n "popped k"] by (auto simp: leaves_behind_def)
    then show ?thesis using vk p v(2) by (simp add: saved_def parked_def)
  qed
qed

lemma Destroy_parts:
  assumes "Scheduler_CheckToBeDestroyed k = Inr k'" "parts_ok Q k"
  shows "parts_ok Q k'"
proof -
  have "parts_ok Q (k\<lparr>threads := (threads k)[t := None], toBeDestroyed := d\<rparr>)" for t d
    using assms(2) by (auto simp: parts_ok_def nth_update split: if_splits)
  moreover have "parts_ok Q (k\<lparr>toBeDestroyed := d\<rparr>) = parts_ok Q k" for d by (simp add: parts_ok_def)
  ultimately show ?thesis using assms
    by (auto simp: Scheduler_CheckToBeDestroyed_def Thread_delete_def split: if_splits option.splits elim!: rbindE)
qed

definition spaces_ok :: "(nat \<Rightarrow> addrspace \<Rightarrow> bool) \<Rightarrow> (nat \<Rightarrow> frame list) \<Rightarrow> kst \<Rightarrow> bool" where
  "spaces_ok Q F k \<longleftrightarrow> (\<forall>n sp. DoExecute sp \<in> set (F n) \<longrightarrow> (\<forall>t \<ge> length (threads k). Q t sp))"

lemma new_part:
  assumes "\<forall>f \<in> set p. is_call f" "\<And>sp. DoExecute sp \<in> set p \<Longrightarrow> Q sp"
  shows "part_ok Q (upart (Thread_new p))"
proof -
  have "UserRun \<notin> set p" "DoBegin \<notin> set p" using assms(1) by auto
  then show ?thesis using assms(2) by (auto simp: part_ok_def upart_def Thread_new_def)
qed

lemma switch_uinv:
  assumes K: "kinv k" and c: "code k (cur k) = f # fs" and U: "uinv Q k" and f: "f = DoYield \<or> f = SleepLoop b"
    and e: "exec_frame f F (popped k) = Inr k'" and K': "kinv k'"
  shows "uinv Q k'"
proof -
  note P = popped_uinv [OF U K c]
  have M: "matched (popped k)" using P(2) f by auto
  show ?thesis
  proof (cases "readyList k = []")
    case True
    then have "uview k' = uview (popped k)" using f e Yield_uview [of "popped k" k'] Sleep_loop_uview [of b "popped k" k'] by auto
    then show ?thesis by (rule uinv_uview [OF _ P(4,1) M])
  next
    case False
    then have v: "cur k' = hd (readyList k)" "snd (uview k') = snd (uview (popped k))"
      using f e Yield_uview [of "popped k" k'] Sleep_loop_uview [of b "popped k" k'] by auto
    have ps: "parts_ok Q k'" by (rule parts_ok_uview [OF v(2) P(1)])
    have a: "alive k' (cur k')" by (rule kinvD(9) [OF K'])
    have L: "leaves_behind (popped k) k'" using f e False Yield_leaves [of "popped k" k'] Sleep_leaves [of b "popped k" k'] by auto
    from dispatched_parked [OF K c L v(1) False a] show ?thesis
    proof
      assume "hd (code k' (cur k')) = DoBegin"
      then have "DoBegin \<in> set (filter special (code k' (cur k')))" using kinvD(4) [OF K'] by (cases "code k' (cur k')") auto
      then have "t_space (th k' (cur k')) = None" using parts_ok_alive [OF ps a] by (auto simp: part_ok_def upart_def)
      then show ?thesis using ps by (simp add: uinv_def matched_def)
    qed (use ps in \<open>simp add: uinv_def\<close>)
  qed
qed

lemma restore_uinv:
  assumes ps: "parts_ok Q k" and s: "t_space (th k (cur k)) = Some sp" and m: "mainMemory m = mainMemory (kmach k)" "tlb m = tlb (kmach k)"
  shows "parts_ok Q (k\<lparr>kmach := AddrSpace_RestoreState sp m\<rparr>)" "matched (k\<lparr>kmach := AddrSpace_RestoreState sp m\<rparr>)"
  using assms by (auto simp: parts_ok_def matched_def AddrSpace_RestoreState_def)

lemma back_uinv:
  assumes K: "kinv k" and c: "code k (cur k) = Switched # fs" and U: "uinv Q k" and e: "Switched_back (popped k) = Inr k'"
  shows "uinv Q k'"
proof -
  note P = popped_uinv [OF U K c] and B = popped_base [OF K c]
  obtain k1 where k1: "Scheduler_CheckToBeDestroyed (popped k) = Inr k1" "base k1" "kmach k1 = kmach (popped k)"
    using destroy_ok [OF B(1,2)] by auto
  have ps: "parts_ok Q k1" by (rule Destroy_parts [OF k1(1) P(1)])
  have a: "alive k1 (cur k1)" by (rule base_alive [OF k1(2)])
  show ?thesis
  proof (cases "t_space (th k1 (cur k1))")
    case None
    then have "k' = k1" using e k1(1) a by (auto simp: Switched_back_def split: if_splits elim!: rbindE)
    then show ?thesis using ps None by (simp add: uinv_def matched_def)
  next
    case (Some sp)
    have "length (registers (kmach k1)) = 40" "length (t_userRegisters (th k1 (cur k1))) = 40"
      using k1(2) a by (simp_all add: base_def dev_ok_def regs_ok_def)
    then have "k' = k1\<lparr>kmach := AddrSpace_RestoreState sp (kmach k1\<lparr>registers := t_userRegisters (th k1 (cur k1))\<rparr>)\<rparr>"
      using e k1(1) a Some by (auto simp: Switched_back_def RestoreUserState_eq split: if_splits elim!: rbindE)
    then show ?thesis using restore_uinv [OF ps Some] by (simp add: uinv_def)
  qed
qed

lemma begin_uinv:
  assumes K: "kinv k" and c: "code k (cur k) = DoBegin # fs" and U: "uinv Q k" and e: "Thread_Begin (popped k) = Inr k'"
  shows "uinv Q k'"
proof -
  note P = popped_uinv [OF U K c] and B = popped_base [OF K c]
  obtain k1 where k1: "Scheduler_CheckToBeDestroyed (popped k) = Inr k1" "base k1" "kmach k1 = kmach (popped k)" "cur k1 = cur (popped k)"
      "th k1 (cur (popped k)) = th (popped k) (cur (popped k))" using destroy_ok [OF B(1,2)] by auto
  have "matched k1" using P(2) k1 by (simp add: matched_def)
  moreover have "uview k' = uview k1" using e k1(1) by (auto simp: Thread_Begin_def elim!: rbindE dest!: SetLevel_uview)
  ultimately show ?thesis by (intro uinv_uview [OF _ base_alive [OF k1(2)] Destroy_parts [OF k1(1) P(1)]])
qed

lemma fork_uinv:
  assumes K: "kinv k" and c: "code k (cur k) = DoFork n # fs" and U: "uinv Q k" and p: "progs_ok F k" "spaces_ok Q F k"
    and e: "Thread_Fork (F n) (popped k) = Inr k'"
  shows "uinv Q k'"
proof -
  note P = popped_uinv [OF U K c]
  let ?k = "popped k\<lparr>threads := threads (popped k) @ [Some (Thread_new (F n))], level := IntOff\<rparr>"
  obtain k1 where k1: "Scheduler_ReadyToRun (length (threads (popped k))) ?k = Inr k1" "Interrupt_SetLevel (level (popped k)) k1 = Inr k'"
    using e by (auto simp: Thread_Fork_def Let_def SetLevel_Off_eq elim!: rbindE)
  have "uview k' = uview ?k" using ReadyToRun_uview [OF k1(1)] SetLevel_uview [OF k1(2)] by simp
  moreover have "part_ok (Q (length (threads k))) (upart (Thread_new (F n)))"
    by (rule new_part) (use p in \<open>auto simp: progs_ok_def spaces_ok_def\<close>)
  then have "parts_ok Q ?k" using P(1) by (auto simp: parts_ok_def nth_append less_Suc_eq popped_def put_thread_def)
  moreover have "alive ?k (cur ?k)" "matched ?k" using P(2,4) by (auto simp: alive_def matched_def nth_append)
  ultimately show ?thesis by (intro uinv_uview)
qed

lemma execute_uinv:
  assumes K: "kinv k" and c: "code k (cur k) = DoExecute sp # fs" and U: "uinv Q k" and e: "Execute_thread sp (popped k) = Inr k'"
  shows "uinv Q k'"
proof -
  note P = popped_uinv [OF U K c]
  let ?x = "(th (popped k) (cur (popped k)))\<lparr>t_space := Some sp\<rparr>"
  let ?k = "put_thread (cur (popped k)) ?x (popped k)"
  have a: "alive k (cur k)" by (rule kinvD(9) [OF K])
  have sp: "Q (cur k) sp" using U parts_ok_alive [OF _ a] c by (auto simp: uinv_def part_ok_def upart_def)
  have fs: "t_code (th (popped k) (cur (popped k))) = fs" using popped_facts(1,4) [OF K c] by simp
  have o: "part_ok (Q (cur (popped k))) (Some sp, filter special fs)"
    using parts_ok_alive [OF P(1,4)] fs P(3) sp popped_facts(4) [OF K c] by (auto simp: part_ok_def upart_def)
  have len: "length (registers (kmach ?k)) = 40" using popped_base(1) [OF K c] by (simp add: base_def dev_ok_def regs_ok_def)
  let ?k' = "?k\<lparr>kmach := AddrSpace_RestoreState sp (kmach ?k\<lparr>registers := (replicate 40 0)[PCReg := 0, NextPCReg := 4, StackReg := numPages sp * 128 - 16]\<rparr>)\<rparr>"
  have ps: "parts_ok Q ?k" by (rule parts_ok_put [OF P(1)]) (use o in \<open>simp add: upart_def fs\<close>)
  have k': "parts_ok Q ?k'" "matched ?k'" by (rule restore_uinv [OF ps]; use P(4) in simp)+
  have "push [UserRun] (?k'\<lparr>mstatus := UserMode\<rparr>) = Inr k'"
    using e P(4) Execute_regs [OF len, of sp] by (simp add: Execute_thread_def Machine_Run_def with_thread_def)
  then have e': "k' = put_thread (cur ?k) (?x\<lparr>t_code := UserRun # fs\<rparr>) (?k'\<lparr>mstatus := UserMode\<rparr>)"
    using P(4) by (simp add: push_alive fs)
  have "parts_ok Q k'" unfolding e'
    by (rule parts_ok_put) (use k'(1) part_ok_run [OF o] in \<open>simp_all add: parts_ok_def upart_def\<close>)
  moreover have "matched k'" using k'(2) P(4) unfolding e' by (simp add: matched_def)
  ultimately show ?thesis by (simp add: uinv_def)
qed

lemma tick_uinv:
  assumes K: "kinv k" and c: "code k (cur k) = UserRun # fs" and U: "uinv Q k" and e: "Run_tick (popped k) = Inr k'"
  shows "uinv Q k' \<and> uview k' = uview k"
proof -
  have a: "alive k (cur k)" by (rule kinvD(9) [OF K])
  have m: "parts_ok Q k" "matched k" using U c by (simp_all add: uinv_def)
  obtain k1 where k1: "push [UserRun] (popped k) = Inr k1" "Interrupt_OneTick k1 = Inr k'" using e by (auto simp: Run_tick_def elim!: rbindE)
  have "alive (popped k) (cur k)" "code (popped k) (cur k) = fs" "cur (popped k) = cur k" using popped_facts [OF K c] a by simp_all
  then have "k1 = put_thread (cur k) ((th k (cur k))\<lparr>t_code := UserRun # fs\<rparr>) k"
    using k1(1) a c by (auto simp: push_alive popped_def put_thread_def alive_def)
  then have "uview k1 = uview k" using uview_put [of "cur k" k "th k (cur k)" "(th k (cur k))\<lparr>t_code := UserRun # fs\<rparr>"] a c by (simp add: upart_def)
  then have "uview k' = uview k" using OneTick_uview [OF k1(2)] by simp
  then show ?thesis using uinv_uview [OF _ a m] by blast
qed

lemma kstep_uinv:
  assumes K: "kinv k" and p: "progs_ok F k" "spaces_ok Q F k" and U: "uinv Q k" and e: "kstep F k = Inr k'"
  shows "uinv Q k'"
proof -
  have a: "alive k (cur k)" by (rule kinvD(9) [OF K])
  obtain f fs where c: "code k (cur k) = f # fs" using kinvD(4) [OF K] by (cases "code k (cur k)") auto
  have x: "exec_frame f F (popped k) = Inr k'" using e kstep_top [OF a c] by simp
  have K': "kinv k'" using kstep_kinv [OF K p(1)] e by auto
  note P = popped_uinv [OF U K c]
  consider "plain f" "f \<noteq> Switched" | b where "f = DoYield \<or> f = SleepLoop b" | "f = Switched" | "f = DoBegin" | n where "f = DoFork n"
    | sp where "f = DoExecute sp" | "f = UserRun" by (cases f) (auto simp: plain_def)
  then show ?thesis
  proof cases
    case 1
    then show ?thesis using uinv_uview [OF exec_frame_uview [OF x] P(4,1)] P(2) by blast
  next
    case 2
    then show ?thesis using switch_uinv [OF K c U _ x K'] by blast
  next
    case 3
    then show ?thesis using back_uinv [OF K _ U] c x by simp
  next
    case 4
    then show ?thesis using begin_uinv [OF K _ U] c x by simp
  next
    case 5
    then show ?thesis using fork_uinv [OF K _ U p] c x by simp
  next
    case 6
    then show ?thesis using execute_uinv [OF K _ U] c x by simp
  next
    case 7
    then show ?thesis using tick_uinv [OF K _ U] c x by simp
  qed
qed

text \<open>The kernel itself touches no memory, and threads are only added.\<close>

lemma uview_frame: "snd (uview k') = snd (uview k) \<Longrightarrow> mainMemory (kmach k') = mainMemory (kmach k) \<and> length (threads k') = length (threads k)"
  by (auto simp: uview_def dest: map_eq_imp_length_eq)

lemma Destroy_frame: "Scheduler_CheckToBeDestroyed k = Inr k' \<Longrightarrow> kmach k' = kmach k \<and> length (threads k') = length (threads k)"
  by (auto simp: Scheduler_CheckToBeDestroyed_def Thread_delete_def split: if_splits option.splits elim!: rbindE)

lemma back_frame:
  assumes K: "kinv k" and c: "code k (cur k) = Switched # fs" and e: "Switched_back (popped k) = Inr k'"
  shows "mainMemory (kmach k') = mainMemory (kmach (popped k)) \<and> length (threads k') = length (threads (popped k))"
proof -
  obtain k1 where k1: "Scheduler_CheckToBeDestroyed (popped k) = Inr k1" "base k1" using destroy_ok popped_base [OF K c] by blast
  have a: "alive k1 (cur k1)" by (rule base_alive [OF k1(2)])
  have "length (registers (kmach k1)) = 40" "length (t_userRegisters (th k1 (cur k1))) = 40"
    using k1(2) a by (simp_all add: base_def dev_ok_def regs_ok_def)
  then show ?thesis using e k1(1) a Destroy_frame [OF k1(1)]
    by (auto simp: Switched_back_def RestoreUserState_eq AddrSpace_RestoreState_def split: if_splits option.splits elim!: rbindE)
qed

lemma fork_frame:
  assumes "Thread_Fork p k = Inr k'"
  shows "mainMemory (kmach k') = mainMemory (kmach k) \<and> length (threads k') = Suc (length (threads k))"
proof -
  let ?k = "k\<lparr>threads := threads k @ [Some (Thread_new p)], level := IntOff\<rparr>"
  obtain k1 where "Scheduler_ReadyToRun (length (threads k)) ?k = Inr k1" "Interrupt_SetLevel (level k) k1 = Inr k'"
    using assms by (auto simp: Thread_Fork_def Let_def SetLevel_Off_eq elim!: rbindE)
  then show ?thesis using ReadyToRun_uview [of "length (threads k)" ?k k1] SetLevel_uview [of "level k" k1 k'] uview_frame [of k' ?k] by simp
qed

lemma execute_frame:
  assumes "Execute_thread sp k = Inr k'" "length (registers (kmach k)) = 40"
  shows "mainMemory (kmach k') = mainMemory (kmach k) \<and> length (threads k') = length (threads k)"
  using assms Execute_regs [of "kmach k" sp]
  by (auto simp: Execute_thread_def Machine_Run_def push_def with_thread_def put_thread_def AddrSpace_RestoreState_def elim!: rbindE)

lemma kstep_frame:
  assumes K: "kinv k" and e: "kstep F k = Inr k'"
  shows "mainMemory (kmach k') = mainMemory (kmach k) \<and> length (threads k) \<le> length (threads k')"
proof -
  have a: "alive k (cur k)" by (rule kinvD(9) [OF K])
  obtain f fs where c: "code k (cur k) = f # fs" using kinvD(4) [OF K] by (cases "code k (cur k)") auto
  have x: "exec_frame f F (popped k) = Inr k'" using e kstep_top [OF a c] by simp
  have "mainMemory (kmach k') = mainMemory (kmach (popped k)) \<and> length (threads (popped k)) \<le> length (threads k')"
  proof -
    consider "plain f" | b where "f = DoYield \<or> f = SleepLoop b" | "f = Switched" | "f = DoBegin" | n where "f = DoFork n"
      | sp where "f = DoExecute sp" | "f = UserRun" by (cases f) (auto simp: plain_def)
    then show ?thesis
    proof cases
      case 1
      then show ?thesis using uview_frame [of k' "popped k"] exec_frame_uview [OF x] by simp
    next
      case (2 b)
      then have "snd (uview k') = snd (uview (popped k))"
        using x Yield_uview [of "popped k" k'] Sleep_loop_uview [of b "popped k" k'] by (auto split: if_splits)
      from uview_frame [OF this] show ?thesis by simp
    next
      case 3
      then show ?thesis using back_frame [OF K] c x by simp
    next
      case 4
      then obtain k1 where "Scheduler_CheckToBeDestroyed (popped k) = Inr k1" "Interrupt_SetLevel IntOn k1 = Inr k'"
        using x by (auto simp: Thread_Begin_def elim!: rbindE)
      then show ?thesis using Destroy_frame [of "popped k" k1] SetLevel_uview [of IntOn k1 k'] uview_frame [of k' k1] by simp
    next
      case 5
      then show ?thesis using x fork_frame by fastforce
    next
      case (6 sp)
      have "length (registers (kmach (popped k))) = 40" using popped_base(1) [OF K c] 6 by (simp add: base_def dev_ok_def regs_ok_def)
      then show ?thesis using x 6 execute_frame by auto
    next
      case 7
      then obtain k1 where "push [UserRun] (popped k) = Inr k1" "Interrupt_OneTick k1 = Inr k'" using x by (auto simp: Run_tick_def elim!: rbindE)
      then show ?thesis using OneTick_uview [of k1 k'] uview_frame [of k' k1]
        by (auto simp: push_def with_thread_def put_thread_def elim!: rbindE)
    qed
  qed
  then show ?thesis by (simp add: popped_def) (simp add: put_thread_def)
qed


section \<open>Which address spaces threads may have\<close>

text \<open>
  A policy that respects sound address spaces and looks at what they map, not at the use and dirty bits, which instructions set.
\<close>

definition system_ok :: "(nat \<Rightarrow> addrspace \<Rightarrow> bool) \<Rightarrow> (nat \<Rightarrow> frame list) \<Rightarrow> kst \<Rightarrow> bool" where
  "system_ok Q F k \<longleftrightarrow> kinv k \<and> uinv Q k \<and> progs_ok F k \<and> spaces_ok Q F k"

locale space_policy =
  fixes Q :: "nat \<Rightarrow> addrspace \<Rightarrow> bool"
  assumes sound: "Q t sp \<Longrightarrow> space_ok sp"
    and stable: "Q t sp \<Longrightarrow> space_ok sp' \<Longrightarrow> numPages sp' = numPages sp \<Longrightarrow> space_phys sp' = space_phys sp \<Longrightarrow> Q t sp'"
begin

text \<open>A thread in \<^verbatim>\<open>Run\<close> runs on a sound machine with its own page table.\<close>

lemma at_user:
  assumes K: "kinv k" and U: "uinv Q k" and c: "code k (cur k) = UserRun # fs"
  shows "\<exists>sp. t_space (th k (cur k)) = Some sp \<and> Q (cur k) sp \<and> pageTableSize (kmach k) = numPages sp \<and>
    va_phys (kmach k) = space_phys sp \<and> mach_ok (kmach k)"
proof -
  have a: "alive k (cur k)" by (rule kinvD(9) [OF K])
  have p: "parts_ok Q k" "matched k" using U c by (simp_all add: uinv_def)
  have "part_ok (Q (cur k)) (t_space (th k (cur k)), UserRun # filter special fs)" using parts_ok_alive [OF p(1) a] c by (simp add: upart_def)
  then obtain sp where sp: "t_space (th k (cur k)) = Some sp" "Q (cur k) sp" by (auto simp: part_ok_def)
  with p(2) have m: "pageTable (kmach k) = Some (as_pageTable sp)" "pageTableSize (kmach k) = numPages sp" by (simp_all add: matched_def)
  have "regs_ok (registers (kmach k))" using kinvD(3) [OF K] by (simp add: dev_ok_def)
  then have "mach_ok (kmach k)"
    using m sound [OF sp(2)] p(1) by (simp add: mach_ok_def regs_ok_def reg_numbers space_ok_def parts_ok_def)
  with sp m space_phys_machine [OF m] show ?thesis by blast
qed

lemma running_ok:
  assumes K: "kinv k" and U: "uinv Q k" and c: "code k (cur k) = UserRun # fs" and m: "mach_ok m" "confined (kmach k) m"
  shows "kinv (running m k)" "uinv Q (running m k)" "cur (running m k) = cur k" "length (threads (running m k)) = length (threads k)"
    "t \<noteq> cur k \<Longrightarrow> view (running m k) t = view k t" "kmach (running m k) = m"
proof -
  have a: "alive k (cur k)" by (rule kinvD(9) [OF K])
  obtain sp where sp: "t_space (th k (cur k)) = Some sp" "Q (cur k) sp" "pageTableSize (kmach k) = numPages sp" "va_phys (kmach k) = space_phys sp"
    using at_user [OF K U c] by blast
  let ?sp = "sp\<lparr>as_pageTable := the (pageTable m)\<rparr>"
  let ?x = "(th k (cur k))\<lparr>t_space := Some ?sp\<rparr>"
  have r: "running m k = put_thread (cur k) ?x k\<lparr>kmach := m\<rparr>" by (simp add: running_def sp(1))
  obtain pt where pt: "pageTable m = Some pt" "unat (pageTableSize m) \<le> length pt" using m(1) by (auto simp: mach_ok_def)
  have e: "pageTableSize m = numPages sp" "va_phys m = space_phys sp" using m(2) sp(3,4) by (simp_all add: confined_def)
  have "space_phys ?sp = va_phys m" by (rule space_phys_machine [symmetric]) (use pt e in simp_all)
  then have q: "Q (cur k) ?sp" using stable [OF sp(2), of ?sp] pt e by (simp add: space_ok_def)
  have S: "sched_ok (put_thread (cur k) ?x k)" by (rule sched_ok_code [OF kinvD(1) [OF K] kinv_free [OF K c]]) simp_all
  have R: "refs_inv (put_thread (cur k) ?x k)"
    by (rule refs_inv_code [OF kinvD(2) [OF K] a]) (use kinvD(2) [OF K] a in \<open>simp add: refs_inv_def\<close>)
  have "regs_ok (t_userRegisters ?x)" using kinvD(3) [OF K] a by (simp add: dev_ok_def)
  from dev_ok_code [OF kinvD(3) [OF K] a this] have D: "dev_ok (put_thread (cur k) ?x k)" .
  have "regs_ok (registers m)" using m(1) by (simp add: mach_ok_def regs_ok_def reg_numbers)
  with D have "dev_ok (running m k)" by (simp add: r dev_ok_def)
  with S R show "kinv (running m k)" using K a c by (simp add: r kinv_def)
  have P: "parts_ok Q k" using U by (simp add: uinv_def)
  have o: "part_ok (Q (cur k)) (Some sp, filter special (UserRun # fs))" using parts_ok_alive [OF P a] c sp(1) by (simp add: upart_def)
  have "part_ok (Q (cur k)) (upart ?x)" using o q c by (auto simp: part_ok_def upart_def)
  from parts_ok_put [OF P this] have "parts_ok Q (running m k)" using m(1) by (simp add: r parts_ok_def mach_ok_def)
  moreover have "matched (running m k)" using a pt e by (simp add: r matched_def)
  ultimately show "uinv Q (running m k)" by (simp add: uinv_def)
  show "cur (running m k) = cur k" "kmach (running m k) = m" by (simp_all add: r)
  show "length (threads (running m k)) = length (threads k)" by (simp add: r) (simp add: put_thread_def)
  show "view (running m k) t = view k t" if "t \<noteq> cur k"
    using view_put [of "cur k" k "th k (cur k)" ?x] a that view_threads [of "put_thread (cur k) ?x k\<lparr>kmach := m\<rparr>" "put_thread (cur k) ?x k"]
    by (simp add: r)
qed


text \<open>Every step of the system is a step of the kernel, after what one instruction and its trap did to the running thread.\<close>

lemma handled_ok:
  assumes "mach_ok m" "ExceptionHandler U g e (q\<lparr>k_mach := m\<rparr>) = Inr (Returned q')"
  shows "mach_ok (k_mach q') \<and> confined m (k_mach q')"
proof -
  obtain q1 where q1: "keeps (q\<lparr>k_mach := m\<rparr>) q1" "mach_ok (k_mach q1)" "q' = next_instr q1"
    using handler_Returned [of "q\<lparr>k_mach := m\<rparr>" U g e q'] assms by auto
  have "confined m (k_mach q1)" using q1(1) by (simp add: keeps_def keeps_mach_def)
  with q1(3) next_instr_regs(5,6) [OF q1(2)] show ?thesis by (auto intro: confined_trans)
qed

lemma user_top: "kinv k \<Longrightarrow> top k = Some UserRun \<longleftrightarrow> (\<exists>fs. code k (cur k) = UserRun # fs)"
  using kinvD(9) [of k] by (auto simp: top_def split: list.splits)

lemma instruction_ok:
  assumes "kinv k" "uinv Q k" "top k = Some UserRun" "Machine_OneInstruction (kmach k) = Inr (r, m)"
  shows "mach_ok m \<and> confined (kmach k) m"
  using at_user [OF assms(1,2)] user_top [OF assms(1)] assms(3,4) OneInstruction_ok [of "kmach k"] by fastforce

lemma sys_step_kernel:
  assumes K: "kinv k" and U: "uinv Q k" and s: "sys_step U g F k q k' q'"
  obtains (kernel) "kstep F k = Inr k'" | (user) m fs where "code k (cur k) = UserRun # fs" "mach_ok m" "confined (kmach k) m" "kstep F (running m k) = Inr k'"
  using s
proof cases
  case kernel
  then show ?thesis using that(1) by blast
next
  case (instruction r m)
  then show ?thesis using that(2) instruction_ok [OF K U] user_top [OF K] by blast
next
  case (call e m)
  have m: "mach_ok m" "confined (kmach k) m" using instruction_ok [OF K U] call by blast+
  have "mach_ok (k_mach q')" "confined m (k_mach q')" using handled_ok [OF m(1)] call by blast+
  then show ?thesis using that(2) call user_top [OF K] confined_trans [OF m(2)] by blast
qed

lemma kstep_good:
  assumes G: "system_ok Q F k" and e: "kstep F k = Inr k'"
  shows "system_ok Q F k'" "mainMemory (kmach k') = mainMemory (kmach k)"
    "t \<noteq> cur k \<Longrightarrow> t < length (threads k) \<Longrightarrow> t < length (threads k') \<and> (view k' t = view k t \<or> view k' t = None)"
proof -
  have g: "kinv k" "uinv Q k" "progs_ok F k" "spaces_ok Q F k" using G by (simp_all add: system_ok_def)
  have f: "mainMemory (kmach k') = mainMemory (kmach k)" "length (threads k) \<le> length (threads k')" using kstep_frame [OF g(1) e] by simp_all
  have "spaces_ok Q F k'" using g(4) f(2) by (simp add: spaces_ok_def)
  with kstep_uinv [OF g(1,3,4,2) e] kstep_kinv [OF g(1,3)] e show "system_ok Q F k'" by (auto simp: system_ok_def)
  show "mainMemory (kmach k') = mainMemory (kmach k)" by (rule f(1))
  show "t < length (threads k') \<and> (view k' t = view k t \<or> view k' t = None)" if "t \<noteq> cur k" "t < length (threads k)"
    by (rule kstep_view [OF e that])
qed

lemma running_good:
  assumes G: "system_ok Q F k" and c: "code k (cur k) = UserRun # fs" and m: "mach_ok m" "confined (kmach k) m"
  shows "system_ok Q F (running m k)"
proof -
  have g: "kinv k" "uinv Q k" "progs_ok F k" "spaces_ok Q F k" using G by (simp_all add: system_ok_def)
  note R = running_ok [OF g(1,2) c m]
  have "refs_ok (running m k) f = refs_ok k f" for f by (rule refs_ok_cong) (simp_all add: running_def)
  then show ?thesis using g R by (simp add: system_ok_def progs_ok_def spaces_ok_def)
qed

text \<open>A step changes memory only where the running program may write, and leaves what the kernel keeps for the other threads.\<close>

lemma sys_step_good:
  assumes G: "system_ok Q F k" and s: "sys_step U g F k q k' q'"
  shows "system_ok Q F k'"
    "p < 16384 \<Longrightarrow> mainMemory (kmach k') ! p \<noteq> mainMemory (kmach k) ! p \<Longrightarrow>
       \<exists>sp. t_space (th k (cur k)) = Some sp \<and> Q (cur k) sp \<and> p \<in> writable sp"
    "t \<noteq> cur k \<Longrightarrow> t < length (threads k) \<Longrightarrow> t < length (threads k') \<and> (view k' t = view k t \<or> view k' t = None)"
proof -
  have g: "kinv k" "uinv Q k" using G by (simp_all add: system_ok_def)
  let ?c = "system_ok Q F k' \<and>
    (\<forall>p < 16384. mainMemory (kmach k') ! p \<noteq> mainMemory (kmach k) ! p \<longrightarrow> (\<exists>sp. t_space (th k (cur k)) = Some sp \<and> Q (cur k) sp \<and> p \<in> writable sp)) \<and>
    (\<forall>t < length (threads k). t \<noteq> cur k \<longrightarrow> t < length (threads k') \<and> (view k' t = view k t \<or> view k' t = None))"
  have ?c
  proof (rule sys_step_kernel [OF g s])
    assume e: "kstep F k = Inr k'"
    show ?c using kstep_good [OF G e] by simp
  next
    fix m fs assume u: "code k (cur k) = UserRun # fs" "mach_ok m" "confined (kmach k) m" and e: "kstep F (running m k) = Inr k'"
    note R = running_ok [OF g u] and S = kstep_good [OF running_good [OF G u] e]
    obtain sp where sp: "t_space (th k (cur k)) = Some sp" "Q (cur k) sp" "va_phys (kmach k) = space_phys sp" using at_user [OF g u(1)] by blast
    have "p \<in> writable sp" if "p < 16384" "mainMemory (kmach k') ! p \<noteq> mainMemory (kmach k) ! p" for p
      using u(3) that sp(3) S(2) R(6) by (simp add: confined_def writable_def)
    then show ?c using S sp(1,2) R(3-5) by simp
  qed
  then show "system_ok Q F k'" "p < 16384 \<Longrightarrow> mainMemory (kmach k') ! p \<noteq> mainMemory (kmach k) ! p \<Longrightarrow>
       \<exists>sp. t_space (th k (cur k)) = Some sp \<and> Q (cur k) sp \<and> p \<in> writable sp"
    "t \<noteq> cur k \<Longrightarrow> t < length (threads k) \<Longrightarrow> t < length (threads k') \<and> (view k' t = view k t \<or> view k' t = None)" by auto
qed

lemma sys_run_good: "sys_run U g F k q k' q' \<Longrightarrow> system_ok Q F k \<Longrightarrow> system_ok Q F k'"
  by (induction rule: sys_run.induct) (auto dest: sys_step_good(1))

lemma sys_progress:
  assumes G: "system_ok Q F k"
  shows "(\<exists>k' q'. sys_step U g F k q k' q') \<or> (\<exists>f. top k = Some f \<and> client_error f k) \<or> (top k = Some UserRun \<and> user_stops U g (kmach k) q)"
proof (cases "top k = Some UserRun")
  case False
  then show ?thesis using kstep_kinv [of k F] G sys_step.kernel [OF False, of F _ U g q] by (auto simp: system_ok_def)
next
  case True
  have g: "kinv k" "uinv Q k" using G by (simp_all add: system_ok_def)
  obtain fs where c: "code k (cur k) = UserRun # fs" using True user_top [OF g(1)] by blast
  have go: "\<exists>k'. kstep F (running m k) = Inr k'" if m: "mach_ok m" "confined (kmach k) m" for m
  proof -
    have G': "system_ok Q F (running m k)" by (rule running_good [OF G c m])
    have "code (running m k) (cur (running m k)) = UserRun # fs" using kinvD(9) [OF g(1)] c by (simp add: running_def)
    then have "top (running m k) = Some UserRun" using user_top [of "running m k"] G' by (auto simp: system_ok_def)
    then show ?thesis using kstep_kinv [of "running m k" F] G' by (auto simp: system_ok_def)
  qed
  show ?thesis
  proof (cases "user_stops U g (kmach k) q")
    case False
    then obtain r m where r: "Machine_OneInstruction (kmach k) = Inr (r, m)" by (cases "Machine_OneInstruction (kmach k)") (auto simp: user_stops_def)
    have m: "mach_ok m" "confined (kmach k) m" using instruction_ok [OF g True r] by simp_all
    show ?thesis
    proof (cases r)
      case (Inr x)
      then show ?thesis using go [OF m] sys_step.instruction [OF True] r by blast
    next
      case (Inl e)
      then obtain q' where q': "\<not> console_call (q\<lparr>k_mach := m\<rparr>)" "ExceptionHandler U g e (q\<lparr>k_mach := m\<rparr>) = Inr (Returned q')"
        using False r by (auto simp: user_stops_def split: sum.splits hres.splits)
      have "mach_ok (k_mach q')" "confined (kmach k) (k_mach q')" using handled_ok [OF m(1) q'(2)] confined_trans [OF m(2)] by blast+
      then show ?thesis using go sys_step.call [OF True _ q'] r Inl by blast
    qed
  qed (use True in simp)
qed

end

text \<open>
  The policies: any sound address space; only address spaces that, except for those of thread \<open>t\<close>, do not let write into \<open>S\<close>; and one address
  space only, that of thread \<open>t\<close>.
\<close>

definition readable :: "addrspace \<Rightarrow> nat set" where
  "readable sp = {p. \<exists>va. space_phys sp False va = Inr p}"

definition keeps_off :: "nat \<Rightarrow> nat set \<Rightarrow> nat \<Rightarrow> addrspace \<Rightarrow> bool" where
  "keeps_off t S u sp \<longleftrightarrow> space_ok sp \<and> (u \<noteq> t \<longrightarrow> writable sp \<inter> S = {})"

definition only :: "nat \<Rightarrow> addrspace \<Rightarrow> nat \<Rightarrow> addrspace \<Rightarrow> bool" where
  "only t sp0 u sp \<longleftrightarrow> u = t \<and> space_ok sp \<and> numPages sp = numPages sp0 \<and> space_phys sp = space_phys sp0"

interpretation sound: space_policy "\<lambda>t. space_ok"
  by unfold_locales simp_all

interpretation own: space_policy "keeps_off t S" for t S
  by unfold_locales (simp_all add: keeps_off_def writable_def)

interpretation sole: space_policy "only t sp" for t sp
  by unfold_locales (simp_all add: only_def)

interpretation none: space_policy "\<lambda>t sp. False"
  by unfold_locales simp_all

text \<open>While a thread is away.\<close>

lemma away_keeps:
  assumes "sys_away U g F t k q k' q'" "system_ok (keeps_off t S) F k" "t < length (threads k)"
  shows "system_ok (keeps_off t S) F k' \<and> t < length (threads k') \<and> (view k' t = view k t \<or> view k' t = None) \<and>
    (\<forall>p \<in> S. p < 16384 \<longrightarrow> mainMemory (kmach k') ! p = mainMemory (kmach k) ! p)"
  using assms
proof (induction rule: sys_away.induct)
  case (still k q k1 q1 k2 q2)
  then have I: "system_ok (keeps_off t S) F k1" "t < length (threads k1)" "view k1 t = view k t \<or> view k1 t = None"
    "\<forall>p \<in> S. p < 16384 \<longrightarrow> mainMemory (kmach k1) ! p = mainMemory (kmach k) ! p" by simp_all
  note s = own.sys_step_good [OF I(1) still.hyps(3)]
  have "mainMemory (kmach k2) ! p = mainMemory (kmach k1) ! p" if "p \<in> S" "p < 16384" for p
    using s(2) [of p] that still.hyps(2) by (auto simp: keeps_off_def)
  then show ?case using s(1) s(3) [of t] I still.hyps(2) by auto
qed simp

text \<open>What a thread with an address space leaves when it gives up the processor.\<close>

lemma dispatch_saves:
  assumes K: "kinv k" and d: "dispatching k" and sp: "t_space (th k (cur k)) = Some sp" and out: "kstep F k = Inr k1"
  shows "\<exists>gs. view k1 (cur k) = Some (Switched # gs, Some sp, registers (kmach k)) \<and> cur k < length (threads k1)"
proof -
  let ?t = "cur k"
  have a: "alive k ?t" by (rule kinvD(9) [OF K])
  obtain f fs where c: "code k ?t = f # fs" using kinvD(4) [OF K] by (cases "code k ?t") auto
  have f: "f = DoYield \<or> (\<exists>b. f = SleepLoop b)" "readyList (popped k) \<noteq> []" using d a c by (auto simp: dispatching_def top_def)
  have e: "exec_frame f F (popped k) = Inr k1" using out kstep_top [OF a c] by simp
  have lb: "leaves_behind (popped k) k1" using f e Yield_leaves Sleep_leaves by auto
  have R: "length (registers (kmach k)) = 40" "length (t_userRegisters (th k ?t)) = 40"
    using kinvD(3) [OF K] a by (simp_all add: dev_ok_def regs_ok_def)
  have g: "get_thread ?t (popped k) = Inr ((th k ?t)\<lparr>t_code := tl (code k ?t)\<rparr>)" "cur (popped k) = ?t" "length (threads (popped k)) = length (threads k)"
    using a popped_facts(10) [OF K c] by (simp_all add: popped_def) (simp_all add: put_thread_def)
  with lb obtain gs rs where v: "view k1 ?t = Some (Switched # gs, Some sp, rs)" "stored (popped k) ((th k ?t)\<lparr>t_code := tl (code k ?t)\<rparr>) rs"
    using sp by (auto simp: leaves_behind_def)
  from v(2) have "rs = registers (kmach k)" using sp R SaveUserState_eq by (simp add: stored_def)
  with v(1) lb g a show ?thesis by (auto simp: leaves_behind_def alive_def)
qed

lemma phys_bound: "space_phys sp w va = Inr p \<Longrightarrow> p < 16384"
  using mod_less_divisor [of 128 "unat va"] by (auto simp: space_phys_def va_phys_def Let_def split: if_splits)

section \<open>Two user programs\<close>

definition page_at :: "32 word \<Rightarrow> tentry list" where
  "page_at p = [\<lparr>virtualPage = 0, physicalPage = p, valid = True, readOnly = False, use = False, dirty = False\<rparr>]"

abbreviation page_space :: "32 word \<Rightarrow> addrspace" where
  "page_space n \<equiv> \<lparr>as_pageTable = page_at n, numPages = 1\<rparr>"

text \<open>A machine whose next instruction is \<^verbatim>\<open>sw $2, 8($0)\<close>, in page frame 6.\<close>

definition sw_machine :: machine where
  "sw_machine = \<lparr>registers = (replicate 40 0)[2 := 42, 35 := 4], mainMemory = (replicate 16384 0)[768 := 8, 770 := 2, 771 := 0xAC], tlb = None,
     pageTable = Some (page_at 6), pageTableSize = 1, singleStep = False, runUntilTime = 0\<rparr>"

definition two_users :: kst where
  "two_users = \<lparr>level = IntOn, pending = [\<lparr>p_when = 18, p_dev = TimerDev, p_serial = 0\<rparr>], inHandler = False, yieldOnReturn = False,
     mstatus = SystemMode, now = 7, idleTicks = 0, systemTicks = 7, userTicks = 0, serial = 1, readyList = [1], toBeDestroyed = None,
     currentThread = 0,
     threads = [Some \<lparr>t_status = RUNNING, t_code = [DoYield, Ticked UserMode, UserRun, DoFinish], t_space = Some (page_space 5),
                  t_userRegisters = replicate 40 0, t_result = 0\<rparr>,
                Some \<lparr>t_status = READY, t_code = [Switched, SetLevel IntOn, Ticked UserMode, UserRun, DoFinish],
                  t_space = Some (page_space 6), t_userRegisters = registers sw_machine, t_result = 0\<rparr>],
     sems = [\<lparr>s_value = 0, s_queue = []\<rparr>], locks = [], conds = [], lists = [], devs = [],
     randomize = False, timerDisable = False, randoms = (\<lambda>_. 0), drawn = 0, keyboard = [], incoming = 255, keySem = 0, keyLock = 0,
     kmach = sw_machine\<lparr>registers := (replicate 40 0)[2 := 7], pageTable := Some (page_at 5)\<rparr>,
     halted = False\<rparr>"

lemma two_users_alive: "alive two_users t \<longleftrightarrow> t = 0 \<or> t = 1"
  by (auto simp: alive_def two_users_def less_Suc_eq)

lemma two_users_kinv: "kinv two_users" "progs_ok (\<lambda>_. []) two_users"
proof -
  have "sched_ok two_users"
    by (rule sched_okI) (auto simp: two_users_alive, auto simp: two_users_def parked_def less_Suc_eq)
  moreover have "refs_inv two_users"
    unfolding refs_inv_def two_users_alive by (auto simp: two_users_def)
  moreover have "dev_ok two_users"
    unfolding dev_ok_def two_users_alive by (auto simp: two_users_def regs_ok_def pc.ordered_def sw_machine_def)
  ultimately show "kinv two_users" by (simp add: kinv_def) (simp add: two_users_def)
  show "progs_ok (\<lambda>_. []) two_users" by (simp add: progs_ok_def)
qed

text \<open>The first thread has yielded, and the second is about to execute its store.\<close>

definition second_runs :: kst where
  "second_runs = two_users\<lparr>mstatus := UserMode, now := 17, systemTicks := 17, readyList := [0], currentThread := 1,
     threads := [Some \<lparr>t_status = READY, t_code = [Switched, SetLevel IntOn, Ticked UserMode, UserRun, DoFinish],
                  t_space = Some (page_space 5), t_userRegisters = (replicate 40 0)[2 := 7], t_result = 0\<rparr>,
                Some \<lparr>t_status = RUNNING, t_code = [UserRun, DoFinish], t_space = Some (page_space 6),
                  t_userRegisters = registers sw_machine, t_result = 0\<rparr>], kmach := sw_machine\<rparr>"

lemmas eval_defs = step_defs two_users_def SaveUserState_eq RestoreUserState_eq AddrSpace_SaveState_def AddrSpace_RestoreState_def
  Machine_DelayedLoad_def reg_numbers aput_def fire_calls pc.ordered_def

lemma two_users_start:
  "\<exists>k1. kstep (\<lambda>_. []) two_users = Inr k1 \<and> cur k1 = 1 \<and> top k1 = Some Switched \<and>
    (\<exists>k2. kstep (\<lambda>_. []) k1 = Inr k2 \<and> cur k2 = 1 \<and> top k2 = Some (SetLevel IntOn) \<and>
    (\<exists>k3. kstep (\<lambda>_. []) k2 = Inr k3 \<and> cur k3 = 1 \<and> top k3 = Some (Ticked UserMode) \<and> kstep (\<lambda>_. []) k3 = Inr second_runs))"
  by (simp add: eval_defs sw_machine_def second_runs_def top_def)

lemma second_preempted:
  assumes m: "mach_ok m"
  shows "\<exists>k5. kstep (\<lambda>_. []) (running m second_runs) = Inr k5 \<and> cur k5 = 1 \<and> top k5 = Some DoYield \<and>
    (\<exists>k6. kstep (\<lambda>_. []) k5 = Inr k6 \<and> cur k6 = 0 \<and> top k6 = Some Switched)"
proof -
  have "regs_ok (registers m)" using m by (simp add: mach_ok_def regs_ok_def reg_numbers)
  from DelayedLoad_regs_ok [OF this] obtain m1 where m1: "Machine_DelayedLoad 0 0 m = Inr m1" "regs_ok (registers m1)" by auto
  have l: "length (registers m1) = 40" using m1(2) by (simp add: regs_ok_def)
  show ?thesis using m1(1) l
    by (simp add: step_defs running_def second_runs_def two_users_def fire_calls pc.ordered_def SaveUserState_eq AddrSpace_SaveState_def top_def Run_tick_def
       TimerTicks_def Sorted_Insert_def PendingCompare_def sw_machine_def)
qed

lemma sw_machine_runs: "\<exists>m. Machine_OneInstruction sw_machine = Inr (Inr (), m) \<and> mach_ok m"
proof -
  have ok: "mach_ok sw_machine" and pc: "reg sw_machine PCReg = 0" by (simp_all add: mach_ok_def sw_machine_def page_at_def reg_numbers)
  have w: "load_val (mainMemory sw_machine) 4 768 = 0xAC020008" by (simp add: load_val_def load_word_def bytes_word_def sw_machine_def)
  have a: "access sw_machine 4 u 0 = Inr 768" "access sw_machine 4 u 8 = Inr 776" for u by (simp_all add: access_def va_phys_def sw_machine_def page_at_def)
  have d: "Instruction_Decode 0xAC020008 = \<lparr>opCode = OP_SW, i_rs = 0, i_rt = 2, i_rd = 0, extra = 8\<rparr>" by (simp add: Instruction_Decode_def opTable_def)
  obtain m1 where m1: "Machine_ReadMem (reg sw_machine PCReg) 4 sw_machine = Inr (Inr 0xAC020008, m1)" "same_map sw_machine m1"
    using ReadMem_ok [OF ok, of 4 0] a(1) by (auto simp: w pc)
  have ok1: "mach_ok m1" "registers m1 = registers sw_machine" "access m1 4 True 8 = Inr 776"
    using m1(2) ok a(2) [of True] by (simp_all add: same_map_def access_def)
  then obtain m2 where m2: "Machine_WriteMem 8 4 42 m1 = Inr (Inr (), m2)" "mach_ok m2" using WriteMem_ok [OF ok1(1), of 4 8 42] by auto
  have x: "exec OP_SW \<lparr>opCode = OP_SW, i_rs = 0, i_rt = 2, i_rd = 0, extra = 8\<rparr> m1 = MipsSim.fin m2"
    using m2(1) ok1(2) by (simp add: store_def sw_machine_def tbind_def)
  obtain m3 where "Machine_DelayedLoad 0 0 m2 = Inr m3"
    using DelayedLoad_regs_ok [of m2] m2(2) by (auto simp: mach_ok_def regs_ok_def reg_numbers)
  then have "Machine_OneInstruction sw_machine = Inr (Inr (), advance (next_pc m2) m3)"
    using m1(1) x by (simp add: Machine_OneInstruction_def tbind_def d MipsSim.fin_def Let_def)
  then show ?thesis using OneInstruction_ok [OF ok] by auto
qed

lemma page_space_phys: "space_phys (page_space n) w va = Inr p \<Longrightarrow> p div 128 = unat n"
  by (auto simp: space_phys_def va_phys_def page_at_def Let_def split: if_splits)

lemma two_users_ok: "system_ok (keeps_off 0 (readable (page_space 5))) (\<lambda>_. []) two_users" "system_ok (\<lambda>t. space_ok) (\<lambda>_. []) two_users"
proof -
  have "writable (page_space 6) \<inter> readable (page_space 5) = {}" by (auto simp: writable_def readable_def dest!: page_space_phys)
  then have "uinv (keeps_off 0 (readable (page_space 5))) two_users" "uinv (\<lambda>t. space_ok) two_users"
    by (auto simp: uinv_def parts_ok_def matched_def two_users_def sw_machine_def upart_def part_ok_def keeps_off_def space_ok_def page_at_def less_Suc_eq)
  then show "system_ok (keeps_off 0 (readable (page_space 5))) (\<lambda>_. []) two_users" "system_ok (\<lambda>t. space_ok) (\<lambda>_. []) two_users"
    using two_users_kinv by (simp_all add: system_ok_def spaces_ok_def)
qed

lemma two_users_away:
  "\<exists>k1 k6. kstep (\<lambda>_. []) two_users = Inr k1 \<and> sys_run U g (\<lambda>_. []) k1 q second_runs q \<and> sys_away U g (\<lambda>_. []) 0 k1 q k6 q \<and> cur k6 = 0"
proof -
  obtain k1 k2 k3 where k: "kstep (\<lambda>_. []) two_users = Inr k1" "cur k1 = 1" "top k1 = Some Switched"
    "kstep (\<lambda>_. []) k1 = Inr k2" "cur k2 = 1" "top k2 = Some (SetLevel IntOn)"
    "kstep (\<lambda>_. []) k2 = Inr k3" "cur k3 = 1" "top k3 = Some (Ticked UserMode)" "kstep (\<lambda>_. []) k3 = Inr second_runs"
    using two_users_start by blast
  obtain m where m: "Machine_OneInstruction sw_machine = Inr (Inr (), m)" "mach_ok m" using sw_machine_runs by blast
  obtain k5 k6 where k': "kstep (\<lambda>_. []) (running m second_runs) = Inr k5" "cur k5 = 1" "top k5 = Some DoYield"
    "kstep (\<lambda>_. []) k5 = Inr k6" "cur k6 = 0" using second_preempted [OF m(2)] by blast
  have s: "kmach second_runs = sw_machine" "top second_runs = Some UserRun" "cur second_runs = 1" by (simp_all add: second_runs_def top_def get_thread_def)
  have steps: "sys_step U g (\<lambda>_. []) k1 q k2 q" "sys_step U g (\<lambda>_. []) k2 q k3 q" "sys_step U g (\<lambda>_. []) k3 q second_runs q" "sys_step U g (\<lambda>_. []) k5 q k6 q"
    using k k' by (auto intro: sys_step.kernel)
  have user: "sys_step U g (\<lambda>_. []) second_runs q k5 q" by (rule sys_step.instruction [OF s(2) _ k'(1)]) (simp add: s(1) m(1))
  have "sys_run U g (\<lambda>_. []) k1 q second_runs q" by (rule sys_run.more [OF sys_run.more [OF sys_run.more [OF sys_run.here]]]) (rule steps)+
  moreover have "sys_away U g (\<lambda>_. []) 0 k1 q k6 q"
    by (rule sys_away.still [OF sys_away.still [OF sys_away.still [OF sys_away.still [OF sys_away.still [OF sys_away.gone]]]]])
      (use steps user k k' s in simp_all)
  ultimately show ?thesis using k(1) k'(5) by blast
qed

section \<open>Properties\<close>

text \<open>
  C9. User programs under preemption.  From a good state of the system, after any number of steps, in which threads run user programs, make
  system calls, are interrupted and switch: the invariants of the thread system and of the user state hold; a thread in \<^verbatim>\<open>Run\<close> is on a
  sound machine that translates by its own page table; the next step changes memory only where the running thread's own address space
  lets it write; and there is a next step, unless a client of the kernel made a mistake, or the running program halts the machine,
  waits for the console or runs into an assertion of the simulator or of the exception handler.
\<close>

theorem user_threads_safe:
  assumes "system_ok (\<lambda>t. space_ok) F k" "sys_run U g F k q k1 q1"
  shows "system_ok (\<lambda>t. space_ok) F k1 \<and>
    (top k1 = Some UserRun \<longrightarrow> mach_ok (kmach k1) \<and> (\<exists>sp. t_space (the (threads k1 ! currentThread k1)) = Some sp \<and> va_phys (kmach k1) = space_phys sp)) \<and>
    (\<forall>k2 q2 p. sys_step U g F k1 q1 k2 q2 \<and> p < nat MemorySize \<and> mainMemory (kmach k2) ! p \<noteq> mainMemory (kmach k1) ! p \<longrightarrow>
       (\<exists>sp. t_space (the (threads k1 ! currentThread k1)) = Some sp \<and> p \<in> writable sp)) \<and>
    ((\<exists>k2 q2. sys_step U g F k1 q1 k2 q2) \<or> (\<exists>f. top k1 = Some f \<and> client_error f k1) \<or>
       (top k1 = Some UserRun \<and> user_stops U g (kmach k1) q1))"
proof -
  have G: "system_ok (\<lambda>t. space_ok) F k1" by (rule sound.sys_run_good [OF assms(2,1)])
  then have g: "kinv k1" "uinv (\<lambda>t. space_ok) k1" by (simp_all add: system_ok_def)
  have "mach_ok (kmach k1) \<and> (\<exists>sp. t_space (th k1 (cur k1)) = Some sp \<and> va_phys (kmach k1) = space_phys sp)" if "top k1 = Some UserRun"
    using sound.at_user [OF g] sound.user_top [OF g(1)] that by blast
  moreover have "\<exists>sp. t_space (th k1 (cur k1)) = Some sp \<and> p \<in> writable sp"
    if "sys_step U g F k1 q1 k2 q2 \<and> p < nat MemorySize \<and> mainMemory (kmach k2) ! p \<noteq> mainMemory (kmach k1) ! p" for k2 q2 p
    using sound.sys_step_good(2) [OF G, of U g q1 k2 q2 p] that by (auto simp: MemorySize_def)
  ultimately show ?thesis using sound.sys_progress [OF G] G by blast
qed

theorem user_threads_safe_witness:
  "\<forall>(U :: unit unix) g q. mach_ok (kmach second_runs) \<and> (\<exists>k1. kstep (\<lambda>_. []) two_users = Inr k1 \<and> sys_run U g (\<lambda>_. []) k1 q second_runs q)"
proof (intro allI)
  fix U :: "unit unix" and g q
  obtain k1 where k1: "kstep (\<lambda>_. []) two_users = Inr k1" "sys_run U g (\<lambda>_. []) k1 q second_runs q" using two_users_away [of U g q] by blast
  have "system_ok (\<lambda>t. space_ok) (\<lambda>_. []) k1" by (rule sound.kstep_good(1) [OF two_users_ok(2) k1(1)])
  moreover have "top second_runs = Some UserRun" by (simp add: second_runs_def top_def get_thread_def)
  ultimately have "mach_ok (kmach second_runs)" using user_threads_safe [of "\<lambda>_. []" k1 U g q second_runs q] k1(2) by blast
  with k1 show "mach_ok (kmach second_runs) \<and> (\<exists>k1. kstep (\<lambda>_. []) two_users = Inr k1 \<and> sys_run U g (\<lambda>_. []) k1 q second_runs q)" by blast
qed

text \<open>
  C8. A user program does not notice that other threads ran.  When a thread with an address space gives up the processor, and the others run for
  however long, user programs with their system calls among them, then as long as no other address space lets its thread write where this one
  reads, the first step after the thread is switched to again puts back its registers and its translation, and every address it can
  read holds the byte it held.
\<close>

theorem user_program_resumes:
  assumes ok: "system_ok (keeps_off (currentThread k) (readable sp)) F k" and d: "dispatching k" and sp: "t_space (the (threads k ! currentThread k)) = Some sp"
    and out: "kstep F k = Inr k1" and run: "sys_away U g F (currentThread k) k1 q1 k2 q2" and again: "currentThread k2 = currentThread k"
  shows "\<exists>k3. kstep F k2 = Inr k3 \<and> currentThread k3 = currentThread k \<and> registers (kmach k3) = registers (kmach k) \<and>
    va_phys (kmach k3) = va_phys (kmach k) \<and> umem (kmach k3) = umem (kmach k)"
proof -
  let ?t = "cur k"
  have K: "kinv k" "uinv (keeps_off ?t (readable sp)) k" using ok by (simp_all add: system_ok_def)
  obtain gs where v1: "view k1 ?t = Some (Switched # gs, Some sp, registers (kmach k))" "?t < length (threads k1)"
    using dispatch_saves [OF K(1) d sp out] by blast
  note S1 = own.kstep_good(1,2) [OF ok out]
  have A: "system_ok (keeps_off ?t (readable sp)) F k2" "view k2 ?t = view k1 ?t \<or> view k2 ?t = None"
    "\<forall>p \<in> readable sp. p < 16384 \<longrightarrow> mainMemory (kmach k2) ! p = mainMemory (kmach k1) ! p" using away_keeps [OF run S1(1) v1(2)] by simp_all
  then have K2: "kinv k2" by (simp add: system_ok_def)
  have a2: "alive k2 ?t" using kinvD(9) [OF K2] again by simp
  then have "view k2 ?t = view k1 ?t" using A(2) by (auto simp: view_def alive_def)
  with v1(1) a2 have th: "code k2 (cur k2) = Switched # gs" "t_space (th k2 (cur k2)) = Some sp" "t_userRegisters (th k2 (cur k2)) = registers (kmach k)"
    using again by (auto simp: view_def alive_def saved_def)
  obtain k3 where k3: "kstep F k2 = Inr k3" "cur k3 = cur k2" "kmach k3 = AddrSpace_RestoreState sp (kmach k2\<lparr>registers := registers (kmach k)\<rparr>)"
    using Switched_restores [OF K2 th(1,2), of F] th(3) by auto
  have "hd (code k ?t) \<noteq> Switched" using d kinvD(9) [OF K(1)] by (auto simp: dispatching_def top_def split: list.splits)
  then have m: "pageTable (kmach k) = Some (as_pageTable sp)" "pageTableSize (kmach k) = numPages sp"
    using K(2) sp by (simp_all add: uinv_def matched_def)
  have t: "va_phys (kmach k) = space_phys sp" "va_phys (kmach k3) = space_phys sp"
    using space_phys_machine m k3(3) by (simp_all add: AddrSpace_RestoreState_def)
  have "mainMemory (kmach k3) ! p = mainMemory (kmach k) ! p" if "space_phys sp False va = Inr p" for va p
    using that A(3) phys_bound [OF that] S1(2) k3(3) by (auto simp: readable_def AddrSpace_RestoreState_def)
  then have "umem (kmach k3) = umem (kmach k)" by (auto simp: umem_def t fun_eq_iff split: sum.splits)
  with k3 again t show ?thesis by (simp add: AddrSpace_RestoreState_def)
qed

theorem user_program_resumes_witness:
  "\<forall>(U :: unit unix) g q. \<exists>k1 k2 k3. kstep (\<lambda>_. []) two_users = Inr k1 \<and> currentThread k1 = 1 \<and> sys_away U g (\<lambda>_. []) 0 k1 q k2 q \<and>
     kstep (\<lambda>_. []) k2 = Inr k3 \<and> currentThread k3 = 0 \<and> registers (kmach k3) ! 2 = 7 \<and> umem (kmach k3) = umem (kmach two_users)"
proof (intro allI)
  fix U :: "unit unix" and g q
  obtain k1 k2 where k: "kstep (\<lambda>_. []) two_users = Inr k1" "sys_away U g (\<lambda>_. []) 0 k1 q k2 q" "cur k2 = 0" using two_users_away [of U g q] by blast
  have t: "cur two_users = 0" "t_space (th two_users 0) = Some (page_space 5)" "dispatching two_users"
    by (simp_all add: two_users_def dispatching_def top_def get_thread_def)
  have "cur k1 = 1" using two_users_start k(1) by auto
  moreover obtain k3 where "kstep (\<lambda>_. []) k2 = Inr k3" "cur k3 = 0" "registers (kmach k3) = registers (kmach two_users)" "umem (kmach k3) = umem (kmach two_users)"
    using user_program_resumes [of two_users "page_space 5" "\<lambda>_. []" k1 U g q k2 q] two_users_ok(1) t k by auto
  ultimately show "\<exists>k1 k2 k3. kstep (\<lambda>_. []) two_users = Inr k1 \<and> currentThread k1 = 1 \<and> sys_away U g (\<lambda>_. []) 0 k1 q k2 q \<and>
     kstep (\<lambda>_. []) k2 = Inr k3 \<and> currentThread k3 = 0 \<and> registers (kmach k3) ! 2 = 7 \<and> umem (kmach k3) = umem (kmach two_users)"
    using k by (intro exI [of _ k1] exI [of _ k2] exI [of _ k3]) (simp add: two_users_def sw_machine_def)
qed

end
