(* ===== verification/UserBoot.thy ===== *)
theory UserBoot
  imports Kernel Multi
begin

text \<open>
  The user program of \<^verbatim>\<open>nachos -x\<close>: the end of \<^verbatim>\<open>main\<close> (\<^verbatim>\<open>threads/main.cc\<close>), which makes an address space, loads the program into it and
  executes it on its own thread, or halts when it cannot be loaded; and what holds of it from start-up on.
\<close>

section \<open>The end of main\<close>

text \<open>
  \<open>np\<close> is what the constructor leaves in \<^verbatim>\<open>numPages\<close>, which it does not set, and \<open>garbage\<close> what is in the buffer for the header of the file.
\<close>

definition run_program :: "'h unix \<Rightarrow> byte list \<Rightarrow> 32 word \<Rightarrow> byte list \<Rightarrow> kst \<times> 'h \<Rightarrow> (kst \<times> 'h) res" where
  "run_program U garbage np name = (\<lambda>(k, h).
     let (space, m) = AddrSpace_new np (kmach k) in
     rbind (AddrSpace_Load U garbage name space m h) (\<lambda>(loaded, space, m, h).
     let k = k\<lparr>kmach := m\<rparr> in
     if loaded then rbind (Execute_thread space k) (\<lambda>k. Inr (k, h)) else Inr (Interrupt_Halt k, h)))"

section \<open>What loading leaves\<close>

lemma fill_length: "fill buf data = Inr buf' \<Longrightarrow> length buf' = length buf"
  by (auto simp: fill_def splice_at_def split: if_splits)

lemma ReadAt_length: "StubFile_ReadAt U f buf n pos h = Inr (r, buf', h') \<Longrightarrow> length buf' = length buf"
  by (auto simp: StubFile_ReadAt_def ReadPartial_def Let_def fill_length split: prod.splits elim!: rbindE)

lemma load_segment_frame:
  assumes "load_segment U f s (m, h) = Inr (m', h')" "length (mainMemory m) = 16384"
  shows "registers m' = registers m \<and> tlb m' = tlb m \<and> length (mainMemory m') = 16384"
  using assms by (auto simp: load_segment_def Let_def MemorySize_def dest!: ReadAt_length split: if_splits elim!: rbindE)

lemma Load_frame:
  assumes "AddrSpace_Load U garbage name sp m h = Inr (True, sp', m', h')" "length (mainMemory m) = 16384" "length (as_pageTable sp) = 128"
    "\<forall>i < 128. unat (physicalPage (as_pageTable sp ! i)) = i \<and> valid (as_pageTable sp ! i) \<and> \<not> readOnly (as_pageTable sp ! i)"
  shows "identity_space sp' \<and> registers m' = registers m \<and> tlb m' = tlb m \<and> length (mainMemory m') = 16384"
proof -
  have np: "unat n \<le> 128" if "n \<le> NumPhysPages" for n :: "32 word" using that by (simp add: NumPhysPages_def word_le_nat_alt)
  obtain f s1 s2 s3 u m1 h1 m2 h2 h3 where
    l: "load_segment U f s1 (m, u) = Inr (m1, h1)" "load_segment U f s2 (m1, h1) = Inr (m2, h2)" "load_segment U f s3 (m2, h2) = Inr (m', h3)"
    and "as_pageTable sp' = as_pageTable sp" "numPages sp' \<le> NumPhysPages"
    using assms(1) by (auto simp: AddrSpace_Load_def Let_def simp del: rbind_assert split: option.splits elim!: rbindE)
  then show ?thesis
    using load_segment_frame [OF l(1)] load_segment_frame [OF l(2)] load_segment_frame [OF l(3)] assms(2-4) np [of "numPages sp'"]
    by (simp add: identity_space_def)
qed

lemma new_frame:
  "length (as_pageTable (fst (AddrSpace_new np m))) = 128"
  "\<forall>i < 128. unat (physicalPage (as_pageTable (fst (AddrSpace_new np m)) ! i)) = i \<and> valid (as_pageTable (fst (AddrSpace_new np m)) ! i) \<and>
     \<not> readOnly (as_pageTable (fst (AddrSpace_new np m)) ! i)"
  "length (mainMemory (snd (AddrSpace_new np m))) = 16384" "registers (snd (AddrSpace_new np m)) = registers m" "tlb (snd (AddrSpace_new np m)) = tlb m"
  by (simp_all add: AddrSpace_new_def NumPhysPages_def MemorySize_def unat_of_nat)

section \<open>From start-up to the user program\<close>

lemma started_ok:
  assumes "may_call main" "\<forall>sp. DoExecute sp \<notin> set main" "length (mainMemory m) = 16384" "tlb m = None"
  shows "uinv (\<lambda>t sp. False) (started rs m (main @ [DoFinish]) rnd keys d n)"
proof -
  have c: "\<not> special f" if "f \<in> set main" for f using may_callD [OF assms(1) that] assms(2) that by (cases f) auto
  have "DoBegin \<notin> set main" "UserRun \<notin> set main" using c by fastforce+
  then show ?thesis using assms(2-4) by (simp add: uinv_def parts_ok_def matched_def started_def part_ok_def upart_def Thread_new_def)
qed

lemma booted_ok:
  assumes m: "Machine_new debug pts rut = Inr m" and k: "Kernel_Initialize rs m (main @ [DoFinish]) rnd keys blank = Inr k"
    and calls: "may_call main" "\<forall>n. may_call (F n)" and none: "\<forall>sp. DoExecute sp \<notin> set main" "\<forall>n sp. DoExecute sp \<notin> set (F n)"
  shows "system_ok (\<lambda>t sp. False) F k"
proof -
  obtain d n where d: "0 < d" "Interrupt_SetLevel IntOn (started rs m (main @ [DoFinish]) rnd keys d n) = Inr k"
    using Initialize_started k by metis
  let ?k = "started rs m (main @ [DoFinish]) rnd keys d n"
  have mm: "regs_ok (registers m)" "length (mainMemory m) = 16384" "tlb m = None"
    using m by (auto simp: Machine_new_def regs_ok_def NumTotalRegs_def MemorySize_def elim!: rbindE)
  have U: "uinv (\<lambda>t sp. False) ?k" by (rule started_ok [OF calls(1) none(1) mm(2,3)])
  have B: "base ?k" by (rule started_base [OF d(1) calls(1) mm(1)])
  have M: "matched ?k" by (simp add: matched_def started_def Thread_new_def)
  have "uinv (\<lambda>t sp. False) k"
    by (rule uinv_uview [OF SetLevel_uview [OF d(2)] base_alive [OF B] _ M]) (use U in \<open>simp add: uinv_def\<close>)
  moreover have f: "free ?k" "\<not> yieldOnReturn ?k" "toBeDestroyed ?k = None" "level ?k = IntOff" "code ?k (cur ?k) = main @ [DoFinish]"
    by (auto simp: free_def started_def less_Suc_eq eval_nat_numeral)
  have w: "wfc (main @ [DoFinish]) \<and> lvl (hd (main @ [DoFinish])) = IntOn" using wfc_calls [of main] may_callD [OF calls(1)] by blast
  have "kinv k" using SetLevel_On_kinv [OF B f(1-4)] f(5) w d(2) by auto
  moreover have "progs_ok F ?k" using may_callD calls(2) unfolding progs_ok_def by blast
  then have "progs_ok F k" by (rule grows_progs [OF SetLevel_grows [OF d(2)]])
  ultimately show ?thesis using none(2) by (simp add: system_ok_def spaces_ok_def)
qed


text \<open>The thread that loads and executes.\<close>

lemma enter_ok:
  assumes ok: "system_ok (\<lambda>t sp. False) F k" and c: "code k (cur k) = DoFinish # fs" and sp: "space_ok sp"
    and m: "registers m = registers (kmach k)" "tlb m = None" "length (mainMemory m) = 16384"
    and e: "Execute_thread sp (k\<lparr>kmach := m\<rparr>) = Inr k'"
  shows "system_ok (only (cur k) sp) F k'"
proof -
  have g: "kinv k" "uinv (\<lambda>t sp. False) k" "progs_ok F k" "spaces_ok (\<lambda>t sp. False) F k" using ok by (simp_all add: system_ok_def)
  have a: "alive k (cur k)" by (rule kinvD(9) [OF g(1)])
  let ?x = "(th k (cur k))\<lparr>t_code := DoExecute sp # DoFinish # fs\<rparr>"
  let ?put = "put_thread (cur k) ?x k" and ?k = "put_thread (cur k) ?x k\<lparr>kmach := m\<rparr>"
  have "refs_ok k (DoExecute sp)" by simp
  moreover have "\<forall>f \<in> set (DoFinish # fs). refs_ok k f" using kinvD(2) [OF g(1)] a c by (simp add: refs_inv_def)
  ultimately have R: "refs_inv ?put" using refs_inv_code [OF kinvD(2) [OF g(1)] a, of ?x] by simp
  have S: "sched_ok ?put" by (rule sched_ok_code [OF kinvD(1) [OF g(1)] kinv_free [OF g(1) c]]) simp_all
  have D: "dev_ok ?put" by (rule dev_ok_code [OF kinvD(3) [OF g(1)] a]) (use kinvD(3) [OF g(1)] a in \<open>simp add: dev_ok_def\<close>)
  have D: "dev_ok ?k" using D m(1) by (simp add: dev_ok_def)
  have K: "kinv ?k" using S R D g(1) a c by (simp add: kinv_def)
  have q: "only (cur k) sp (cur k) sp" using sp by (simp add: only_def)
  have P: "parts_ok (\<lambda>t sp. False) k" using g(2) by (simp add: uinv_def)
  have o: "part_ok (\<lambda>sp. False) (t_space (th k (cur k)), filter special fs)" using parts_ok_alive [OF P a] c by (simp add: upart_def)
  have "part_ok (only (cur k) sp t) (upart y)" if "part_ok (\<lambda>sp. False) (upart y)" for t y using that by (auto simp: part_ok_def)
  then have P': "parts_ok (only (cur k) sp) k" using P by (simp add: parts_ok_def)
  have "DoBegin \<notin> set fs" using kinvD(4) [OF g(1)] c by simp
  then have "part_ok (only (cur k) sp (cur k)) (upart ?x)" using o q by (auto simp: part_ok_def upart_def)
  from parts_ok_put [OF P' this] have "parts_ok (only (cur k) sp) ?k" using m by (simp add: parts_ok_def)
  moreover have "matched ?k" using a o by (auto simp: matched_def part_ok_def)
  ultimately have U: "uinv (only (cur k) sp) ?k" by (simp add: uinv_def)
  have n: "DoExecute sp' \<notin> set (F n)" for sp' n using g(4) by (auto simp: spaces_ok_def)
  have r: "refs_ok ?k f = refs_ok k f" for f by (rule refs_ok_cong) simp_all
  have ok': "system_ok (only (cur k) sp) F ?k" using K U g(3) n by (simp add: system_ok_def progs_ok_def spaces_ok_def r)
  have "(th k (cur k))\<lparr>t_code := DoFinish # fs\<rparr> = th k (cur k)" using c by (cases "th k (cur k)") simp
  then have "(threads k)[cur k := Some ((th k (cur k))\<lparr>t_code := DoFinish # fs\<rparr>)] = threads k" using a by (auto simp: alive_def list_update_same_conv)
  then have "popped ?k = k\<lparr>kmach := m\<rparr>" using a by (auto simp: popped_def put_thread_def alive_def)
  then have "kstep F ?k = Inr k'" using kstep_top [OF kinvD(9) [OF K], of "DoExecute sp" "DoFinish # fs" F] a e by simp
  from sole.kstep_good(1) [OF ok' this] show ?thesis .
qed

section \<open>A program that is run\<close>

lemma example_load:
  assumes "length (mainMemory m) = 16384"
  shows "\<exists>sp' m' h'. AddrSpace_Load (example_host example_exe) (replicate 52 0) [97] sp m 0 = Inr (True, sp', m', h')"
proof -
  have t: "take 52 example_exe = [0xad, 0xdf, 0xba, 0, 0, 0, 0, 0, 52, 0, 0, 0, 4, 0, 0, 0] @ replicate 36 0" by (simp add: example_exe_def)
  have H: "bytes_noff (take 52 example_exe) = bytes_noff example_exe"
    unfolding t by (simp add: bytes_noff_def bytes_segment_def word_at_def load_word_def example_exe_def bytes_word_def nth_append)
  have r: "StubFile_ReadAt (example_host example_exe) f (replicate 52 0) 52 0 h = Inr (52, take 52 example_exe, 52)" for f h
    by (simp add: StubFile_ReadAt_def ReadPartial_def Lseek_def fill_def splice_at_def example_host_def example_exe_def Let_def)
  have o: "StubFS_Open (example_host example_exe) [97] 0 = Inr (Some (StubFile_new 3), 0)"
    by (simp add: StubFS_Open_def OpenForReadWrite_def example_host_def)
  have z: "load_segment U f \<lparr>virtualAddr = 0, inFileAddr = 0, sg_size = 0\<rparr> mh = Inr mh" for U :: "nat unix" and f mh
    by (cases mh) (simp add: load_segment_def)
  have d: "StubFile_delete (example_host example_exe) f h = Inr h" for f h by (simp add: StubFile_delete_def Close_def example_host_def)
  have c: "\<exists>m' h'. load_segment (example_host example_exe) f \<lparr>virtualAddr = 0, inFileAddr = 52, sg_size = 4\<rparr> (m, h) = Inr (m', h')" for f h
    using assms by (simp add: load_segment_def word_sless_alt MemorySize_def StubFile_ReadAt_def ReadPartial_def Lseek_def fill_def example_host_def example_exe_def)
  then obtain m' h' where c: "load_segment (example_host example_exe) (StubFile_new 3) \<lparr>virtualAddr = 0, inFileAddr = 52, sg_size = 4\<rparr> (m, 52) = Inr (m', h')" by blast
  show ?thesis by (simp add: AddrSpace_Load_def o r H example_exe_header c z d UserStackSize_def PageSize_def NumPhysPages_def)
qed

lemma example_boot:
  assumes "Machine_new False 0 0 = Inr m"
  shows "\<exists>k. Kernel_Initialize False m [DoFinish] (\<lambda>_. 0) [] blank = Inr k \<and> top k = Some DoFinish \<and> cur k = 0 \<and> \<not> halted k \<and>
    length (registers (kmach k)) = 40"
  using assms by (auto simp: Initialize_eq started_def Interrupt_SetLevel_def Interrupt_OneTick_def Interrupt_CheckIfDue_def SystemTick_def Let_def
      top_def get_thread_def Machine_new_def NumTotalRegs_def push_def Thread_new_def elim!: rbindE)

lemma example_run:
  assumes "top k = Some DoFinish" "\<not> halted k" "length (registers (kmach k)) = 40"
  shows "\<exists>k1 h1. run_program (example_host example_exe) (replicate 52 0) 0 [97] (k, 0) = Inr (k1, h1) \<and> \<not> halted k1 \<and> top k1 = Some UserRun"
proof -
  let ?n = "AddrSpace_new 0 (kmach k)"
  obtain sp m h where l: "AddrSpace_Load (example_host example_exe) (replicate 52 0) [97] (fst ?n) (snd ?n) 0 = Inr (True, sp, m, h)"
    using example_load [OF new_frame(3)] by blast
  have r: "length (registers m) = 40" using Load_frame [OF l new_frame(3,1,2)] new_frame(4) assms(3) by simp
  obtain x where x: "get_thread (cur k) k = Inr x" using assms(1) by (auto simp: top_def split: sum.splits)
  have a: "cur k < length (threads k)" "threads k ! cur k = Some x" using x by (auto simp: get_thread_def split: if_splits option.splits)
  obtain k1 where k1: "Execute_thread sp (k\<lparr>kmach := m\<rparr>) = Inr k1" "halted k1 = halted k" "top k1 = Some UserRun"
    using a Execute_regs [OF r, of sp]
    by (simp add: Execute_thread_def Machine_Run_def push_def with_thread_def get_thread_def put_thread_def top_def)
  have "run_program (example_host example_exe) (replicate 52 0) 0 [97] (k, 0) = Inr (k1, h)" using l k1(1) by (simp add: run_program_def Let_def split_beta)
  with k1 assms(2) show ?thesis by blast
qed

section \<open>Properties\<close>



end
