(* ===== verification/SynchFifo.thy ===== *)
theory SynchFifo
  imports ThreadsLock
begin

text \<open>
  What threads take out of a synchronized list is what threads put into it, in the same order and each item once, in every
  interleaving (\<^verbatim>\<open>threads/synchlist.cc\<close>).
\<close>

section \<open>Items put in and taken out\<close>

definition appended :: "nat \<Rightarrow> kst \<Rightarrow> int list" where
  "appended i k =
     (case top k of
        Some (ListAppend j x) \<Rightarrow> if j = i then [x] else []
      | Some (AppendResult j) \<Rightarrow> if j = i then [t_result (the (threads k ! currentThread k))] else []
      | _ \<Rightarrow> [])"

definition removed :: "nat \<Rightarrow> kst \<Rightarrow> int list" where
  "removed i k =
     (case top k of
        Some (RemoveLoop j) \<Rightarrow> if j = i then take 1 (sl_list (lists k ! i)) else []
      | _ \<Rightarrow> [])"

text \<open>\<open>traffic F i k xs ys k'\<close>: a run from \<open>k\<close> to \<open>k'\<close> in which \<open>xs\<close> were appended to list \<open>i\<close> and \<open>ys\<close> removed from it.\<close>

inductive traffic :: "(nat \<Rightarrow> frame list) \<Rightarrow> nat \<Rightarrow> kst \<Rightarrow> int list \<Rightarrow> int list \<Rightarrow> kst \<Rightarrow> bool" for F i where
  start: "traffic F i k [] [] k"
| more: "traffic F i k xs ys k1 \<Longrightarrow> kstep F k1 = Inr k2 \<Longrightarrow> traffic F i k (xs @ appended i k1) (ys @ removed i k1) k2"

section \<open>Everything else leaves the lists alone\<close>

lemma with_thread_lists: "with_thread t f k = Inr k' \<Longrightarrow> lists k' = lists k"
  by (auto simp: with_thread_def elim!: rbindE)

lemma push_lists: "push fs k = Inr k' \<Longrightarrow> lists k' = lists k"
  unfolding push_def by (rule with_thread_lists)

lemma ReadyToRun_lists: "Scheduler_ReadyToRun t k = Inr k' \<Longrightarrow> lists k' = lists k"
  by (auto simp: Scheduler_ReadyToRun_def split: if_splits elim!: rbindE dest!: with_thread_lists)

lemma V_body_lists: "V_body s k = Inr k' \<Longrightarrow> lists k' = lists k"
  by (auto simp: V_body_def split: if_splits elim!: rbindE dest!: ReadyToRun_lists)

lemma handler_V_lists: "handler_V s k = Inr k' \<Longrightarrow> lists k' = lists k"
  by (auto simp: handler_V_def elim!: rbindE dest!: V_body_lists)

lemma Schedule_lists: "Interrupt_Schedule d n k = Inr k' \<Longrightarrow> lists k' = lists k"
  by (auto simp: Interrupt_Schedule_def Let_def split: if_splits elim!: rbindE)

lemma CallBack_lists: "CallBack d k = Inr k' \<Longrightarrow> lists k' = lists k"
  by (cases d) (auto simp: Timer_CallBack_def Alarm_CallBack_def Timer_SetInterrupt_def Interrupt_YieldOnReturn_def ConsoleInput_CallBack_def
      Device_CallBack_def split: if_splits list.splits poll.splits elim!: rbindE dest!: Schedule_lists handler_V_lists)

lemma fire_lists: "fire k = Inr k' \<Longrightarrow> lists k' = lists k"
proof (induction k rule: fire.induct)
  case (1 k)
  obtain p ps k1 where k1: "List_RemoveFront (pending k) = Inr (p, ps)" "CallBack (p_dev p) (k\<lparr>pending := ps\<rparr>) = Inr k1"
    "(if pending k1 \<noteq> [] \<and> p_when (hd (pending k1)) \<le> now k1 then fire k1 else Inr k1) = Inr k'"
    using "1.prems" by (subst (asm) fire.simps) (auto elim!: rbindE split: prod.splits)
  then show ?case using CallBack_lists [OF k1(2)] "1.IH" [OF k1(1) refl k1(2)] by (auto split: if_splits)
qed

lemma CheckIfDue_lists: "Interrupt_CheckIfDue adv k = Inr (b, k') \<Longrightarrow> lists k' = lists k"
  by (auto simp: Interrupt_CheckIfDue_def Let_def split: if_splits elim!: rbindE dest!: fire_lists)

lemma OneTick_lists: "Interrupt_OneTick k = Inr k' \<Longrightarrow> lists k' = lists k"
  by (auto simp: Interrupt_OneTick_def Let_def split: if_splits prod.splits elim!: rbindE dest!: CheckIfDue_lists push_lists)

lemma SetLevel_lists: "Interrupt_SetLevel l k = Inr k' \<Longrightarrow> lists k' = lists k"
  by (auto simp: Interrupt_SetLevel_def Let_def split: if_splits elim!: rbindE dest!: OneTick_lists)

lemma Idle_lists: "Interrupt_Idle k = Inr k' \<Longrightarrow> lists k' = lists k"
  by (auto simp: Interrupt_Idle_def Interrupt_Halt_def split: if_splits prod.splits elim!: rbindE dest!: CheckIfDue_lists)

lemma Run_lists: "Scheduler_Run n b k = Inr k' \<Longrightarrow> lists k' = lists k"
  by (auto simp: Scheduler_Run_def Let_def split: if_splits option.splits elim!: rbindE dest!: with_thread_lists push_lists)

lemma FindNext_lists: "Scheduler_FindNextToRun k = Inr (n, k') \<Longrightarrow> lists k' = lists k"
  using FindNext_ready [of k n k'] by auto

lemma Destroy_lists: "Scheduler_CheckToBeDestroyed k = Inr k' \<Longrightarrow> lists k' = lists k"
  by (auto simp: Scheduler_CheckToBeDestroyed_def Thread_delete_def split: if_splits option.splits elim!: rbindE)

lemmas op_lists = with_thread_lists push_lists ReadyToRun_lists V_body_lists Schedule_lists OneTick_lists SetLevel_lists Idle_lists Run_lists FindNext_lists
  Destroy_lists

lemma exec_frame_lists:
  "exec_frame f F k = Inr k' \<Longrightarrow> \<forall>i x. f \<noteq> ListAppend i x \<and> f \<noteq> AppendResult i \<and> f \<noteq> RemoveLoop i \<Longrightarrow> lists k' = lists k"
  by (cases f; simp only: exec_frame.simps)
    (auto simp: op_defs Switched_back_def Let_def split: if_splits option.splits prod.splits elim!: rbindE dest!: op_lists)

section \<open>The items of a list\<close>

lemma kstep_traffic:
  assumes e: "kstep F k = Inr k'" and i: "i < length (lists k)"
  shows "sl_list (lists k ! i) @ appended i k = removed i k @ sl_list (lists k' ! i) \<and> length (lists k') = length (lists k)"
proof -
  obtain x f fs where x: "get_thread (cur k) k = Inr x" "t_code x = f # fs" "exec_frame f F (put_thread (cur k) (x\<lparr>t_code := fs\<rparr>) k) = Inr k'"
    using e by (auto simp: kstep_def split: list.splits elim!: rbindE)
  let ?k = "put_thread (cur k) (x\<lparr>t_code := fs\<rparr>) k"
  have t: "top k = Some f" "threads k ! cur k = Some x" "cur k < length (threads k)" "lists ?k = lists k" "cur ?k = cur k"
    using x(1,2) by (auto simp: top_def get_thread_def split: if_splits option.splits)
  have g: "get_thread (cur k) ?k = Inr (x\<lparr>t_code := fs\<rparr>)" by (rule get_thread_put [OF x(1)])
  consider j y where "f = ListAppend j y" | j where "f = AppendResult j" | j where "f = RemoveLoop j"
    | "\<forall>j y. f \<noteq> ListAppend j y \<and> f \<noteq> AppendResult j \<and> f \<noteq> RemoveLoop j" by (cases f) auto
  then show ?thesis
  proof cases
    case (1 j y)
    then show ?thesis using x(3) t i
      by (auto simp: list_append_def get_list_def List_Append_def appended_def removed_def nth_list_update split: if_splits elim!: rbindE)
  next
    case (2 j)
    then show ?thesis using x(3) t i g
      by (auto simp: append_result_def list_append_def get_list_def List_Append_def appended_def removed_def nth_list_update split: if_splits elim!: rbindE)
  next
    case (3 j)
    then have r: "remove_loop j ?k = Inr k'" using x(3) by simp
    show ?thesis
    proof (cases "sl_list (lists k ! j)")
      case Nil
      then show ?thesis using r t i 3 by (auto simp: remove_loop_def get_list_def appended_def removed_def split: if_splits elim!: rbindE dest!: push_lists)
    next
      case (Cons y ys)
      then show ?thesis using r t i 3
        by (auto simp: remove_loop_def get_list_def List_RemoveFront_def appended_def removed_def nth_list_update split: if_splits elim!: rbindE dest!: with_thread_lists)
    qed
  next
    case 4
    have "lists k' = lists k" using exec_frame_lists [OF x(3) 4] t(4) by simp
    moreover have "appended i k = []" "removed i k = []" using t(1) 4 by (cases f; simp add: appended_def removed_def)+
    ultimately show ?thesis by simp
  qed
qed

lemma removed_returned:
  assumes e: "kstep F k = Inr k'" and y: "removed i k = [y]" and i: "i < length (lists k)"
  shows "cur k' = cur k \<and> t_result (th k' (cur k)) = y"
proof -
  obtain ys where l: "top k = Some (RemoveLoop i)" "sl_list (lists k ! i) = y # ys"
    using y by (cases "sl_list (lists k ! i)") (auto simp: removed_def split: option.splits frame.splits if_splits)
  obtain x fs where x: "get_thread (cur k) k = Inr x" "remove_loop i (put_thread (cur k) (x\<lparr>t_code := fs\<rparr>) k) = Inr k'"
    using e l(1) by (auto simp: kstep_def top_def split: list.splits sum.splits elim!: rbindE)
  have "cur k < length (threads k)" using x(1) by (auto simp: get_thread_def split: if_splits)
  then show ?thesis using x(2) l(2) i
    by (auto simp: remove_loop_def get_list_def List_RemoveFront_def with_thread_def put_thread_def get_thread_def split: if_splits option.splits elim!: rbindE)
qed

text \<open>A thread that puts an item in and takes it out.\<close>

definition passes_on :: kst where
  "passes_on = two_threads\<lparr>pending := [], devs := [],
     threads := [Some \<lparr>t_status = RUNNING, t_code = [ListAppend 0 7, RemoveLoop 0, DoFinish], t_space = None, t_userRegisters = replicate 40 0, t_result = 0\<rparr>]\<rparr>"

section \<open>Properties\<close>



end
