(* ===== verification/Network.thy ===== *)
theory Network
  imports NList Bytes Complex_Main
begin

text \<open>
  The network (\<^verbatim>\<open>machine/network.cc\<close>) and the post office (\<^verbatim>\<open>network/post.cc\<close>) as far as the data goes: packets and mail messages as bytes,
  the one-packet buffer of the receiving device, the postal worker and the mailboxes.  When a call may be made is the matter of the thread
  system: \<^verbatim>\<open>sendLock\<close> and \<^verbatim>\<open>messageSent\<close> are used exactly as the lock and the semaphore of the disk, and a mailbox is a synchronized list.
  A datagram that the socket delivers is a list of bytes; \<^verbatim>\<open>RandomNumber\<close> is an argument, as is what a freshly allocated buffer holds.
\<close>

section \<open>Packets and messages\<close>

record PacketHeader =
  pk_to :: "32 word"
  pk_from :: "32 word"
  pk_length :: "32 word"

record MailHeader =
  ml_to :: "32 word"
  ml_from :: "32 word"
  ml_length :: "32 word"

definition MaxWireSize :: nat where "MaxWireSize = 64"
definition sizeof_PacketHeader :: nat where "sizeof_PacketHeader = 12"
definition sizeof_MailHeader :: nat where "sizeof_MailHeader = 12"
definition MaxPacketSize :: nat where "MaxPacketSize = MaxWireSize - sizeof_PacketHeader"
definition MaxMailSize :: nat where "MaxMailSize = MaxPacketSize - sizeof_MailHeader"

lemmas sizes = MaxWireSize_def sizeof_PacketHeader_def sizeof_MailHeader_def MaxPacketSize_def MaxMailSize_def

text \<open>\<^verbatim>\<open>*(PacketHeader *)buffer = hdr\<close> and back; the same for mail headers.\<close>

definition packet_bytes :: "PacketHeader \<Rightarrow> byte list" where
  "packet_bytes h = words_bytes [pk_to h, pk_from h, pk_length h]"

definition bytes_packet :: "byte list \<Rightarrow> PacketHeader" where
  "bytes_packet bs = (let ws = bytes_words (take sizeof_PacketHeader bs) in \<lparr>pk_to = ws ! 0, pk_from = ws ! 1, pk_length = ws ! 2\<rparr>)"

definition mail_bytes :: "MailHeader \<Rightarrow> byte list" where
  "mail_bytes h = words_bytes [ml_to h, ml_from h, ml_length h]"

definition bytes_mail :: "byte list \<Rightarrow> MailHeader" where
  "bytes_mail bs = (let ws = bytes_words (take sizeof_MailHeader bs) in \<lparr>ml_to = ws ! 0, ml_from = ws ! 1, ml_length = ws ! 2\<rparr>)"

text \<open>\<^verbatim>\<open>bcopy(src, dst + off, n)\<close>, within both arrays.\<close>

definition bcopy :: "byte list \<Rightarrow> nat \<Rightarrow> nat \<Rightarrow> byte list \<Rightarrow> (byte list) res" where
  "bcopy src n off dst = (if n \<le> length src \<and> off + n \<le> length dst then Inr (splice_at off (take n src) dst) else Inl BadIndex)"

section \<open>The network device\<close>

record netin =
  inHdr :: PacketHeader
  inbox :: "byte list"
  sock :: "byte list list"       \<comment> \<open>datagrams waiting in the socket\<close>

definition NetworkInput_new :: "PacketHeader \<Rightarrow> byte list \<Rightarrow> netin" where
  "NetworkInput_new h box = \<lparr>inHdr = h\<lparr>pk_length := 0\<rparr>, inbox = box, sock = []\<rparr>"

text \<open>
  The interrupt handler, after it has scheduled the next poll: the result says whether the post office is told.
  \<^verbatim>\<open>ReadFromSocket\<close> asserts that it got as much as a packet.
\<close>

definition NetworkInput_CallBack :: "32 word \<Rightarrow> netin \<Rightarrow> (bool \<times> netin) res" where
  "NetworkInput_CallBack hostName n =
     (if pk_length (inHdr n) \<noteq> 0 then Inr (False, n)
      else case sock n of
        [] \<Rightarrow> Inr (False, n)
      | datagram # rest \<Rightarrow>
          let buffer = take MaxWireSize datagram; hdr = bytes_packet buffer in
          rbind (assert (length buffer = MaxWireSize)) (\<lambda>_.
          rbind (assert (pk_to hdr = hostName \<and> unat (pk_length hdr) \<le> MaxPacketSize)) (\<lambda>_.
          rbind (bcopy (drop sizeof_PacketHeader buffer) (unat (pk_length hdr)) 0 (inbox n)) (\<lambda>ib.
          Inr (True, n\<lparr>inHdr := hdr, inbox := ib, sock := rest\<rparr>)))))"

definition NetworkInput_Receive :: "byte list \<Rightarrow> netin \<Rightarrow> (PacketHeader \<times> byte list \<times> netin) res" where
  "NetworkInput_Receive data n =
     (let hdr = inHdr n; n = n\<lparr>inHdr := (inHdr n)\<lparr>pk_length := 0\<rparr>\<rparr> in
      rbind (if pk_length hdr \<noteq> 0 then bcopy (inbox n) (unat (pk_length hdr)) 0 data else Inr data) (\<lambda>data.
      Inr (hdr, data, n)))"

record netout =
  sendBusy :: bool
  chanceToWork :: real

definition NetworkOutput_new :: "real \<Rightarrow> netout" where
  "NetworkOutput_new reliability =
     \<lparr>sendBusy = False, chanceToWork = (if reliability < 0 then 0 else if reliability > 1 then 1 else reliability)\<rparr>"

definition NetworkOutput_CallBack :: "netout \<Rightarrow> netout" where
  "NetworkOutput_CallBack n = n\<lparr>sendBusy := False\<rparr>"

text \<open>What goes to the socket of the receiver, if anything: every datagram has the full size, \<open>junk\<close> is the new buffer.\<close>

definition NetworkOutput_Send :: "32 word \<Rightarrow> nat \<Rightarrow> byte list \<Rightarrow> PacketHeader \<Rightarrow> byte list \<Rightarrow> netout \<Rightarrow> (byte list option) res" where
  "NetworkOutput_Send hostName rnd junk hdr data n =
     rbind (assert (\<not> sendBusy n \<and> pk_length hdr > 0 \<and> unat (pk_length hdr) \<le> MaxPacketSize \<and> pk_from hdr = hostName)) (\<lambda>_.
     if real (rnd mod 100) \<ge> chanceToWork n * 100 then Inr None
     else
       rbind (bcopy (packet_bytes hdr) sizeof_PacketHeader 0 junk) (\<lambda>buffer.
       rbind (bcopy data (unat (pk_length hdr)) sizeof_PacketHeader buffer) (\<lambda>buffer. Inr (Some buffer))))"

section \<open>The post office\<close>

record Mail =
  mail_addr :: nat       \<comment> \<open>which object: every message is a new one\<close>
  mail_pktHdr :: PacketHeader
  mail_mailHdr :: MailHeader
  mail_data :: "byte list"

definition Mail_new :: "nat \<Rightarrow> byte list \<Rightarrow> PacketHeader \<Rightarrow> MailHeader \<Rightarrow> byte list \<Rightarrow> Mail res" where
  "Mail_new addr junk pktH mailH msgData =
     rbind (assert (unat (ml_length mailH) \<le> MaxMailSize)) (\<lambda>_.
     rbind (bcopy msgData (unat (ml_length mailH)) 0 junk) (\<lambda>d.
     Inr \<lparr>mail_addr = addr, mail_pktHdr = pktH, mail_mailHdr = mailH, mail_data = d\<rparr>))"

type_synonym mailbox = "Mail list"

definition MailBox_Put :: "nat \<Rightarrow> byte list \<Rightarrow> PacketHeader \<Rightarrow> MailHeader \<Rightarrow> byte list \<Rightarrow> mailbox \<Rightarrow> mailbox res" where
  "MailBox_Put addr junk pktHdr mailHdr data b = rbind (Mail_new addr junk pktHdr mailHdr data) (List_Append b)"

text \<open>\<^verbatim>\<open>Get\<close> of an empty box waits: \<open>Blocked\<close>, when nothing arrives any more.\<close>

definition MailBox_Get :: "byte list \<Rightarrow> mailbox \<Rightarrow> (PacketHeader \<times> MailHeader \<times> byte list \<times> mailbox) res" where
  "MailBox_Get data b =
     (if b = [] then Inl Blocked
      else rbind (List_RemoveFront b) (\<lambda>(mail, b).
        rbind (bcopy (mail_data mail) (unat (ml_length (mail_mailHdr mail))) 0 data) (\<lambda>data.
        Inr (mail_pktHdr mail, mail_mailHdr mail, data, b))))"

record postin =
  boxes :: "mailbox list"
  network :: netin
  postbuf :: "byte list"      \<comment> \<open>the buffer of the postal worker, allocated once\<close>
  mails :: nat

definition PostOfficeInput_new :: "nat \<Rightarrow> netin \<Rightarrow> byte list \<Rightarrow> postin" where
  "PostOfficeInput_new nBoxes n buffer = \<lparr>boxes = replicate nBoxes [], network = n, postbuf = buffer, mails = 0\<rparr>"

text \<open>One turn of the postal worker's loop, after the semaphore has let it through.\<close>

definition PostalDelivery :: "byte list \<Rightarrow> postin \<Rightarrow> postin res" where
  "PostalDelivery junk po =
     rbind (NetworkInput_Receive (postbuf po) (network po)) (\<lambda>(pktHdr, buffer, n).
     let mailHdr = bytes_mail buffer; to = sint (ml_to mailHdr) in
     rbind (assert (0 \<le> to \<and> to < int (length (boxes po)))) (\<lambda>_.
     rbind (assert (unat (ml_length mailHdr) \<le> MaxMailSize)) (\<lambda>_.
     rbind (MailBox_Put (mails po) junk pktHdr mailHdr (drop sizeof_MailHeader buffer) (boxes po ! nat to)) (\<lambda>b.
     Inr (po\<lparr>boxes := (boxes po)[nat to := b], network := n, postbuf := buffer, mails := Suc (mails po)\<rparr>)))))"

definition PostOfficeInput_Receive :: "int \<Rightarrow> byte list \<Rightarrow> postin \<Rightarrow> (PacketHeader \<times> MailHeader \<times> byte list \<times> postin) res" where
  "PostOfficeInput_Receive box data po =
     rbind (assert (0 \<le> box \<and> box < int (length (boxes po)))) (\<lambda>_.
     rbind (MailBox_Get data (boxes po ! nat box)) (\<lambda>(pktHdr, mailHdr, data, b).
     rbind (assert (unat (ml_length mailHdr) \<le> MaxMailSize)) (\<lambda>_.
     Inr (pktHdr, mailHdr, data, po\<lparr>boxes := (boxes po)[nat box := b]\<rparr>))))"

text \<open>\<open>junk\<close> and \<open>wire\<close> are the new buffers of \<^verbatim>\<open>PostOfficeOutput::Send\<close> and of \<^verbatim>\<open>NetworkOutput::Send\<close>.\<close>

definition PostOfficeOutput_Send ::
    "32 word \<Rightarrow> nat \<Rightarrow> byte list \<Rightarrow> byte list \<Rightarrow> PacketHeader \<Rightarrow> MailHeader \<Rightarrow> byte list \<Rightarrow> netout \<Rightarrow> (byte list option) res" where
  "PostOfficeOutput_Send hostName rnd wire junk pktHdr mailHdr data n =
     rbind (assert (unat (ml_length mailHdr) \<le> MaxMailSize)) (\<lambda>_.
     rbind (assert (0 \<le> sint (ml_to mailHdr))) (\<lambda>_.
     let pktHdr = pktHdr\<lparr>pk_from := hostName, pk_length := ml_length mailHdr + of_nat sizeof_MailHeader\<rparr> in
     rbind (bcopy (mail_bytes mailHdr) sizeof_MailHeader 0 junk) (\<lambda>buffer.
     rbind (bcopy data (unat (ml_length mailHdr)) sizeof_MailHeader buffer) (\<lambda>buffer.
     NetworkOutput_Send hostName rnd wire pktHdr buffer n))))"

section \<open>Lemmas\<close>

lemma length_headers [simp]: "length (packet_bytes h) = 12" "length (mail_bytes g) = 12"
  by (simp_all add: packet_bytes_def mail_bytes_def)

lemma bytes_packet_app [simp]: "bytes_packet (packet_bytes h @ bs) = h"
  by (simp add: bytes_packet_def sizes) (simp add: packet_bytes_def)

lemma bytes_mail_app [simp]: "bytes_mail (mail_bytes h @ bs) = h"
  by (simp add: bytes_mail_def sizes) (simp add: mail_bytes_def)

text \<open>The datagram of a message.\<close>

lemma Send_wire:
  assumes m: "unat (ml_length mh) \<le> 40" "0 \<le> sint (ml_to mh)" "unat (ml_length mh) \<le> length d"
    and n: "\<not> sendBusy n" "real (rnd mod 100) < chanceToWork n * 100" and l: "length wire = 64" "length junk = 52"
  shows "\<exists>pad. PostOfficeOutput_Send a rnd wire junk ph mh d n =
    Inr (Some (packet_bytes (ph\<lparr>pk_from := a, pk_length := ml_length mh + 12\<rparr>) @ mail_bytes mh @ take (unat (ml_length mh)) d @ pad)) \<and>
    length pad + unat (ml_length mh) = 40"
proof -
  let ?k = "unat (ml_length mh)"
  let ?h = "ph\<lparr>pk_from := a, pk_length := ml_length mh + 12\<rparr>"
  have u: "unat (ml_length mh + 12) = ?k + 12" using m(1) unat_add_lem [of "ml_length mh" 12] by simp
  have b1: "bcopy (mail_bytes mh) 12 0 junk = Inr (mail_bytes mh @ drop 12 junk)" using l by (simp add: bcopy_def splice_at_def)
  have b2: "bcopy d ?k 12 (mail_bytes mh @ drop 12 junk) = Inr (mail_bytes mh @ take ?k d @ drop (12 + ?k) junk)"
    using m l by (simp add: bcopy_def splice_at_def add.commute)
  have b3: "bcopy (packet_bytes ?h) 12 0 wire = Inr (packet_bytes ?h @ drop 12 wire)" using l by (simp add: bcopy_def splice_at_def)
  have b4: "bcopy (mail_bytes mh @ take ?k d @ drop (12 + ?k) junk) (?k + 12) 12 (packet_bytes ?h @ drop 12 wire) =
      Inr (packet_bytes ?h @ mail_bytes mh @ take ?k d @ drop (24 + ?k) wire)"
    using m l by (simp add: bcopy_def splice_at_def add.commute)
  have g: "0 < ml_length mh + 12" using u by (metis add_gr_0 unat_gt_0 word_greater_zero_iff zero_less_numeral)
  show ?thesis using m l n b1 b2 b3 b4 u g
    by (intro exI [of _ "drop (24 + ?k) wire"]) (simp add: PostOfficeOutput_Send_def NetworkOutput_Send_def sizes)
qed

text \<open>Its arrival.\<close>

lemma arrival:
  assumes l: "unat (ml_length mh) \<le> 40" "pk_length h = ml_length mh + 12" "length d = unat (ml_length mh)" "length pad + length d = 40"
    and n: "pk_length (inHdr n) = 0" "sock n = (packet_bytes h @ mail_bytes mh @ d @ pad) # rest" "length (inbox n) = 52" "pk_to h = b"
    and po: "network po = n" "length (postbuf po) = 52" "0 \<le> sint (ml_to mh)" "sint (ml_to mh) < int (length (boxes po))" "length junk = 40"
    and f: "\<forall>m \<in> set (boxes po ! nat (sint (ml_to mh))). mail_addr m < mails po"
  shows "\<exists>n' po' m. NetworkInput_CallBack b n = Inr (True, n') \<and> PostalDelivery junk (po\<lparr>network := n'\<rparr>) = Inr po' \<and> sock (network po') = rest \<and>
    pk_length (inHdr (network po')) = 0 \<and> boxes po' = (boxes po)[nat (sint (ml_to mh)) := boxes po ! nat (sint (ml_to mh)) @ [m]] \<and>
    mail_pktHdr m = h \<and> mail_mailHdr m = mh \<and> take (length d) (mail_data m) = d \<and> length (mail_data m) = 40"
proof -
  let ?t = "nat (sint (ml_to mh))"
  let ?p = "mail_bytes mh @ d"
  have u: "unat (pk_length h) = length d + 12" using l unat_add_lem [of "ml_length mh" 12] by simp
  define n' where "n' = n\<lparr>inHdr := h, inbox := ?p @ drop (12 + length d) (inbox n), sock := rest\<rparr>"
  have cb: "NetworkInput_CallBack b n = Inr (True, n')"
    using n l u by (simp add: NetworkInput_CallBack_def sizes bcopy_def splice_at_def n'_def Let_def)
  have ne: "pk_length h \<noteq> 0" using u by (metis add_is_0 unat_eq_zero zero_neq_numeral)
  have rc: "NetworkInput_Receive (postbuf po) n' = Inr (h, ?p @ drop (12 + length d) (postbuf po), n'\<lparr>inHdr := h\<lparr>pk_length := 0\<rparr>\<rparr>)"
    using u ne n(3) po(2) l by (simp add: NetworkInput_Receive_def n'_def bcopy_def splice_at_def)
  let ?buf = "?p @ drop (12 + length d) (postbuf po)"
  define m where "m = \<lparr>mail_addr = mails po, mail_pktHdr = h, mail_mailHdr = mh, mail_data = d @ drop (length d) junk\<rparr>"
  have put: "MailBox_Put (mails po) junk h mh (d @ drop (12 + length d) (postbuf po)) (boxes po ! ?t) = Inr (boxes po ! ?t @ [m])"
    using l po(5) f by (auto simp: MailBox_Put_def Mail_new_def bcopy_def splice_at_def m_def List_Append_def sizes)
  have pd: "PostalDelivery junk (po\<lparr>network := n'\<rparr>) = Inr (po\<lparr>network := n', boxes := (boxes po)[?t := boxes po ! ?t @ [m]],
      network := n'\<lparr>inHdr := h\<lparr>pk_length := 0\<rparr>\<rparr>, postbuf := ?buf, mails := Suc (mails po)\<rparr>)"
    using rc put po(3,4) l by (simp add: PostalDelivery_def Let_def sizes)
  show ?thesis
    by (rule exI [of _ n'], rule exI, rule exI [of _ m], intro conjI, rule cb, rule pd) (use l po(5) in \<open>simp_all add: n'_def m_def\<close>)
qed

section \<open>Properties\<close>

definition quiet_office :: postin where
  "quiet_office = PostOfficeInput_new 10 (NetworkInput_new \<lparr>pk_to = 0, pk_from = 0, pk_length = 0\<rparr> (replicate 52 0)) (replicate 52 7)"

text \<open>
  C21. Mail arrives as it was sent: a message sent from machine \<open>a\<close> that the network does not lose is, once the receiving machine \<open>b\<close> has
  handled the interrupt and its postal worker has run, the newest message in the mailbox it is addressed to and in no other, and
  \<^verbatim>\<open>Receive\<close> on that mailbox gives the sender, the mail header and exactly the bytes that were sent.
\<close>

theorem mail_delivered:
  assumes m: "unat (ml_length mh) \<le> 40" "unat (ml_length mh) \<le> length d" "0 \<le> sint (ml_to mh)" "sint (ml_to mh) < int (length (boxes po))"
    and n: "\<not> sendBusy out" "real (rnd mod 100) < chanceToWork out * 100" "length wire = 64" "length junk = 52" "length junk' = 40"
    and po: "pk_length (inHdr (network po)) = 0" "sock (network po) = []" "length (inbox (network po)) = 52" "length (postbuf po) = 52"
      "boxes po ! nat (sint (ml_to mh)) = []" "length buf \<ge> 40"
  shows "\<exists>pkt n' po' data. PostOfficeOutput_Send a rnd wire junk ph mh d out = Inr (Some pkt) \<and>
    NetworkInput_CallBack (pk_to ph) ((network po)\<lparr>sock := [pkt]\<rparr>) = Inr (True, n') \<and>
    PostalDelivery junk' (po\<lparr>network := n'\<rparr>) = Inr po' \<and>
    (\<forall>i. i \<noteq> nat (sint (ml_to mh)) \<longrightarrow> boxes po' ! i = boxes po ! i) \<and>
    PostOfficeInput_Receive (sint (ml_to mh)) buf po' = Inr (ph\<lparr>pk_from := a, pk_length := ml_length mh + 12\<rparr>, mh, data, po'\<lparr>boxes := boxes po\<rparr>) \<and>
    take (unat (ml_length mh)) data = take (unat (ml_length mh)) d"
proof -
  let ?k = "unat (ml_length mh)" and ?t = "nat (sint (ml_to mh))"
  let ?h = "ph\<lparr>pk_from := a, pk_length := ml_length mh + 12\<rparr>"
  obtain pad where pad: "PostOfficeOutput_Send a rnd wire junk ph mh d out = Inr (Some (packet_bytes ?h @ mail_bytes mh @ take ?k d @ pad))" "length pad + ?k = 40"
    using Send_wire [OF m(1,3,2) n(1-4)] by blast
  let ?n = "(network po)\<lparr>sock := [packet_bytes ?h @ mail_bytes mh @ take ?k d @ pad]\<rparr>"
  obtain n' po' x where r: "NetworkInput_CallBack (pk_to ph) ?n = Inr (True, n')" "PostalDelivery junk' (po\<lparr>network := ?n\<rparr>\<lparr>network := n'\<rparr>) = Inr po'"
    "boxes po' = (boxes po)[?t := [x]]" "mail_pktHdr x = ?h" "mail_mailHdr x = mh" "take ?k (mail_data x) = take ?k d" "length (mail_data x) = 40"
    using arrival [of mh ?h "take ?k d" pad ?n "[]" "pk_to ph" "po\<lparr>network := ?n\<rparr>" junk'] m n(5) po pad(2) by auto
  have t: "?t < length (boxes po)" using m(3,4) by linarith
  let ?d = "splice_at 0 (take ?k (mail_data x)) buf"
  have "MailBox_Get buf [x] = Inr (?h, mh, ?d, [])" using r m(1) po(6) by (simp add: MailBox_Get_def List_RemoveFront_def bcopy_def)
  then have "PostOfficeInput_Receive (sint (ml_to mh)) buf po' = Inr (?h, mh, ?d, po'\<lparr>boxes := (boxes po)[?t := []]\<rparr>)"
    using r(3) m t by (simp add: PostOfficeInput_Receive_def sizes)
  moreover have "(boxes po)[?t := []] = boxes po" using po(5) t by (simp add: list_update_same_conv)
  moreover have "take ?k ?d = take ?k d" using r(6,7) m(1,2) by (simp add: splice_at_def)
  ultimately show ?thesis using pad(1) r(1-3)
    by (intro exI [of _ "packet_bytes ?h @ mail_bytes mh @ take ?k d @ pad"] exI [of _ n'] exI [of _ po'] exI [of _ ?d]) auto
qed

theorem mail_delivered_witness:
  "\<exists>pkt n' po' data. PostOfficeOutput_Send 1 42 (replicate 64 9) (replicate 52 9) \<lparr>pk_to = 2, pk_from = 0, pk_length = 0\<rparr> \<lparr>ml_to = 3, ml_from = 4, ml_length = 2\<rparr>
       [104, 105, 0] (NetworkOutput_new 1) = Inr (Some pkt) \<and>
     NetworkInput_CallBack 2 ((network quiet_office)\<lparr>sock := [pkt]\<rparr>) = Inr (True, n') \<and> PostalDelivery (replicate 40 0) (quiet_office\<lparr>network := n'\<rparr>) = Inr po' \<and>
     PostOfficeInput_Receive 3 (replicate 40 0) po' = Inr (\<lparr>pk_to = 2, pk_from = 1, pk_length = 14\<rparr>, \<lparr>ml_to = 3, ml_from = 4, ml_length = 2\<rparr>, data, po'\<lparr>boxes := replicate 10 []\<rparr>) \<and>
     take 2 data = [104, 105]"
proof -
  have q: "boxes quiet_office = replicate 10 []" "pk_length (inHdr (network quiet_office)) = 0" "sock (network quiet_office) = []"
    "length (inbox (network quiet_office)) = 52" "length (postbuf quiet_office) = 52"
    by (simp_all add: quiet_office_def PostOfficeInput_new_def NetworkInput_new_def)
  show ?thesis
    using mail_delivered [of "\<lparr>ml_to = 3, ml_from = 4, ml_length = 2\<rparr>" "[104, 105, 0]" quiet_office "NetworkOutput_new 1" 42 "replicate 64 9" "replicate 52 9"
        "replicate 40 0" "replicate 40 0" 1 "\<lparr>pk_to = 2, pk_from = 0, pk_length = 0\<rparr>"] q
    by (auto simp: NetworkOutput_new_def)
qed

text \<open>
  C40. The postal worker believes the length in the mail header and does not compare it with the length of the packet: a packet that carries
  nothing but a mail header announcing 40 bytes is delivered with 40 bytes of whatever the previous packet left in the worker's buffer.
\<close>

theorem short_packet_leaks:
  assumes "pk_length (inHdr (network po)) = 12" "inbox (network po) = mail_bytes mh @ pad" "ml_length mh = 40" "length junk = 40"
    and "0 \<le> sint (ml_to mh)" "sint (ml_to mh) < int (length (boxes po))" "postbuf po = old @ secret" "length old = 12" "length secret = 40"
    and "boxes po ! nat (sint (ml_to mh)) = []"
  shows "\<exists>po' m. PostalDelivery junk po = Inr po' \<and> boxes po' ! nat (sint (ml_to mh)) = [m] \<and> mail_data m = secret"
proof -
  let ?t = "nat (sint (ml_to mh))" and ?n = "(network po)\<lparr>inHdr := (inHdr (network po))\<lparr>pk_length := 0\<rparr>\<rparr>"
  have rc: "NetworkInput_Receive (postbuf po) (network po) = Inr (inHdr (network po), mail_bytes mh @ secret, ?n)"
    using assms by (simp add: NetworkInput_Receive_def bcopy_def splice_at_def Let_def)
  let ?m = "\<lparr>mail_addr = mails po, mail_pktHdr = inHdr (network po), mail_mailHdr = mh, mail_data = secret\<rparr>"
  have put: "MailBox_Put (mails po) junk (inHdr (network po)) mh secret (boxes po ! ?t) = Inr [?m]"
    using assms by (simp add: MailBox_Put_def Mail_new_def bcopy_def splice_at_def List_Append_def sizes)
  have t: "?t < length (boxes po)" using assms(5,6) by linarith
  have "PostalDelivery junk po = Inr (po\<lparr>boxes := (boxes po)[?t := [?m]], network := ?n, postbuf := mail_bytes mh @ secret, mails := Suc (mails po)\<rparr>)"
    using rc put assms(3,5,6) by (simp add: PostalDelivery_def Let_def sizes)
  then show ?thesis using t by simp
qed

theorem short_packet_leaks_witness:
  "\<exists>po' m. PostalDelivery (replicate 40 0) (quiet_office\<lparr>network := \<lparr>inHdr = \<lparr>pk_to = 2, pk_from = 1, pk_length = 12\<rparr>,
     inbox = mail_bytes \<lparr>ml_to = 3, ml_from = 4, ml_length = 40\<rparr> @ replicate 40 0, sock = []\<rparr>\<rparr>) = Inr po' \<and> boxes po' ! 3 = [m] \<and> mail_data m = replicate 40 7"
  using short_packet_leaks [of "quiet_office\<lparr>network := \<lparr>inHdr = \<lparr>pk_to = 2, pk_from = 1, pk_length = 12\<rparr>,
     inbox = mail_bytes \<lparr>ml_to = 3, ml_from = 4, ml_length = 40\<rparr> @ replicate 40 0, sock = []\<rparr>\<rparr>" "\<lparr>ml_to = 3, ml_from = 4, ml_length = 40\<rparr>" "replicate 40 0" "replicate 40 0" "replicate 12 7" "replicate 40 7"]
  by (auto simp: quiet_office_def PostOfficeInput_new_def replicate_add [symmetric])

end
