(* ===== verification/CopyPrint.thy ===== *)
theory CopyPrint
  imports FileSys AddrSpace
begin

text \<open>
  \<^verbatim>\<open>Copy\<close> and \<^verbatim>\<open>Print\<close> of \<^verbatim>\<open>threads/main.cc\<close>: a Unix file is copied to the Nachos disk, and a file of the Nachos
  disk is printed.  Both loop until a read returns nothing.  The loop of \<^verbatim>\<open>Copy\<close> ends only if the host's
  file does, so both loops are partial functions: \<open>None\<close> is a loop that never ends.
\<close>

section \<open>The two commands\<close>

definition TransferSize :: int where "TransferSize = 128"

text \<open>Sequencing of computations that may fail or not return.\<close>

definition obind :: "'a res option \<Rightarrow> ('a \<Rightarrow> 'b res option) \<Rightarrow> 'b res option" where
  "obind x g = (case x of None \<Rightarrow> None | Some (Inl e) \<Rightarrow> Some (Inl e) | Some (Inr a) \<Rightarrow> g a)"

lemma obind_simps [simp]:
  "obind None g = None" "obind (Some (Inl e)) g = Some (Inl e)" "obind (Some (Inr a)) g = g a"
  by (simp_all add: obind_def)

text \<open>\<^verbatim>\<open>while ((amountRead = ReadPartial(fd, buffer, TransferSize)) > 0) openFile->Write(buffer, amountRead);\<close>\<close>

partial_function (option) Copy_loop ::
  "'h unix \<Rightarrow> int \<Rightarrow> openfile \<Rightarrow> byte list \<Rightarrow> disk \<Rightarrow> 'h \<Rightarrow> (disk \<times> 'h) res option" where
  "Copy_loop U fd openFile buffer d h =
     (case ReadPartial U fd buffer TransferSize h of
        Inl e \<Rightarrow> Some (Inl e)
      | Inr (amountRead, buffer, h) \<Rightarrow>
          if amountRead > 0 then
            (case OpenFile_Write openFile buffer amountRead d of
               Inl e \<Rightarrow> Some (Inl e)
             | Inr (_, openFile, d) \<Rightarrow> Copy_loop U fd openFile buffer d h)
          else Some (Inr (d, h)))"

datatype copied = NoInput | NoOutput | Copied

definition Copy :: "'h unix \<Rightarrow> filesys \<Rightarrow> byte list \<Rightarrow> byte list \<Rightarrow> disk \<Rightarrow> 'h \<Rightarrow> (copied \<times> disk \<times> 'h) res option" where
  "Copy U fs from to d h =
     obind (Some (OpenForReadWrite U from False h)) (\<lambda>(fd, h).
     if fd < 0 then Some (Inr (NoInput, d, h))
     else
       obind (Some (Lseek U fd 0 2 h)) (\<lambda>h.
       let (fileLength, h) = Tell U fd h in
       obind (Some (Lseek U fd 0 0 h)) (\<lambda>h.
       obind (Some (FileSystem_Create fs to fileLength d)) (\<lambda>(created, d).
       if \<not> created then obind (Some (Close U fd h)) (\<lambda>(_, h). Some (Inr (NoOutput, d, h)))
       else
         obind (Some (FileSystem_Open fs to d)) (\<lambda>(r, d).
         case r of
           None \<Rightarrow> Some (Inl AssertFail)
         | Some openFile \<Rightarrow>
             obind (Copy_loop U fd openFile (fresh d (nat TransferSize)) d h) (\<lambda>(d, h).
             obind (Some (Close U fd h)) (\<lambda>(_, h). Some (Inr (Copied, d, h)))))))))"

text \<open>The characters printed so far are \<open>out\<close>.\<close>

partial_function (option) Print_loop :: "openfile \<Rightarrow> byte list \<Rightarrow> disk \<Rightarrow> (byte list \<times> disk) res option" where
  "Print_loop openFile out d =
     (case OpenFile_Read openFile TransferSize d of
        Inl e \<Rightarrow> Some (Inl e)
      | Inr ((amountRead, buffer), openFile, d) \<Rightarrow>
          if amountRead > 0 then Print_loop openFile (out @ take (nat amountRead) buffer) d
          else Some (Inr (out, d)))"

definition Print :: "filesys \<Rightarrow> byte list \<Rightarrow> disk \<Rightarrow> (byte list option \<times> disk) res option" where
  "Print fs nm d =
     obind (Some (FileSystem_Open fs nm d)) (\<lambda>(r, d).
     case r of
       None \<Rightarrow> Some (Inr (None, d))
     | Some openFile \<Rightarrow> obind (Print_loop openFile [] d) (\<lambda>(out, d). Some (Inr (Some out, d))))"

section \<open>The loops end\<close>

lemma TransferSize_128 [simp]: "TransferSize = 128"
  by (simp add: TransferSize_def)

lemma Read_ok:
  assumes "disk_ok d" "hdr_ok (hdr f)" "seekPosition f = int off" "off \<le> length (fdata d (hdr f))"
  defines "n \<equiv> min 128 (length (fdata d (hdr f)) - off)"
  shows "\<exists>d'. OpenFile_Read f 128 d = Inr ((int n, take n (drop off (fdata d (hdr f)))), f\<lparr>seekPosition := int (off + n)\<rparr>, d') \<and>
    disk_ok d' \<and> sect d' = sect d"
proof -
  have len: "int (length (fdata d (hdr f))) = numBytes (hdr f)" "numBytes (hdr f) \<le> 3840"
    using length_fdata [OF assms(1,2)] hdr_okD [OF assms(2)] by auto
  have x: "xfer (numBytes (hdr f)) 128 (int off) = int n"
    using assms(4) len by (auto simp: xfer_def n_def)
  have "in_int (int off + int n)" using assms(4) len by (auto simp: in_int_def n_def)
  moreover have "int off + 128 < 2147483648" using assms(4) len by linarith
  ultimately show ?thesis
    using ReadAt_ok [OF assms(1,2), of "int off" 128] assms(3) x by (auto simp: OpenFile_Read_def)
qed

lemma Print_loop_ok:
  assumes "disk_ok d" "hdr_ok (hdr f)" "seekPosition f = int off" "off \<le> length (fdata d (hdr f))"
  shows "\<exists>d'. Print_loop f out d = Some (Inr (out @ drop off (fdata d (hdr f)), d')) \<and> disk_ok d' \<and> sect d' = sect d"
  using assms
proof (induction "length (fdata d (hdr f)) - off" arbitrary: off f out d rule: less_induct)
  case less
  define n where "n = min 128 (length (fdata d (hdr f)) - off)"
  obtain d1 where d1: "OpenFile_Read f 128 d = Inr ((int n, take n (drop off (fdata d (hdr f)))), f\<lparr>seekPosition := int (off + n)\<rparr>, d1)"
      "disk_ok d1" "sect d1 = sect d"
    using Read_ok [OF less.prems] unfolding n_def by blast
  have same: "fdata d1 = fdata d" using same_sectors(1) [OF d1(3)] .
  show ?case
  proof (cases "n = 0")
    case True
    then have "drop off (fdata d (hdr f)) = []" by (auto simp: n_def)
    with True d1 show ?thesis by (subst Print_loop.simps) simp
  next
    case False
    let ?f = "f\<lparr>seekPosition := int (off + n)\<rparr>"
    let ?out = "out @ take n (drop off (fdata d (hdr f)))"
    have "Print_loop f out d = Print_loop ?f ?out d1"
      using False d1(1) by (subst Print_loop.simps) (simp add: n_def)
    moreover have "\<exists>d'. Print_loop ?f ?out d1 = Some (Inr (?out @ drop (off + n) (fdata d1 (hdr ?f)), d')) \<and> disk_ok d' \<and> sect d' = sect d1"
      using False less.prems(2,4) d1(2) by (intro less.hyps) (auto simp: same n_def)
    moreover have "take n (drop off (fdata d (hdr f))) @ drop (off + n) (fdata d (hdr f)) = drop off (fdata d (hdr f))"
      by (metis append_take_drop_id drop_drop add.commute)
    ultimately show ?thesis using d1(3) by (auto simp: same)
  qed
qed

text \<open>
  What \<^verbatim>\<open>lseek(2)\<close> promises for the other two values of \<^verbatim>\<open>whence\<close>: 2 moves to the end of the file, 1 with offset 0
  reports the offset.
\<close>

definition seeks :: "'h unix \<Rightarrow> int \<Rightarrow> byte list \<Rightarrow> (nat \<Rightarrow> 'h \<Rightarrow> bool) \<Rightarrow> bool" where
  "seeks U fd contents at \<longleftrightarrow>
     (\<forall>off h. at off h \<longrightarrow> (\<exists>h'. u_lseek U fd 0 2 h = (int (length contents), h') \<and> at (length contents) h')) \<and>
     (\<forall>off h. at off h \<longrightarrow> (\<exists>h'. u_lseek U fd 0 1 h = (int off, h') \<and> at off h'))"

lemma ReadPartial_serves:
  assumes s: "serves U fd contents at" and h: "at off h" and b: "length buf = 128"
  defines "data \<equiv> take 128 (drop off contents)"
  shows "\<exists>h'. ReadPartial U fd buf 128 h = Inr (int (length data), splice_at 0 data buf, h') \<and> at (off + length data) h'"
proof -
  have "\<exists>h'. u_read U fd 128 h = ((int (length data), data), h') \<and> at (off + length data) h'"
    using s h unfolding serves_def data_def by (metis nat_numeral zero_le_numeral)
  then show ?thesis using b by (auto simp: ReadPartial_def fill_def data_def)
qed

lemma splice_chunk:
  assumes "length c = length contents" "off \<le> length contents"
  shows "splice_at off (take n (drop off contents)) (take off contents @ drop off c) =
    take (off + length (take n (drop off contents))) contents @ drop (off + length (take n (drop off contents))) c"
proof -
  define m where "m = min n (length contents - off)"
  have t: "take n (drop off contents) = take m (drop off contents)" by (auto simp: m_def min_def)
  show ?thesis unfolding t using assms
    by (auto simp: splice_at_def take_add m_def min_def)
qed

lemma Copy_loop_ok:
  assumes U: "serves U fd contents at" and small: "length contents \<le> 3840" and c: "length c = length contents"
    and "fs_ok fs d" "dmap (dir_of fs d) k = Some s" "hdr f = hdr_at d s" "seekPosition f = int off" "off \<le> length contents"
      "at off h" "length buf = 128" "fdata d (hdr_at d s) = take off contents @ drop off c"
  shows "\<exists>d' h'. Copy_loop U fd f buf d h = Some (Inr (d', h')) \<and> fs_ok fs d' \<and> at (length contents) h' \<and>
    files fs d' = (files fs d)(k \<mapsto> contents)"
  using assms(4-)
proof (induction "length contents - off" arbitrary: off f buf d h rule: less_induct)
  case less
  define data where "data = take 128 (drop off contents)"
  obtain h1 where h1: "ReadPartial U fd buf 128 h = Inr (int (length data), splice_at 0 data buf, h1)" "at (off + length data) h1"
    using ReadPartial_serves [OF U less.prems(6,7)] unfolding data_def by blast
  show ?case
  proof (cases "data = []")
    case True
    then have "off = length contents" using less.prems(5) by (auto simp: data_def)
    with True h1 less.prems c show ?thesis
      by (subst Copy_loop.simps) (auto simp: files_def fun_eq_iff)
  next
    case False
    let ?buf = "splice_at 0 data buf" and ?f = "f\<lparr>seekPosition := int (off + length data)\<rparr>"
    have dl: "length data \<le> 128" "off + length data \<le> length contents" "off < length contents"
      using less.prems(5) False by (auto simp: data_def)
    have buf: "length ?buf = 128" "take (length data) ?buf = data" using less.prems(7) dl by (simp_all add: splice_at_def)
    have fk: "file_ok fs d s" using fs_okD(4) [OF less.prems(1,2)] .
    have nb: "numBytes (hdr_at d s) = int (length contents)"
      using length_fdata [OF fs_okD(3) [OF less.prems(1)], of "hdr_at d s"] fk less.prems(5,8) c hdr_okD(1) [of "hdr_at d s"]
      by (auto simp: file_ok_def)
    have x: "xfer (numBytes (hdr f)) (int (length data)) (int off) = int (length data)"
      using False dl by (auto simp: xfer_def less.prems(3) nb)
    obtain d1 where d1: "OpenFile_WriteAt f ?buf (int (length data)) (int off) d = Inr (int (length data), d1)" "fs_ok fs d1"
        "dir_of fs d1 = dir_of fs d" "hdr_at d1 s = hdr_at d s"
        "files fs d1 = (files fs d)(k \<mapsto> splice_at off data (fdata d (hdr_at d s)))"
      using write_file [OF less.prems(1-3), of "int off" "int (length data)" ?buf] dl small buf x by auto
    have "in_int (int off + int (length data))" using dl small by (simp add: in_int_def)
    with d1(1) have w: "OpenFile_Write f ?buf (int (length data)) d = Inr (int (length data), ?f, d1)"
      by (simp add: OpenFile_Write_def less.prems(4))
    have step: "Copy_loop U fd f buf d h = Copy_loop U fd ?f ?buf d1 h1"
      using h1(1) w False by (subst Copy_loop.simps) simp
    have fd: "fdata d1 (hdr_at d1 s) = take (off + length data) contents @ drop (off + length data) c"
      using d1(5,3) less.prems(2,5,8) splice_chunk [OF c, of off 128] by (auto simp: files_def fun_eq_iff data_def dest: spec [of _ k])
    have less: "length contents - (off + length data) < length contents - off" using dl False by (cases data) auto
    have "\<exists>d' h'. Copy_loop U fd ?f ?buf d1 h1 = Some (Inr (d', h')) \<and> fs_ok fs d' \<and> at (length contents) h' \<and>
        files fs d' = (files fs d1)(k \<mapsto> contents)"
      using less dl less.prems(2,3) d1(2-4) h1(2) buf(1) fd by (intro less.hyps) simp_all
    then show ?thesis using step d1(5) by auto
  qed
qed

section \<open>The commands\<close>

lemma Print_ok:
  assumes ok: "fs_ok fs d"
  shows "\<exists>d'. Print fs nm d = Some (Inr (files fs d (key nm), d')) \<and> fs_ok fs d' \<and> files fs d' = files fs d"
proof -
  obtain r d1 where d1: "FileSystem_Open fs nm d = Inr (r, d1)" "disk_ok d1" "sect d1 = sect d"
      "r = map_option (\<lambda>s. \<lparr>hdr = hdr_at d s, seekPosition = 0\<rparr>) (dmap (dir_of fs d) (key nm))"
    using Open_ok [OF ok, of nm] by auto
  show ?thesis
  proof (cases "dmap (dir_of fs d) (key nm)")
    case None
    with d1 ok same_sectors(6,7) [OF d1(3)] show ?thesis by (simp add: Print_def files_def)
  next
    case (Some s)
    let ?f = "\<lparr>hdr = hdr_at d s, seekPosition = 0\<rparr>"
    have "hdr_ok (hdr ?f)" using fs_okD(4) [OF ok Some] by (simp add: file_ok_def)
    then obtain d2 where d2: "Print_loop ?f [] d1 = Some (Inr (fdata d1 (hdr_at d s), d2))" "disk_ok d2" "sect d2 = sect d1"
      using Print_loop_ok [OF d1(2), of ?f 0 "[]"] by auto
    have "sect d2 = sect d" using d2(3) d1(3) by simp
    note S = same_sectors [OF this] and S1 = same_sectors(1) [OF d1(3)]
    from Some d1(1,4) d2(1,2) S(6,7) S1 ok show ?thesis by (simp add: Print_def files_def)
  qed
qed

lemma Copy_ok:
  assumes ok: "fs_ok fs d" and op: "u_open U from O_RDWR h = (fd, h0)" "0 \<le> fd" "at 0 h0"
    and U: "serves U fd contents at" "seeks U fd contents at" and small: "length contents \<le> 3840"
  shows "\<exists>r d' h'. Copy U fs from to d h = Some (Inr (r, d', h')) \<and> fs_ok fs d' \<and>
    (if room_for fs d to (int (length contents))
     then r = Copied \<and> files fs d' = (files fs d)(key to \<mapsto> contents)
     else r = NoOutput \<and> files fs d' = files fs d)"
proof -
  obtain h1 where h1: "u_lseek U fd 0 2 h0 = (int (length contents), h1)" "at (length contents) h1"
    using U(2) op(3) unfolding seeks_def by blast
  obtain h2 where h2: "u_lseek U fd 0 1 h1 = (int (length contents), h2)" "at (length contents) h2"
    using U(2) h1(2) unfolding seeks_def by blast
  obtain h3 where h3: "u_lseek U fd 0 0 h2 = (0, h3)" "at 0 h3"
    using U(1) h2(2) unfolding serves_def by (metis nat_0 order_refl zero_le_numeral)
  have close: "\<exists>h'. Close U fd h = Inr (0, h')" if "at off h" for off h
    using U(1) that unfolding serves_def Close_def by fastforce
  obtain b d1 where d1: "FileSystem_Create fs to (int (length contents)) d = Inr (b, d1)" "fs_ok fs d1"
      "b \<longleftrightarrow> room_for fs d to (int (length contents))"
      "if b then \<exists>c. length c = length contents \<and> files fs d1 = (files fs d)(key to \<mapsto> c) else files fs d1 = files fs d"
    using st.create_law [OF ok, of "int (length contents)" to] small unfolding nat_int by (metis of_nat_0_le_iff of_nat_le_iff of_nat_numeral)
  note pre = op(1,2) h1(1) h2(1) h3(1) d1(1)
  note unfold = Copy_def OpenForReadWrite_def Lseek_def Tell_def
  show ?thesis
  proof (cases b)
    case False
    then show ?thesis using close [OF h3(2)] pre d1 by (auto simp: unfold)
  next
    case True
    then obtain c where c: "length c = length contents" "files fs d1 = (files fs d)(key to \<mapsto> c)" using d1(4) by auto
    then obtain s where s: "dmap (dir_of fs d1) (key to) = Some s" "fdata d1 (hdr_at d1 s) = c"
      by (auto simp: files_def fun_eq_iff dest!: spec [of _ "key to"])
    let ?f = "\<lparr>hdr = hdr_at d1 s, seekPosition = 0\<rparr>"
    obtain d2 where d2: "FileSystem_Open fs to d1 = Inr (Some ?f, d2)" "disk_ok d2" "sect d2 = sect d1"
      using Open_ok [OF d1(2), of to] s(1) by auto
    note S = same_sectors [OF d2(3)]
    have ok2: "fs_ok fs d2" using S(7) [OF d2(2) d1(2)] .
    have "length (fresh d2 128) = 128" using d2(2) by (simp add: disk_ok_def)
    then obtain d3 h4 where d3: "Copy_loop U fd ?f (fresh d2 128) d2 h3 = Some (Inr (d3, h4))" "fs_ok fs d3"
        "at (length contents) h4" "files fs d3 = (files fs d2)(key to \<mapsto> contents)"
      using Copy_loop_ok [OF U(1) small c(1) ok2, of "key to" s ?f 0 h3 "fresh d2 128"] s h3(2) by (auto simp: S)
    have "files fs d3 = (files fs d)(key to \<mapsto> contents)" using d3(4) c(2) S(6) by (auto simp: fun_eq_iff)
    then show ?thesis using True pre d1(3) d2(1) d3(1,2) close [OF d3(3)] by (auto simp: unfold)
  qed
qed

text \<open>A host with one regular file.\<close>

definition seek_host :: "byte list \<Rightarrow> nat unix" where
  "seek_host c = (example_host c)\<lparr>u_lseek := \<lambda>fd pos w h.
     let p = nat pos + (if w = 2 then length c else if w = 1 then h else 0) in (int p, p)\<rparr>"

lemma seek_host_ok: "serves (seek_host c) 3 c (=)" "seeks (seek_host c) 3 c (=)"
  by (auto simp: serves_def seeks_def seek_host_def example_host_def)

end
