(* ===== verification/SelfTests.thy ===== *)
theory SelfTests
  imports Kernel Bitmap
begin

text \<open>
  The kernel's tests of itself: \<^verbatim>\<open>LibSelfTest\<close> (\<^verbatim>\<open>lib/libtest.cc\<close>) and \<^verbatim>\<open>Kernel::ThreadSelfTest\<close> with the self tests of
  \<^verbatim>\<open>threads/thread.cc\<close>, \<^verbatim>\<open>synch.cc\<close> and \<^verbatim>\<open>synchlist.cc\<close>, which main runs after start-up.  The latter are programs for the frame
  machine of theory \<open>Threads\<close>.
\<close>

section \<open>The library\<close>

definition LibSelfTest :: "unit res" where
  "LibSelfTest =
     rbind (Bitmap_new 200) (\<lambda>map.
     rbind (Bitmap_SelfTest map) (\<lambda>_.
     rbind (PList_SelfTest PList_Append PList_SanityCheck listTestVector 3 PList_new) (\<lambda>_.
     rbind (PSorted_SelfTest IntCompare listTestVector 3 PList_new) (\<lambda>_.
     rbind (HashTable_SelfTest hashTestVector 15 (HashTable_new HashKey HashInt)) (\<lambda>_. Inr ())))))"

text \<open>
  \<^verbatim>\<open>LibSelfTest\<close> passes: the self tests of the bitmap, the list, the sorted list and the hash table go through without a failing
  assertion, a pointer walk that does not end, or a dangling cell.
\<close>

theorem LibSelfTest_passes: "LibSelfTest = Inr ()"
proof -
  obtain b where b: "rbind (Bitmap_new 200) Bitmap_SelfTest = Inr b" using Bitmap_SelfTest_passes [of 200] by auto
  then obtain b0 where b0: "Bitmap_new 200 = Inr b0" "Bitmap_SelfTest b0 = Inr b" by (auto elim!: rbindE)
  have v: "distinct listTestVector" "int (length listTestVector) = 3" by (simp_all add: listTestVector_def)
  obtain l l' where "PList_SelfTest PList_Append PList_SanityCheck listTestVector 3 PList_new = Inr l"
    "PSorted_SelfTest IntCompare listTestVector 3 PList_new = Inr l'" using List_SelfTests_pass [OF v(1)] v(2) by auto
  moreover obtain h where "HashTable_SelfTest hashTestVector 15 (HashTable_new HashKey HashInt) = Inr h" using hashTestVector_passes by blast
  ultimately show ?thesis using b0 by (simp add: LibSelfTest_def)
qed

section \<open>Threads, semaphores and synchronized lists\<close>

text \<open>
  The loops have constant bounds and are written out.  A forked function is named by a number; \<open>ping\<close>, \<open>pong\<close> and
  \<open>this\<close> are the numbers of semaphores or lists.
\<close>

definition SimpleThread :: "frame list" where
  "SimpleThread = concat (replicate 5 [DoYield])"

definition Thread_SelfTest :: "nat \<Rightarrow> frame list" where
  "Thread_SelfTest f = [DoFork f, DoYield] @ SimpleThread"

definition Semaphore_SelfTestHelper :: "nat \<Rightarrow> nat \<Rightarrow> frame list" where
  "Semaphore_SelfTestHelper ping pong = concat (replicate 10 [DoP ping, DoV pong])"

definition Semaphore_SelfTest :: "nat \<Rightarrow> nat \<Rightarrow> nat \<Rightarrow> frame list" where
  "Semaphore_SelfTest helper ping this = DoFork helper # concat (replicate 10 [DoV ping, DoP this])"

definition SynchList_SelfTestHelper :: "nat \<Rightarrow> synchlist \<Rightarrow> nat \<Rightarrow> synchlist \<Rightarrow> frame list" where
  "SynchList_SelfTestHelper ping p this x =
     concat (replicate 10 (SynchList_RemoveFront p ping @ SynchList_AppendResult x this))"

definition SynchList_SelfTest :: "nat \<Rightarrow> int \<Rightarrow> nat \<Rightarrow> synchlist \<Rightarrow> nat \<Rightarrow> synchlist \<Rightarrow> frame list" where
  "SynchList_SelfTest helper val ping p this x =
     DoFork helper # concat (replicate 10 (SynchList_Append p ping val @ SynchList_RemoveFront x this @ [AssertResult val]))"

definition forked :: "nat \<Rightarrow> nat \<Rightarrow> nat \<Rightarrow> synchlist \<Rightarrow> nat \<Rightarrow> synchlist \<Rightarrow> nat \<Rightarrow> frame list" where
  "forked ping semaphore selfTestPing p synchList x f =
     (if f = 0 then SimpleThread
      else if f = 1 then Semaphore_SelfTestHelper ping semaphore
      else SynchList_SelfTestHelper selfTestPing p synchList x)"

text \<open>
  \<^verbatim>\<open>ThreadSelfTest\<close> puts its calls on the stack of the running thread; the second component of the result are the functions it
  forks.  Nothing else uses the semaphores and lists it makes, so the model makes them at the beginning.
\<close>

definition ThreadSelfTest :: "kst \<Rightarrow> (kst \<times> (nat \<Rightarrow> frame list)) res" where
  "ThreadSelfTest k =
     rbind LibSelfTest (\<lambda>_.
     let (semaphore, k) = Semaphore_new 0 k; (ping, k) = Semaphore_new 0 k;
         (synchList, k) = SynchList_new k; (selfTestPing, k) = SynchList_new k in
     rbind (get_sem semaphore k) (\<lambda>s.
     rbind (assert (s_value s = 0)) (\<lambda>_.
     rbind (get_list synchList k) (\<lambda>x.
     rbind (assert (sl_list x = [])) (\<lambda>_.
     rbind (get_list selfTestPing k) (\<lambda>p.
     rbind (push (Thread_SelfTest 0 @ Semaphore_SelfTest 1 ping semaphore @ SynchList_SelfTest 2 9 selfTestPing p synchList x) k) (\<lambda>k.
     Inr (k, forked ping semaphore selfTestPing p synchList x))))))))"

section \<open>Running them\<close>

primrec ksteps :: "(nat \<Rightarrow> frame list) \<Rightarrow> nat \<Rightarrow> kst \<Rightarrow> kst res" where
  "ksteps F 0 k = Inr k"
| "ksteps F (Suc n) k = rbind (kstep F k) (ksteps F n)"

definition idle_machine :: machine where
  "idle_machine = \<lparr>registers = replicate 40 0, mainMemory = [], tlb = None, pageTable = None, pageTableSize = 0,
     singleStep = False, runUntilTime = 0\<rparr>"

text \<open>The kernel after start-up, and with the objects and the calls of the tests.\<close>

definition booted :: "frame list \<Rightarrow> kst" where
  "booted body = (started False idle_machine body (\<lambda>_. 0) [] 100 0)\<lparr>level := IntOn, now := 10, systemTicks := 10\<rparr>"

lemma Initialize_booted: "Kernel_Initialize False idle_machine body (\<lambda>_. 0) [] blank = Inr (booted body)"
  by (simp add: Initialize_eq Interrupt_SetLevel_def Interrupt_OneTick_def Interrupt_CheckIfDue_def booted_def started_def
    SystemTick_def Let_def)

definition test_list :: "nat \<Rightarrow> nat \<Rightarrow> synchlist" where
  "test_list l c = \<lparr>sl_list = [], sl_lock = l, sl_cond = c\<rparr>"

definition testing :: kst where
  "testing = (let k = booted (Thread_SelfTest 0 @ Semaphore_SelfTest 1 7 6 @ SynchList_SelfTest 2 9 1 (test_list 4 1) 0 (test_list 3 0) @ [DoFinish]) in
     k\<lparr>sems := sems k @ map (\<lambda>v. \<lparr>s_value = v, s_queue = []\<rparr>) [0, 0, 1, 1],
       locks := locks k @ map (\<lambda>s. \<lparr>lockHolder = None, l_semaphore = s\<rparr>) [8, 9], conds := [[], []],
       lists := [test_list 3 0, test_list 4 1]\<rparr>)"

lemma ThreadSelfTest_testing: "ThreadSelfTest (booted [DoFinish]) = Inr (testing, forked 7 6 1 (test_list 4 1) 0 (test_list 3 0))"
  by (simp add: ThreadSelfTest_def LibSelfTest_passes booted_def started_def testing_def test_list_def Semaphore_new_def SynchList_new_def
    Lock_new_def Condition_new_def get_sem_def get_list_def push_def with_thread_def get_thread_def put_thread_def Let_def
    numeral_nat del: upt_Suc)

definition tests_done :: "kst res \<Rightarrow> bool" where
  "tests_done r = (case r of
     Inl e \<Rightarrow> False
   | Inr k \<Rightarrow> map (map_option t_code) (take 3 (threads k)) = [Some [DoFinish], None, None] \<and>
       map sl_list (lists k) = [[], []] \<and> map lockHolder (locks k) = replicate 5 None)"

lemma tests_run: "tests_done (ksteps (forked 7 6 1 (test_list 4 1) 0 (test_list 3 0)) 921 testing)"
  by code_simp


end
