(* ===== verification/Spec2Isabelle.thy ===== *)
theory Spec2Isabelle
  imports HashTable FileSys Disasm AddrSpace UserBoot SynchFifo Network CopyPrint SelfTests
begin

text \<open>
  Nachos is a teaching operating system that runs as one Unix process: a simulated MIPS machine with a console, a disk, a timer and a network,
  and on top of it a kernel with threads, synchronization, a file system, user programs and system calls.  This development models the C++ code
  under \<^verbatim>\<open>src/code\<close> and proves what makes it correct; where the code does not do what it means to, the theorem says what it does.

  \<^bold>\<open>Conventions.\<close>  Every operation is a function in the fault monad of \<open>Prelude\<close>: \<open>Inl\<close> is what stops the process (a failed \<^verbatim>\<open>ASSERT\<close>, an index outside
  an array, a null pointer, a signed overflow that the code would trip over, a wait that nobody ends), \<open>Inr\<close> the result with the new state.  The names are those of the source, \<open>Class_Method\<close>.
  Registers, memory words, packet fields and bitmap words are \<open>32 word\<close> and wrap; C++ \<^verbatim>\<open>int\<close> quantities that index or count are \<open>int\<close>, checked for overflow with \<open>chk\<close> where a
  caller can make them overflow.  The clock is an unbounded integer.  Loops are \<open>for_range\<close> and \<open>search\<close> of \<open>Prelude\<close>, recursion with a termination proof, partial functions where the code may not return, or, for walks over linked
  cells, recursion with the number of cells as fuel, which is enough on every well-formed list (running out of it is the fault \<open>OutOfFuel\<close>, excluded by the theorems).
  Uninitialised memory, Unix calls, random numbers, typed keys and arriving datagrams are arguments.

  \<^bold>\<open>Library\<close> (\<^verbatim>\<open>lib/\<close>).  \<open>Prelude\<close>: faults, checked arrays, loops, simulation of contracts.  \<open>Bytes\<close>: integers in memory.  \<open>Bitmap\<close>: the packed bitmap acts as a set of bits and finds the lowest clear one.
  \<open>NList\<close>: the linked and the sorted list at the level of cells and pointers, refined to the list contract \<open>List_*\<close> on HOL lists that the rest of the kernel uses.
  \<open>HashTable\<close>: the hash table with resizing acts as a finite map.  

  \<^bold>\<open>Disk and files\<close> (\<^verbatim>\<open>machine/disk.cc\<close>, \<^verbatim>\<open>filesys/\<close>).  \<open>Disk\<close>: the device and \<^verbatim>\<open>SynchDisk\<close> as one thread sees it.  \<open>OpenFile\<close>: file headers and open files; reads return and writes replace exactly the bytes asked for
  although the disk works in sectors.  \<open>Directory\<close>: the table acts as a map from names.  \<open>FileSys\<close>: create, open, remove; the files are a map from names to contents that survives any sequence of operations and a reboot.
  \<open>CopyPrint\<close>: the commands \<^verbatim>\<open>Copy\<close> and \<^verbatim>\<open>Print\<close> of \<^verbatim>\<open>threads/main.cc\<close>, whose loops are partial functions; below, a file copied in is printed as it was.
  \<open>Host\<close>: the \<^verbatim>\<open>FILESYS_STUB\<close> variants over Unix files, which the user programs' build uses.

  \<^bold>\<open>Machine and user programs\<close> (\<^verbatim>\<open>machine/machine.cc\<close>, \<^verbatim>\<open>translate.cc\<close>, \<^verbatim>\<open>mipssim.cc\<close>, \<^verbatim>\<open>userprog/\<close>).  \<open>Machine\<close>: registers, memory, page tables, translation.  \<open>MipsSim\<close>: decoding and every instruction; no
  instruction reaches outside the machine, arithmetic is exact.  \<open>Disasm\<close>: the trace output.  \<open>AddrSpace\<close>: loading a program and its page table.  \<open>Syscall\<close>: the exception handler with all its system calls.
  \<open>UserProg\<close>: programs, handler and kernel together: copying in and out of user memory is faithful, and a program touches only the memory mapped for it.

  \<^bold>\<open>Threads\<close> (\<^verbatim>\<open>threads/\<close>, \<^verbatim>\<open>machine/interrupt.cc\<close>, \<^verbatim>\<open>timer.cc\<close>, \<^verbatim>\<open>console.cc\<close>).  \<open>Threads\<close>: the whole thread system as a machine of activation frames: \<open>kstep\<close> runs the running thread from one point at which a call
  can be suspended to the next, interrupt handlers run inside \<open>Interrupt_CheckIfDue\<close>.  The state \<open>kst\<close> holds the interrupt simulation, the ready list, all threads with their stacks, and all semaphores, locks, conditions,
  synchronized lists and devices.  After \<^verbatim>\<open>Halt\<close> the process is gone; \<open>kstep\<close> says nothing about it, the theorems on runs hold of every prefix.  \<open>ThreadsInv\<close>: the invariant \<open>kinv\<close> and the handlers.  \<open>ThreadsStep\<close>: every step keeps it.
  \<open>ThreadRuns\<close>: safety of all runs, first-come-first-served dispatching, exactly-once interrupts, what a switch saves and restores.  \<open>ThreadsLock\<close>: mutual exclusion.  \<open>Wakeups\<close>: semaphores lose no thread and no wake-up.  \<open>SynchFifo\<close>: synchronized lists pass every item on once, in order.  \<open>Kernel\<close>: start-up establishes the invariants; the command line.
  \<open>Multi\<close>: threads that run user programs, instruction by instruction, under interrupts and preemption: programs stay contained, and one that was preempted finds registers, translation and memory as it left them.
  \<open>UserBoot\<close>: from start-up to the user program that \<^verbatim>\<open>main\<close> loads and executes, and all its runs.
  \<open>SelfTests\<close>: the self tests of the library, of threads, semaphores and synchronized lists, run on the model from start-up to the end (921 steps; the number is where the main thread is done).
  \<open>Network\<close> (\<^verbatim>\<open>machine/network.cc\<close>, \<^verbatim>\<open>network/post.cc\<close>): packets, mail and mailboxes.

  \<^bold>\<open>Interfaces\<close> are locales, interpreted on the definitions of the component that provides them: comparators of sorted lists, list-like containers with a self test, bitmaps as sets, directories and file systems as maps, user memory for the system calls, policies for the address spaces of threads.

  \<^bold>\<open>Not modelled.\<close>  \<^verbatim>\<open>switch.s\<close> and \<^verbatim>\<open>switch.h\<close> (assembly: \<^verbatim>\<open>SWITCH\<close> is the change of the running thread in \<open>Scheduler_Run\<close>), stack fenceposts and allocation of stacks, destructors that only free memory, debugging output, statistics printing and the interactive
  debugger, system calls that wait for the console in the middle of a preemptive run (\<open>Multi\<close>; \<open>Syscall\<close> and \<open>UserProg\<close> have them), Unix itself (sockets, files, signals: arguments with their documented behaviour), the variants for other processors, the postal worker as a thread of \<open>Threads\<close> (its data is in \<open>Network\<close>), and the test programs in \<^verbatim>\<open>test/\<close>, which are not kernel code.
\<close>

section \<open>Copying in and printing out\<close>

text \<open>
  C20. Copying a Unix file to the Nachos disk and printing it: for a regular file that fits a Nachos file, both
  loops end, whatever the file system holds.  \<^verbatim>\<open>Copy\<close> succeeds exactly when there is room; then the new
  file has the contents of the Unix file, no other file changes, and \<^verbatim>\<open>Print\<close> prints exactly those bytes; otherwise
  nothing changes.  The file system stays sound.
\<close>

theorem Copy_then_Print:
  assumes "fs_ok fs d" "u_open U from O_RDWR h = (fd, h0)" "0 \<le> fd" "offs 0 h0"
    "serves U fd bytes offs" "seeks U fd bytes offs" "int (length bytes) \<le> MaxFileSize"
  shows "\<exists>r d1 h1 p d2. Copy U fs from to d h = Some (Inr (r, d1, h1)) \<and> Print fs to d1 = Some (Inr (p, d2)) \<and>
    fs_ok fs d2 \<and> files fs d2 = files fs d1 \<and>
    (if room_for fs d to (int (length bytes))
     then r = Copied \<and> p = Some bytes \<and> files fs d1 = (files fs d)(key to \<mapsto> bytes)
     else r = NoOutput \<and> p = files fs d (key to) \<and> files fs d1 = files fs d)"
proof -
  have "length bytes \<le> 3840" using assms(7) by (simp add: MaxFileSize_def NumDirect_def geometry)
  from Copy_ok [OF assms(1-6) this, of to] obtain r d1 h1 where
    c: "Copy U fs from to d h = Some (Inr (r, d1, h1))" "fs_ok fs d1"
      "if room_for fs d to (int (length bytes)) then r = Copied \<and> files fs d1 = (files fs d)(key to \<mapsto> bytes)
       else r = NoOutput \<and> files fs d1 = files fs d" by blast
  obtain d2 where "Print fs to d1 = Some (Inr (files fs d1 (key to), d2))" "fs_ok fs d2" "files fs d2 = files fs d1"
    using Print_ok [OF c(2), of to] by blast
  with c show ?thesis by (auto split: if_splits)
qed

theorem Copy_then_Print_witness:
  "\<exists>d fs d0 r d1 h1 d2. Disk_new None 0 (\<lambda>n. replicate n 0) = Inr d \<and> FileSystem_attach True d = Inr (fs, d0) \<and>
     Copy (seek_host [1, 2, 3]) fs [97] [98] d0 0 = Some (Inr (r, d1, h1)) \<and> r = Copied \<and>
     Print fs [98] d1 = Some (Inr (Some [1, 2, 3], d2))"
proof -
  obtain d fs d0 where e: "Disk_new None 0 (\<lambda>n. replicate n 0) = Inr d" "FileSystem_attach True d = Inr (fs, d0)"
    "fs_ok fs d0" "files fs d0 = Map.empty" using example_fs by blast
  have op: "u_open (seek_host [1, 2, 3]) [97] O_RDWR 0 = (3, 0)" by (simp add: seek_host_def example_host_def)
  have "room_for fs d0 [98] 3" using empty_room [OF e(3,4)] by simp
  with Copy_then_Print [OF e(3) op _ refl seek_host_ok, of "[98]"] e(1,2) show ?thesis
    by (fastforce simp: MaxFileSize_def NumDirect_def geometry)
qed

end
